(* ===== verification/Prelude.thy ===== *)
theory Prelude
  imports Main "HOL-Library.Word" "HOL-Library.Multiset" "HOL-Library.AList"
begin

text \<open>
  Shared vocabulary of the development: the type synonyms that name the machine types of the
  C++ sources, the collections of hints that the component theories fill, and the generic
  facts on lists, maps, indices modulo a power of two and association lists that several
  components need.
\<close>

unbundle bit_operations_syntax

section \<open>Types of the C++ sources\<close>

text \<open>
  A \<^verbatim>\<open>std::string\<close> is a sequence of bytes, so it is a HOL \<open>string\<close> (a list of 8-bit
  characters). \<^verbatim>\<open>uint32_t\<close> and \<^verbatim>\<open>uint64_t\<close> are words of that width. \<^verbatim>\<open>Ms\<close>
  (\<^verbatim>\<open>int64_t\<close> milliseconds) and \<^verbatim>\<open>int\<close> are \<open>int\<close>; \<^verbatim>\<open>size_t\<close> values that
  count things held in memory are \<open>nat\<close>.
\<close>

type_synonym u8 = "8 word"
type_synonym u32 = "32 word"
type_synonym u64 = "64 word"
type_synonym millis = int

text \<open>The range of \<^verbatim>\<open>int64_t\<close>: a signed sum or product outside it is undefined.\<close>

definition int64 :: "int \<Rightarrow> bool" where
  "int64 i \<longleftrightarrow> - (2 ^ 63) \<le> i \<and> i < 2 ^ 63"

named_theorems narrow \<open>integer conversions that keep the value\<close>

section \<open>Words as indices\<close>

text \<open>
  The hash map reduces an index with \<open>AND mask\<close> where the mask is one less than a power of
  two. On natural numbers that is \<open>mod\<close>.
\<close>

lemma unat_and_mask_mod:
  fixes x :: "'a::len word"
  assumes "k \<le> LENGTH('a)"
  shows "unat (x AND of_nat (2 ^ k - 1)) = unat x mod 2 ^ k"
proof -
  have "(of_nat (2 ^ k - 1) :: 'a word) = mask k"
    by (simp add: mask_eq_decr_exp of_nat_diff)
  then have "unat (x AND of_nat (2 ^ k - 1)) = unat (take_bit k x)"
    by (simp add: take_bit_eq_mask)
  also have "\<dots> = take_bit k (unat x)"
    by (rule unsigned_take_bit_eq)
  finally show ?thesis
    by (simp only: take_bit_eq_mod)
qed

lemma unat_Suc_and_mask_mod:
  fixes x :: "'a::len word"
  assumes "k \<le> LENGTH('a)"
  shows "unat ((x + 1) AND of_nat (2 ^ k - 1)) = Suc (unat x) mod 2 ^ k"
proof -
  have "(2::nat) ^ k dvd 2 ^ LENGTH('a)"
    using assms by (simp add: le_imp_power_dvd)
  then have "unat (x + 1) mod 2 ^ k = Suc (unat x) mod 2 ^ k"
    by (simp add: unat_word_ariths mod_mod_cancel)
  then show ?thesis
    using unat_and_mask_mod [OF assms, of "x + 1"] by simp
qed

section \<open>Circular positions\<close>

lemma mod_Suc_shift:
  "(Suc i mod n + t) mod n = (i + Suc t) mod (n::nat)"
  by (metis add_Suc_right add_Suc mod_add_left_eq)

lemma circular_reach:
  assumes "i < n" "j < (n::nat)"
  shows "\<exists>t < n. (i + t) mod n = j"
proof (cases "i \<le> j")
  case True
  then show ?thesis using assms by (intro exI [of _ "j - i"]) auto
next
  case False
  then show ?thesis using assms by (intro exI [of _ "n - i + j"]) (auto simp: mod_if)
qed

section \<open>Lists and association lists\<close>

lemma set_nth_conv: "x \<in> set xs \<longleftrightarrow> (\<exists>i < length xs. xs ! i = x)"
  by (auto simp: in_set_conv_nth)

lemma distinct_keys_mset:
  "mset xs = mset ys \<Longrightarrow> distinct (map fst xs) = distinct (map fst ys)"
  by (metis mset_eq_imp_distinct_iff mset_map)

lemma map_of_mset_eq:
  assumes "mset xs = mset ys" "distinct (map fst xs)"
  shows "map_of xs = map_of ys"
proof
  fix k
  have "distinct (map fst ys)" "set xs = set ys"
    using assms distinct_keys_mset [OF assms(1)] mset_eq_setD [OF assms(1)] by auto
  then show "map_of xs k = map_of ys k"
    using assms(2) by (metis map_of_eq_Some_iff not_Some_eq)
qed

lemma remove_result:
  assumes "mset ys = {#(key, v0)#} + mset xs" "distinct (map fst ys)"
  shows "map_of xs = (map_of ys)(key := None)" "distinct (map fst xs)"
proof -
  have m: "mset ys = mset ((key, v0) # xs)" using assms(1) by simp
  have d: "distinct (map fst ((key, v0) # xs))"
    using distinct_keys_mset [OF m] assms(2) by simp
  then show "distinct (map fst xs)" by simp
  show "map_of xs = (map_of ys)(key := None)"
    using map_of_mset_eq [OF m assms(2)] d by (auto simp: map_of_eq_None_iff)
qed

lemma replace_result:
  assumes "mset xs + {#(key, v0)#} = mset ys + {#(key, v)#}" "(key, v0) \<in> set ys"
    "distinct (map fst xs)" "distinct (map fst ys)"
  shows "map_of xs = (map_of ys)(key \<mapsto> v)"
proof -
  obtain ys1 ys2 where ys: "ys = ys1 @ (key, v0) # ys2"
    using assms(2) by (auto simp: in_set_conv_decomp)
  then have "mset xs = mset (ys1 @ (key, v) # ys2)"
    using assms(1) by simp
  from map_of_mset_eq [OF this assms(3)] show ?thesis
    using ys assms(4) by (auto simp: map_add_def fun_eq_iff split: option.splits
        dest: map_of_SomeD intro: rev_image_eqI)
qed

lemma mset_replace_by_last:
  assumes "i < length xs - 1"
  shows "mset xs = {#xs ! i#} + mset (butlast (xs[i := last xs]))"
proof -
  obtain ys z where xs: "xs = ys @ [z]"
    using assms by (cases xs rule: rev_cases) auto
  then have i: "i < length ys" using assms by simp
  then have "mset (ys[i := z]) + {#ys ! i#} = mset ys + {#z#}"
    by (simp add: mset_update)
  then show ?thesis
    using i by (simp add: xs nth_append butlast_append list_update_append)
qed

section \<open>Running operations, and refinement between two machines\<close>

text \<open>
  A component is a step function from a state and an operation to a result and a state, in the
  option type because a loop of the code might not return. \<open>run_ops\<close> runs a list of operations;
  \<open>run_spec\<close> runs them on an abstract machine, which always answers.
\<close>

fun run_ops :: "('s \<Rightarrow> 'o \<Rightarrow> ('r \<times> 's) option) \<Rightarrow> 's \<Rightarrow> 'o list \<Rightarrow> ('r list \<times> 's) option" where
  "run_ops step s [] = Some ([], s)"
| "run_ops step s (x # xs) =
     (case step s x of
        None \<Rightarrow> None
      | Some (r, s') \<Rightarrow>
          (case run_ops step s' xs of None \<Rightarrow> None | Some (rs, t) \<Rightarrow> Some (r # rs, t)))"

fun run_spec :: "('a \<Rightarrow> 'o \<Rightarrow> 'r \<times> 'a) \<Rightarrow> 'a \<Rightarrow> 'o list \<Rightarrow> 'r list \<times> 'a" where
  "run_spec spec a [] = ([], a)"
| "run_spec spec a (x # xs) =
     (case spec a x of (r, a') \<Rightarrow> case run_spec spec a' xs of (rs, b) \<Rightarrow> (r # rs, b))"

text \<open>
  The interface of a refined component: below the bound \<open>limit\<close> on its \<open>weight\<close>, which an
  operation raises by at most one, every step returns, answers as the specification does on the
  abstract state, and keeps the invariant.
\<close>

locale refinement =
  fixes step :: "'s \<Rightarrow> 'o \<Rightarrow> ('r \<times> 's) option"
    and spec :: "'a \<Rightarrow> 'o \<Rightarrow> 'r \<times> 'a"
    and valid :: "'o \<Rightarrow> bool"
    and abst :: "'s \<Rightarrow> 'a"
    and invar :: "'s \<Rightarrow> bool"
    and weight :: "'s \<Rightarrow> nat"
    and limit :: nat
  assumes simulates: "invar s \<Longrightarrow> weight s < limit \<Longrightarrow> valid x \<Longrightarrow>
      \<exists>r s'. step s x = Some (r, s') \<and> spec (abst s) x = (r, abst s') \<and> invar s'
             \<and> weight s' \<le> weight s + 1"
begin

lemma run_refines:
  assumes "invar s" "weight s + length xs \<le> limit" "\<forall>x \<in> set xs. valid x"
  shows "\<exists>rs s'. run_ops step s xs = Some (rs, s') \<and> run_spec spec (abst s) xs = (rs, abst s') \<and>
    invar s' \<and> weight s' \<le> weight s + length xs"
  using assms
proof (induction xs arbitrary: s)
  case (Cons x xs)
  then obtain r s' where step: "step s x = Some (r, s')" "spec (abst s) x = (r, abst s')"
    "invar s'" "weight s' \<le> weight s + 1"
    using simulates [of s x] by auto
  with Cons.IH [of s'] Cons.prems(2,3) show ?case by fastforce
qed simp

end

text \<open>
  The interface of a component that follows an abstract machine through a relation: every operation
  keeps the relation, hence so does every sequence of operations.
\<close>

locale simulation =
  fixes step :: "'s \<Rightarrow> 'o \<Rightarrow> 's"
    and spec :: "'a \<Rightarrow> 'o \<Rightarrow> 'a"
    and related :: "'s \<Rightarrow> 'a \<Rightarrow> bool"
  assumes follows: "related s a \<Longrightarrow> related (step s x) (spec a x)"
begin

lemma runs_follow: "related s a \<Longrightarrow> related (foldl step s xs) (foldl spec a xs)"
  by (induction xs arbitrary: s a) (simp_all add: follows)

end

text \<open>
  The interface of a component that answers as an abstract machine does, through a relation, as long as
  each operation is admissible in the abstract state it meets.
\<close>

fun admissible :: "('a \<Rightarrow> 'o \<Rightarrow> 'r \<times> 'a) \<Rightarrow> ('a \<Rightarrow> 'o \<Rightarrow> bool) \<Rightarrow> 'a \<Rightarrow> 'o list \<Rightarrow> bool" where
  "admissible spec guard a [] \<longleftrightarrow> True"
| "admissible spec guard a (x # xs) \<longleftrightarrow> guard a x \<and> admissible spec guard (snd (spec a x)) xs"

locale guarded =
  fixes step :: "'s \<Rightarrow> 'o \<Rightarrow> ('r \<times> 's) option"
    and spec :: "'a \<Rightarrow> 'o \<Rightarrow> 'r \<times> 'a"
    and related :: "'s \<Rightarrow> 'a \<Rightarrow> bool"
    and guard :: "'a \<Rightarrow> 'o \<Rightarrow> bool"
  assumes guarded_step: "related s a \<Longrightarrow> guard a x \<Longrightarrow>
    \<exists>s'. step s x = Some (fst (spec a x), s') \<and> related s' (snd (spec a x))"
begin

lemma runs_guarded:
  assumes "related s a" "admissible spec guard a xs"
  shows "\<exists>s'. run_ops step s xs = Some (fst (run_spec spec a xs), s') \<and> related s' (snd (run_spec spec a xs))"
  using assms
proof (induction xs arbitrary: s a)
  case (Cons x xs)
  then obtain s1 where "step s x = Some (fst (spec a x), s1)" "related s1 (snd (spec a x))"
    using guarded_step [of s a x] by auto
  moreover from this obtain s2 where "run_ops step s1 xs = Some (fst (run_spec spec (snd (spec a x)) xs), s2)"
    "related s2 (snd (run_spec spec (snd (spec a x)) xs))"
    using Cons.IH [of s1 "snd (spec a x)"] Cons.prems(2) by auto
  ultimately show ?case
    by (cases "spec a x"; cases "run_spec spec (snd (spec a x)) xs") simp
qed simp

end

text \<open>A component whose operations are admissible in every state: the guard looks at the operation only.\<close>

locale answering =
  fixes step :: "'s \<Rightarrow> 'o \<Rightarrow> ('r \<times> 's) option"
    and spec :: "'a \<Rightarrow> 'o \<Rightarrow> 'r \<times> 'a"
    and related :: "'s \<Rightarrow> 'a \<Rightarrow> bool"
    and valid :: "'o \<Rightarrow> bool"
  assumes answers: "related s a \<Longrightarrow> valid x \<Longrightarrow> \<exists>s'. step s x = Some (fst (spec a x), s') \<and> related s' (snd (spec a x))"

sublocale answering \<subseteq> guarded step spec related "\<lambda>_. valid"
  by unfold_locales (rule answers)

lemma admissible_static: "\<forall>x \<in> set xs. valid x \<Longrightarrow> admissible spec (\<lambda>_. valid) a xs"
  by (induction xs arbitrary: a) simp_all

context answering
begin

lemma runs_answer:
  assumes "related s a" "\<forall>x \<in> set xs. valid x"
  shows "\<exists>s'. run_ops step s xs = Some (fst (run_spec spec a xs), s') \<and> related s' (snd (run_spec spec a xs))"
  by (rule runs_guarded [OF assms(1) admissible_static [OF assms(2)]])

end

end
