(* ===== verification/Cxx_Float.thy ===== *)
theory Cxx_Float
  imports Prelude "HOL-Library.Log_Nat"
begin

text \<open>
  IEEE 754 binary32 rounding as the C++ sources use it: the load factor test of the hash map
  compares a \<^verbatim>\<open>size_t\<close> converted to \<^verbatim>\<open>float\<close> with a product of floats, and the
  weighted path search adds \<^verbatim>\<open>float\<close> costs. Both round a magnitude to 24 significant bits,
  to nearest, ties to even. The theory defines that rounding on natural numbers and shows that it
  is monotone and exact on what fits.
\<close>

section \<open>Rounding a magnitude to 24 significant bits\<close>

definition f32_exp :: "nat \<Rightarrow> nat" where
  "f32_exp n = floorlog 2 n - 24"

definition half_even :: "nat \<Rightarrow> nat \<Rightarrow> nat" where
  "half_even n d =
     (let q = n div d; r = n mod d in
      if 2 * r < d then q
      else if d < 2 * r then q + 1
      else if even q then q else q + 1)"

definition f32_round :: "nat \<Rightarrow> nat" where
  "f32_round n = half_even n (2 ^ f32_exp n) * 2 ^ f32_exp n"

lemma half_even_lower: "n div d \<le> half_even n d"
  by (simp add: half_even_def Let_def)

lemma half_even_upper: "half_even n d \<le> n div d + 1"
  by (simp add: half_even_def Let_def)

lemma half_even_one [simp]: "half_even n (Suc 0) = n"
  by (simp add: half_even_def)

lemma half_even_exact: "0 < d \<Longrightarrow> half_even (q * d) d = q"
  by (simp add: half_even_def)

lemma half_even_mono:
  assumes "m \<le> n"
  shows "half_even m d \<le> half_even n d"
proof (cases "m div d < n div d")
  case True
  then show ?thesis
    using half_even_upper [of m d] half_even_lower [of n d] by linarith
next
  case False
  then have "m div d = n div d"
    using div_le_mono [OF assms, of d] by simp
  then have "m mod d \<le> n mod d"
    by (metis assms add_le_cancel_left div_mult_mod_eq)
  with \<open>m div d = n div d\<close> show ?thesis
    by (auto simp: half_even_def Let_def)
qed

lemma f32_round_small: "n < 2 ^ 24 \<Longrightarrow> f32_round n = n"
proof -
  assume "n < 2 ^ 24"
  then have "floorlog 2 n \<le> 24"
    by (simp add: floorlog_le_iff)
  then show ?thesis
    by (simp add: f32_round_def f32_exp_def)
qed

lemma floorlog_bounds:
  assumes "0 < n"
  shows "2 ^ (floorlog 2 n - 1) \<le> n" "n < 2 ^ floorlog 2 n"
  using assms floorlog_bounds [of n 2] by auto

lemma f32_round_window:
  assumes "2 ^ 24 \<le> n"
  shows "2 ^ (floorlog 2 n - 1) \<le> f32_round n" "f32_round n \<le> 2 ^ floorlog 2 n"
proof -
  let ?L = "floorlog 2 n" and ?e = "f32_exp n"
  have n: "2 ^ (?L - 1) \<le> n" "n < 2 ^ ?L"
    using assms floorlog_bounds [of n] by auto
  have "\<not> ?L \<le> 24"
    using assms by (simp add: floorlog_le_iff)
  then have L: "?L - 1 = 23 + ?e" "?L = 24 + ?e"
    by (simp_all add: f32_exp_def)
  have "2 ^ 23 * 2 ^ ?e \<le> n"
    using n(1) L(1) by (simp add: power_add)
  then have "2 ^ 23 \<le> n div 2 ^ ?e"
    by (simp add: less_eq_div_iff_mult_less_eq)
  then have "2 ^ 23 \<le> half_even n (2 ^ ?e)"
    using half_even_lower [of n "2 ^ ?e"] by linarith
  then have "2 ^ 23 * 2 ^ ?e \<le> f32_round n"
    by (simp add: f32_round_def)
  then show "2 ^ (?L - 1) \<le> f32_round n"
    using L(1) by (simp add: power_add)
  have "n < 2 ^ 24 * 2 ^ ?e"
    using n(2) L(2) by (simp add: power_add)
  then have "n div 2 ^ ?e < 2 ^ 24"
    by (simp add: less_mult_imp_div_less)
  then have "half_even n (2 ^ ?e) \<le> 2 ^ 24"
    using half_even_upper [of n "2 ^ ?e"] by linarith
  then have "f32_round n \<le> 2 ^ 24 * 2 ^ ?e"
    by (simp add: f32_round_def)
  then show "f32_round n \<le> 2 ^ ?L"
    using L(2) by (simp add: power_add)
qed

lemma f32_round_mono:
  assumes "m \<le> n"
  shows "f32_round m \<le> f32_round n"
proof (cases "f32_exp m = f32_exp n")
  case True
  then show ?thesis
    using half_even_mono [OF assms] by (simp add: f32_round_def)
next
  case False
  have "floorlog 2 m \<le> floorlog 2 n"
    using assms by (rule floorlog_mono)
  with False have less: "floorlog 2 m < floorlog 2 n" and "24 < floorlog 2 n"
    by (auto simp: f32_exp_def)
  then have "2 ^ 24 \<le> n"
    using floorlog_le_iff [of 2 n 24] by auto
  have "f32_round m \<le> 2 ^ floorlog 2 m"
  proof (cases "2 ^ 24 \<le> m")
    case True
    then show ?thesis by (rule f32_round_window)
  next
    case False
    then show ?thesis
      using floorlog_bounds(2) [of m] by (cases "m = 0") (auto simp: f32_round_small)
  qed
  also have "\<dots> \<le> 2 ^ (floorlog 2 n - 1)"
    using less by (simp add: power_increasing)
  also have "\<dots> \<le> f32_round n"
    using \<open>2 ^ 24 \<le> n\<close> by (rule f32_round_window)
  finally show ?thesis .
qed

lemma f32_round_power2: "f32_round (2 ^ k) = 2 ^ k"
proof (cases "k < 24")
  case True
  then have "(2::nat) ^ k < 2 ^ 24"
    by (intro power_strict_increasing) auto
  then show ?thesis by (rule f32_round_small)
next
  case False
  have "floorlog 2 (2 ^ k) = Suc k"
    using floorlog_power [of 1 2 k] by (simp add: floorlog_def [of 2 "Suc 0"])
  then have e: "f32_exp (2 ^ k) = k - 23"
    by (simp add: f32_exp_def)
  have "(2::nat) ^ k = 2 ^ 23 * 2 ^ (k - 23)"
    using False by (simp only: power_add [symmetric]) simp
  then have "half_even (2 ^ k) (2 ^ (k - 23)) = 2 ^ 23"
    by (simp only: half_even_exact zero_less_power zero_less_numeral)
  then show ?thesis
    unfolding f32_round_def e by (simp only: \<open>2 ^ k = 2 ^ 23 * 2 ^ (k - 23)\<close>)
qed

text \<open>A magnitude of at least \<open>2 ^ k\<close> rounds to at least \<open>2 ^ k\<close>.\<close>

lemma f32_round_ge_power2: "2 ^ k \<le> n \<Longrightarrow> 2 ^ k \<le> f32_round n"
  using f32_round_mono [of "2 ^ k" n] by (simp add: f32_round_power2)

end
