(* ===== verification/F32.thy ===== *)
theory F32
  imports Cxx_Float
begin

text \<open>
  The \<^verbatim>\<open>float\<close> values of edge weights and path costs. A finite value is a sign and a
  magnitude in units of \<open>2 ^ -149\<close>, the least positive binary32 number, so that a sum is exact before
  it is rounded; magnitudes from \<open>2 ^ 277\<close> units on overflow to infinity. Comparisons follow IEEE 754:
  the two zeros are equal and NaN compares false.
\<close>

section \<open>Values\<close>

datatype f32 = F32_Fin bool nat | F32_Inf bool | F32_NaN

definition f32_unit :: nat where
  "f32_unit = 2 ^ 149"

definition f32_zero :: f32 where
  "f32_zero = F32_Fin False 0"

definition f32_one :: f32 where
  "f32_one = F32_Fin False f32_unit"

definition f32_infinity :: f32 where
  "f32_infinity = F32_Inf False"

definition f32_pack :: "bool \<Rightarrow> nat \<Rightarrow> f32" where
  "f32_pack s m = (let r = f32_round m in if r < 2 ^ 277 then F32_Fin s r else F32_Inf s)"

fun f32_add :: "f32 \<Rightarrow> f32 \<Rightarrow> f32" where
  "f32_add (F32_Fin s a) (F32_Fin t b) =
     (if s = t then f32_pack s (a + b)
      else if a = b then F32_Fin False 0
      else if b < a then f32_pack s (a - b)
      else f32_pack t (b - a))"
| "f32_add (F32_Inf s) (F32_Inf t) = (if s = t then F32_Inf s else F32_NaN)"
| "f32_add (F32_Inf s) (F32_Fin t b) = F32_Inf s"
| "f32_add (F32_Fin s a) (F32_Inf t) = F32_Inf t"
| "f32_add _ _ = F32_NaN"

definition signed_mag :: "bool \<Rightarrow> nat \<Rightarrow> int" where
  "signed_mag s m = (if s then - int m else int m)"

fun f32_less :: "f32 \<Rightarrow> f32 \<Rightarrow> bool" where
  "f32_less (F32_Fin s a) (F32_Fin t b) \<longleftrightarrow> signed_mag s a < signed_mag t b"
| "f32_less (F32_Inf s) (F32_Inf t) \<longleftrightarrow> s \<and> \<not> t"
| "f32_less (F32_Inf s) (F32_Fin t b) \<longleftrightarrow> s"
| "f32_less (F32_Fin s a) (F32_Inf t) \<longleftrightarrow> \<not> t"
| "f32_less _ _ \<longleftrightarrow> False"

fun f32_eq :: "f32 \<Rightarrow> f32 \<Rightarrow> bool" where
  "f32_eq (F32_Fin s a) (F32_Fin t b) \<longleftrightarrow> signed_mag s a = signed_mag t b"
| "f32_eq (F32_Inf s) (F32_Inf t) \<longleftrightarrow> s = t"
| "f32_eq _ _ \<longleftrightarrow> False"

text \<open>The values that a \<^verbatim>\<open>float\<close> can hold.\<close>

fun f32_wf :: "f32 \<Rightarrow> bool" where
  "f32_wf (F32_Fin s m) \<longleftrightarrow> f32_round m = m \<and> m < 2 ^ 277"
| "f32_wf _ \<longleftrightarrow> True"

section \<open>Rounding is idempotent\<close>

lemma f32_round_scaled:
  assumes "2 ^ 23 \<le> q" "q < 2 ^ 24"
  shows "f32_round (q * 2 ^ e) = q * 2 ^ e"
proof -
  have "Suc 23 \<le> floorlog 2 q" "floorlog 2 q \<le> 24"
    using assms by (intro floorlog_ge_SucI floorlog_leI; simp)+
  then have "floorlog 2 (q * 2 ^ e) = 24 + e"
    using assms by simp
  then have "f32_exp (q * 2 ^ e) = e"
    by (simp add: f32_exp_def)
  then show ?thesis
    by (simp add: f32_round_def half_even_exact)
qed

lemma f32_round_idem: "f32_round (f32_round n) = f32_round n"
proof (cases "n < 2 ^ 24")
  case True
  then show ?thesis by (simp add: f32_round_small)
next
  case False
  define q where "q = half_even n (2 ^ f32_exp n)"
  have r: "f32_round n = q * 2 ^ f32_exp n"
    by (simp add: f32_round_def q_def)
  have n: "2 ^ 24 \<le> n" using False by simp
  have fl: "25 \<le> floorlog 2 n"
  proof -
    have "24 < floorlog 2 n"
    proof (rule ccontr)
      assume "\<not> 24 < floorlog 2 n"
      then have "(2::nat) ^ floorlog 2 n \<le> 2 ^ 24"
        by (intro power_increasing) simp_all
      then show False
        using floorlog_bounds(2) [of n] n by simp
    qed
    then show ?thesis by simp
  qed
  then have e: "floorlog 2 n = 24 + f32_exp n"
    by (simp add: f32_exp_def)
  have "2 ^ 23 * 2 ^ f32_exp n \<le> q * 2 ^ f32_exp n"
    using f32_round_window(1) [OF n] by (simp only: r e power_add [symmetric]) simp
  then have q1: "2 ^ 23 \<le> q" by (simp only: mult_le_cancel2) simp
  have "q * 2 ^ f32_exp n \<le> 2 ^ 24 * 2 ^ f32_exp n"
    using f32_round_window(2) [OF n] by (simp only: r e power_add)
  then have "q \<le> 2 ^ 24" by simp
  then show ?thesis
    using q1 f32_round_scaled [of q "f32_exp n"] f32_round_power2 [of "24 + f32_exp n"]
    by (cases "q = 2 ^ 24") (simp_all add: r power_add)
qed

lemma f32_pack_wf: "f32_wf (f32_pack s m)"
  by (simp add: f32_pack_def Let_def f32_round_idem)

lemma f32_add_wf: "f32_wf a \<Longrightarrow> f32_wf b \<Longrightarrow> f32_wf (f32_add a b)"
proof (induction a b rule: f32_add.induct)
  case (1 s a t b)
  then show ?case by (simp add: f32_pack_wf f32_round_small)
qed simp_all

section \<open>Costs\<close>

text \<open>
  The costs of paths with non-negative weights are ordered by their magnitude, infinity last. On them
  addition is monotone in its first argument and never lowers it.
\<close>

fun cost_ok :: "f32 \<Rightarrow> bool" where
  "cost_ok (F32_Fin s m) \<longleftrightarrow> (\<not> s \<or> m = 0) \<and> f32_round m = m \<and> m < 2 ^ 277"
| "cost_ok (F32_Inf s) \<longleftrightarrow> \<not> s"
| "cost_ok F32_NaN \<longleftrightarrow> False"

fun cost_mag :: "f32 \<Rightarrow> nat" where
  "cost_mag (F32_Fin s m) = m"
| "cost_mag _ = 2 ^ 277"

lemma cost_less: "cost_ok a \<Longrightarrow> cost_ok b \<Longrightarrow> f32_less a b \<longleftrightarrow> cost_mag a < cost_mag b"
  by (cases a; cases b) (auto simp: signed_mag_def)

lemma cost_add_ok: "cost_ok a \<Longrightarrow> cost_ok b \<Longrightarrow> cost_ok (f32_add a b)"
  by (cases a; cases b) (auto simp: f32_pack_def Let_def f32_round_idem f32_round_small)

lemma cost_add_mag:
  assumes "cost_ok a" "cost_ok b"
  shows "cost_mag (f32_add a b) =
    (if cost_mag a = 2 ^ 277 \<or> cost_mag b = 2 ^ 277 then 2 ^ 277
     else min (2 ^ 277) (f32_round (cost_mag a + cost_mag b)))"
  using assms by (cases a; cases b) (auto simp: f32_pack_def Let_def f32_round_small min_def)

lemma cost_mag_le: "cost_ok a \<Longrightarrow> cost_mag a \<le> 2 ^ 277"
  by (cases a) auto

lemma cost_add_mono:
  assumes "cost_ok a" "cost_ok b" "cost_ok w" "cost_mag a \<le> cost_mag b"
  shows "cost_mag (f32_add a w) \<le> cost_mag (f32_add b w)"
  using assms f32_round_mono [of "cost_mag a + cost_mag w" "cost_mag b + cost_mag w"] cost_mag_le [of b]
  by (auto simp: cost_add_mag min_def)

lemma cost_add_inflates:
  assumes "cost_ok a" "cost_ok w"
  shows "cost_mag a \<le> cost_mag (f32_add a w)"
proof -
  have "f32_round (cost_mag a) = cost_mag a"
    using assms(1) f32_round_power2 [of 277] by (cases a) auto
  then show ?thesis
    using assms f32_round_mono [of "cost_mag a" "cost_mag a + cost_mag w"] cost_mag_le [of a]
    by (auto simp: cost_add_mag)
qed

lemma cost_zero [simp]: "cost_ok f32_zero" "cost_mag f32_zero = 0"
  by (simp_all add: f32_zero_def f32_round_small)

lemma cost_one [simp]: "cost_ok f32_one"
  by (simp add: f32_one_def f32_unit_def f32_round_power2 del: power_numeral)

end
