(* ===== verification/Dynamic_Graph.thy ===== *)
theory Dynamic_Graph
  imports F32
begin

text \<open>
  The mutable graph of \<^verbatim>\<open>src/graph/dynamic_graph.hpp\<close> and
  \<^verbatim>\<open>src/graph/dynamic_graph.cpp\<close> (class \<^verbatim>\<open>DynamicGraph\<close>). The three
  \<^verbatim>\<open>unordered_map\<close>s are partial functions; indexing one with \<^verbatim>\<open>operator[]\<close>
  creates an empty entry, which \<open>entry\<close> makes explicit. Where the code iterates over a map, the
  order of its keys is an argument of the definition that models it.
\<close>

section \<open>State\<close>

record edge =
  ed_to :: int
  ed_rel :: string
  ed_weight :: f32

text \<open>The label is a pointer into the string pool; \<^const>\<open>None\<close> is the null pointer.\<close>

record node_meta =
  nm_label :: "u64 option"
  nm_props :: string

record dgraph =
  dg_meta :: "int \<rightharpoonup> node_meta"
  dg_adj :: "int \<rightharpoonup> edge list"
  dg_radj :: "int \<rightharpoonup> edge list"
  dg_edge_count :: int
  dg_max_id :: int
  dg_dirty :: bool

definition dg_new :: dgraph where
  "dg_new = \<lparr>dg_meta = Map.empty, dg_adj = Map.empty, dg_radj = Map.empty,
     dg_edge_count = 0, dg_max_id = -1, dg_dirty = False\<rparr>"

section \<open>Operations\<close>

definition entry :: "(int \<rightharpoonup> edge list) \<Rightarrow> int \<Rightarrow> edge list" where
  "entry m nid = (case m nid of None \<Rightarrow> [] | Some es \<Rightarrow> es)"

definition ensure :: "(int \<rightharpoonup> edge list) \<Rightarrow> int \<Rightarrow> int \<rightharpoonup> edge list" where
  "ensure m nid = (if m nid = None then m(nid \<mapsto> []) else m)"

definition dg_add_node :: "dgraph \<Rightarrow> int \<Rightarrow> u64 option \<Rightarrow> string \<Rightarrow> dgraph" where
  "dg_add_node g nid label props = g\<lparr>
     dg_meta := (dg_meta g)(nid \<mapsto> \<lparr>nm_label = label, nm_props = props\<rparr>),
     dg_max_id := (if dg_max_id g < nid then nid else dg_max_id g),
     dg_adj := ensure (dg_adj g) nid,
     dg_radj := ensure (dg_radj g) nid,
     dg_dirty := True\<rparr>"

text \<open>\<^verbatim>\<open>remove_if\<close> and \<^verbatim>\<open>erase\<close> of the edges of a list that lead to \<open>nid\<close>.\<close>

definition strip_to :: "int \<Rightarrow> edge list \<Rightarrow> edge list" where
  "strip_to nid es = filter (\<lambda>e. ed_to e \<noteq> nid) es"

text \<open>
  One of the two loops of \<^verbatim>\<open>remove_node\<close>: for every edge of the node in one direction, the
  list of the other end loses its edges to the node and the edge counter drops by one.
\<close>

fun unlink :: "int \<Rightarrow> edge list \<Rightarrow> (int \<rightharpoonup> edge list) \<times> int \<Rightarrow> (int \<rightharpoonup> edge list) \<times> int" where
  "unlink nid [] (m, n) = (m, n)"
| "unlink nid (e # es) (m, n) = unlink nid es (m(ed_to e \<mapsto> strip_to nid (entry m (ed_to e))), n - 1)"

definition remove_out :: "dgraph \<Rightarrow> int \<Rightarrow> dgraph" where
  "remove_out g nid =
     (case dg_adj g nid of
        None \<Rightarrow> g
      | Some es \<Rightarrow> (case unlink nid es (dg_radj g, dg_edge_count g) of
          (m, n) \<Rightarrow> g\<lparr>dg_radj := m, dg_edge_count := n, dg_adj := (dg_adj g)(nid := None)\<rparr>))"

definition remove_in :: "dgraph \<Rightarrow> int \<Rightarrow> dgraph" where
  "remove_in g nid =
     (case dg_radj g nid of
        None \<Rightarrow> g
      | Some es \<Rightarrow> (case unlink nid es (dg_adj g, dg_edge_count g) of
          (m, n) \<Rightarrow> g\<lparr>dg_adj := m, dg_edge_count := n, dg_radj := (dg_radj g)(nid := None)\<rparr>))"

definition dg_remove_node :: "dgraph \<Rightarrow> int \<Rightarrow> dgraph" where
  "dg_remove_node g nid =
     (let g2 = remove_in (remove_out g nid) nid in
      g2\<lparr>dg_meta := (dg_meta g2)(nid := None), dg_dirty := True\<rparr>)"

definition dg_add_edge :: "dgraph \<Rightarrow> int \<Rightarrow> int \<Rightarrow> string \<Rightarrow> f32 \<Rightarrow> dgraph" where
  "dg_add_edge g from to rel weight = g\<lparr>
     dg_adj := (dg_adj g)(from \<mapsto> entry (dg_adj g) from @ [\<lparr>ed_to = to, ed_rel = rel, ed_weight = weight\<rparr>]),
     dg_radj := (dg_radj g)(to \<mapsto> entry (dg_radj g) to @ [\<lparr>ed_to = from, ed_rel = rel, ed_weight = weight\<rparr>]),
     dg_edge_count := dg_edge_count g + 1,
     dg_dirty := True\<rparr>"

text \<open>The lambda of \<^verbatim>\<open>remove_edge\<close>: the list without the matching edges, and the counter.\<close>

definition remove_from :: "edge list \<Rightarrow> int \<Rightarrow> string \<Rightarrow> int \<Rightarrow> edge list \<times> int" where
  "remove_from v target r cnt =
     (let v' = filter (\<lambda>e. \<not> (ed_to e = target \<and> ed_rel e = r)) v in
      if v' \<noteq> v then (v', cnt - 1) else (v, cnt))"

definition dg_remove_edge :: "dgraph \<Rightarrow> int \<Rightarrow> int \<Rightarrow> string \<Rightarrow> dgraph" where
  "dg_remove_edge g from to rel =
     (let (out, n1) = remove_from (entry (dg_adj g) from) to rel (dg_edge_count g);
          (inc, n2) = remove_from (entry (dg_radj g) to) from rel n1 in
      g\<lparr>dg_adj := (dg_adj g)(from \<mapsto> out), dg_radj := (dg_radj g)(to \<mapsto> inc),
        dg_edge_count := n2, dg_dirty := True\<rparr>)"

definition dg_neighbors :: "dgraph \<Rightarrow> int \<Rightarrow> edge list" where
  "dg_neighbors g nid = (case dg_adj g nid of Some es \<Rightarrow> es | None \<Rightarrow> [])"

definition dg_reverse_neighbors :: "dgraph \<Rightarrow> int \<Rightarrow> edge list" where
  "dg_reverse_neighbors g nid = (case dg_radj g nid of Some es \<Rightarrow> es | None \<Rightarrow> [])"

definition dg_node_meta :: "dgraph \<Rightarrow> int \<Rightarrow> node_meta option" where
  "dg_node_meta g nid = dg_meta g nid"

definition dg_has_node :: "dgraph \<Rightarrow> int \<Rightarrow> bool" where
  "dg_has_node g nid \<longleftrightarrow> dg_meta g nid \<noteq> None"

definition dg_has_edge :: "dgraph \<Rightarrow> int \<Rightarrow> int \<Rightarrow> bool" where
  "dg_has_edge g from to =
     (case dg_adj g from of None \<Rightarrow> False | Some es \<Rightarrow> list_ex (\<lambda>e. ed_to e = to) es)"

definition dg_node_count :: "dgraph \<Rightarrow> nat" where
  "dg_node_count g = card (dom (dg_meta g))"

definition dg_clear_dirty :: "dgraph \<Rightarrow> dgraph" where
  "dg_clear_dirty g = g\<lparr>dg_dirty := False\<rparr>"

end
