(* ===== verification/Memory.thy ===== *)
theory Memory
  imports Prelude "HOL-Library.Monad_Syntax"
begin

text \<open>
  The bump allocator of \<^verbatim>\<open>src/memory/arena.hpp\<close> and the string interning of
  \<^verbatim>\<open>src/memory/string_pool.hpp\<close>. A pointer into an arena is its offset from the start of
  the buffer, which \<^verbatim>\<open>malloc\<close> aligns for every type; sizes and offsets are 64-bit words, so
  the sums wrap as in the code.
\<close>

section \<open>Arena\<close>

record arena =
  ar_cap :: u64
  ar_used :: u64

definition arena_new :: "u64 \<Rightarrow> arena" where
  "arena_new capacity = \<lparr>ar_cap = capacity, ar_used = 0\<rparr>"

text \<open>The offset rounded up to the alignment: \<^verbatim>\<open>(used_ + align - 1) & ~(align - 1)\<close>.\<close>

definition align_up :: "u64 \<Rightarrow> u64 \<Rightarrow> u64" where
  "align_up used align = (used + align - 1) AND NOT (align - 1)"

definition arena_alloc :: "arena \<Rightarrow> u64 \<Rightarrow> u64 \<Rightarrow> u64 option \<times> arena" where
  "arena_alloc a sz align =
     (let offset = align_up (ar_used a) align in
      if ar_cap a < offset + sz then (None, a)
      else (Some offset, a\<lparr>ar_used := offset + sz\<rparr>))"

text \<open>\<open>sizeof\<close> and \<open>alignof\<close> of the element type are arguments.\<close>

definition arena_alloc_one :: "arena \<Rightarrow> u64 \<Rightarrow> u64 \<Rightarrow> u64 option \<times> arena" where
  "arena_alloc_one a size_t align_t = arena_alloc a size_t align_t"

definition arena_alloc_array :: "arena \<Rightarrow> u64 \<Rightarrow> u64 \<Rightarrow> u64 \<Rightarrow> u64 option \<times> arena" where
  "arena_alloc_array a size_t align_t n = arena_alloc a (size_t * n) align_t"

definition arena_reset :: "arena \<Rightarrow> arena" where
  "arena_reset a = a\<lparr>ar_used := 0\<rparr>"

section \<open>String pool\<close>

text \<open>
  The arena's bytes, and the table from strings to their copies. \<^verbatim>\<open>alloc\<close> is called with its
  default alignment, \<^verbatim>\<open>alignof(std::max_align_t)\<close>, which is 16 on the targets the build names.
\<close>

record string_pool =
  sp_arena :: arena
  sp_bytes :: "u64 \<Rightarrow> char"
  sp_table :: "(string \<times> u64) list"

definition pool_new :: "u64 \<Rightarrow> string_pool" where
  "pool_new arena_size = \<lparr>sp_arena = arena_new arena_size, sp_bytes = (\<lambda>_. CHR 0x00), sp_table = []\<rparr>"

definition copy_bytes :: "(u64 \<Rightarrow> char) \<Rightarrow> u64 \<Rightarrow> string \<Rightarrow> u64 \<Rightarrow> char" where
  "copy_bytes bytes p s q =
     (if p \<le> q \<and> unat q < unat p + length s then s ! (unat q - unat p) else bytes q)"

definition intern :: "string_pool \<Rightarrow> string \<Rightarrow> u64 option \<times> string_pool" where
  "intern sp s =
     (case map_of (sp_table sp) s of
        Some p \<Rightarrow> (Some p, sp)
      | None \<Rightarrow>
          (case arena_alloc (sp_arena sp) (of_nat (length s) + 1) 16 of
             (None, a) \<Rightarrow> (None, sp\<lparr>sp_arena := a\<rparr>)
           | (Some p, a) \<Rightarrow>
               (Some p, \<lparr>sp_arena = a, sp_bytes = copy_bytes (sp_bytes sp) p (s @ [CHR 0x00]),
                        sp_table = AList.update s p (sp_table sp)\<rparr>)))"

definition pool_equal :: "u64 \<Rightarrow> u64 \<Rightarrow> bool" where
  "pool_equal a b \<longleftrightarrow> a = b"

definition pool_size :: "string_pool \<Rightarrow> nat" where
  "pool_size sp = length (sp_table sp)"

text \<open>Reading a C string: the bytes up to the first NUL.\<close>

partial_function (option) read_cstr :: "(u64 \<Rightarrow> char) \<Rightarrow> u64 \<Rightarrow> string option" where
  [code]: "read_cstr bytes p =
     (if bytes p = CHR 0x00 then Some []
      else do { s \<leftarrow> read_cstr bytes (p + 1); Some (bytes p # s) })"

section \<open>Rounding up\<close>

lemma and_not_low_bits: "x AND NOT (2 ^ k - 1 :: u64) = push_bit k (drop_bit k x)"
proof -
  have "2 ^ k - 1 = (mask k :: u64)"
    by (simp add: mask_eq_exp_minus_1)
  then show ?thesis
    by (auto intro!: bit_eqI simp: bit_simps)
qed

lemma unat_less_64: "unat (x :: u64) < 2 ^ 64"
  using unsigned_less [of x, where 'a = nat] by simp

lemma unat_push_drop:
  fixes x :: u64
  shows "unat (push_bit k (drop_bit k x)) = unat x div 2 ^ k * 2 ^ k"
proof -
  have le: "unat x div 2 ^ k * 2 ^ k \<le> unat x"
    by simp
  then have "unat x div 2 ^ k * 2 ^ k < 2 ^ 64"
    using unat_less_64 [of x] by (rule le_less_trans)
  then have small: "take_bit 64 (unat x div 2 ^ k * 2 ^ k) = unat x div 2 ^ k * 2 ^ k"
    by (intro take_bit_nat_eq_self) simp
  have "unat (push_bit k (drop_bit k x)) = take_bit 64 (push_bit k (drop_bit k (unat x)))"
    using unat_less_64 [of x]
    by (simp only: unsigned_push_bit_eq unsigned_drop_bit_eq) (simp add: take_bit_nat_eq_self)
  then show ?thesis
    by (simp only: push_bit_eq_mult drop_bit_eq_div small)
qed

lemma align_up_ok:
  assumes "k \<le> 16" "unat used + 2 ^ k \<le> 2 ^ 64"
  defines "off \<equiv> align_up used (2 ^ k)"
  shows "2 ^ k dvd unat off" "unat used \<le> unat off" "unat off < unat used + 2 ^ k"
proof -
  have k: "unat (2 ^ k :: u64) = 2 ^ k"
  proof -
    have "(2::nat) ^ k \<le> 2 ^ 16"
      using assms(1) by (intro power_increasing) simp_all
    then have "take_bit 64 (2 ^ k :: nat) = 2 ^ k"
      by (intro take_bit_nat_eq_self) simp
    moreover have "unat (of_nat (2 ^ k) :: u64) = take_bit 64 (2 ^ k)"
      by (simp only: unsigned_of_nat) simp
    ultimately show ?thesis
      by (simp only: of_nat_power of_nat_numeral)
  qed
  have p: "(0::nat) < 2 ^ k" by simp
  have "used + 2 ^ k - 1 = used + (2 ^ k - 1)"
    by simp
  moreover have "unat (2 ^ k - 1 :: u64) = 2 ^ k - 1"
    using k p by (subst unat_sub) (auto simp: word_le_nat_alt)
  ultimately have s: "unat (used + 2 ^ k - 1) = unat used + (2 ^ k - 1)"
    using assms(2) p by (simp only:) (subst unat_add_lem [THEN iffD1]; simp)
  have "unat off = (unat used + (2 ^ k - 1)) div 2 ^ k * 2 ^ k"
    unfolding off_def align_up_def and_not_low_bits unat_push_drop s ..
  then have sum: "unat off + (unat used + (2 ^ k - 1)) mod 2 ^ k = unat used + (2 ^ k - 1)"
    and dvd: "2 ^ k dvd unat off"
    by (simp_all only: div_mult_mod_eq dvd_triv_right)
  have "(unat used + (2 ^ k - 1)) mod 2 ^ k < 2 ^ k" by simp
  with sum p show "unat used \<le> unat off" "unat off < unat used + 2 ^ k"
    by linarith+
  show "2 ^ k dvd unat off" by (rule dvd)
qed

section \<open>Allocation\<close>

text \<open>
  An allocation that succeeds lies in the free part of the buffer, at an aligned offset. The sizes
  are bounded so that no sum wraps.
\<close>

lemma unat_plus_small: "unat (x :: u64) + unat y < 2 ^ 64 \<Longrightarrow> unat (x + y) = unat x + unat y"
  by (simp add: unat_add_lem [THEN iffD1])

definition arena_ok :: "arena \<Rightarrow> bool" where
  "arena_ok a \<longleftrightarrow> ar_used a \<le> ar_cap a \<and> unat (ar_cap a) < 2 ^ 62"

lemma arena_alloc_ok:
  assumes "arena_ok a" "unat sz < 2 ^ 62" "k \<le> 16"
  shows "case arena_alloc a sz (2 ^ k) of
      (None, a') \<Rightarrow> a' = a \<and> unat (ar_cap a) < unat (ar_used a) + 2 ^ k + unat sz
    | (Some off, a') \<Rightarrow> arena_ok a' \<and> ar_cap a' = ar_cap a \<and> 2 ^ k dvd unat off \<and>
        unat (ar_used a) \<le> unat off \<and> unat (ar_used a') = unat off + unat sz \<and>
        unat off + unat sz \<le> unat (ar_cap a)"
proof -
  let ?off = "align_up (ar_used a) (2 ^ k)"
  have u: "unat (ar_used a) < 2 ^ 62"
    using assms(1) by (simp add: arena_ok_def word_le_nat_alt)
  have k: "(2::nat) ^ k \<le> 2 ^ 16"
    using assms(3) by (intro power_increasing) simp_all
  have off: "2 ^ k dvd unat ?off" "unat (ar_used a) \<le> unat ?off" "unat ?off < unat (ar_used a) + 2 ^ k"
    using u k assms(3) by (intro align_up_ok; simp)+
  have sum: "unat (?off + sz) = unat ?off + unat sz"
    using off(3) u k assms(2) by (intro unat_plus_small) simp
  show ?thesis
    using off assms(1) by (auto simp: arena_alloc_def Let_def word_less_nat_alt word_le_nat_alt sum arena_ok_def)
qed




section \<open>Interning\<close>

definition stored :: "string_pool \<Rightarrow> string \<Rightarrow> u64 \<Rightarrow> bool" where
  "stored sp s p \<longleftrightarrow> unat p + length s + 1 \<le> unat (ar_used (sp_arena sp)) \<and>
     (\<forall>i \<le> length s. sp_bytes sp (p + of_nat i) = (s @ [CHR 0x00]) ! i)"

definition sp_inv :: "string_pool \<Rightarrow> bool" where
  "sp_inv sp \<longleftrightarrow> arena_ok (sp_arena sp) \<and> distinct (map fst (sp_table sp)) \<and>
     distinct (map snd (sp_table sp)) \<and> (\<forall>(s, p) \<in> set (sp_table sp). stored sp s p)"

lemma pool_new_ok: "unat cap < 2 ^ 62 \<Longrightarrow> sp_inv (pool_new cap)"
  by (simp add: sp_inv_def pool_new_def arena_new_def arena_ok_def)

lemma unat_offset: "i \<le> n \<Longrightarrow> unat p + n < 2 ^ 64 \<Longrightarrow> unat (p + of_nat i :: u64) = unat p + i"
  by (subst unat_plus_small) (simp_all add: unsigned_of_nat take_bit_nat_eq_self)

lemma update_new: "k \<notin> fst ` set xs \<Longrightarrow> AList.update k v xs = xs @ [(k, v)]"
  by (induction xs) auto

lemma intern_ok:
  assumes "sp_inv sp" "length s < 2 ^ 61"
  obtains r sp' where "intern sp s = (r, sp')" "sp_inv sp'" "set (sp_table sp) \<subseteq> set (sp_table sp')"
    "\<And>p. r = Some p \<Longrightarrow> (s, p) \<in> set (sp_table sp')"
    "\<And>s' p. (s', p) \<in> set (sp_table sp') \<Longrightarrow> (s', p) \<in> set (sp_table sp) \<or> s' = s"
    "s \<in> fst ` set (sp_table sp) \<Longrightarrow> sp' = sp"
    "ar_cap (sp_arena sp') = ar_cap (sp_arena sp)"
    "r = None \<Longrightarrow> unat (ar_cap (sp_arena sp)) < unat (ar_used (sp_arena sp)) + length s + 17"
proof (cases "map_of (sp_table sp) s")
  case (Some p)
  then have "(s, p) \<in> set (sp_table sp)"
    by (rule map_of_SomeD)
  with Some assms(1) show thesis
    by (intro that [of "Some p" sp]) (auto simp: intern_def)
next
  case None
  let ?a = "sp_arena sp" and ?sz = "of_nat (length s) + 1 :: u64"
  have sz: "unat ?sz = length s + 1"
    using unat_offset [of "length s" "length s" 1] assms(2) by (simp add: add.commute)
  have inv: "arena_ok ?a" "distinct (map fst (sp_table sp))" "distinct (map snd (sp_table sp))"
    "\<And>s p. (s, p) \<in> set (sp_table sp) \<Longrightarrow> stored sp s p"
    using assms(1) by (auto simp: sp_inv_def)
  have k: "(2::u64) ^ 4 = 16" by simp
  obtain q a' where al: "arena_alloc ?a ?sz 16 = (q, a')"
    by (cases "arena_alloc ?a ?sz 16")
  note ok = arena_alloc_ok [OF inv(1), of ?sz 4, unfolded k al sz]
  show thesis
  proof (cases q)
    case q: None
    have a': "a' = ?a" "unat (ar_cap ?a) < unat (ar_used ?a) + length s + 17"
      using ok assms(2) by (simp_all add: q)
    have "intern sp s = (None, sp)"
      using None al q a' by (simp add: intern_def)
    with assms(1) a'(2) show thesis by (intro that [of None sp]) simp_all
  next
    case q: (Some p)
    have a': "arena_ok a'" "unat (ar_used ?a) \<le> unat p" "unat (ar_used a') = unat p + (length s + 1)"
      "unat p + (length s + 1) \<le> unat (ar_cap ?a)" "ar_cap a' = ar_cap ?a"
      using ok assms(2) by (simp_all add: q)
    have cap: "unat (ar_cap ?a) < 2 ^ 62"
      using inv(1) by (simp add: arena_ok_def)
    let ?sp = "\<lparr>sp_arena = a', sp_bytes = copy_bytes (sp_bytes sp) p (s @ [CHR 0x00]),
      sp_table = AList.update s p (sp_table sp)\<rparr>"
    have new: "s \<notin> fst ` set (sp_table sp)"
      using None by (simp add: map_of_eq_None_iff)
    then have tab: "AList.update s p (sp_table sp) = sp_table sp @ [(s, p)]"
      by (rule update_new)
    have stored_new: "stored ?sp s p"
      using a'(3,4) cap unat_offset [of _ "length s" p]
      by (auto simp: stored_def copy_bytes_def word_le_nat_alt)
    have stored_old: "stored ?sp s' p'" if "(s', p') \<in> set (sp_table sp)" for s' p'
    proof -
      have old: "unat p' + length s' + 1 \<le> unat (ar_used ?a)"
        "\<And>i. i \<le> length s' \<Longrightarrow> sp_bytes sp (p' + of_nat i) = (s' @ [CHR 0x00]) ! i"
        using inv(4) [OF that] by (auto simp: stored_def)
      have "\<not> p \<le> p' + of_nat i" if "i \<le> length s'" for i
        using that unat_offset [OF that, of p'] old(1) a'(2,4) cap by (simp add: word_le_nat_alt)
      then show ?thesis
        using old a' by (auto simp: stored_def copy_bytes_def)
    qed
    have "p \<notin> snd ` set (sp_table sp)"
      using inv(4) a'(2) by (fastforce simp: stored_def)
    then have "sp_inv ?sp"
      using inv(2,3) new a'(1) stored_new stored_old by (auto simp: sp_inv_def tab)
    moreover have "intern sp s = (Some p, ?sp)"
      using None al q by (simp add: intern_def)
    ultimately show thesis
      using new a'(5) by (intro that [of "Some p" ?sp]) (auto simp: tab)
  qed
qed

lemma read_cstr_stored:
  assumes "stored sp s p"
  shows "read_cstr (sp_bytes sp) p = Some (takeWhile (\<lambda>c. c \<noteq> CHR 0x00) s)"
proof -
  have "read_cstr (sp_bytes sp) (p + of_nat i) = Some (takeWhile (\<lambda>c. c \<noteq> CHR 0x00) (drop i s))"
    if "i \<le> length s" for i
    using that
  proof (induction rule: inc_induct)
    case base
    then show ?case
      using assms by (subst read_cstr.simps) (auto simp: stored_def)
  next
    case (step n)
    have byte: "sp_bytes sp (p + of_nat n) = s ! n" "p + of_nat n + 1 = p + of_nat (Suc n)"
      using assms step(2) by (auto simp: stored_def nth_append algebra_simps)
    have d: "drop n s = s ! n # drop (Suc n) s"
      using step(2) by (simp add: Cons_nth_drop_Suc)
    show ?case
      using step(3) by (subst read_cstr.simps) (simp add: byte d)
  qed
  from this [of 0] show ?thesis by simp
qed

text \<open>Interning a list of strings, one after the other.\<close>

fun intern_all :: "string_pool \<Rightarrow> string list \<Rightarrow> u64 option list \<times> string_pool" where
  "intern_all sp [] = ([], sp)"
| "intern_all sp (s # ss) =
     (case intern sp s of (r, sp') \<Rightarrow> case intern_all sp' ss of (rs, sp'') \<Rightarrow> (r # rs, sp''))"

lemma intern_all_ok:
  assumes "sp_inv sp" "\<forall>s \<in> set ss. length s < 2 ^ 61" "intern_all sp ss = (rs, sp')"
  shows "sp_inv sp' \<and> set (sp_table sp) \<subseteq> set (sp_table sp') \<and> length rs = length ss \<and>
    (\<forall>i p. i < length ss \<longrightarrow> rs ! i = Some p \<longrightarrow> (ss ! i, p) \<in> set (sp_table sp'))"
  using assms
proof (induction ss arbitrary: sp rs)
  case (Cons s ss)
  obtain r sp1 where s: "intern sp s = (r, sp1)" "sp_inv sp1" "set (sp_table sp) \<subseteq> set (sp_table sp1)"
    "\<And>p. r = Some p \<Longrightarrow> (s, p) \<in> set (sp_table sp1)"
  proof (rule intern_ok [OF Cons.prems(1)])
    show "length s < 2 ^ 61" using Cons.prems(2) by simp
  qed (rule that)
  obtain rs' where rs: "intern_all sp1 ss = (rs', sp')" "rs = r # rs'"
    using Cons.prems(3) s(1) by (auto split: prod.splits)
  have ih: "sp_inv sp'" "set (sp_table sp1) \<subseteq> set (sp_table sp')" "length rs' = length ss"
    "\<And>i p. i < length ss \<Longrightarrow> rs' ! i = Some p \<Longrightarrow> (ss ! i, p) \<in> set (sp_table sp')"
    using Cons.IH [OF s(2) _ rs(1)] Cons.prems(2) by auto
  have "((s # ss) ! i, p) \<in> set (sp_table sp')" if "i < length (s # ss)" "rs ! i = Some p" for i p
    using that ih(2,4) s(4) rs(2) by (cases i) auto
  then show ?case
    using ih(1-3) s(3) rs(2) by auto
qed simp

section \<open>Properties\<close>



text \<open>
  C30. Interned labels can be compared by pointer: among the pointers a pool returns for any sequence
  of strings, two are equal exactly when the strings are, and at the end each still points at its
  string, as a C string.
\<close>

theorem string_pool_pointers:
  assumes "sp_inv sp" "\<forall>s \<in> set ss. length s < 2 ^ 61"
    "intern_all sp ss = (rs, sp')" "i < length ss" "j < length ss" "rs ! i = Some p" "rs ! j = Some q"
  shows "(pool_equal p q \<longleftrightarrow> ss ! i = ss ! j) \<and>
    read_cstr (sp_bytes sp') p = Some (takeWhile (\<lambda>c. c \<noteq> CHR 0x00) (ss ! i))"
proof -
  note ok = intern_all_ok [OF assms(1-3)]
  then have inv: "distinct (map fst (sp_table sp'))" "distinct (map snd (sp_table sp'))"
    "\<And>s p. (s, p) \<in> set (sp_table sp') \<Longrightarrow> stored sp' s p"
    by (auto simp: sp_inv_def)
  have m: "(ss ! i, p) \<in> set (sp_table sp')" "(ss ! j, q) \<in> set (sp_table sp')"
    using ok assms(4-7) by auto
  have "p = q \<longleftrightarrow> ss ! i = ss ! j"
  proof
    assume "p = q"
    then show "ss ! i = ss ! j"
      using m inv(2) inj_onD [of snd "set (sp_table sp')" "(ss ! i, p)" "(ss ! j, q)"]
      by (simp add: distinct_map)
  next
    assume "ss ! i = ss ! j"
    then show "p = q"
      using m inv(1) by (simp add: eq_key_imp_eq_value)
  qed
  then show ?thesis
    using read_cstr_stored [OF inv(3) [OF m(1)]] by (simp add: pool_equal_def)
qed

theorem string_pool_pointers_witness:
  "\<exists>rs sp p q. intern_all (pool_new 64) [''ab'', ''c'', ''ab''] = (rs, sp) \<and> rs ! 0 = Some p \<and> rs ! 2 = Some q \<and>
     (pool_equal p q \<longleftrightarrow> [''ab'', ''c'', ''ab''] ! 0 = [''ab'', ''c'', ''ab''] ! 2)"
proof -
  let ?ss = "[''ab'', ''c'', ''ab'']"
  obtain rs sp where run: "intern_all (pool_new 64) ?ss = (rs, sp)"
    by (cases "intern_all (pool_new 64) ?ss")
  have v: "fst (intern_all (pool_new 64) ?ss) = [Some 0, Some 16, Some 0]"
    by (simp add: intern_def pool_new_def arena_new_def arena_alloc_def align_up_def Let_def)
  have "sp_inv (pool_new 64)"
    by (rule pool_new_ok) simp
  then have "pool_equal 0 0 \<longleftrightarrow> ?ss ! 0 = ?ss ! 2"
    using string_pool_pointers [OF _ _ run, of 0 2 0 0] v run by simp
  with run v show ?thesis by auto
qed

end
