(* ===== verification/BFS.thy ===== *)
theory BFS
  imports Dynamic_Graph Memory
begin

text \<open>
  The breadth first traversals of \<^verbatim>\<open>src/graph/bfs.cpp\<close> on the mutable graph. The path search
  keeps its data in raw arrays of \<open>max_node_id + 1\<close> elements, taken from the query arena when there is
  one; an access through a null pointer, outside an array or to an element never written is an explicit
  error here, where the C++ program has undefined behaviour. Loops whose end depends on the data are
  partial functions, \<^const>\<open>None\<close> meaning that they do not return.
\<close>

section \<open>Results\<close>

record path_result =
  pr_nodes :: "int list"
  pr_rels :: "string list"

definition no_path :: path_result where
  "no_path = \<lparr>pr_nodes = [], pr_rels = []\<rparr>"

definition path_empty :: "path_result \<Rightarrow> bool" where
  "path_empty p \<longleftrightarrow> pr_nodes p = []"

record hop_result =
  hr_node :: int
  hr_hop :: int
  hr_via :: int
  hr_rel :: string

text \<open>The relationship filter: \<^verbatim>\<open>rel_filter.empty() || edge.rel_type == rel_filter\<close>.\<close>

definition admits :: "string \<Rightarrow> edge \<Rightarrow> bool" where
  "admits flt e \<longleftrightarrow> flt = [] \<or> ed_rel e = flt"

section \<open>Raw arrays\<close>

datatype mem_error = NullPointer | OutOfBounds | Uninitialised

text \<open>An array is \<^const>\<open>None\<close> for the null pointer; an element is \<^const>\<open>None\<close> until it is written.\<close>

type_synonym 'a raw_array = "'a option list option"

definition arr_get :: "'a raw_array \<Rightarrow> int \<Rightarrow> mem_error + 'a" where
  "arr_get arr i =
     (case arr of
        None \<Rightarrow> Inl NullPointer
      | Some xs \<Rightarrow>
          if 0 \<le> i \<and> i < int (length xs)
          then (case xs ! nat i of None \<Rightarrow> Inl Uninitialised | Some x \<Rightarrow> Inr x)
          else Inl OutOfBounds)"

definition arr_put :: "'a raw_array \<Rightarrow> int \<Rightarrow> 'a \<Rightarrow> mem_error + 'a raw_array" where
  "arr_put arr i x =
     (case arr of
        None \<Rightarrow> Inl NullPointer
      | Some xs \<Rightarrow>
          if 0 \<le> i \<and> i < int (length xs) then Inr (Some (xs[nat i := Some x])) else Inl OutOfBounds)"

text \<open>Sequencing of steps that may fail.\<close>

fun and_then :: "'e + 'a \<Rightarrow> ('a \<Rightarrow> 'e + 'b) \<Rightarrow> 'e + 'b" where
  "and_then (Inl e) f = Inl e"
| "and_then (Inr x) f = f x"

section \<open>Shortest path\<close>

record bfs_arrays =
  ba_parent :: "int raw_array"
  ba_via :: "string raw_array"
  ba_visited :: "bool raw_array"
  ba_queue :: "int raw_array"

definition fresh_array :: "int \<Rightarrow> 'a option list" where
  "fresh_array n = replicate (nat n) None"

definition from_arena :: "u64 option \<Rightarrow> int \<Rightarrow> 'a raw_array" where
  "from_arena p n = map_option (\<lambda>_. fresh_array n) p"

text \<open>The four allocations, from the arena or from the heap; \<^verbatim>\<open>sizeof\<close> of \<^verbatim>\<open>int\<close>,
  a pointer and \<^verbatim>\<open>bool\<close> are 4, 8 and 1.\<close>

definition bfs_alloc :: "arena option \<Rightarrow> int \<Rightarrow> bfs_arrays \<times> arena option" where
  "bfs_alloc ar n =
     (case ar of
        None \<Rightarrow> (\<lparr>ba_parent = Some (fresh_array n), ba_via = Some (fresh_array n),
                  ba_visited = Some (fresh_array n), ba_queue = Some (fresh_array n)\<rparr>, None)
      | Some a0 \<Rightarrow>
          let (p, a1) = arena_alloc_array a0 4 4 (word_of_int n);
              (v, a2) = arena_alloc_array a1 8 8 (word_of_int n);
              (b, a3) = arena_alloc_array a2 1 1 (word_of_int n);
              (q, a4) = arena_alloc_array a3 4 4 (word_of_int n) in
          (\<lparr>ba_parent = from_arena p n, ba_via = from_arena v n,
             ba_visited = from_arena b n, ba_queue = from_arena q n\<rparr>, Some a4))"

text \<open>\<^verbatim>\<open>std::fill(visited, visited + max_node_id + 1, false)\<close>\<close>

definition fill_visited :: "int \<Rightarrow> bfs_arrays \<Rightarrow> mem_error + bfs_arrays" where
  "fill_visited n st =
     (case ba_visited st of
        None \<Rightarrow> if 0 < n then Inl NullPointer else Inr st
      | Some xs \<Rightarrow> Inr (st\<lparr>ba_visited := Some (map (\<lambda>_. Some False) xs)\<rparr>))"

text \<open>The loop over the edges of a node; it stops when the target is discovered.\<close>

fun path_scan ::
  "string \<Rightarrow> int \<Rightarrow> int \<Rightarrow> edge list \<Rightarrow> bfs_arrays \<Rightarrow> nat \<Rightarrow> mem_error + (bool \<times> bfs_arrays \<times> nat)" where
  "path_scan rel target node [] st tail = Inr (False, st, tail)"
| "path_scan rel target node (e # es) st tail =
     (if \<not> admits rel e then path_scan rel target node es st tail
      else and_then (arr_get (ba_visited st) (ed_to e)) (\<lambda>seen.
        if seen then path_scan rel target node es st tail
        else
          and_then (arr_put (ba_visited st) (ed_to e) True) (\<lambda>vis.
          and_then (arr_put (ba_parent st) (ed_to e) node) (\<lambda>par.
          and_then (arr_put (ba_via st) (ed_to e) (ed_rel e)) (\<lambda>via.
            let st' = st\<lparr>ba_visited := vis, ba_parent := par, ba_via := via\<rparr> in
            if ed_to e = target then Inr (True, st', tail)
            else and_then (arr_put (ba_queue st') (int tail) (ed_to e)) (\<lambda>que.
              path_scan rel target node es (st'\<lparr>ba_queue := que\<rparr>) (tail + 1)))))))"

text \<open>The loop that follows the parents from the target back to the source.\<close>

partial_function (option) walk_back ::
  "int raw_array \<Rightarrow> string raw_array \<Rightarrow> int \<Rightarrow> int list \<Rightarrow> string list \<Rightarrow>
   (mem_error + (int list \<times> string list)) option" where
  [code]: "walk_back parent via cur nodes rels =
     (if cur = -1 then Some (Inr (nodes, rels))
      else case arr_get parent cur of
        Inl e \<Rightarrow> Some (Inl e)
      | Inr p \<Rightarrow>
          if p = -1 then walk_back parent via p (nodes @ [cur]) rels
          else case arr_get via cur of
            Inl e \<Rightarrow> Some (Inl e)
          | Inr r \<Rightarrow> walk_back parent via p (nodes @ [cur]) (rels @ [r]))"

text \<open>
  The outer loop. When the target was discovered the path is not empty, as the target is an index
  of the arrays, and the loop ends.
\<close>

partial_function (option) path_loop ::
  "dgraph \<Rightarrow> string \<Rightarrow> int \<Rightarrow> bfs_arrays \<Rightarrow> nat \<Rightarrow> nat \<Rightarrow> (mem_error + path_result) option" where
  [code]: "path_loop g rel target st head tail =
     (if head < tail then
        (case arr_get (ba_queue st) (int head) of
           Inl e \<Rightarrow> Some (Inl e)
         | Inr node \<Rightarrow>
             (case path_scan rel target node (dg_neighbors g node) st tail of
                Inl e \<Rightarrow> Some (Inl e)
              | Inr (found, st', tail') \<Rightarrow>
                  if found then
                    map_option (map_sum (\<lambda>e. e) (\<lambda>(ns, rs). \<lparr>pr_nodes = rev ns, pr_rels = rev rs\<rparr>))
                      (walk_back (ba_parent st') (ba_via st') target [] [])
                  else path_loop g rel target st' (head + 1) tail'))
      else Some (Inr no_path))"

definition bfs_start :: "int \<Rightarrow> int \<Rightarrow> bfs_arrays \<Rightarrow> mem_error + bfs_arrays" where
  "bfs_start n source st =
     and_then (fill_visited n st) (\<lambda>st1.
     and_then (arr_put (ba_queue st1) 0 source) (\<lambda>que.
     and_then (arr_put (ba_visited st1) source True) (\<lambda>vis.
     and_then (arr_put (ba_parent st1) source (-1)) (\<lambda>par.
       Inr (st1\<lparr>ba_queue := que, ba_visited := vis, ba_parent := par\<rparr>)))))"

definition bfs_path ::
  "dgraph \<Rightarrow> int \<Rightarrow> int \<Rightarrow> string \<Rightarrow> arena option \<Rightarrow> (mem_error + path_result) option \<times> arena option" where
  "bfs_path g source target rel ar =
     (if source = target then (Some (Inr \<lparr>pr_nodes = [source], pr_rels = []\<rparr>), ar)
      else let n = dg_max_id g + 1; (st, ar') = bfs_alloc ar n in
        (case bfs_start n source st of
           Inl e \<Rightarrow> Some (Inl e)
         | Inr st0 \<Rightarrow> path_loop g rel target st0 0 1, ar'))"

section \<open>Neighbourhood\<close>

fun hops_scan ::
  "string \<Rightarrow> int \<Rightarrow> int \<Rightarrow> edge list \<Rightarrow> (int \<rightharpoonup> int) \<Rightarrow> (int \<times> int) list \<Rightarrow> hop_result list \<Rightarrow>
   (int \<rightharpoonup> int) \<times> (int \<times> int) list \<times> hop_result list" where
  "hops_scan rel node hop [] visited queue result = (visited, queue, result)"
| "hops_scan rel node hop (e # es) visited queue result =
     (if \<not> admits rel e then hops_scan rel node hop es visited queue result
      else if visited (ed_to e) \<noteq> None then hops_scan rel node hop es visited queue result
      else hops_scan rel node hop es (visited(ed_to e \<mapsto> hop + 1)) (queue @ [(ed_to e, hop + 1)])
        (result @ [\<lparr>hr_node = ed_to e, hr_hop = hop + 1, hr_via = node, hr_rel = ed_rel e\<rparr>]))"

partial_function (option) hops_loop ::
  "dgraph \<Rightarrow> int \<Rightarrow> string \<Rightarrow> (int \<rightharpoonup> int) \<Rightarrow> (int \<times> int) list \<Rightarrow> hop_result list \<Rightarrow> hop_result list option" where
  [code]: "hops_loop g max_hops rel visited queue result =
     (case queue of
        [] \<Rightarrow> Some result
      | (node, hop) # queue' \<Rightarrow>
          if max_hops \<le> hop then hops_loop g max_hops rel visited queue' result
          else case hops_scan rel node hop (dg_neighbors g node) visited queue' result of
            (visited', queue'', result') \<Rightarrow> hops_loop g max_hops rel visited' queue'' result')"

definition bfs_neighborhood :: "dgraph \<Rightarrow> int \<Rightarrow> int \<Rightarrow> string \<Rightarrow> hop_result list option" where
  "bfs_neighborhood g source max_hops rel = hops_loop g max_hops rel [source \<mapsto> 0] [(source, 0)] []"

section \<open>Component\<close>

text \<open>\<^verbatim>\<open>visited[e.to]\<close> on the hash map of flags is false for a key that is absent.\<close>

fun component_scan :: "edge list \<Rightarrow> (int \<Rightarrow> bool) \<Rightarrow> int list \<Rightarrow> (int \<Rightarrow> bool) \<times> int list" where
  "component_scan [] visited queue = (visited, queue)"
| "component_scan (e # es) visited queue =
     (if \<not> visited (ed_to e)
      then component_scan es (visited(ed_to e := True)) (queue @ [ed_to e])
      else component_scan es visited queue)"

partial_function (option) component_loop ::
  "dgraph \<Rightarrow> (int \<Rightarrow> bool) \<Rightarrow> int list \<Rightarrow> int list \<Rightarrow> int list option" where
  [code]: "component_loop g visited queue component =
     (case queue of
        [] \<Rightarrow> Some component
      | node # queue' \<Rightarrow>
          (case component_scan (dg_neighbors g node) visited queue' of
             (visited', queue'') \<Rightarrow> component_loop g visited' queue'' (component @ [node])))"

definition bfs_component :: "dgraph \<Rightarrow> int \<Rightarrow> int list option" where
  "bfs_component g source = component_loop g ((\<lambda>_. False)(source := True)) [source] []"

end
