(* ===== verification/Dynamic_Graph_Proofs.thy ===== *)
theory Dynamic_Graph_Proofs
  imports Dynamic_Graph
begin

text \<open>
  The mutable graph against a log of its edges: the forward and the reverse adjacency lists are the
  two projections of one list of edges in the order of their insertion.
\<close>

section \<open>The abstract graph\<close>

type_synonym log_edge = "int \<times> int \<times> string \<times> f32"

type_synonym graph_log = "(int \<rightharpoonup> node_meta) \<times> log_edge list"

definition out_edges :: "log_edge list \<Rightarrow> int \<Rightarrow> edge list" where
  "out_edges es u = [\<lparr>ed_to = t, ed_rel = r, ed_weight = w\<rparr>. (f, t, r, w) \<leftarrow> es, f = u]"

definition in_edges :: "log_edge list \<Rightarrow> int \<Rightarrow> edge list" where
  "in_edges es v = [\<lparr>ed_to = f, ed_rel = r, ed_weight = w\<rparr>. (f, t, r, w) \<leftarrow> es, t = v]"

datatype graph_op =
    GAddNode int "u64 option" string
  | GRemoveNode int
  | GAddEdge int int string f32
  | GRemoveEdge int int string

fun graph_step :: "dgraph \<Rightarrow> graph_op \<Rightarrow> dgraph" where
  "graph_step g (GAddNode n l p) = dg_add_node g n l p"
| "graph_step g (GRemoveNode n) = dg_remove_node g n"
| "graph_step g (GAddEdge f t r w) = dg_add_edge g f t r w"
| "graph_step g (GRemoveEdge f t r) = dg_remove_edge g f t r"

fun log_step :: "graph_log \<Rightarrow> graph_op \<Rightarrow> graph_log" where
  "log_step (ns, es) (GAddNode n l p) = (ns(n \<mapsto> \<lparr>nm_label = l, nm_props = p\<rparr>), es)"
| "log_step (ns, es) (GRemoveNode n) = (ns(n := None), filter (\<lambda>(f, t, _). f \<noteq> n \<and> t \<noteq> n) es)"
| "log_step (ns, es) (GAddEdge f t r w) = (ns, es @ [(f, t, r, w)])"
| "log_step (ns, es) (GRemoveEdge f t r) = (ns, filter (\<lambda>(f', t', r', _). \<not> (f' = f \<and> t' = t \<and> r' = r)) es)"

definition represents :: "dgraph \<Rightarrow> graph_log \<Rightarrow> bool" where
  "represents g a \<longleftrightarrow> dg_meta g = fst a \<and>
     (\<forall>u. dg_neighbors g u = out_edges (snd a) u) \<and>
     (\<forall>v. dg_reverse_neighbors g v = in_edges (snd a) v) \<and>
     finite (dom (dg_meta g)) \<and> finite (dom (dg_adj g)) \<and> finite (dom (dg_radj g)) \<and>
     (\<forall>n \<in> dom (dg_meta g). n \<le> dg_max_id g) \<and> -1 \<le> dg_max_id g"

section \<open>Projections of the log\<close>

lemma out_edges_simps [simp]:
  "out_edges [] u = []"
  "out_edges ((f, t, r, w) # es) u = (if f = u then [\<lparr>ed_to = t, ed_rel = r, ed_weight = w\<rparr>] else []) @ out_edges es u"
  "out_edges (es @ es') u = out_edges es u @ out_edges es' u"
  by (simp_all add: out_edges_def)

lemma in_edges_simps [simp]:
  "in_edges [] v = []"
  "in_edges ((f, t, r, w) # es) v = (if t = v then [\<lparr>ed_to = f, ed_rel = r, ed_weight = w\<rparr>] else []) @ in_edges es v"
  "in_edges (es @ es') v = in_edges es v @ in_edges es' v"
  by (simp_all add: in_edges_def)

lemma out_edges_filter_from:
  "out_edges (filter (\<lambda>(f, t, x). f \<noteq> n) es) u = (if u = n then [] else out_edges es u)"
  by (induction es) auto

lemma out_edges_filter_to: "out_edges (filter (\<lambda>(f, t, x). t \<noteq> n) es) u = strip_to n (out_edges es u)"
  by (induction es) (auto simp: strip_to_def)

lemma in_edges_filter_from: "in_edges (filter (\<lambda>(f, t, x). f \<noteq> n) es) v = strip_to n (in_edges es v)"
  by (induction es) (auto simp: strip_to_def)

lemma in_edges_filter_to:
  "in_edges (filter (\<lambda>(f, t, x). t \<noteq> n) es) v = (if v = n then [] else in_edges es v)"
  by (induction es) auto

lemma out_edges_remove:
  "out_edges (filter (\<lambda>(f', t', r', w). \<not> (f' = f \<and> t' = t \<and> r' = r)) es) u =
     (if u = f then filter (\<lambda>e. \<not> (ed_to e = t \<and> ed_rel e = r)) (out_edges es u) else out_edges es u)"
  by (induction es) auto

lemma in_edges_remove:
  "in_edges (filter (\<lambda>(f', t', r', w). \<not> (f' = f \<and> t' = t \<and> r' = r)) es) v =
     (if v = t then filter (\<lambda>e. \<not> (ed_to e = f \<and> ed_rel e = r)) (in_edges es v) else in_edges es v)"
  by (induction es) auto

lemma in_out_edges: "e \<in> set (out_edges es u) \<longleftrightarrow> (u, ed_to e, ed_rel e, ed_weight e) \<in> set es"
  by (induction es) (auto intro: edge.equality)

lemma in_in_edges: "e \<in> set (in_edges es v) \<longleftrightarrow> (ed_to e, v, ed_rel e, ed_weight e) \<in> set es"
  by (induction es) (auto intro: edge.equality)

lemma edge_both_ways: "v \<in> ed_to ` set (out_edges es u) \<longleftrightarrow> u \<in> ed_to ` set (in_edges es v)"
  by (induction es) auto

lemma strip_to_id: "n \<notin> ed_to ` set es \<Longrightarrow> strip_to n es = es"
  by (induction es) (auto simp: strip_to_def)

lemma strip_to_idem [simp]: "strip_to n (strip_to n es) = strip_to n es"
  by (simp add: strip_to_def)

lemma length_out_edges: "length (out_edges es u) + length (filter (\<lambda>(f, t, x). f \<noteq> u) es) = length es"
  by (induction es) auto

lemma length_in_edges: "length (in_edges es v) + length (filter (\<lambda>(f, t, x). t \<noteq> v) es) = length es"
  by (induction es) auto

section \<open>The loops of node removal\<close>

lemma neighbors_entry: "dg_neighbors g u = entry (dg_adj g) u" "dg_reverse_neighbors g u = entry (dg_radj g) u"
  by (simp_all add: dg_neighbors_def dg_reverse_neighbors_def entry_def split: option.splits)

lemma entry_upd [simp]: "entry (m(k \<mapsto> es)) u = (if u = k then es else entry m u)"
  by (simp add: entry_def)

lemma entry_del [simp]: "entry (m(k := None)) u = (if u = k then [] else entry m u)"
  by (simp add: entry_def)

lemma entry_ensure [simp]: "entry (ensure m k) u = entry m u"
  by (simp add: entry_def ensure_def)

lemma finite_ensure [simp]: "finite (dom (ensure m k)) = finite (dom m)"
  by (simp add: ensure_def)

lemma finite_dom_upd: "finite (dom (m(k \<mapsto> x))) = finite (dom m)"
  by simp

lemma unlink_ok:
  assumes "unlink n es (m, c) = (m', c')"
  shows "c' = c - int (length es)"
    "entry m' v = (if v \<in> ed_to ` set es then strip_to n (entry m v) else entry m v)"
    "finite (dom m) \<Longrightarrow> finite (dom m')"
proof -
  have "c' = c - int (length es) \<and>
    entry m' v = (if v \<in> ed_to ` set es then strip_to n (entry m v) else entry m v) \<and>
    (finite (dom m) \<longrightarrow> finite (dom m'))"
    using assms
  proof (induction es arbitrary: m c)
    case (Cons e es)
    let ?m = "m(ed_to e \<mapsto> strip_to n (entry m (ed_to e)))"
    have "unlink n es (?m, c - 1) = (m', c')"
      using Cons.prems by (simp only: unlink.simps)
    note ih = Cons.IH [OF this]
    have "finite (dom m) \<longrightarrow> finite (dom m')"
      using ih by (simp only: finite_dom_upd) blast
    moreover have "entry m' v = (if v \<in> ed_to ` set (e # es) then strip_to n (entry m v) else entry m v)"
      using ih by (simp only: entry_upd) simp
    ultimately show ?case
      using ih by simp
  qed simp
  then show "c' = c - int (length es)"
    "entry m' v = (if v \<in> ed_to ` set es then strip_to n (entry m v) else entry m v)"
    "finite (dom m) \<Longrightarrow> finite (dom m')"
    by blast+
qed

text \<open>Either loop, in the terms of the log.\<close>

lemma no_out_edges: "out_edges es n = [] \<Longrightarrow> filter (\<lambda>(f, t, x). f \<noteq> n) es = es"
  by (induction es) (auto split: if_splits)

lemma no_in_edges: "in_edges es n = [] \<Longrightarrow> filter (\<lambda>(f, t, x). t \<noteq> n) es = es"
  by (induction es) (auto split: if_splits)

lemma remove_out_ok:
  fixes n :: int
  assumes "represents g (ns, es)"
  shows "represents (remove_out g n) (ns, filter (\<lambda>(f, t, x). f \<noteq> n) es) \<and>
    dg_edge_count (remove_out g n) = dg_edge_count g - int (length (out_edges es n))"
proof -
  have r: "entry (dg_adj g) u = out_edges es u" "entry (dg_radj g) u = in_edges es u" for u
    using assms(1) by (simp_all add: represents_def neighbors_entry)
  show ?thesis
  proof (cases "dg_adj g n")
    case None
    then have "out_edges es n = []"
      using r(1) [of n] by (simp add: entry_def)
    with None no_out_edges [of es n] assms show ?thesis
      by (simp add: remove_out_def)
  next
    case (Some l)
    then have l: "l = out_edges es n"
      using r(1) [of n] by (simp add: entry_def)
    obtain m c where u: "unlink n l (dg_radj g, dg_edge_count g) = (m, c)"
      by fastforce
    have "entry m v = strip_to n (in_edges es v)" for v
      using unlink_ok(2) [OF u, of v] edge_both_ways [of v es n] strip_to_id [of n "in_edges es v"]
      by (auto simp: l r)
    then show ?thesis
      using assms Some u unlink_ok(1,3) [OF u]
      by (auto simp: remove_out_def represents_def neighbors_entry l out_edges_filter_from in_edges_filter_from)
  qed
qed

lemma remove_in_ok:
  fixes n :: int
  assumes "represents g (ns, es)"
  shows "represents (remove_in g n) (ns, filter (\<lambda>(f, t, x). t \<noteq> n) es) \<and>
    dg_edge_count (remove_in g n) = dg_edge_count g - int (length (in_edges es n))"
proof -
  have r: "entry (dg_adj g) u = out_edges es u" "entry (dg_radj g) u = in_edges es u" for u
    using assms(1) by (simp_all add: represents_def neighbors_entry)
  show ?thesis
  proof (cases "dg_radj g n")
    case None
    then have "in_edges es n = []"
      using r(2) [of n] by (simp add: entry_def)
    with None no_in_edges [of es n] assms show ?thesis
      by (simp add: remove_in_def)
  next
    case (Some l)
    then have l: "l = in_edges es n"
      using r(2) [of n] by (simp add: entry_def)
    obtain m c where u: "unlink n l (dg_adj g, dg_edge_count g) = (m, c)"
      by fastforce
    have "entry m v = strip_to n (out_edges es v)" for v
      using unlink_ok(2) [OF u, of v] edge_both_ways [of n es v] strip_to_id [of n "out_edges es v"]
      by (auto simp: l r)
    then show ?thesis
      using assms Some u unlink_ok(1,3) [OF u]
      by (auto simp: remove_in_def represents_def neighbors_entry l out_edges_filter_to in_edges_filter_to)
  qed
qed

lemma remove_node_ok:
  assumes "represents g (ns, es)"
  shows "represents (dg_remove_node g n) (ns(n := None), filter (\<lambda>(f, t, _). f \<noteq> n \<and> t \<noteq> n) es)"
    "dg_edge_count (dg_remove_node g n) =
       dg_edge_count g - (int (length es) - int (length (filter (\<lambda>(f, t, _). f \<noteq> n \<and> t \<noteq> n) es)))"
proof -
  let ?es1 = "filter (\<lambda>(f, t, x). f \<noteq> n) es"
  note out = remove_out_ok [OF assms, of n]
  note inc = remove_in_ok [OF conjunct1 [OF out], of n]
  have both: "filter (\<lambda>(f, t, x). t \<noteq> n) ?es1 = filter (\<lambda>(f, t, _). f \<noteq> n \<and> t \<noteq> n) es"
    by (simp add: case_prod_unfold conj_commute)
  show "represents (dg_remove_node g n) (ns(n := None), filter (\<lambda>(f, t, _). f \<noteq> n \<and> t \<noteq> n) es)"
    using inc unfolding both
    by (auto simp: represents_def dg_remove_node_def Let_def dg_neighbors_def dg_reverse_neighbors_def)
  show "dg_edge_count (dg_remove_node g n) =
       dg_edge_count g - (int (length es) - int (length (filter (\<lambda>(f, t, _). f \<noteq> n \<and> t \<noteq> n) es)))"
    using out inc length_out_edges [of es n] length_in_edges [of ?es1 n] unfolding both
    by (simp add: dg_remove_node_def Let_def)
qed

section \<open>The other operations\<close>

lemma remove_edge_ok:
  assumes "represents g (ns, es)"
  shows "represents (dg_remove_edge g f t r)
      (ns, filter (\<lambda>(f', t', r', _). \<not> (f' = f \<and> t' = t \<and> r' = r)) es)"
    "dg_edge_count (dg_remove_edge g f t r) =
      dg_edge_count g - (if \<exists>w. (f, t, r, w) \<in> set es then 2 else 0)"
proof -
  let ?out = "filter (\<lambda>e. \<not> (ed_to e = t \<and> ed_rel e = r)) (out_edges es f)"
  let ?inc = "filter (\<lambda>e. \<not> (ed_to e = f \<and> ed_rel e = r)) (in_edges es t)"
  have r: "entry (dg_adj g) u = out_edges es u" "entry (dg_radj g) u = in_edges es u" for u
    using assms(1) by (simp_all add: represents_def neighbors_entry)
  have hit: "?out \<noteq> out_edges es f \<longleftrightarrow> (\<exists>w. (f, t, r, w) \<in> set es)"
    "?inc \<noteq> in_edges es t \<longleftrightarrow> (\<exists>w. (f, t, r, w) \<in> set es)"
  proof -
    have "(\<exists>e \<in> set (out_edges es f). ed_to e = t \<and> ed_rel e = r) \<longleftrightarrow> (\<exists>w. (f, t, r, w) \<in> set es)"
      "(\<exists>e \<in> set (in_edges es t). ed_to e = f \<and> ed_rel e = r) \<longleftrightarrow> (\<exists>w. (f, t, r, w) \<in> set es)"
      unfolding in_out_edges in_in_edges Bex_def by (metis edge.select_convs)+
    then show "?out \<noteq> out_edges es f \<longleftrightarrow> (\<exists>w. (f, t, r, w) \<in> set es)"
      "?inc \<noteq> in_edges es t \<longleftrightarrow> (\<exists>w. (f, t, r, w) \<in> set es)"
      unfolding filter_id_conv by blast+
  qed
  have g: "dg_remove_edge g f t r = g\<lparr>dg_adj := (dg_adj g)(f \<mapsto> ?out), dg_radj := (dg_radj g)(t \<mapsto> ?inc),
      dg_edge_count := dg_edge_count g - (if \<exists>w. (f, t, r, w) \<in> set es then 2 else 0), dg_dirty := True\<rparr>"
  proof (cases "\<exists>w. (f, t, r, w) \<in> set es")
    case True
    with hit have "?out \<noteq> out_edges es f" "?inc \<noteq> in_edges es t"
      by blast+
    then show ?thesis
      unfolding dg_remove_edge_def remove_from_def r Let_def by (simp only: True if_True prod.case) simp
  next
    case False
    with hit have "?out = out_edges es f" "?inc = in_edges es t"
      by blast+
    then show ?thesis
      unfolding dg_remove_edge_def remove_from_def r Let_def using False by simp
  qed
  show "represents (dg_remove_edge g f t r)
      (ns, filter (\<lambda>(f', t', r', _). \<not> (f' = f \<and> t' = t \<and> r' = r)) es)"
  proof -
    define es' where "es' = filter (\<lambda>(f', t', r', _). \<not> (f' = f \<and> t' = t \<and> r' = r)) es"
    have "out_edges es' u = (if u = f then ?out else out_edges es u)"
      "in_edges es' u = (if u = t then ?inc else in_edges es u)" for u
      unfolding es'_def out_edges_remove in_edges_remove by simp_all
    then have "represents (dg_remove_edge g f t r) (ns, es')"
      using assms by (auto simp: g represents_def neighbors_entry r)
    then show ?thesis by (simp only: es'_def)
  qed
  show "dg_edge_count (dg_remove_edge g f t r) =
      dg_edge_count g - (if \<exists>w. (f, t, r, w) \<in> set es then 2 else 0)"
    by (simp add: g)
qed

lemma add_edge_ok:
  "represents g (ns, es) \<Longrightarrow> represents (dg_add_edge g f t r w) (ns, es @ [(f, t, r, w)])"
  by (auto simp: represents_def neighbors_entry dg_add_edge_def)

lemma add_node_ok:
  assumes "represents g (ns, es)"
  shows "represents (dg_add_node g n l p) (ns(n \<mapsto> \<lparr>nm_label = l, nm_props = p\<rparr>), es)"
proof -
  have "\<forall>k \<in> insert n (dom (dg_meta g)). k \<le> (if dg_max_id g < n then n else dg_max_id g)"
    using assms by (force simp: represents_def)
  moreover have "ns = dg_meta g" "-1 \<le> (if dg_max_id g < n then n else dg_max_id g)"
    using assms by (simp_all add: represents_def)
  ultimately show ?thesis
    using assms by (simp add: represents_def neighbors_entry dg_add_node_def)
qed

lemma dg_new_ok: "represents dg_new (Map.empty, [])"
  by (simp add: represents_def dg_new_def dg_neighbors_def dg_reverse_neighbors_def)

interpretation graph: simulation graph_step log_step represents
proof
  fix g a x
  assume "represents g a"
  then show "represents (graph_step g x) (log_step a x)"
    by (cases a; cases x; simp only: graph_step.simps log_step.simps)
      (simp_all only: remove_node_ok remove_edge_ok add_edge_ok add_node_ok)
qed

section \<open>The queries on the log\<close>

lemma has_edge_ok:
  assumes "represents g (ns, es)"
  shows "dg_has_edge g u v \<longleftrightarrow> (\<exists>r w. (u, v, r, w) \<in> set es)"
proof -
  have "dg_has_edge g u v \<longleftrightarrow> v \<in> ed_to ` set (dg_neighbors g u)"
    by (auto simp: dg_has_edge_def dg_neighbors_def list_ex_iff split: option.splits)
  also have "\<dots> \<longleftrightarrow> v \<in> ed_to ` set (out_edges es u)"
    using assms by (simp add: represents_def)
  also have "\<dots> \<longleftrightarrow> (\<exists>r w. (u, v, r, w) \<in> set es)"
    by (induction es) auto
  finally show ?thesis .
qed

text \<open>Without \<^verbatim>\<open>remove_edge\<close> the edge counter counts the edges.\<close>

definition counted :: "dgraph \<Rightarrow> graph_log \<Rightarrow> bool" where
  "counted g a \<longleftrightarrow> represents g a \<and> dg_edge_count g = int (length (snd a))"

fun removes_edge :: "graph_op \<Rightarrow> bool" where
  "removes_edge (GRemoveEdge _ _ _) \<longleftrightarrow> True"
| "removes_edge _ \<longleftrightarrow> False"

lemma counted_step:
  assumes "counted g a" "\<not> removes_edge x"
  shows "counted (graph_step g x) (log_step a x)"
proof -
  obtain ns es where a: "a = (ns, es)" by fastforce
  have r: "represents g (ns, es)" "dg_edge_count g = int (length es)"
    using assms(1) by (simp_all add: counted_def a)
  have "represents (graph_step g x) (log_step a x)"
    using r(1) graph.follows a by blast
  moreover have "dg_edge_count (graph_step g x) = int (length (snd (log_step a x)))"
    using assms(2) r(2) remove_node_ok(2) [OF r(1)]
    by (cases x) (simp_all add: a dg_add_node_def dg_add_edge_def)
  ultimately show ?thesis by (simp add: counted_def)
qed

lemma counted_run:
  "counted g a \<Longrightarrow> \<forall>x \<in> set xs. \<not> removes_edge x \<Longrightarrow> counted (foldl graph_step g xs) (foldl log_step a xs)"
  by (induction xs arbitrary: g a) (simp_all add: counted_step)

section \<open>Properties\<close>

text \<open>
  C6. After any sequence of node and edge additions and removals, the forward lists, the reverse lists
  and \<^verbatim>\<open>has_edge\<close> are exactly the projections of one log of edges: the edges added and not
  removed since, by edge or with an endpoint, in the order of their insertion; and the nodes are those
  of the log.
\<close>

theorem graph_matches_log:
  "let g = foldl graph_step dg_new ops; (ns, es) = foldl log_step (Map.empty, []) ops in
     (\<forall>u. dg_neighbors g u = out_edges es u) \<and>
     (\<forall>v. dg_reverse_neighbors g v = in_edges es v) \<and>
     (\<forall>u v. dg_has_edge g u v = (\<exists>r w. (u, v, r, w) \<in> set es)) \<and>
     (\<forall>n. dg_node_meta g n = ns n)"
proof -
  let ?g = "foldl graph_step dg_new ops"
  obtain ns es where a: "foldl log_step (Map.empty, []) ops = (ns, es)"
    by fastforce
  have r: "represents ?g (ns, es)"
    using graph.runs_follow [OF dg_new_ok, of ops] by (simp only: a)
  show ?thesis
    using r has_edge_ok [OF r] by (simp add: a Let_def dg_node_meta_def represents_def)
qed

text \<open>
  The edge counter is the number of edges after any sequence of node additions and removals and
  edge additions.
\<close>

theorem edge_count_exact:
  assumes "\<forall>x \<in> set ops. \<not> removes_edge x"
  shows "dg_edge_count (foldl graph_step dg_new ops) = int (length (snd (foldl log_step (Map.empty, []) ops)))"
  using counted_run [of dg_new "(Map.empty, [])" ops] assms dg_new_ok
  by (simp add: counted_def dg_new_def)

theorem edge_count_exact_witness:
  "dg_edge_count (foldl graph_step dg_new [GAddNode 1 None [], GAddEdge 1 2 ''r'' f32_one, GRemoveNode 2]) =
   int (length (snd (foldl log_step (Map.empty, [])
     [GAddNode 1 None [], GAddEdge 1 2 ''r'' f32_one, GRemoveNode 2])))"
  by (rule edge_count_exact) simp

text \<open>
  \<^verbatim>\<open>remove_edge\<close> lowers the edge counter by two when it removes anything, however many
  parallel edges it removes, once for each direction; so the counter is wrong from then on unless the
  number removed was two.
\<close>

theorem remove_edge_count:
  assumes "represents g (ns, es)"
  shows "represents (dg_remove_edge g f t r)
      (ns, filter (\<lambda>(f', t', r', _). \<not> (f' = f \<and> t' = t \<and> r' = r)) es) \<and>
    dg_edge_count (dg_remove_edge g f t r) =
      dg_edge_count g - (if \<exists>w. (f, t, r, w) \<in> set es then 2 else 0)"
  using remove_edge_ok [OF assms] by blast

theorem remove_edge_count_witness:
  "dg_edge_count (dg_remove_edge (graph_step dg_new (GAddEdge 1 2 ''r'' f32_one)) 1 2 ''r'') = -1"
  using remove_edge_count [OF graph.follows [OF dg_new_ok, of "GAddEdge 1 2 ''r'' f32_one", unfolded log_step.simps], of 1 2 "''r''"]
  by (simp add: dg_add_edge_def dg_new_def)

end
