(* ===== verification/Graph_Search.thy ===== *)
theory Graph_Search
  imports Prelude
begin

text \<open>
  Searches of a graph given by its successor lists, apart from any program: distances in hops, and the
  laws of a breadth first search. The traversals of \<^verbatim>\<open>src/graph\<close> are clients: each keeps
  its own data (arrays, hash maps, queues of pairs), and its proof rests on the invariant here.
\<close>

section \<open>Distances\<close>

definition edge_rel :: "('n \<Rightarrow> 'n list) \<Rightarrow> ('n \<times> 'n) set" where
  "edge_rel succs = {(u, v). v \<in> set (succs u)}"

definition hop_dist :: "('n \<Rightarrow> 'n list) \<Rightarrow> 'n \<Rightarrow> 'n \<Rightarrow> nat \<Rightarrow> bool" where
  "hop_dist succs s v d \<longleftrightarrow> (s, v) \<in> edge_rel succs ^^ d \<and> (\<forall>m < d. (s, v) \<notin> edge_rel succs ^^ m)"

definition reachable :: "('n \<Rightarrow> 'n list) \<Rightarrow> 'n \<Rightarrow> 'n set" where
  "reachable succs s = {v. (s, v) \<in> (edge_rel succs)\<^sup>*}"

lemma hop_dist_unique: "hop_dist succs s v d \<Longrightarrow> hop_dist succs s v d' \<Longrightarrow> d = d'"
  by (meson hop_dist_def linorder_neqE_nat)

lemma hop_dist_self: "hop_dist succs s s 0"
  by (simp add: hop_dist_def)

lemma hop_dist_ex: "v \<in> reachable succs s \<longleftrightarrow> (\<exists>d. hop_dist succs s v d)"
proof
  assume "v \<in> reachable succs s"
  then have "\<exists>n. (s, v) \<in> edge_rel succs ^^ n"
    by (simp add: reachable_def rtrancl_power)
  then have "hop_dist succs s v (LEAST n. (s, v) \<in> edge_rel succs ^^ n)"
    unfolding hop_dist_def by (metis LeastI not_less_Least)
  then show "\<exists>d. hop_dist succs s v d" ..
next
  assume "\<exists>d. hop_dist succs s v d"
  then show "v \<in> reachable succs s"
    by (auto simp: hop_dist_def reachable_def rtrancl_power)
qed

lemma hop_dist_pred:
  assumes "hop_dist succs s v (Suc d)"
  obtains u where "hop_dist succs s u d" "v \<in> set (succs u)"
proof -
  obtain u where u: "(s, u) \<in> edge_rel succs ^^ d" "(u, v) \<in> edge_rel succs"
    using assms by (auto simp: hop_dist_def)
  have "(s, u) \<notin> edge_rel succs ^^ m" if "m < d" for m
    using assms u(2) that by (auto simp: hop_dist_def dest!: spec [of _ "Suc m"])
  with u that show thesis by (auto simp: hop_dist_def edge_rel_def)
qed

text \<open>A walk through nodes in a list.\<close>

fun walk :: "('n \<Rightarrow> 'n list) \<Rightarrow> 'n list \<Rightarrow> bool" where
  "walk succs (u # v # vs) \<longleftrightarrow> v \<in> set (succs u) \<and> walk succs (v # vs)"
| "walk succs _ \<longleftrightarrow> True"

lemma walk_append:
  "us \<noteq> [] \<Longrightarrow> vs \<noteq> [] \<Longrightarrow>
     walk succs (us @ vs) \<longleftrightarrow> walk succs us \<and> hd vs \<in> set (succs (last us)) \<and> walk succs vs"
proof (induction us)
  case (Cons u us)
  show ?case
  proof (cases us)
    case Nil
    with Cons.prems show ?thesis by (cases vs) auto
  next
    case (Cons w ws)
    with Cons.IH Cons.prems show ?thesis by auto
  qed
qed simp

lemma walk_relpow:
  "(\<exists>vs. walk succs vs \<and> vs \<noteq> [] \<and> hd vs = u \<and> last vs = v \<and> length vs = Suc n) \<longleftrightarrow>
     (u, v) \<in> edge_rel succs ^^ n"
proof (induction n arbitrary: u)
  case 0
  then show ?case
    by (auto simp: length_Suc_conv intro!: exI [of _ "[u]"])
next
  case (Suc n)
  show ?case
  proof
    assume "\<exists>vs. walk succs vs \<and> vs \<noteq> [] \<and> hd vs = u \<and> last vs = v \<and> length vs = Suc (Suc n)"
    then obtain w ws where "walk succs (u # w # ws)" "last (w # ws) = v" "length (w # ws) = Suc n"
      by (auto simp: length_Suc_conv)
    then have "(u, w) \<in> edge_rel succs" "(w, v) \<in> edge_rel succs ^^ n"
      using Suc [of w] by (auto simp: edge_rel_def)
    then show "(u, v) \<in> edge_rel succs ^^ Suc n"
      by (rule relpow_Suc_I2)
  next
    assume "(u, v) \<in> edge_rel succs ^^ Suc n"
    then obtain w where w: "(u, w) \<in> edge_rel succs" "(w, v) \<in> edge_rel succs ^^ n"
      by (elim relpow_Suc_E2)
    then obtain vs where "walk succs vs" "vs \<noteq> []" "hd vs = w" "last vs = v" "length vs = Suc n"
      using Suc [of w] by blast
    then show "\<exists>vs. walk succs vs \<and> vs \<noteq> [] \<and> hd vs = u \<and> last vs = v \<and> length vs = Suc (Suc n)"
      using w(1) by (intro exI [of _ "u # vs"]) (cases vs; simp add: edge_rel_def)
  qed
qed

text \<open>On a walk of at most \<open>n\<close> steps out of a set there is a step that leaves it.\<close>

lemma relpow_leaves:
  assumes "(s, v) \<in> R ^^ n" "s \<in> S" "v \<notin> S"
  obtains u w m where "m < n" "(s, u) \<in> R ^^ m" "(u, w) \<in> R" "u \<in> S" "w \<notin> S"
  using assms
proof (induction n arbitrary: v thesis)
  case (Suc n)
  then obtain u where u: "(s, u) \<in> R ^^ n" "(u, v) \<in> R" by auto
  show ?case
  proof (cases "u \<in> S")
    case True
    with u Suc.prems show ?thesis by blast
  next
    case False
    show ?thesis
      using Suc.IH [OF _ u(1) Suc.prems(3) False] Suc.prems(1) by (metis less_SucI)
  qed
qed simp

section \<open>Breadth first search\<close>

text \<open>
  The search from \<open>s\<close> that expands a node at distance \<open>d\<close> when \<open>expands d\<close>. \<open>D\<close> gives the hops at which
  a node was discovered, \<open>Q\<close> is the queue; while the successors of the removed head \<open>u\<close> are scanned,
  \<open>vs\<close> are those still to come.
\<close>

definition bfs_inv :: "('n \<Rightarrow> 'n list) \<Rightarrow> 'n \<Rightarrow> (nat \<Rightarrow> bool) \<Rightarrow> ('n \<rightharpoonup> nat) \<Rightarrow> 'n list \<Rightarrow> bool" where
  "bfs_inv succs s expands D Q \<longleftrightarrow> D s = Some 0 \<and> (\<forall>v d. D v = Some d \<longrightarrow> hop_dist succs s v d) \<and>
     distinct Q \<and> set Q \<subseteq> dom D \<and> sorted (map (the \<circ> D) Q) \<and>
     (\<forall>v \<in> set Q. the (D v) \<le> the (D (hd Q)) + 1) \<and>
     (\<forall>v d. D v = Some d \<longrightarrow> v \<notin> set Q \<longrightarrow> expands d \<longrightarrow> set (succs v) \<subseteq> dom D)"

definition bfs_scan ::
  "('n \<Rightarrow> 'n list) \<Rightarrow> 'n \<Rightarrow> (nat \<Rightarrow> bool) \<Rightarrow> ('n \<rightharpoonup> nat) \<Rightarrow> 'n \<Rightarrow> 'n list \<Rightarrow> 'n list \<Rightarrow> bool" where
  "bfs_scan succs s expands D u vs Q \<longleftrightarrow> D s = Some 0 \<and> (\<forall>v d. D v = Some d \<longrightarrow> hop_dist succs s v d) \<and>
     distinct Q \<and> set Q \<subseteq> dom D \<and> u \<in> dom D \<and> u \<notin> set Q \<and> expands (the (D u)) \<and>
     sorted (map (the \<circ> D) Q) \<and> (\<forall>v \<in> set Q. the (D u) \<le> the (D v) \<and> the (D v) \<le> the (D u) + 1) \<and>
     (\<forall>v d. D v = Some d \<longrightarrow> v \<notin> set Q \<longrightarrow> v \<noteq> u \<longrightarrow> expands d \<longrightarrow> set (succs v) \<subseteq> dom D) \<and>
     set vs \<subseteq> set (succs u) \<and> set (succs u) \<subseteq> dom D \<union> set vs"

text \<open>The nodes of a list that are not in a set, in the order of their first occurrence.\<close>

fun fresh_of :: "'n list \<Rightarrow> 'n set \<Rightarrow> 'n list" where
  "fresh_of [] A = []"
| "fresh_of (v # vs) A = (if v \<in> A then fresh_of vs A else v # fresh_of vs (insert v A))"

lemma fresh_of_set: "set (fresh_of vs A) = set vs - A"
  by (induction vs arbitrary: A) auto

lemma fresh_of_distinct: "distinct (fresh_of vs A)"
  by (induction vs arbitrary: A) (auto simp: fresh_of_set)

definition at_hop :: "('n \<rightharpoonup> nat) \<Rightarrow> 'n list \<Rightarrow> nat \<Rightarrow> 'n \<rightharpoonup> nat" where
  "at_hop D vs d = (\<lambda>v. if v \<in> set vs then Some d else D v)"

lemma dom_at_hop [simp]: "dom (at_hop D vs d) = dom D \<union> set vs"
  by (auto simp: at_hop_def split: if_splits)

lemma at_hop_Cons: "v \<notin> set vs \<Longrightarrow> at_hop (D(v \<mapsto> d)) vs d = at_hop D (v # vs) d"
  by (auto simp: at_hop_def fun_eq_iff)

locale breadth_first =
  fixes succs :: "'n \<Rightarrow> 'n list"
    and s :: 'n
    and expands :: "nat \<Rightarrow> bool"
  assumes expands_down: "expands d \<Longrightarrow> m \<le> d \<Longrightarrow> expands m"
begin

lemma start: "bfs_inv succs s expands [s \<mapsto> 0] [s]"
  by (auto simp: bfs_inv_def hop_dist_self)

lemma pop:
  assumes "bfs_inv succs s expands D (u # Q)" "expands (the (D u))"
  shows "bfs_scan succs s expands D u (succs u) Q"
  using assms unfolding bfs_inv_def bfs_scan_def by auto

lemma skip:
  assumes "bfs_inv succs s expands D (u # Q)" "\<not> expands (the (D u))"
  shows "bfs_inv succs s expands D Q"
proof -
  have "the (D v) \<le> the (D (hd Q)) + 1" if "v \<in> set Q" for v
    using assms(1) that unfolding bfs_inv_def by (cases Q) fastforce+
  moreover have "set (succs v) \<subseteq> dom D" if "D v = Some d" "v \<notin> set Q" "expands d" for v d
    using assms that unfolding bfs_inv_def by (cases "v = u") auto
  ultimately show ?thesis
    using assms(1) unfolding bfs_inv_def by simp
qed

lemma known:
  assumes "bfs_scan succs s expands D u (v # vs) Q" "v \<in> dom D"
  shows "bfs_scan succs s expands D u vs Q"
  using assms unfolding bfs_scan_def by auto

lemma discovered_dist:
  assumes "bfs_scan succs s expands D u (v # vs) Q" "v \<notin> dom D"
  shows "hop_dist succs s v (Suc (the (D u)))"
proof -
  define h where "h = the (D u)"
  have inv: "D s = Some 0" "\<And>v d. D v = Some d \<Longrightarrow> hop_dist succs s v d" "u \<in> dom D" "expands h"
    "\<And>w. w \<in> set Q \<Longrightarrow> h \<le> the (D w)"
    "\<And>v d. D v = Some d \<Longrightarrow> v \<notin> set Q \<Longrightarrow> v \<noteq> u \<Longrightarrow> expands d \<Longrightarrow> set (succs v) \<subseteq> dom D"
    "v \<in> set (succs u)"
    using assms(1) unfolding bfs_scan_def h_def by auto
  have u: "hop_dist succs s u h"
    using inv(2,3) h_def by auto
  then have "(s, v) \<in> edge_rel succs ^^ Suc h"
    using inv(7) by (auto simp: hop_dist_def edge_rel_def)
  moreover have False if m: "(s, v) \<in> edge_rel succs ^^ m" "m < Suc h" for m
  proof -
    obtain k x w where x: "k < m" "(s, x) \<in> edge_rel succs ^^ k" "(x, w) \<in> edge_rel succs"
      "x \<in> dom D" "w \<notin> dom D"
    proof (rule relpow_leaves [OF m(1), of "dom D"])
      show "s \<in> dom D" using inv(1) by blast
    qed (use assms(2) that in auto)
    then obtain d where d: "D x = Some d" by blast
    have "d \<le> k"
      using inv(2) [OF d] x(2) by (meson hop_dist_def not_le)
    then have less: "d < h" using x(1) m(2) by simp
    then have "x \<notin> set Q" "x \<noteq> u"
      using inv(5) [of x] d h_def by auto
    then have "set (succs x) \<subseteq> dom D"
      using inv(6) [OF d] expands_down [OF inv(4)] less by simp
    then show False
      using x(3,5) by (auto simp: edge_rel_def)
  qed
  ultimately show ?thesis
    unfolding hop_dist_def h_def [symmetric] by blast
qed

lemma discover:
  assumes "bfs_scan succs s expands D u (v # vs) Q" "v \<notin> dom D"
  shows "bfs_scan succs s expands (D(v \<mapsto> Suc (the (D u)))) u vs (Q @ [v])"
proof -
  let ?D = "D(v \<mapsto> Suc (the (D u)))"
  note inv = assms(1) [unfolded bfs_scan_def]
  have ne: "v \<noteq> s" "v \<noteq> u" "v \<notin> set Q"
    using inv assms(2) by auto
  have same: "map (the \<circ> ?D) Q = map (the \<circ> D) Q"
    using ne(3) by (intro map_cong) auto
  have "sorted (map (the \<circ> ?D) (Q @ [v]))"
    using inv by (auto simp: same sorted_append)
  moreover have "\<forall>w \<in> set (Q @ [v]). the (?D u) \<le> the (?D w) \<and> the (?D w) \<le> the (?D u) + 1"
    using inv ne by auto
  moreover have "\<forall>x d. ?D x = Some d \<longrightarrow> hop_dist succs s x d"
    using inv discovered_dist [OF assms] by auto
  moreover have "\<forall>x d. ?D x = Some d \<longrightarrow> x \<notin> set (Q @ [v]) \<longrightarrow> x \<noteq> u \<longrightarrow> expands d \<longrightarrow> set (succs x) \<subseteq> dom ?D"
  proof (intro allI impI)
    fix x d
    assume x: "?D x = Some d" "x \<notin> set (Q @ [v])" "x \<noteq> u" "expands d"
    then have "D x = Some d" "x \<notin> set Q" by auto
    with x(3,4) inv have "set (succs x) \<subseteq> dom D" by blast
    then show "set (succs x) \<subseteq> dom ?D" by auto
  qed
  ultimately show ?thesis
    using inv ne unfolding bfs_scan_def by auto
qed

lemma scanned:
  assumes "bfs_scan succs s expands D u [] Q"
  shows "bfs_inv succs s expands D Q"
proof -
  note inv = assms [unfolded bfs_scan_def]
  have "the (D v) \<le> the (D (hd Q)) + 1" if "v \<in> set Q" for v
    using inv that hd_in_set [of Q] by (metis add_le_mono1 le_trans list.set_cases list.discI)
  moreover have "\<forall>v d. D v = Some d \<longrightarrow> v \<notin> set Q \<longrightarrow> expands d \<longrightarrow> set (succs v) \<subseteq> dom D"
    using inv by (metis empty_set sup_bot.right_neutral)
  ultimately show ?thesis
    using inv unfolding bfs_inv_def by blast
qed

lemma scan_all:
  assumes "bfs_scan succs s expands D u vs Q"
  defines "new \<equiv> fresh_of vs (dom D)"
  shows "bfs_inv succs s expands (at_hop D new (Suc (the (D u)))) (Q @ new)"
  using assms(1) unfolding new_def
proof (induction vs arbitrary: D Q)
  case Nil
  have "at_hop D [] (Suc (the (D u))) = D"
    by (simp add: at_hop_def)
  with scanned [OF Nil] show ?case by simp
next
  case (Cons v vs)
  show ?case
  proof (cases "v \<in> dom D")
    case True
    then show ?thesis
      using Cons.IH [OF known [OF Cons.prems True]] by simp
  next
    case False
    let ?D = "D(v \<mapsto> Suc (the (D u)))"
    have "v \<noteq> u"
      using Cons.prems False by (auto simp: bfs_scan_def)
    then have u: "the (?D u) = the (D u)" by simp
    have new: "fresh_of (v # vs) (dom D) = v # fresh_of vs (dom ?D)" "v \<notin> set (fresh_of vs (dom ?D))"
      using False by (simp_all add: fresh_of_set)
    show ?thesis
      using Cons.IH [OF discover [OF Cons.prems False]] at_hop_Cons [OF new(2)]
      unfolding u new(1) by (simp del: fun_upd_apply)
  qed
qed

text \<open>One turn of the search.\<close>

lemma expand:
  assumes "bfs_inv succs s expands D (u # Q)" "expands (the (D u))"
  defines "new \<equiv> fresh_of (succs u) (dom D)"
  shows "bfs_inv succs s expands (at_hop D new (Suc (the (D u)))) (Q @ new)"
  unfolding new_def by (intro scan_all pop assms)

lemma found_dist: "bfs_inv succs s expands D Q \<Longrightarrow> D v = Some d \<Longrightarrow> hop_dist succs s v d"
  by (simp add: bfs_inv_def)

lemma found_reachable: "bfs_inv succs s expands D Q \<Longrightarrow> dom D \<subseteq> reachable succs s"
  using found_dist hop_dist_ex by (metis domD subsetI)

text \<open>The nodes still to be found, and the queue: each turn lowers their sum by one.\<close>

definition work :: "('n \<rightharpoonup> nat) \<Rightarrow> 'n list \<Rightarrow> nat" where
  "work D Q = card (reachable succs s - dom D) + length Q"

lemma work_expand:
  assumes "bfs_inv succs s expands D (u # Q)" "expands (the (D u))" "finite (reachable succs s)"
  defines "new \<equiv> fresh_of (succs u) (dom D)"
  shows "work (at_hop D new d) (Q @ new) < work D (u # Q)"
proof -
  have "set new \<subseteq> reachable succs s - dom D"
    using found_reachable [OF expand [OF assms(1,2)]] by (auto simp: new_def fresh_of_set)
  moreover have "reachable succs s - dom (at_hop D new d) = (reachable succs s - dom D) - set new"
    by auto
  ultimately have "card (reachable succs s - dom (at_hop D new d)) + length new = card (reachable succs s - dom D)"
    using assms(3) fresh_of_distinct [of "succs u" "dom D"]
    by (simp add: card_Diff_subset new_def distinct_card card_mono le_add_diff_inverse2
        finite_subset del: dom_at_hop) (metis card_mono distinct_card finite_Diff le_add_diff_inverse2 List.finite_set card_Diff_subset)
  then show ?thesis by (simp add: work_def)
qed

text \<open>When the queue is empty the search has found exactly the nodes within the horizon.\<close>

lemma complete:
  assumes "bfs_inv succs s expands D []"
  shows "D v = Some d \<longleftrightarrow> hop_dist succs s v d \<and> v \<in> dom D"
    "hop_dist succs s v d \<Longrightarrow> (\<And>m. m < d \<Longrightarrow> expands m) \<Longrightarrow> v \<in> dom D"
proof -
  note inv = assms [unfolded bfs_inv_def]
  show "D v = Some d \<longleftrightarrow> hop_dist succs s v d \<and> v \<in> dom D"
    using inv hop_dist_unique by (metis domD domI)
  show "v \<in> dom D" if "hop_dist succs s v d" "\<And>m. m < d \<Longrightarrow> expands m"
    using that
  proof (induction d arbitrary: v)
    case 0
    then show ?case using inv by (auto simp: hop_dist_def)
  next
    case (Suc d)
    obtain u where u: "hop_dist succs s u d" "v \<in> set (succs u)"
      using Suc.prems(1) by (rule hop_dist_pred)
    then have "u \<in> dom D"
      using Suc.IH Suc.prems(2) by simp
    then have "D u = Some d"
      using inv u(1) hop_dist_unique by (metis domD)
    then have "set (succs u) \<subseteq> dom D"
      using inv Suc.prems(2) [of d] by auto
    with u(2) show ?case by auto
  qed
qed

end

end
