(* ===== verification/BFS_Proofs.thy ===== *)
theory BFS_Proofs
  imports BFS Dynamic_Graph_Proofs Graph_Search
begin

text \<open>
  The traversals of the mutable graph as clients of the breadth first search laws: they return, find
  exactly the nodes within their horizon, at their distances, and the path is a shortest one.
\<close>

section \<open>Successors through a filter\<close>

definition rel_succs :: "dgraph \<Rightarrow> string \<Rightarrow> int \<Rightarrow> int list" where
  "rel_succs g rel u = map ed_to (filter (admits rel) (dg_neighbors g u))"

lemma admits_all [simp]: "admits [] e"
  by (simp add: admits_def)

lemma rel_succs_all: "rel_succs g [] u = map ed_to (dg_neighbors g u)"
  by (simp add: rel_succs_def)

lemma finite_reachable:
  assumes "finite (dom (dg_adj g))"
  shows "finite (reachable (rel_succs g rel) s)"
proof -
  let ?U = "insert s (\<Union>u \<in> dom (dg_adj g). set (rel_succs g rel u))"
  have "v \<in> ?U" if "(s, v) \<in> (edge_rel (rel_succs g rel))\<^sup>*" for v
    using that
  proof (cases rule: rtranclE)
    case (step u)
    then have "v \<in> set (rel_succs g rel u)" by (simp add: edge_rel_def)
    moreover from this have "u \<in> dom (dg_adj g)"
      by (cases "dg_adj g u") (auto simp: rel_succs_def dg_neighbors_def)
    ultimately show ?thesis by blast
  qed simp
  then have "reachable (rel_succs g rel) s \<subseteq> ?U"
    by (auto simp: reachable_def)
  then show ?thesis
    using assms finite_subset by fastforce
qed

text \<open>The two searches of the program: without a horizon, and up to \<open>H\<close> hops.\<close>

interpretation bfs_all: breadth_first succs s "\<lambda>_. True" for succs :: "int \<Rightarrow> int list" and s
  by unfold_locales simp

interpretation bfs_within: breadth_first succs s "\<lambda>d. int d < H" for succs :: "int \<Rightarrow> int list" and s H
  by unfold_locales simp

section \<open>Component\<close>

lemma flag_insert: "(\<lambda>v. v \<in> A)(x := True) = (\<lambda>v. v \<in> insert x A)"
  by (simp add: fun_eq_iff)

lemma component_scan_ok:
  "component_scan es (\<lambda>v. v \<in> A) Q =
     ((\<lambda>v. v \<in> A \<union> set (fresh_of (map ed_to es) A)), Q @ fresh_of (map ed_to es) A)"
proof (induction es arbitrary: A Q)
  case (Cons e es)
  then show ?case
    using Cons.IH [of "insert (ed_to e) A" "Q @ [ed_to e]"]
    by (auto simp: flag_insert fun_eq_iff simp del: fun_upd_apply)
qed simp

lemma sorted_hops_append:
  assumes "bfs_inv succs s expands D (u # Q)" "sorted (map (the \<circ> D) (done @ u # Q))" "set done \<subseteq> dom D"
    and new_def: "new = fresh_of vs (dom D)"
  shows "sorted (map (the \<circ> at_hop D new (Suc (the (D u)))) ((done @ [u]) @ Q @ new))"
proof -
  let ?D = "at_hop D new (Suc (the (D u)))"
  have old: "?D v = D v" if "v \<in> dom D" for v
    using that by (auto simp: at_hop_def new_def fresh_of_set)
  have d: "set (done @ u # Q) \<subseteq> dom D"
    using assms(1,3) by (auto simp: bfs_inv_def)
  then have same: "map (the \<circ> ?D) (done @ u # Q) = map (the \<circ> D) (done @ u # Q)"
  proof (intro map_cong refl)
    fix x
    assume "x \<in> set (done @ u # Q)"
    then have "x \<in> dom D" using d by blast
    then show "(the \<circ> ?D) x = (the \<circ> D) x" using old by (simp only: o_apply)
  qed
  have new: "map (the \<circ> ?D) new = replicate (length new) (Suc (the (D u)))"
    by (auto simp: at_hop_def intro!: map_replicate_const [symmetric] map_cong nth_equalityI)
  have "the (D v) \<le> Suc (the (D u))" if "v \<in> set (done @ u # Q)" for v
    using that assms(1,2) by (auto simp: bfs_inv_def sorted_append le_SucI)
  then have "sorted (map (the \<circ> D) (done @ u # Q) @ replicate (length new) (Suc (the (D u))))"
    using assms(2) by (auto simp: sorted_append)
  moreover have "map (the \<circ> ?D) ((done @ [u]) @ Q @ new) = map (the \<circ> ?D) (done @ u # Q) @ map (the \<circ> ?D) new"
    by simp
  ultimately show ?thesis
    by (simp only: same new)
qed

lemma component_loop_ok:
  assumes "finite (dom (dg_adj g))" "bfs_inv (rel_succs g []) s (\<lambda>_. True) D Q" "visited = (\<lambda>v. v \<in> dom D)"
    "distinct (done @ Q)" "set (done @ Q) = dom D" "sorted (map (the \<circ> D) (done @ Q))"
  shows "\<exists>res D'. component_loop g visited Q done = Some res \<and> distinct res \<and>
    bfs_inv (rel_succs g []) s (\<lambda>_. True) D' [] \<and> set res = dom D' \<and> sorted (map (the \<circ> D') res) \<and>
    (\<exists>ys. res = done @ Q @ ys)"
  using assms
proof (induction "bfs_all.work (rel_succs g []) s D Q" arbitrary: D Q visited "done" rule: less_induct)
  case less
  show ?case
  proof (cases Q)
    case Nil
    then have "component_loop g visited Q done = Some done"
      by (subst component_loop.simps) simp
    then show ?thesis
      using less.prems Nil by (intro exI [of _ "done"] exI [of _ D]) auto
  next
    case (Cons u Q')
    let ?S = "rel_succs g []"
    define new where "new = fresh_of (?S u) (dom D)"
    let ?D = "at_hop D new (Suc (the (D u)))"
    let ?vis = "\<lambda>v. v \<in> dom D \<union> set new"
    have inv: "bfs_inv ?S s (\<lambda>_. True) D (u # Q')"
      using less.prems(2) Cons by simp
    note inv' = bfs_all.expand [OF inv TrueI, folded new_def]
    have d: "?vis = (\<lambda>v. v \<in> dom ?D)"
      by simp
    have "component_scan (dg_neighbors g u) visited Q' = (?vis, Q' @ new)"
      using component_scan_ok [of "dg_neighbors g u" "dom D" Q'] less.prems(3)
      by (simp add: new_def rel_succs_all)
    then have step: "component_loop g visited Q done = component_loop g ?vis (Q' @ new) (done @ [u])"
      by (subst component_loop.simps) (simp add: Cons)
    have w: "bfs_all.work ?S s ?D (Q' @ new) < bfs_all.work ?S s D Q"
      using bfs_all.work_expand [OF inv TrueI finite_reachable [OF less.prems(1)]] Cons
      by (simp add: new_def)
    have "distinct ((done @ [u]) @ Q' @ new)"
      using less.prems(4,5) Cons fresh_of_distinct [of "?S u" "dom D"] fresh_of_set [of "?S u" "dom D"]
      by (auto simp: new_def)
    moreover have "set ((done @ [u]) @ Q' @ new) = dom ?D"
      using less.prems(5) Cons by auto
    moreover have "sorted (map (the \<circ> ?D) ((done @ [u]) @ Q' @ new))"
      using sorted_hops_append [OF inv _ _ new_def] less.prems(5,6) Cons by auto
    ultimately obtain res D' where "component_loop g ?vis (Q' @ new) (done @ [u]) = Some res"
      "distinct res" "bfs_inv ?S s (\<lambda>_. True) D' []" "set res = dom D'" "sorted (map (the \<circ> D') res)"
      "\<exists>ys. res = (done @ [u]) @ (Q' @ new) @ ys"
      using less.hyps [OF w less.prems(1) inv' d] by blast
    then show ?thesis
      unfolding step by (auto simp: Cons)
  qed
qed

section \<open>Neighbourhood\<close>

definition hop_value :: "('n \<rightharpoonup> nat) \<Rightarrow> 'n \<rightharpoonup> int" where
  "hop_value D = (\<lambda>v. map_option int (D v))"

lemma dom_hop_value [simp]: "dom (hop_value D) = dom D"
  by (auto simp: hop_value_def)

text \<open>What an entry of the result says of its edge.\<close>

definition entry_edge :: "dgraph \<Rightarrow> string \<Rightarrow> hop_result \<Rightarrow> bool" where
  "entry_edge g rel h \<longleftrightarrow> (\<exists>e \<in> set (dg_neighbors g (hr_via h)).
     admits rel e \<and> ed_to e = hr_node h \<and> ed_rel e = hr_rel h)"

lemma hops_scan_ok:
  assumes "set es \<subseteq> set (dg_neighbors g node)"
    and vs_def: "vs = map ed_to (filter (admits rel) es)"
  shows "\<exists>hs. hops_scan rel node hop es V Q R =
      ((\<lambda>v. if v \<in> set (fresh_of vs (dom V)) then Some (hop + 1) else V v),
       Q @ map (\<lambda>v. (v, hop + 1)) (fresh_of vs (dom V)), R @ hs) \<and>
    map hr_node hs = fresh_of vs (dom V) \<and>
    (\<forall>h \<in> set hs. hr_hop h = hop + 1 \<and> hr_via h = node \<and> entry_edge g rel h)"
  using assms(1) unfolding vs_def
proof (induction es arbitrary: V Q R)
  case (Cons e es)
  consider "\<not> admits rel e" | "admits rel e" "ed_to e \<in> dom V" | "admits rel e" "ed_to e \<notin> dom V"
    by blast
  then show ?case
  proof cases
    case 1
    then show ?thesis using Cons by simp
  next
    case 2
    then show ?thesis using Cons by (auto simp: domIff)
  next
    case 3
    let ?V = "V(ed_to e \<mapsto> hop + 1)"
    let ?h = "\<lparr>hr_node = ed_to e, hr_hop = hop + 1, hr_via = node, hr_rel = ed_rel e\<rparr>"
    let ?new = "fresh_of (map ed_to (filter (admits rel) es)) (dom ?V)"
    have sub: "set es \<subseteq> set (dg_neighbors g node)"
      using Cons.prems by simp
    obtain hs where hs: "hops_scan rel node hop es ?V (Q @ [(ed_to e, hop + 1)]) (R @ [?h]) =
        ((\<lambda>v. if v \<in> set ?new then Some (hop + 1) else ?V v),
         (Q @ [(ed_to e, hop + 1)]) @ map (\<lambda>v. (v, hop + 1)) ?new, (R @ [?h]) @ hs)"
      "map hr_node hs = ?new" "\<forall>h \<in> set hs. hr_hop h = hop + 1 \<and> hr_via h = node \<and> entry_edge g rel h"
      using Cons.IH [OF sub, of ?V "Q @ [(ed_to e, hop + 1)]" "R @ [?h]"] by blast
    have "entry_edge g rel ?h"
      using 3(1) Cons.prems by (auto simp: entry_edge_def)
    moreover have "hops_scan rel node hop (e # es) V Q R =
        hops_scan rel node hop es ?V (Q @ [(ed_to e, hop + 1)]) (R @ [?h])"
      using 3 by (simp add: domIff)
    ultimately show ?thesis
      using 3 hs by (intro exI [of _ "?h # hs"]) (auto simp: fun_eq_iff)
  qed
qed simp

text \<open>The invariant of the result list.\<close>

definition hops_ok :: "dgraph \<Rightarrow> string \<Rightarrow> int \<Rightarrow> (int \<rightharpoonup> nat) \<Rightarrow> hop_result list \<Rightarrow> bool" where
  "hops_ok g rel s D R \<longleftrightarrow> distinct (map hr_node R) \<and> hr_node ` set R = dom D - {s} \<and>
     (\<forall>h \<in> set R. \<exists>d. hr_hop h = int (Suc d) \<and> D (hr_node h) = Some (Suc d) \<and> D (hr_via h) = Some d \<and>
        entry_edge g rel h)"

lemma hops_okD:
  assumes "hops_ok g rel s D R" "h \<in> set R"
  obtains d where "hr_hop h = int (Suc d)" "D (hr_node h) = Some (Suc d)" "D (hr_via h) = Some d"
    "entry_edge g rel h"
  using assms unfolding hops_ok_def by blast

lemma hops_ok_extend:
  assumes "hops_ok g rel s D R" "s \<in> dom D" "D u = Some d" "map hr_node hs = new" "distinct new"
    "set new \<inter> dom D = {}"
    "\<forall>h \<in> set hs. hr_hop h = int d + 1 \<and> hr_via h = u \<and> entry_edge g rel h"
  shows "hops_ok g rel s (at_hop D new (Suc d)) (R @ hs)"
proof -
  have nodes: "hr_node ` set hs = set new"
    using assms(4) by (metis set_map)
  have old: "at_hop D new (Suc d) v = Some e" if "D v = Some e" for v e
    using that assms(6) by (auto simp: at_hop_def)
  have "\<exists>e. hr_hop h = int (Suc e) \<and> at_hop D new (Suc d) (hr_node h) = Some (Suc e) \<and>
      at_hop D new (Suc d) (hr_via h) = Some e \<and> entry_edge g rel h" if "h \<in> set R \<union> set hs" for h
  proof (cases "h \<in> set R")
    case True
    then show ?thesis using assms(1) old unfolding hops_ok_def by blast
  next
    case False
    then have h: "h \<in> set hs" using that by blast
    then have "hr_node h \<in> set new" using nodes by blast
    then show ?thesis
      using assms(7) h old [OF assms(3)] by (intro exI [of _ d]) (auto simp: at_hop_def)
  qed
  then show ?thesis
    using assms(1,2,4-6) nodes unfolding hops_ok_def
    by (auto simp: image_Un)
qed

lemma hops_loop_ok:
  fixes H :: int
  assumes "finite (dom (dg_adj g))" "bfs_inv (rel_succs g rel) s (\<lambda>d. int d < H) D Q"
    "hops_ok g rel s D R" "\<forall>v d. D v = Some (Suc d) \<longrightarrow> int (Suc d) \<le> H"
  shows "\<exists>R' D'. hops_loop g H rel (hop_value D) (map (\<lambda>v. (v, int (the (D v)))) Q) R = Some R' \<and>
    bfs_inv (rel_succs g rel) s (\<lambda>d. int d < H) D' [] \<and> hops_ok g rel s D' R' \<and>
    (\<forall>v d. D' v = Some (Suc d) \<longrightarrow> int (Suc d) \<le> H)"
  using assms
proof (induction "bfs_within.work (rel_succs g rel) s D Q" arbitrary: D Q R rule: less_induct)
  case less
  let ?S = "rel_succs g rel"
  show ?case
  proof (cases Q)
    case Nil
    then have "hops_loop g H rel (hop_value D) (map (\<lambda>v. (v, int (the (D v)))) Q) R = Some R"
      by (subst hops_loop.simps) simp
    with less.prems Nil show ?thesis by blast
  next
    case (Cons u Q')
    let ?h = "int (the (D u))"
    let ?q = "\<lambda>D Q. map (\<lambda>v. (v, int (the (D v)))) Q"
    have inv: "bfs_inv ?S s (\<lambda>d. int d < H) D (u # Q')"
      using less.prems(2) Cons by simp
    then obtain d where du: "D u = Some d"
      by (auto simp: bfs_inv_def)
    show ?thesis
    proof (cases "H \<le> ?h")
      case True
      then have "hops_loop g H rel (hop_value D) (?q D Q) R = hops_loop g H rel (hop_value D) (?q D Q') R"
        by (subst hops_loop.simps) (simp add: Cons)
      moreover have "bfs_within.work ?S s D Q' < bfs_within.work ?S s D Q"
        by (simp add: bfs_within.work_def Cons)
      moreover have "bfs_inv ?S s (\<lambda>d. int d < H) D Q'"
        using True by (intro bfs_within.skip [OF inv]) simp
      ultimately show ?thesis
        using less.hyps [of D Q' R] less.prems by simp
    next
      case False
      then have e: "int (the (D u)) < H" by simp
      define new where "new = fresh_of (?S u) (dom D)"
      let ?D = "at_hop D new (Suc d)"
      have inv': "bfs_inv ?S s (\<lambda>d. int d < H) ?D (Q' @ new)"
        using bfs_within.expand [OF inv e] by (simp add: new_def du)
      have w: "bfs_within.work ?S s ?D (Q' @ new) < bfs_within.work ?S s D Q"
        using bfs_within.work_expand [OF inv e finite_reachable [OF less.prems(1)]] Cons
        by (simp add: new_def)
      obtain hs where hs: "hops_scan rel u ?h (dg_neighbors g u) (hop_value D) (?q D Q') R =
          ((\<lambda>v. if v \<in> set new then Some (?h + 1) else hop_value D v),
           ?q D Q' @ map (\<lambda>v. (v, ?h + 1)) new, R @ hs)"
        "map hr_node hs = new" "\<forall>h \<in> set hs. hr_hop h = ?h + 1 \<and> hr_via h = u \<and> entry_edge g rel h"
        using hops_scan_ok [OF subset_refl refl, where node = u and hop = ?h and V = "hop_value D" and Q = "?q D Q'" and R = R]
        unfolding dom_hop_value rel_succs_def [symmetric] new_def by blast
      have V: "(\<lambda>v. if v \<in> set new then Some (?h + 1) else hop_value D v) = hop_value ?D"
        by (auto simp: hop_value_def at_hop_def du fun_eq_iff)
      have q: "?q D Q' @ map (\<lambda>v. (v, ?h + 1)) new = ?q ?D (Q' @ new)"
        using inv by (auto simp: at_hop_def du new_def fresh_of_set bfs_inv_def)
      have step: "hops_loop g H rel (hop_value D) (?q D Q) R = hops_loop g H rel (hop_value ?D) (?q ?D (Q' @ new)) (R @ hs)"
        using False hs(1) unfolding V q by (subst hops_loop.simps) (simp add: Cons)
      have "hops_ok g rel s ?D (R @ hs)"
        using less.prems(3) inv hs(2,3) fresh_of_distinct [of "?S u" "dom D"] fresh_of_set [of "?S u" "dom D"]
        by (intro hops_ok_extend [where u = u and d = d]) (auto simp: du new_def bfs_inv_def)
      moreover have "\<forall>v d'. ?D v = Some (Suc d') \<longrightarrow> int (Suc d') \<le> H"
        using less.prems(4) e du by (auto simp: at_hop_def)
      ultimately show ?thesis
        unfolding step using less.hyps [OF w less.prems(1) inv'] by blast
    qed
  qed
qed

lemma bfs_neighborhood_ok:
  assumes "finite (dom (dg_adj g))"
  shows "\<exists>R. bfs_neighborhood g s H rel = Some R \<and> distinct (map hr_node R) \<and>
    (\<forall>v d. (\<exists>h \<in> set R. hr_node h = v \<and> hr_hop h = int d) \<longleftrightarrow>
       v \<noteq> s \<and> hop_dist (rel_succs g rel) s v d \<and> int d \<le> H) \<and>
    (\<forall>h \<in> set R. hop_dist (rel_succs g rel) s (hr_via h) (nat (hr_hop h) - 1) \<and> entry_edge g rel h)"
proof -
  let ?S = "rel_succs g rel"
  have v0: "hop_value [s \<mapsto> 0] = [s \<mapsto> 0]"
    by (auto simp: hop_value_def)
  have start: "map (\<lambda>v. (v, int (the ([s \<mapsto> 0] v)))) [s] = [(s, 0)]"
    by simp
  obtain R D where R: "bfs_neighborhood g s H rel = Some R" "bfs_inv ?S s (\<lambda>d. int d < H) D []"
    "hops_ok g rel s D R" "\<forall>v d. D v = Some (Suc d) \<longrightarrow> int (Suc d) \<le> H"
  proof -
    have "hops_ok g rel s [s \<mapsto> 0] []" "\<forall>v d. [s \<mapsto> 0] v = Some (Suc d) \<longrightarrow> int (Suc d) \<le> H"
      by (auto simp: hops_ok_def)
    from hops_loop_ok [OF assms bfs_within.start this] show thesis
      using that unfolding bfs_neighborhood_def v0 start by (auto simp del: fun_upd_apply)
  qed
  note cmp = bfs_within.complete [OF R(2)]
  have s: "D s = Some 0"
    using R(2) by (simp add: bfs_inv_def)
  have "(\<exists>h \<in> set R. hr_node h = v \<and> hr_hop h = int d) \<longleftrightarrow> v \<noteq> s \<and> hop_dist ?S s v d \<and> int d \<le> H" for v d
  proof
    assume "\<exists>h \<in> set R. hr_node h = v \<and> hr_hop h = int d"
    then obtain h d' where h: "h \<in> set R" "hr_node h = v" "D v = Some (Suc d')" "int d = int (Suc d')"
      using R(3) by (fastforce simp: hops_ok_def)
    then show "v \<noteq> s \<and> hop_dist ?S s v d \<and> int d \<le> H"
      using cmp(1) R(4) s by (metis Suc_neq_Zero of_nat_eq_iff option.inject)
  next
    assume v: "v \<noteq> s \<and> hop_dist ?S s v d \<and> int d \<le> H"
    then have "v \<in> dom D"
      by (intro cmp(2) [of v d]) auto
    then have "D v = Some d" "v \<in> hr_node ` set R"
      using cmp(1) v R(3) by (auto simp: hops_ok_def)
    then show "\<exists>h \<in> set R. hr_node h = v \<and> hr_hop h = int d"
      using R(3) unfolding hops_ok_def by fastforce
  qed
  moreover have "hop_dist ?S s (hr_via h) (nat (hr_hop h) - 1) \<and> entry_edge g rel h" if "h \<in> set R" for h
  proof -
    obtain d where d: "hr_hop h = int (Suc d)" "D (hr_via h) = Some d" "entry_edge g rel h"
      using R(3) \<open>h \<in> set R\<close> by (rule hops_okD)
    have "nat (hr_hop h) - 1 = d"
      by (simp only: d(1) nat_int diff_Suc_1 One_nat_def)
    then show ?thesis
      using bfs_within.found_dist [OF R(2) d(2)] d(3) by simp
  qed
  moreover have "distinct (map hr_node R)"
    using R(3) by (simp add: hops_ok_def)
  ultimately show ?thesis
    using R(1) by (intro exI [of _ R] conjI allI) simp_all
qed

section \<open>Raw arrays\<close>

definition cell :: "'a raw_array \<Rightarrow> int \<Rightarrow> 'a option" where
  "cell arr i = (case arr of None \<Rightarrow> None
     | Some xs \<Rightarrow> if 0 \<le> i \<and> i < int (length xs) then xs ! nat i else None)"

definition sized :: "'a raw_array \<Rightarrow> int \<Rightarrow> bool" where
  "sized arr n \<longleftrightarrow> (\<exists>xs. arr = Some xs \<and> int (length xs) = n)"

lemma arr_get_cell: "cell arr i = Some x \<Longrightarrow> arr_get arr i = Inr x"
  by (auto simp: cell_def arr_get_def split: option.splits if_splits)

lemma arr_put_cell:
  assumes "sized arr n" "0 \<le> i" "i < n"
  obtains arr' where "arr_put arr i x = Inr arr'" "sized arr' n" "cell arr' = (cell arr)(i \<mapsto> x)"
proof -
  obtain xs where xs: "arr = Some xs" "int (length xs) = n"
    using assms(1) by (auto simp: sized_def)
  have "cell (Some (xs[nat i := Some x])) = (cell arr)(i \<mapsto> x)"
    using assms(2,3) xs by (auto simp: cell_def fun_eq_iff nth_list_update)
  then show thesis
    using assms(2,3) xs by (intro that [of "Some (xs[nat i := Some x])"]) (auto simp: arr_put_def sized_def)
qed

section \<open>Scanning the edges of a node for the target\<close>

definition arrays_ok :: "int \<Rightarrow> int set \<Rightarrow> bfs_arrays \<Rightarrow> bool" where
  "arrays_ok n A st \<longleftrightarrow> sized (ba_parent st) n \<and> sized (ba_via st) n \<and> sized (ba_visited st) n \<and>
     sized (ba_queue st) n \<and> (\<forall>i. 0 \<le> i \<and> i < n \<longrightarrow> cell (ba_visited st) i = Some (i \<in> A))"

text \<open>The parents and relationships written for the nodes in \<open>B\<close>, found from \<open>u\<close>.\<close>

definition linked :: "string \<Rightarrow> int \<Rightarrow> edge list \<Rightarrow> int set \<Rightarrow> bfs_arrays \<Rightarrow> bfs_arrays \<Rightarrow> bool" where
  "linked rel u es B st st' \<longleftrightarrow> (\<forall>v.
     (v \<in> B \<longrightarrow> cell (ba_parent st') v = Some u \<and>
        (\<exists>e \<in> set es. admits rel e \<and> ed_to e = v \<and> cell (ba_via st') v = Some (ed_rel e))) \<and>
     (v \<notin> B \<longrightarrow> cell (ba_parent st') v = cell (ba_parent st) v \<and> cell (ba_via st') v = cell (ba_via st) v))"

lemma path_scan_ok:
  assumes "arrays_ok n A st" "\<forall>e \<in> set es. 0 \<le> ed_to e \<and> ed_to e < n" "target \<notin> A"
    "new = fresh_of (map ed_to (filter (admits rel) es)) A" "int (tail + length new) \<le> n"
  shows "\<exists>B st' tail'. path_scan rel target u es st tail = Inr (target \<in> set new, st', tail') \<and>
    B \<subseteq> set new \<and> (target \<in> set new \<longrightarrow> target \<in> B) \<and> linked rel u es B st st' \<and>
    (target \<notin> set new \<longrightarrow> B = set new \<and> tail' = tail + length new \<and> arrays_ok n (A \<union> set new) st' \<and>
      (\<forall>i < tail. cell (ba_queue st') (int i) = cell (ba_queue st) (int i)) \<and>
      (\<forall>j < length new. cell (ba_queue st') (int (tail + j)) = Some (new ! j)))"
  using assms
proof (induction es arbitrary: A st tail new)
  case Nil
  then show ?case by (auto simp: linked_def)
next
  case (Cons e es)
  let ?v = "ed_to e"
  have v: "0 \<le> ?v" "?v < n" using Cons.prems(2) by auto
  have grow: "linked rel u (e # es) B st st'" if "linked rel u es B st st'" for B st st'
    using that unfolding linked_def by auto
  show ?case
  proof (cases "admits rel e \<and> ?v \<notin> A")
    case False
    have "path_scan rel target u (e # es) st tail = path_scan rel target u es st tail"
    proof (cases "admits rel e")
      case True
      then have "cell (ba_visited st) ?v = Some True"
        using False v Cons.prems(1) by (simp add: arrays_ok_def)
      with True show ?thesis by (simp add: arr_get_cell)
    qed simp
    moreover have "new = fresh_of (map ed_to (filter (admits rel) es)) A"
      using False Cons.prems(4) by auto
    ultimately show ?thesis
      using Cons.IH [OF Cons.prems(1) _ Cons.prems(3) _ Cons.prems(5)] Cons.prems(2) grow
      by (simp del: path_scan.simps) blast
  next
    case True
    have unseen: "arr_get (ba_visited st) ?v = Inr False"
      using True v Cons.prems(1) by (intro arr_get_cell) (simp add: arrays_ok_def)
    have sz: "sized (ba_parent st) n" "sized (ba_via st) n" "sized (ba_visited st) n"
      using Cons.prems(1) by (simp_all add: arrays_ok_def)
    obtain vis where vis: "arr_put (ba_visited st) ?v True = Inr vis" "sized vis n"
      "cell vis = (cell (ba_visited st))(?v \<mapsto> True)"
      by (rule arr_put_cell [OF sz(3) v])
    obtain par where par: "arr_put (ba_parent st) ?v u = Inr par" "sized par n"
      "cell par = (cell (ba_parent st))(?v \<mapsto> u)"
      by (rule arr_put_cell [OF sz(1) v])
    obtain via where via: "arr_put (ba_via st) ?v (ed_rel e) = Inr via" "sized via n"
      "cell via = (cell (ba_via st))(?v \<mapsto> ed_rel e)"
      by (rule arr_put_cell [OF sz(2) v])
    let ?st = "st\<lparr>ba_visited := vis, ba_parent := par, ba_via := via\<rparr>"
    let ?rest = "fresh_of (map ed_to (filter (admits rel) es)) (insert ?v A)"
    have new: "new = ?v # ?rest"
      using True Cons.prems(4) by simp
    have link1: "linked rel u (e # es) {?v} st ?st"
      using True by (auto simp: linked_def par(3) via(3))
    show ?thesis
    proof (cases "?v = target")
      case t: True
      then have "path_scan rel target u (e # es) st tail = Inr (True, ?st, tail)"
        using True unseen vis(1) par(1) via(1) by (simp add: Let_def)
      then show ?thesis
        using t new link1 by (intro exI [of _ "{?v}"] exI [of _ ?st] exI [of _ tail]) simp
    next
      case t: False
      obtain que where que: "arr_put (ba_queue st) (int tail) ?v = Inr que" "sized que n"
        "cell que = (cell (ba_queue st))(int tail \<mapsto> ?v)"
      proof (rule arr_put_cell [of "ba_queue st" n "int tail" ?v])
        show "sized (ba_queue st) n" using Cons.prems(1) by (simp add: arrays_ok_def)
        show "int tail < n" using Cons.prems(5) new by simp
      qed (use that in auto)
      let ?st2 = "?st\<lparr>ba_queue := que\<rparr>"
      have ok2: "arrays_ok n (insert ?v A) ?st2"
        using Cons.prems(1) vis par(2) via(2) que(2) by (simp add: arrays_ok_def)
      have eq: "path_scan rel target u (e # es) st tail = path_scan rel target u es ?st2 (tail + 1)"
        using True unseen t by (simp add: vis(1) par(1) via(1) que(1) Let_def)
      have fresh: "?v \<notin> set ?rest"
        by (simp add: fresh_of_set)
      obtain B st' tail' where ih:
        "path_scan rel target u es ?st2 (tail + 1) = Inr (target \<in> set ?rest, st', tail')"
        "B \<subseteq> set ?rest" "target \<in> set ?rest \<longrightarrow> target \<in> B" "linked rel u es B ?st2 st'"
        "target \<notin> set ?rest \<longrightarrow> B = set ?rest \<and> tail' = tail + 1 + length ?rest \<and>
          arrays_ok n (insert ?v A \<union> set ?rest) st' \<and>
          (\<forall>i < tail + 1. cell (ba_queue st') (int i) = cell (ba_queue ?st2) (int i)) \<and>
          (\<forall>j < length ?rest. cell (ba_queue st') (int (tail + 1 + j)) = Some (?rest ! j))"
        using Cons.IH [OF ok2 _ _ refl, of "tail + 1"] Cons.prems(2,3,5) t new by auto
      have link: "linked rel u (e # es) (insert ?v B) st st'"
        unfolding linked_def
      proof (intro allI)
        fix x
        note ihx = spec [OF ih(4) [unfolded linked_def], of x]
        have "?v \<notin> B" using ih(2) fresh by blast
        then show "(x \<in> insert ?v B \<longrightarrow> cell (ba_parent st') x = Some u \<and>
            (\<exists>e' \<in> set (e # es). admits rel e' \<and> ed_to e' = x \<and> cell (ba_via st') x = Some (ed_rel e'))) \<and>
          (x \<notin> insert ?v B \<longrightarrow> cell (ba_parent st') x = cell (ba_parent st) x \<and>
            cell (ba_via st') x = cell (ba_via st) x)"
          using ihx True by (cases "x \<in> B"; cases "x = ?v") (auto simp: par(3) via(3))
      qed
      have tgt: "target \<in> set new \<longleftrightarrow> target \<in> set ?rest"
        using t new by simp
      have q: "cell (ba_queue st') (int (tail + j)) = Some (new ! j)"
        if "target \<notin> set ?rest" "j < length new" for j
        using ih(5) that new que(3) by (cases j) auto
      show ?thesis
        unfolding eq ih(1) tgt
        using ih(2,3,5) link q new que(3)
        by (intro exI [of _ "insert ?v B"] exI [of _ st'] exI [of _ tail']) auto
    qed
  qed
qed

section \<open>Following the parents\<close>

text \<open>A path with the relationships it goes through.\<close>

definition rel_path :: "dgraph \<Rightarrow> string \<Rightarrow> int list \<Rightarrow> string list \<Rightarrow> bool" where
  "rel_path g rel vs rs \<longleftrightarrow> length vs = Suc (length rs) \<and>
     (\<forall>i < length rs. \<exists>e \<in> set (dg_neighbors g (vs ! i)).
        admits rel e \<and> ed_to e = vs ! Suc i \<and> ed_rel e = rs ! i)"

lemma rel_path_snoc:
  assumes "rel_path g rel vs rs" "e \<in> set (dg_neighbors g (last vs))" "admits rel e"
  shows "rel_path g rel (vs @ [ed_to e]) (rs @ [ed_rel e])"
proof -
  have len: "length vs = Suc (length rs)"
    using assms(1) by (simp add: rel_path_def)
  then have "last vs = vs ! length rs"
    by (metis diff_Suc_1 last_conv_nth length_0_conv nat.distinct(1))
  then show ?thesis
    using assms len by (auto simp: rel_path_def nth_append less_Suc_eq)
qed

text \<open>Every found node but the source was entered from its parent, one hop nearer to the source.\<close>

definition parents_ok :: "dgraph \<Rightarrow> string \<Rightarrow> int \<Rightarrow> (int \<rightharpoonup> nat) \<Rightarrow> int raw_array \<Rightarrow> string raw_array \<Rightarrow> bool" where
  "parents_ok g rel s D par via \<longleftrightarrow> cell par s = Some (-1) \<and> (\<forall>v d. D v = Some d \<longrightarrow> v \<noteq> s \<longrightarrow>
     (\<exists>u e k. d = Suc k \<and> D u = Some k \<and> e \<in> set (dg_neighbors g u) \<and> admits rel e \<and> ed_to e = v \<and>
        cell par v = Some u \<and> cell via v = Some (ed_rel e)))"

lemma parents_okD:
  assumes "parents_ok g rel s D par via" "D v = Some d" "v \<noteq> s"
  obtains u e k where "d = Suc k" "D u = Some k" "e \<in> set (dg_neighbors g u)" "admits rel e" "ed_to e = v"
    "cell par v = Some u" "cell via v = Some (ed_rel e)"
  using assms unfolding parents_ok_def by blast

lemma walk_back_ok:
  assumes "parents_ok g rel s D par via" "D v = Some d" "-1 \<notin> dom D" "s \<in> dom D" "D s = Some 0"
  shows "\<exists>P R. walk_back par via v ns rs = Some (Inr (ns @ rev P, rs @ rev R)) \<and>
    rel_path g rel P R \<and> hd P = s \<and> last P = v \<and> P \<noteq> [] \<and> length R = d"
  using assms(2)
proof (induction d arbitrary: v ns rs rule: less_induct)
  case (less d)
  have v: "v \<noteq> -1" using less.prems assms(3) by blast
  show ?case
  proof (cases "v = s")
    case True
    have "arr_get par s = Inr (-1)"
      using assms(1) by (intro arr_get_cell) (simp add: parents_ok_def)
    moreover have "walk_back par via (-1) (ns @ [s]) rs = Some (Inr (ns @ [s], rs))"
      by (subst walk_back.simps) simp
    ultimately have "walk_back par via v ns rs = Some (Inr (ns @ [s], rs))"
      using v True by (subst walk_back.simps) simp
    moreover have "d = 0"
      using less.prems assms(5) True by simp
    ultimately show ?thesis
      using True by (intro exI [of _ "[s]"] exI [of _ "[]"]) (simp add: rel_path_def)
  next
    case False
    obtain u e k where u: "d = Suc k" "D u = Some k" "e \<in> set (dg_neighbors g u)" "admits rel e"
      "ed_to e = v" "cell par v = Some u" "cell via v = Some (ed_rel e)"
      using assms(1) less.prems False by (rule parents_okD)
    have "u \<noteq> -1" using u(2) assms(3) by blast
    then have step: "walk_back par via v ns rs = walk_back par via u (ns @ [v]) (rs @ [ed_rel e])"
      using v arr_get_cell [OF u(6)] arr_get_cell [OF u(7)] by (subst walk_back.simps) simp
    obtain P R where ih: "walk_back par via u (ns @ [v]) (rs @ [ed_rel e]) =
        Some (Inr ((ns @ [v]) @ rev P, (rs @ [ed_rel e]) @ rev R))"
      "rel_path g rel P R" "hd P = s" "last P = u" "P \<noteq> []" "length R = k"
      using less.IH [OF _ u(2)] u(1) by blast
    have "rel_path g rel (P @ [v]) (R @ [ed_rel e])"
      using rel_path_snoc [OF ih(2), of e] u(3-5) ih(4) by simp
    then show ?thesis
      unfolding step using ih u(1)
      by (intro exI [of _ "P @ [v]"] exI [of _ "R @ [ed_rel e]"]) simp
  qed
qed

text \<open>The parents after a scan: the nodes found so far and those in \<open>B\<close>.\<close>

lemma parents_ok_link:
  assumes "parents_ok g rel s D (ba_parent st) (ba_via st)" "linked rel u (dg_neighbors g u) B st st'"
    "D u = Some d" "B \<inter> dom D = {}" "s \<in> dom D"
  shows "parents_ok g rel s (\<lambda>v. if v \<in> B then Some (Suc d) else D v) (ba_parent st') (ba_via st')"
  unfolding parents_ok_def
proof (intro conjI allI impI)
  have l: "v \<in> B \<Longrightarrow> cell (ba_parent st') v = Some u \<and>
      (\<exists>e \<in> set (dg_neighbors g u). admits rel e \<and> ed_to e = v \<and> cell (ba_via st') v = Some (ed_rel e))"
    "v \<notin> B \<Longrightarrow> cell (ba_parent st') v = cell (ba_parent st) v \<and> cell (ba_via st') v = cell (ba_via st) v" for v
    using assms(2) unfolding linked_def by blast+
  show "cell (ba_parent st') s = Some (-1)"
    using assms(1,4,5) l(2) [of s] by (auto simp: parents_ok_def)
  fix v k
  assume v: "(if v \<in> B then Some (Suc d) else D v) = Some k" "v \<noteq> s"
  show "\<exists>u e j. k = Suc j \<and> (if u \<in> B then Some (Suc d) else D u) = Some j \<and> e \<in> set (dg_neighbors g u) \<and>
      admits rel e \<and> ed_to e = v \<and> cell (ba_parent st') v = Some u \<and> cell (ba_via st') v = Some (ed_rel e)"
  proof (cases "v \<in> B")
    case True
    have "u \<notin> B" using assms(3,4) by blast
    with True v l(1) [OF True] assms(3) show ?thesis
      by (intro exI [of _ u]) auto
  next
    case False
    then have "D v = Some k" using v(1) by simp
    then obtain w e j where w: "k = Suc j" "D w = Some j" "e \<in> set (dg_neighbors g w)" "admits rel e"
      "ed_to e = v" "cell (ba_parent st) v = Some w" "cell (ba_via st) v = Some (ed_rel e)"
      using v(2) by (rule parents_okD [OF assms(1)])
    have "w \<notin> B" using w(2) assms(4) by blast
    with w l(2) [OF False] show ?thesis
      by (intro exI [of _ w] exI [of _ e] exI [of _ j]) simp
  qed
qed

section \<open>The path search\<close>

definition shortest :: "dgraph \<Rightarrow> string \<Rightarrow> int \<Rightarrow> int \<Rightarrow> path_result \<Rightarrow> bool" where
  "shortest g rel s t p \<longleftrightarrow> rel_path g rel (pr_nodes p) (pr_rels p) \<and> pr_nodes p \<noteq> [] \<and>
     hd (pr_nodes p) = s \<and> last (pr_nodes p) = t \<and> hop_dist (rel_succs g rel) s t (length (pr_rels p))"

definition path_answer :: "dgraph \<Rightarrow> string \<Rightarrow> int \<Rightarrow> int \<Rightarrow> path_result \<Rightarrow> bool" where
  "path_answer g rel s t p \<longleftrightarrow>
     (if t \<in> reachable (rel_succs g rel) s then shortest g rel s t p else p = no_path)"

definition path_inv ::
  "dgraph \<Rightarrow> string \<Rightarrow> int \<Rightarrow> int \<Rightarrow> int \<Rightarrow> (int \<rightharpoonup> nat) \<Rightarrow> int list \<Rightarrow> int list \<Rightarrow> bfs_arrays \<Rightarrow> bool" where
  "path_inv g rel s t n D served Q st \<longleftrightarrow> bfs_inv (rel_succs g rel) s (\<lambda>_. True) D Q \<and>
     arrays_ok n (dom D) st \<and> t \<notin> dom D \<and> dom D \<subseteq> {0 ..< n} \<and>
     parents_ok g rel s D (ba_parent st) (ba_via st) \<and>
     distinct (served @ Q) \<and> set (served @ Q) = dom D \<and>
     (\<forall>i < length (served @ Q). cell (ba_queue st) (int i) = Some ((served @ Q) ! i))"

lemma path_loop_ok:
  assumes "finite (dom (dg_adj g))" "path_inv g rel s t n D served Q st"
    "\<forall>u \<in> {0 ..< n}. \<forall>e \<in> set (dg_neighbors g u). ed_to e \<in> {0 ..< n}"
  shows "\<exists>p. path_loop g rel t st (length served) (length (served @ Q)) = Some (Inr p) \<and> path_answer g rel s t p"
  using assms(2)
proof (induction "bfs_all.work (rel_succs g rel) s D Q" arbitrary: D Q served st rule: less_induct)
  case less
  let ?S = "rel_succs g rel"
  note inv = less.prems [unfolded path_inv_def]
  show ?case
  proof (cases Q)
    case Nil
    then have "path_loop g rel t st (length served) (length (served @ Q)) = Some (Inr no_path)"
      by (subst path_loop.simps) simp
    moreover have "t \<notin> reachable ?S s"
    proof
      assume "t \<in> reachable ?S s"
      then obtain d where d: "hop_dist ?S s t d"
        unfolding hop_dist_ex by blast
      have "bfs_inv ?S s (\<lambda>_. True) D []"
        using inv Nil by simp
      from bfs_all.complete(2) [OF this d] have "t \<in> dom D" by simp
      with inv show False by simp
    qed
    ultimately show ?thesis
      by (simp add: path_answer_def)
  next
    case (Cons u Q')
    have b: "bfs_inv ?S s (\<lambda>_. True) D (u # Q')"
      using inv Cons by simp
    then obtain d where du: "D u = Some d" and s: "D s = Some 0"
      by (auto simp: bfs_inv_def)
    define new where "new = fresh_of (?S u) (dom D)"
    let ?D = "at_hop D new (Suc d)"
    have b': "bfs_inv ?S s (\<lambda>_. True) ?D (Q' @ new)"
      using bfs_all.expand [OF b TrueI] by (simp add: new_def du)
    have u: "u \<in> {0 ..< n}" using inv du by blast
    have tos: "\<forall>e \<in> set (dg_neighbors g u). 0 \<le> ed_to e \<and> ed_to e < n"
      using assms(3) u by auto
    have newset: "set new \<subseteq> {0 ..< n}" "set new \<inter> dom D = {}" "distinct new"
      using tos fresh_of_set [of "?S u" "dom D"] fresh_of_distinct [of "?S u" "dom D"]
      by (auto simp: new_def rel_succs_def)
    have dq: "distinct (served @ Q)" "set (served @ Q) = dom D" "dom D \<subseteq> {0 ..< n}"
      using inv by blast+
    have all: "distinct ((served @ Q) @ new)"
      unfolding distinct_append [of "served @ Q"] dq(2) using dq(1) newset by blast
    have "set ((served @ Q) @ new) \<subseteq> {0 ..< n}"
      unfolding set_append [of "served @ Q"] dq(2) using dq(3) newset(1) by blast
    then have room: "int (length (served @ Q) + length new) \<le> n"
      using card_mono [OF finite_atLeastLessThan_int, of "set ((served @ Q) @ new)" 0 n] distinct_card [OF all] u
      by (simp add: le_nat_iff)
    have "\<forall>i < length (served @ Q). cell (ba_queue st) (int i) = Some ((served @ Q) ! i)"
      using inv by blast
    then have "cell (ba_queue st) (int (length served)) = Some u"
      using Cons by (elim allE [of _ "length served"]) simp
    note head = arr_get_cell [OF this]
    obtain B st' tail' where sc:
      "path_scan rel t u (dg_neighbors g u) st (length (served @ Q)) = Inr (t \<in> set new, st', tail')"
      "B \<subseteq> set new" "t \<in> set new \<longrightarrow> t \<in> B" "linked rel u (dg_neighbors g u) B st st'"
      "t \<notin> set new \<longrightarrow> B = set new \<and> tail' = length (served @ Q) + length new \<and> arrays_ok n (dom D \<union> set new) st' \<and>
        (\<forall>i < length (served @ Q). cell (ba_queue st') (int i) = cell (ba_queue st) (int i)) \<and>
        (\<forall>j < length new. cell (ba_queue st') (int (length (served @ Q) + j)) = Some (new ! j))"
      using path_scan_ok [OF conjunct1 [OF conjunct2 [OF inv]] tos conjunct1 [OF conjunct2 [OF conjunct2 [OF inv]]]
          new_def [unfolded rel_succs_def] room, of u]
      by blast
    have par: "parents_ok g rel s (\<lambda>v. if v \<in> B then Some (Suc d) else D v) (ba_parent st') (ba_via st')"
    proof (rule parents_ok_link [where D = D and u = u])
      show "parents_ok g rel s D (ba_parent st) (ba_via st)" using inv by blast
      show "D u = Some d" by (rule du)
      show "B \<inter> dom D = {}" using sc(2) newset(2) by blast
      show "s \<in> dom D" using s by blast
    qed (rule sc(4))
    show ?thesis
    proof (cases "t \<in> set new")
      case True
      let ?DB = "\<lambda>v. if v \<in> B then Some (Suc d) else D v"
      have dom: "dom ?DB = dom D \<union> B" "?DB s = Some 0"
        using s sc(2) newset(2) by (auto split: if_splits)
      have "dom ?DB \<subseteq> {0 ..< n}"
        using dom(1) inv newset(1) sc(2) by auto
      then have neg: "-1 \<notin> dom ?DB" by auto
      have "?DB t = Some (Suc d)" using True sc(3) by simp
      moreover have "s \<in> dom ?DB" using dom(2) by blast
      ultimately obtain P R where w: "walk_back (ba_parent st') (ba_via st') t [] [] = Some (Inr (rev P, rev R))"
        "rel_path g rel P R" "hd P = s" "last P = t" "P \<noteq> []" "length R = Suc d"
        using walk_back_ok [OF par _ neg _ dom(2), of t "Suc d" "[]" "[]"] by auto
      let ?p = "\<lparr>pr_nodes = P, pr_rels = R\<rparr>"
      have "path_loop g rel t st (length served) (length (served @ Q)) = Some (Inr ?p)"
        using True head sc(1) w(1) by (subst path_loop.simps) (simp add: Cons)
      moreover have hd: "hop_dist ?S s t (Suc d)"
        using bfs_all.found_dist [OF b', of t "Suc d"] True by (simp add: at_hop_def)
      then have "shortest g rel s t ?p"
        using w by (simp add: shortest_def)
      moreover have "t \<in> reachable ?S s"
        unfolding hop_dist_ex using hd by blast
      ultimately show ?thesis
        by (simp add: path_answer_def)
    next
      case False
      note sc5 = sc(5) [rule_format, OF False]
      have DB: "(\<lambda>v. if v \<in> B then Some (Suc d) else D v) = ?D"
        using sc5 by (simp add: at_hop_def)
      have q: "cell (ba_queue st') (int i) = Some (((served @ [u]) @ Q' @ new) ! i)"
        if i: "i < length ((served @ [u]) @ Q' @ new)" for i
      proof -
        define A where "A = served @ Q"
        have L: "(served @ [u]) @ Q' @ new = A @ new"
          by (simp add: A_def Cons)
        have old: "\<forall>i < length A. cell (ba_queue st') (int i) = Some (A ! i)"
          using sc5 inv unfolding A_def by presburger
        have fresh: "\<forall>j < length new. cell (ba_queue st') (int (length A + j)) = Some (new ! j)"
          using sc5 unfolding A_def by blast
        show ?thesis
        proof (cases "i < length A")
          case True
          then show ?thesis using old unfolding L by (simp add: nth_append)
        next
          case False
          then have "i - length A < length new" "i = length A + (i - length A)"
            using i unfolding L by simp_all
          then show ?thesis using fresh False unfolding L nth_append by metis
        qed
      qed
      have "path_inv g rel s t n ?D (served @ [u]) (Q' @ new) st'"
        unfolding path_inv_def
        using b' inv sc5 par all newset q False DB by (auto simp: Cons)
      moreover have "bfs_all.work ?S s ?D (Q' @ new) < bfs_all.work ?S s D Q"
        using bfs_all.work_expand [OF b TrueI finite_reachable [OF assms(1)]] Cons by (simp add: new_def)
      ultimately obtain p where "path_loop g rel t st' (length (served @ [u])) (length ((served @ [u]) @ Q' @ new)) = Some (Inr p)"
        "path_answer g rel s t p"
        using less.hyps by blast
      moreover have "path_loop g rel t st (length served) (length (served @ Q)) =
          path_loop g rel t st' (length (served @ [u])) (length ((served @ [u]) @ Q' @ new))"
        using False head sc(1) sc5 by (subst path_loop.simps) (simp add: Cons add.assoc)
      ultimately show ?thesis by simp
    qed
  qed
qed

text \<open>The arrays of a query fit in the arena, or come from the heap.\<close>

definition arena_fits :: "arena option \<Rightarrow> int \<Rightarrow> bool" where
  "arena_fits ar n \<longleftrightarrow>
     (case ar of None \<Rightarrow> True
      | Some a \<Rightarrow> arena_ok a \<and> int (unat (ar_used a)) + 17 * n + 32 \<le> int (unat (ar_cap a)))"

lemma word_of_small: "0 \<le> n \<Longrightarrow> n < 2 ^ 40 \<Longrightarrow> unat (word_of_int n :: u64) = nat n"
  by (simp add: unat_eq_nat_uint uint_word_of_int take_bit_int_eq_self)

lemma alloc_array_fits:
  assumes "arena_ok a" "k \<le> 4" "0 \<le> n" "n < 2 ^ 40" "unat sz \<le> 8"
    "int (unat (ar_used a)) + int (unat sz) * n + 2 ^ k \<le> int (unat (ar_cap a))"
  obtains off a' where "arena_alloc_array a sz (2 ^ k) (word_of_int n) = (Some off, a')" "arena_ok a'"
    "ar_cap a' = ar_cap a" "int (unat (ar_used a')) \<le> int (unat (ar_used a)) + int (unat sz) * n + 2 ^ k"
proof -
  have n: "unat (word_of_int n :: u64) = nat n" "nat n < 2 ^ 40"
    using assms(3,4) by (simp_all add: word_of_small)
  have "unat sz * nat n < 2 ^ 43"
    using assms(5) n(2) mult_le_mono [of "unat sz" 8 "nat n" "2 ^ 40 - 1"] by simp
  then have m: "unat (sz * word_of_int n) = unat sz * nat n" "unat (sz * word_of_int n) < 2 ^ 62"
    using n(1) by (simp_all add: unat_mult_lem [THEN iffD1])
  have nn: "int (unat sz * nat n) = int (unat sz) * n"
    using assms(3) by simp
  show thesis
  proof (cases "arena_alloc a (sz * word_of_int n) (2 ^ k)")
    case (Pair p a')
    note ok = arena_alloc_ok [OF assms(1) m(2), of k, unfolded Pair m(1)]
    show thesis
    proof (cases p)
      case None
      then have "int (unat (ar_cap a)) < int (unat (ar_used a) + 2 ^ k + unat sz * nat n)"
        using ok assms(2) by (simp only: of_nat_less_iff) simp
      then show thesis
        using assms(3,6) nn by simp
    next
      case (Some off)
      have a': "arena_ok a'" "ar_cap a' = ar_cap a" "unat (ar_used a') = unat off + unat sz * nat n"
        using ok assms(2) Some by simp_all
      have "unat off < unat (ar_used a) + 2 ^ k"
      proof -
        have "off = align_up (ar_used a) (2 ^ k)"
          using Pair Some by (auto simp: arena_alloc_def Let_def split: if_splits)
        moreover have "unat (ar_used a) + 2 ^ k \<le> 2 ^ 64"
          using assms(1,2) power_increasing [of k 4 "2 :: nat"]
          by (simp add: arena_ok_def word_le_nat_alt)
        ultimately show ?thesis
          using align_up_ok(3) [of k "ar_used a"] assms(2) by simp
      qed
      then have "int (unat off) < int (unat (ar_used a) + 2 ^ k)"
        by (simp only: of_nat_less_iff)
      then have "int (unat (ar_used a')) \<le> int (unat (ar_used a)) + int (unat sz) * n + 2 ^ k"
        unfolding a'(3) of_nat_add nn by simp
      then show thesis
        using a'(1,2) Pair Some by (intro that [of off a']) (simp_all add: arena_alloc_array_def)
    qed
  qed
qed

lemma sized_fresh: "0 \<le> n \<Longrightarrow> sized (Some (fresh_array n)) n"
  by (simp add: sized_def fresh_array_def)

lemma bfs_alloc_ok:
  assumes "arena_fits ar n" "0 \<le> n" "n < 2 ^ 40"
  obtains st ar' where "bfs_alloc ar n = (st, ar')" "sized (ba_parent st) n" "sized (ba_via st) n"
    "sized (ba_visited st) n" "sized (ba_queue st) n"
proof (cases ar)
  case None
  let ?xs = "\<lparr>ba_parent = Some (fresh_array n), ba_via = Some (fresh_array n),
    ba_visited = Some (fresh_array n), ba_queue = Some (fresh_array n)\<rparr>"
  have "bfs_alloc ar n = (?xs, None)"
    by (simp add: bfs_alloc_def None)
  then show thesis
    by (rule that) (simp_all add: sized_fresh assms(2))
next
  case (Some a)
  have a: "arena_ok a" "int (unat (ar_used a)) + 17 * n + 32 \<le> int (unat (ar_cap a))"
    using assms(1) by (simp_all add: arena_fits_def Some)
  obtain p a1 where 1: "arena_alloc_array a 4 (2 ^ 2) (word_of_int n) = (Some p, a1)" "arena_ok a1"
    "ar_cap a1 = ar_cap a" "int (unat (ar_used a1)) \<le> int (unat (ar_used a)) + int (unat (4 :: u64)) * n + 2 ^ 2"
    by (rule alloc_array_fits [of a 2 n 4]) (use a assms in auto)
  obtain v a2 where 2: "arena_alloc_array a1 8 (2 ^ 3) (word_of_int n) = (Some v, a2)" "arena_ok a2"
    "ar_cap a2 = ar_cap a1" "int (unat (ar_used a2)) \<le> int (unat (ar_used a1)) + int (unat (8 :: u64)) * n + 2 ^ 3"
    by (rule alloc_array_fits [of a1 3 n 8]) (use a 1 assms in auto)
  obtain b a3 where 3: "arena_alloc_array a2 1 (2 ^ 0) (word_of_int n) = (Some b, a3)" "arena_ok a3"
    "ar_cap a3 = ar_cap a2" "int (unat (ar_used a3)) \<le> int (unat (ar_used a2)) + int (unat (1 :: u64)) * n + 2 ^ 0"
    by (rule alloc_array_fits [of a2 0 n 1]) (use a 1 2 assms in auto)
  obtain q a4 where 4: "arena_alloc_array a3 4 (2 ^ 2) (word_of_int n) = (Some q, a4)" "arena_ok a4"
    by (rule alloc_array_fits [of a3 2 n 4]) (use a 1 2 3 assms in auto)
  let ?xs = "\<lparr>ba_parent = Some (fresh_array n), ba_via = Some (fresh_array n),
    ba_visited = Some (fresh_array n), ba_queue = Some (fresh_array n)\<rparr>"
  have "bfs_alloc ar n = (?xs, Some a4)"
    using 1(1) 2(1) 3(1) 4(1) by (simp add: bfs_alloc_def from_arena_def Some)
  then show thesis
    by (rule that) (simp_all add: sized_fresh assms(2))
qed

lemma bfs_start_ok:
  assumes "sized (ba_parent st) n" "sized (ba_via st) n" "sized (ba_visited st) n" "sized (ba_queue st) n"
    "0 \<le> s" "s < n" "t \<noteq> s"
  obtains st0 where "bfs_start n s st = Inr st0" "path_inv g rel s t n [s \<mapsto> 0] [] [s] st0"
proof -
  obtain xs where xs: "ba_visited st = Some xs" "int (length xs) = n"
    using assms(3) by (auto simp: sized_def)
  let ?vis0 = "Some (map (\<lambda>_. Some False) xs)"
  have v0: "sized ?vis0 n" "\<And>i. 0 \<le> i \<Longrightarrow> i < n \<Longrightarrow> cell ?vis0 i = Some False"
    using xs(2) by (auto simp: sized_def cell_def)
  have n: "(0::int) < n" using assms(5,6) by simp
  obtain que where que: "arr_put (ba_queue st) 0 s = Inr que" "sized que n" "cell que = (cell (ba_queue st))(0 \<mapsto> s)"
    by (rule arr_put_cell [OF assms(4) order_refl n])
  obtain vis where vis: "arr_put ?vis0 s True = Inr vis" "sized vis n" "cell vis = (cell ?vis0)(s \<mapsto> True)"
    by (rule arr_put_cell [OF v0(1) assms(5,6)])
  obtain par where par: "arr_put (ba_parent st) s (-1) = Inr par" "sized par n" "cell par = (cell (ba_parent st))(s \<mapsto> -1)"
    by (rule arr_put_cell [OF assms(1,5,6)])
  let ?st = "st\<lparr>ba_visited := vis, ba_queue := que, ba_parent := par\<rparr>"
  have "bfs_start n s st = Inr ?st"
    by (simp add: bfs_start_def fill_visited_def xs(1) que(1) vis(1) par(1))
  moreover have "path_inv g rel s t n [s \<mapsto> 0] [] [s] ?st"
    using bfs_all.start [of "rel_succs g rel" s] assms par vis que v0(2)
    by (simp add: path_inv_def arrays_ok_def parents_ok_def)
  ultimately show thesis by (rule that)
qed

lemma bfs_path_ok:
  assumes "finite (dom (dg_adj g))" "\<forall>u \<in> {0 .. dg_max_id g}. \<forall>e \<in> set (dg_neighbors g u). ed_to e \<in> {0 .. dg_max_id g}"
    "s \<in> {0 .. dg_max_id g}" "dg_max_id g < 2 ^ 31 - 1" "arena_fits ar (dg_max_id g + 1)"
  shows "\<exists>p ar'. bfs_path g s t rel ar = (Some (Inr p), ar') \<and> path_answer g rel s t p"
proof (cases "s = t")
  case True
  have "t \<in> reachable (rel_succs g rel) t"
    by (simp add: reachable_def)
  with True show ?thesis
    by (auto simp: bfs_path_def path_answer_def shortest_def rel_path_def hop_dist_self)
next
  case False
  let ?n = "dg_max_id g + 1"
  have n: "0 \<le> ?n" "?n < 2 ^ 40" "0 \<le> s" "s < ?n"
    using assms(3,4) by simp_all
  have range: "{0 .. dg_max_id g} = {0 ..< ?n}" by auto
  obtain st ar' where st: "bfs_alloc ar ?n = (st, ar')" "sized (ba_parent st) ?n" "sized (ba_via st) ?n"
    "sized (ba_visited st) ?n" "sized (ba_queue st) ?n"
    by (rule bfs_alloc_ok [OF assms(5) n(1,2)])
  obtain st0 where st0: "bfs_start ?n s st = Inr st0" "path_inv g rel s t ?n [s \<mapsto> 0] [] [s] st0"
    by (rule bfs_start_ok [OF st(2-5) n(3,4)]) (use False in auto)
  obtain p where "path_loop g rel t st0 (length ([] :: int list)) (length ([] @ [s])) = Some (Inr p)"
    "path_answer g rel s t p"
    using path_loop_ok [OF assms(1) st0(2)] assms(2) unfolding range by blast
  then show ?thesis
    using False st(1) st0(1) by (auto simp: bfs_path_def Let_def)
qed

end
