(* ===== verification/BFS_Properties.thy ===== *)
theory BFS_Properties
  imports BFS_Proofs
begin

text \<open>
  What the breadth first traversals promise of a graph that an edge log describes, and where the path
  search leaves its arrays.
\<close>

section \<open>Graphs and the ids they use\<close>

text \<open>
  The edges of the log stay between the ids that the arrays of the path search cover. The graph does
  not enforce it: \<^verbatim>\<open>add_edge\<close> accepts any ids and leaves \<^verbatim>\<open>max_node_id_\<close> alone.
\<close>

definition ids_covered :: "dgraph \<Rightarrow> graph_log \<Rightarrow> bool" where
  "ids_covered g a \<longleftrightarrow> dg_max_id g < 2 ^ 31 - 1 \<and>
     (\<forall>(f, t, r, w) \<in> set (snd a). f \<in> {0 .. dg_max_id g} \<and> t \<in> {0 .. dg_max_id g})"

lemma covered_neighbors:
  assumes "represents g a" "ids_covered g a"
  shows "\<forall>u \<in> {0 .. dg_max_id g}. \<forall>e \<in> set (dg_neighbors g u). ed_to e \<in> {0 .. dg_max_id g}"
proof (intro ballI)
  fix u e
  assume "e \<in> set (dg_neighbors g u)"
  then have "(u, ed_to e, ed_rel e, ed_weight e) \<in> set (snd a)"
    using assms(1) by (simp add: represents_def in_out_edges)
  then show "ed_to e \<in> {0 .. dg_max_id g}"
    using assms(2) by (fastforce simp: ids_covered_def)
qed

lemma represents_finite: "represents g a \<Longrightarrow> finite (dom (dg_adj g))"
  by (simp add: represents_def)

text \<open>A graph used by the witnesses: \<open>0 \<rightarrow> 1 \<rightarrow> 2\<close>.\<close>

definition chain_ops :: "graph_op list" where
  "chain_ops = [GAddNode 0 None [], GAddNode 2 None [], GAddEdge 0 1 ''a'' f32_one, GAddEdge 1 2 ''b'' f32_one]"

lemma chain_represents:
  "represents (foldl graph_step dg_new chain_ops) (foldl log_step (Map.empty, []) chain_ops)"
  by (rule graph.runs_follow [OF dg_new_ok])

lemma chain_covered:
  "dg_max_id (foldl graph_step dg_new chain_ops) = 2"
  "ids_covered (foldl graph_step dg_new chain_ops) (foldl log_step (Map.empty, []) chain_ops)"
  by (simp_all add: chain_ops_def ids_covered_def dg_add_node_def dg_add_edge_def dg_new_def)

section \<open>Failing allocations\<close>

lemma alloc_array_null:
  assumes "0 \<le> n" "n < 2 ^ 40" "0 < unat sz" "unat sz \<le> 8" "arena_ok a" "unat (ar_cap a) < unat sz * nat n" "k \<le> 4"
  shows "arena_alloc_array a sz (2 ^ k) (word_of_int n) = (None, a)"
proof -
  have n: "unat (word_of_int n :: u64) = nat n" "nat n < 2 ^ 40"
    using assms(1,2) by (simp_all add: word_of_small)
  have "unat sz * nat n < 2 ^ 43"
    using assms(4) n(2) mult_le_mono [of "unat sz" 8 "nat n" "2 ^ 40 - 1"] by simp
  then have m: "unat (sz * word_of_int n) = unat sz * nat n" "unat (sz * word_of_int n) < 2 ^ 62"
    using n(1) by (simp_all add: unat_mult_lem [THEN iffD1])
  have "arena_alloc a (sz * word_of_int n) (2 ^ k) = (None, a)"
  proof (cases "arena_alloc a (sz * word_of_int n) (2 ^ k)")
    case (Pair p a')
    note ok = arena_alloc_ok [OF assms(5) m(2), of k, unfolded Pair m(1)]
    show ?thesis
      using ok assms(6,7) Pair by (cases p) simp_all
  qed
  then show ?thesis by (simp add: arena_alloc_array_def)
qed

section \<open>Properties\<close>

text \<open>
  C8. The path search is correct on a graph whose edges stay within the node ids, from a source within
  them, when its arrays fit in the query arena: it returns, without leaving its arrays, a path over
  edges of the requested relationship with the fewest hops if there is one, and no path otherwise.
\<close>

theorem bfs_path_shortest:
  assumes "represents g a" "ids_covered g a" "source \<in> {0 .. dg_max_id g}" "arena_fits ar (dg_max_id g + 1)"
  shows "\<exists>p ar'. bfs_path g source target rel ar = (Some (Inr p), ar') \<and> path_answer g rel source target p"
  using represents_finite [OF assms(1)] covered_neighbors [OF assms(1,2)] assms(2-4)
  by (intro bfs_path_ok) (auto simp: ids_covered_def)

theorem bfs_path_shortest_witness:
  "\<exists>p ar'. bfs_path (foldl graph_step dg_new chain_ops) 0 2 [] (Some (arena_new (4 * 1024 * 1024))) = (Some (Inr p), ar') \<and>
     path_answer (foldl graph_step dg_new chain_ops) [] 0 2 p"
  by (rule bfs_path_shortest [OF chain_represents chain_covered(2)])
    (simp_all add: chain_covered(1) arena_fits_def arena_new_def arena_ok_def)

text \<open>
  C31. Outside these bounds the path search is undefined: from a source that is no index of its arrays,
  such as an id above every added node, its first writes are out of bounds.
\<close>

theorem bfs_path_out_of_bounds:
  assumes "source < 0 \<or> dg_max_id g < source" "source \<noteq> target" "-1 \<le> dg_max_id g" "dg_max_id g < 2 ^ 31 - 1"
    "arena_fits ar (dg_max_id g + 1)"
  shows "fst (bfs_path g source target rel ar) = Some (Inl OutOfBounds)"
proof -
  let ?n = "dg_max_id g + 1"
  obtain st ar' where st: "bfs_alloc ar ?n = (st, ar')" "sized (ba_visited st) ?n" "sized (ba_queue st) ?n"
    by (rule bfs_alloc_ok [OF assms(5)]) (use assms(3,4) in auto)
  have "bfs_start ?n source st = Inl OutOfBounds"
    using st(2,3) assms(1,3)
    by (auto simp: bfs_start_def fill_visited_def sized_def arr_put_def)
  then show ?thesis
    using assms(2) st(1) by (simp add: bfs_path_def Let_def)
qed

theorem bfs_path_out_of_bounds_witness:
  "fst (bfs_path dg_new 1 2 [] (Some (arena_new (4 * 1024 * 1024)))) = Some (Inl OutOfBounds)"
  by (rule bfs_path_out_of_bounds) (simp_all add: dg_new_def arena_fits_def arena_new_def arena_ok_def)

text \<open>
  Nor are the allocations checked: when four bytes for every id up to the greatest exceed the
  arena (a million ids and the four megabytes of the query arena), the search writes through a null
  pointer.
\<close>

theorem bfs_path_null_arena:
  assumes "source \<noteq> target" "0 \<le> dg_max_id g" "dg_max_id g < 2 ^ 31 - 1"
    "arena_ok a" "int (unat (ar_cap a)) < 4 * (dg_max_id g + 1)"
  shows "fst (bfs_path g source target rel (Some a)) = Some (Inl NullPointer)"
proof -
  define n where n: "n = dg_max_id g + 1"
  have b: "0 \<le> n" "n < 2 ^ 40" "0 < n"
    using assms(2,3) n by simp_all
  have c: "unat (ar_cap a) < 4 * nat n" "unat (ar_cap a) < 8 * nat n"
  proof -
    have "int (unat (ar_cap a)) < int (4 * nat n)" using assms(2,5) n by simp
    then show "unat (ar_cap a) < 4 * nat n" by (simp only: of_nat_less_iff)
    then show "unat (ar_cap a) < 8 * nat n" by linarith
  qed
  have "arena_alloc_array a 4 (2 ^ 2) (word_of_int n) = (None, a)" "arena_alloc_array a 8 (2 ^ 3) (word_of_int n) = (None, a)"
    using alloc_array_null [OF b(1,2), of 4 a 2] alloc_array_null [OF b(1,2), of 8 a 3] assms(4) c by simp_all
  then have 1: "arena_alloc_array a 4 4 (word_of_int n) = (None, a)" "arena_alloc_array a 8 8 (word_of_int n) = (None, a)"
    by simp_all
  obtain z a3 where 3: "arena_alloc_array a 1 1 (word_of_int n) = (z, a3)" by fastforce
  have a3: "arena_ok a3" "ar_cap a3 = ar_cap a"
  proof -
    have "unat (1 * word_of_int n :: u64) < 2 ^ 62"
      unfolding mult_1 word_of_small [OF b(1,2)] using b(2) by simp
    from arena_alloc_ok [OF assms(4) this, of 0] 3 show "arena_ok a3" "ar_cap a3 = ar_cap a"
      using assms(4) by (auto simp: arena_alloc_array_def split: option.splits)
  qed
  have "arena_alloc_array a3 4 (2 ^ 2) (word_of_int n) = (None, a3)"
    using alloc_array_null [OF b(1,2), of 4 a3 2] a3 c by simp
  then have 4: "arena_alloc_array a3 4 4 (word_of_int n) = (None, a3)"
    by simp
  let ?st = "\<lparr>ba_parent = None, ba_via = None, ba_visited = from_arena z n, ba_queue = None\<rparr>"
  have "bfs_alloc (Some a) n = (?st, Some a3)"
    by (simp add: bfs_alloc_def 1 3 4 from_arena_def)
  moreover have "bfs_start n source ?st = Inl NullPointer"
    using b(3) by (cases z) (simp_all add: bfs_start_def fill_visited_def from_arena_def arr_put_def)
  ultimately show ?thesis
    using assms(1) by (simp add: bfs_path_def Let_def n)
qed

theorem bfs_path_null_arena_witness:
  "fst (bfs_path (dg_add_node dg_new 1048576 None []) 0 1 [] (Some (arena_new (4 * 1024 * 1024)))) = Some (Inl NullPointer)"
  by (rule bfs_path_null_arena) (simp_all add: dg_add_node_def dg_new_def arena_new_def arena_ok_def)

text \<open>
  C27. The neighbourhood search returns, and lists every node other than the source within the given
  number of hops over the requested relationship, each once, with its distance, a node one hop nearer
  and the relationship of an edge from there.
\<close>

theorem bfs_neighborhood_exact:
  assumes "represents g a"
  shows "\<exists>R. bfs_neighborhood g source max_hops rel = Some R \<and> distinct (map hr_node R) \<and>
    (\<forall>v d. (\<exists>h \<in> set R. hr_node h = v \<and> hr_hop h = int d) \<longleftrightarrow>
       v \<noteq> source \<and> hop_dist (rel_succs g rel) source v d \<and> int d \<le> max_hops) \<and>
    (\<forall>h \<in> set R. hop_dist (rel_succs g rel) source (hr_via h) (nat (hr_hop h) - 1) \<and> entry_edge g rel h)"
  by (rule bfs_neighborhood_ok [OF represents_finite [OF assms]])

theorem bfs_neighborhood_exact_witness:
  "\<exists>R. bfs_neighborhood (foldl graph_step dg_new chain_ops) 0 1 [] = Some R \<and> distinct (map hr_node R)"
  using bfs_neighborhood_exact [OF chain_represents, of 0 1 "[]"] by blast

text \<open>
  C28. The component search returns the source first and then every node reachable from it, each once
  and in order of their distance.
\<close>

theorem bfs_component_reachable:
  assumes "represents g a"
  shows "\<exists>res D. bfs_component g source = Some res \<and> distinct res \<and>
    set res = reachable (rel_succs g []) source \<and> hd res = source \<and>
    (\<forall>v \<in> set res. hop_dist (rel_succs g []) source v (D v)) \<and> sorted (map D res)"
proof -
  let ?S = "rel_succs g []"
  have v0: "(\<lambda>_. False)(source := True) = (\<lambda>v. v \<in> dom [source \<mapsto> 0])"
    by (auto simp: fun_eq_iff)
  obtain res D where res: "bfs_component g source = Some res" "distinct res" "bfs_inv ?S source (\<lambda>_. True) D []"
    "set res = dom D" "sorted (map (the \<circ> D) res)" "\<exists>ys. res = [] @ [source] @ ys"
    using component_loop_ok [OF represents_finite [OF assms] bfs_all.start v0, of "[]"]
    by (auto simp: bfs_component_def simp del: fun_upd_apply)
  have "v \<in> dom D" if "v \<in> reachable ?S source" for v
  proof -
    obtain d where "hop_dist ?S source v d"
      using \<open>v \<in> reachable ?S source\<close> unfolding hop_dist_ex by blast
    then show ?thesis by (rule bfs_all.complete(2) [OF res(3)]) simp
  qed
  then have "dom D = reachable ?S source"
    using bfs_all.found_reachable [OF res(3)] by blast
  moreover have "\<forall>v \<in> set res. hop_dist ?S source v (the (D v))"
    using bfs_all.found_dist [OF res(3)] res(4) by (metis domD option.sel)
  ultimately show ?thesis
    using res by (intro exI [of _ res] exI [of _ "the \<circ> D"]) auto
qed

theorem bfs_component_reachable_witness:
  "\<exists>res. bfs_component (foldl graph_step dg_new chain_ops) 0 = Some res \<and> distinct res \<and>
    set res = reachable (rel_succs (foldl graph_step dg_new chain_ops) []) 0"
  using bfs_component_reachable [OF chain_represents, of 0] by blast

end
