(* ===== verification/DFS.thy ===== *)
theory DFS
  imports Dynamic_Graph "HOL-Library.Monad_Syntax"
begin

text \<open>
  The depth first traversals of \<^verbatim>\<open>src/graph/dfs.cpp\<close>. A hash map read with
  \<^verbatim>\<open>operator[]\<close> answers its default (false, 0) for an absent key, so the maps of flags and
  colours are total functions. The recursive lambdas are partial functions; the depth of the C++ stack
  is not modelled.
\<close>

section \<open>Component\<close>

fun dfs_push :: "(int \<Rightarrow> bool) \<Rightarrow> edge list \<Rightarrow> int list \<Rightarrow> int list" where
  "dfs_push visited [] stack = stack"
| "dfs_push visited (e # es) stack =
     dfs_push visited es (if \<not> visited (ed_to e) then ed_to e # stack else stack)"

partial_function (option) dfs_loop ::
  "dgraph \<Rightarrow> (int \<Rightarrow> bool) \<Rightarrow> int list \<Rightarrow> int list \<Rightarrow> int list option" where
  [code]: "dfs_loop g visited stack component =
     (case stack of
        [] \<Rightarrow> Some component
      | node # stack' \<Rightarrow>
          if visited node then dfs_loop g visited stack' component
          else dfs_loop g (visited(node := True))
            (dfs_push (visited(node := True)) (dg_neighbors g node) stack') (component @ [node]))"

definition dfs_component :: "dgraph \<Rightarrow> int \<Rightarrow> int list option" where
  "dfs_component g source = dfs_loop g (\<lambda>_. False) [source] []"

section \<open>Cycle detection\<close>

text \<open>
  The lambda \<^verbatim>\<open>visit\<close> from its loop on: the edges of \<open>node\<close> still to be examined, with the
  colours 0 (white), 1 (gray) and 2 (black).
\<close>

partial_function (option) cycle_scan ::
  "dgraph \<Rightarrow> int \<Rightarrow> edge list \<Rightarrow> (int \<Rightarrow> nat) \<Rightarrow> (bool \<times> (int \<Rightarrow> nat)) option" where
  [code]: "cycle_scan g node es color =
     (case es of
        [] \<Rightarrow> Some (False, color(node := 2))
      | e # es' \<Rightarrow>
          if color (ed_to e) = 1 then Some (True, color)
          else if color (ed_to e) = 0 then
            do { (found, color') \<leftarrow> cycle_scan g (ed_to e) (dg_neighbors g (ed_to e)) (color(ed_to e := 1));
                 if found then Some (True, color') else cycle_scan g node es' color' }
          else cycle_scan g node es' color)"

definition cycle_visit :: "dgraph \<Rightarrow> int \<Rightarrow> (int \<Rightarrow> nat) \<Rightarrow> (bool \<times> (int \<Rightarrow> nat)) option" where
  "cycle_visit g node color = cycle_scan g node (dg_neighbors g node) (color(node := 1))"

fun cycle_roots :: "dgraph \<Rightarrow> int list \<Rightarrow> (int \<Rightarrow> nat) \<Rightarrow> bool option" where
  "cycle_roots g [] color = Some False"
| "cycle_roots g (nid # ids) color =
     (if color nid = 0
      then do { (found, color') \<leftarrow> cycle_visit g nid color;
                if found then Some True else cycle_roots g ids color' }
      else cycle_roots g ids color)"

text \<open>\<open>ids\<close> are the keys of the node map, in the order of its iteration.\<close>

definition dfs_has_cycle :: "dgraph \<Rightarrow> int list \<Rightarrow> bool option" where
  "dfs_has_cycle g ids = cycle_roots g ids (\<lambda>_. 0)"

section \<open>Topological order\<close>

partial_function (option) topo_scan ::
  "dgraph \<Rightarrow> int \<Rightarrow> edge list \<Rightarrow> (int \<Rightarrow> bool) \<Rightarrow> int list \<Rightarrow> ((int \<Rightarrow> bool) \<times> int list) option" where
  [code]: "topo_scan g node es visited result =
     (case es of
        [] \<Rightarrow> Some (visited, result @ [node])
      | e # es' \<Rightarrow>
          if \<not> visited (ed_to e) then
            do { (visited', result') \<leftarrow>
                   topo_scan g (ed_to e) (dg_neighbors g (ed_to e)) (visited(ed_to e := True)) result;
                 topo_scan g node es' visited' result' }
          else topo_scan g node es' visited result)"

definition topo_visit :: "dgraph \<Rightarrow> int \<Rightarrow> (int \<Rightarrow> bool) \<Rightarrow> int list \<Rightarrow> ((int \<Rightarrow> bool) \<times> int list) option" where
  "topo_visit g node visited result = topo_scan g node (dg_neighbors g node) (visited(node := True)) result"

fun topo_roots :: "dgraph \<Rightarrow> int list \<Rightarrow> (int \<Rightarrow> bool) \<Rightarrow> int list \<Rightarrow> int list option" where
  "topo_roots g [] visited result = Some result"
| "topo_roots g (nid # ids) visited result =
     (if \<not> visited nid
      then do { (visited', result') \<leftarrow> topo_visit g nid visited result; topo_roots g ids visited' result' }
      else topo_roots g ids visited result)"

definition dfs_topo_sort :: "dgraph \<Rightarrow> int list \<Rightarrow> int list option" where
  "dfs_topo_sort g node_ids = map_option rev (topo_roots g node_ids (\<lambda>_. False) [])"

end
