(* ===== verification/DFS_Proofs.thy ===== *)
theory DFS_Proofs
  imports DFS BFS_Properties
begin

text \<open>
  The depth first traversals return; the component is the set of reachable nodes, a cycle is found
  exactly when one is reachable, and the topological sort orders every acyclic graph.
\<close>

section \<open>Closed sets and search paths\<close>

lemma closed_reach:
  assumes "(v, w) \<in> (edge_rel S)\<^sup>*" "v \<in> A" "\<And>x. x \<in> A \<Longrightarrow> set (S x) \<subseteq> A"
  shows "w \<in> A"
  using assms(1,2) by (induction rule: rtrancl_induct) (use assms(3) in \<open>auto simp: edge_rel_def\<close>)

lemma reachable_step: "v \<in> reachable S s \<Longrightarrow> w \<in> set (S v) \<Longrightarrow> w \<in> reachable S s"
  by (auto simp: reachable_def edge_rel_def intro: rtrancl_into_rtrancl)

lemma reachable_self [simp]: "s \<in> reachable S s"
  by (simp add: reachable_def)

text \<open>The nodes under examination, innermost first: each is a successor of the next.\<close>

fun rising :: "('n \<Rightarrow> 'n list) \<Rightarrow> 'n list \<Rightarrow> bool" where
  "rising S (v # u # us) \<longleftrightarrow> v \<in> set (S u) \<and> rising S (u # us)"
| "rising S _ \<longleftrightarrow> True"

lemma rising_tl: "rising S (v # us) \<Longrightarrow> rising S us"
  by (cases us) auto

lemma rising_reach: "rising S (v # us) \<Longrightarrow> t \<in> set (v # us) \<Longrightarrow> (t, v) \<in> (edge_rel S)\<^sup>*"
proof (induction us arbitrary: v)
  case (Cons u us)
  show ?case
  proof (cases "t = v")
    case False
    then have "(t, u) \<in> (edge_rel S)\<^sup>*" using Cons by auto
    moreover have "(u, v) \<in> edge_rel S" using Cons.prems by (simp add: edge_rel_def)
    ultimately show ?thesis by (rule rtrancl_into_rtrancl)
  qed simp
qed simp

lemma rising_cycle:
  assumes "rising S (v # us)" "t \<in> set (v # us)" "t \<in> set (S v)"
  shows "(t, t) \<in> (edge_rel S)\<^sup>+"
  using rising_reach [OF assms(1,2)] assms(3) by (auto simp: edge_rel_def intro: rtrancl_into_trancl1)

section \<open>Component\<close>

lemma dfs_push_set: "set (dfs_push visited es stack) = {v \<in> ed_to ` set es. \<not> visited v} \<union> set stack"
  by (induction es arbitrary: stack) auto

lemma dfs_loop_ok:
  assumes "finite U" "set stack \<subseteq> U" "\<And>v. v \<in> U \<Longrightarrow> set (rel_succs g [] v) \<subseteq> U" "A \<subseteq> U"
    "\<And>v. v \<in> A \<Longrightarrow> set (rel_succs g [] v) \<subseteq> A \<union> set stack" "distinct component" "set component = A"
  shows "\<exists>ys. dfs_loop g (\<lambda>v. v \<in> A) stack component = Some (component @ ys) \<and>
    distinct (component @ ys) \<and> set (component @ ys) \<subseteq> U \<and> set stack \<subseteq> set (component @ ys) \<and>
    (\<forall>v \<in> set (component @ ys). set (rel_succs g [] v) \<subseteq> set (component @ ys))"
  using assms(2,4-)
proof (induction "card (U - A)" arbitrary: A stack component rule: less_induct)
  case less
  show ?case
    using less.prems
  proof (induction stack)
    case Nil
    then show ?case by (subst dfs_loop.simps) auto
  next
    case (Cons node stack)
    show ?case
    proof (cases "node \<in> A")
      case True
      have "set stack \<subseteq> U" "\<And>v. v \<in> A \<Longrightarrow> set (rel_succs g [] v) \<subseteq> A \<union> set stack"
        using Cons.prems(1,3) True by auto
      then obtain ys where "dfs_loop g (\<lambda>v. v \<in> A) stack component = Some (component @ ys)"
        "distinct (component @ ys)" "set (component @ ys) \<subseteq> U" "set stack \<subseteq> set (component @ ys)"
        "\<forall>v \<in> set (component @ ys). set (rel_succs g [] v) \<subseteq> set (component @ ys)"
        using Cons.IH [OF _ Cons.prems(2) _ Cons.prems(4,5)] by blast
      then show ?thesis
        using True Cons.prems(5) by (intro exI [of _ ys], subst dfs_loop.simps) auto
    next
      case False
      let ?A = "insert node A"
      let ?st = "dfs_push (\<lambda>v. v \<in> ?A) (dg_neighbors g node) stack"
      have st: "set ?st = (set (rel_succs g [] node) - ?A) \<union> set stack"
        by (auto simp: dfs_push_set rel_succs_all)
      have c: "card (U - ?A) < card (U - A)"
        using False Cons.prems(1) assms(1) by (intro psubset_card_mono) auto
      have sub: "set ?st \<subseteq> U" "?A \<subseteq> U"
        using st Cons.prems(1,2) assms(3) by auto
      have cl: "set (rel_succs g [] v) \<subseteq> ?A \<union> set ?st" if "v \<in> ?A" for v
      proof (cases "v = node")
        case False
        then show ?thesis using that Cons.prems(3) [of v] unfolding st by auto
      next
        case True
        then show ?thesis unfolding st by auto
      qed
      have d: "distinct (component @ [node])" "set (component @ [node]) = ?A"
        using False Cons.prems(4,5) by auto
      obtain ys where ys: "dfs_loop g (\<lambda>v. v \<in> ?A) ?st (component @ [node]) = Some ((component @ [node]) @ ys)"
        "distinct ((component @ [node]) @ ys)" "set ((component @ [node]) @ ys) \<subseteq> U" "set ?st \<subseteq> set ((component @ [node]) @ ys)"
        "\<forall>v \<in> set ((component @ [node]) @ ys). set (rel_succs g [] v) \<subseteq> set ((component @ [node]) @ ys)"
        using less.hyps [OF c sub(1) sub(2) _ d] cl by metis
      have "dfs_loop g (\<lambda>v. v \<in> A) (node # stack) component = dfs_loop g (\<lambda>v. v \<in> ?A) ?st (component @ [node])"
        using False by (subst dfs_loop.simps) (simp add: flag_insert del: fun_upd_apply)
      moreover have "set (node # stack) \<subseteq> set ((component @ [node]) @ ys)"
        using ys(4) st by auto
      ultimately show ?thesis
        using ys(1,2,3,5) by (intro exI [of _ "node # ys"]) (simp del: fun_upd_apply)
    qed
  qed
qed

section \<open>Cycle detection\<close>

definition cycle_inv :: "('n \<Rightarrow> 'n list) \<Rightarrow> 'n list \<Rightarrow> ('n \<Rightarrow> nat) \<Rightarrow> bool" where
  "cycle_inv S path color \<longleftrightarrow> rising S path \<and> distinct path \<and>
     (\<forall>v. color v \<le> 2) \<and> (\<forall>v. color v = 1 \<longleftrightarrow> v \<in> set path) \<and>
     (\<forall>v. color v = 2 \<longrightarrow> (\<forall>w \<in> set (S v). color w = 2) \<and> (v, v) \<notin> (edge_rel S)\<^sup>+)"

definition white :: "'n set \<Rightarrow> ('n \<Rightarrow> nat) \<Rightarrow> 'n set" where
  "white U color = {v \<in> U. color v = 0}"

text \<open>What a visit of a node above the path \<open>rest\<close> achieves.\<close>

definition cycle_done :: "('n \<Rightarrow> 'n list) \<Rightarrow> 'n set \<Rightarrow> 'n \<Rightarrow> 'n list \<Rightarrow> ('n \<Rightarrow> nat) \<Rightarrow> (bool \<times> ('n \<Rightarrow> nat)) option \<Rightarrow> bool" where
  "cycle_done S U node rest color r \<longleftrightarrow>
     (case r of None \<Rightarrow> False
      | Some (True, color') \<Rightarrow> \<exists>v \<in> U. (v, v) \<in> (edge_rel S)\<^sup>+
      | Some (False, color') \<Rightarrow> cycle_inv S rest color' \<and> color' node = 2 \<and>
          (\<forall>v. color v = 2 \<longrightarrow> color' v = 2) \<and> white U color' \<subseteq> white U color)"

lemma cycle_doneE:
  assumes "cycle_done S U node rest color r"
  obtains (found) color' v where "r = Some (True, color')" "v \<in> U" "(v, v) \<in> (edge_rel S)\<^sup>+"
    | (none) color' where "r = Some (False, color')" "cycle_inv S rest color'" "color' node = 2"
        "\<And>v. color v = 2 \<Longrightarrow> color' v = 2" "white U color' \<subseteq> white U color"
  using assms by (auto simp: cycle_done_def split: option.splits prod.splits bool.splits)

lemma cycle_done_mono:
  assumes "cycle_done S U node rest color' r" "\<And>v. color v = 2 \<Longrightarrow> color' v = 2" "white U color' \<subseteq> white U color"
  shows "cycle_done S U node rest color r"
  using assms(1)
proof (cases rule: cycle_doneE)
  case (found c v)
  then show ?thesis by (auto simp: cycle_done_def)
next
  case (none c)
  then show ?thesis using assms(2,3) by (auto simp: cycle_done_def)
qed

lemma cycle_inv_push:
  assumes "cycle_inv S path color" "color v = 0" "path = [] \<or> v \<in> set (S (hd path))"
  shows "cycle_inv S (v # path) (color(v := 1))"
proof -
  have r: "rising S (v # path)"
    using assms by (cases path) (simp_all add: cycle_inv_def)
  have r': "distinct path" "v \<notin> set path"
  proof -
    show "distinct path" using assms(1) by (simp add: cycle_inv_def)
    have "color v = 1 \<longleftrightarrow> v \<in> set path" using assms(1) unfolding cycle_inv_def by blast
    then show "v \<notin> set path" using assms(2) by simp
  qed
  have c: "\<forall>w. (color(v := 1)) w \<le> 2" "\<forall>w. (color(v := 1)) w = 1 \<longleftrightarrow> w \<in> set (v # path)"
    using assms(1) by (simp_all add: cycle_inv_def)
  have "\<forall>x \<in> set (S w). (color(v := 1)) x = 2" "(w, w) \<notin> (edge_rel S)\<^sup>+" if "(color(v := 1)) w = 2" for w
  proof -
    have "color w = 2" using that by (simp split: if_splits)
    then have "\<forall>x \<in> set (S w). color x = 2" "(w, w) \<notin> (edge_rel S)\<^sup>+"
      using assms(1) by (simp_all add: cycle_inv_def)
    then show "\<forall>x \<in> set (S w). (color(v := 1)) x = 2" "(w, w) \<notin> (edge_rel S)\<^sup>+"
      using assms(2) by auto
  qed
  then show ?thesis
    using r r' c unfolding cycle_inv_def by simp
qed

lemma cycle_inv_pop:
  assumes "cycle_inv S (v # path) color" "\<forall>w \<in> set (S v). color w = 2"
  shows "cycle_inv S path (color(v := 2))"
proof -
  let ?B = "{w. color w = 2}"
  have v: "color v = 1" and b: "\<And>w. w \<in> ?B \<Longrightarrow> set (S w) \<subseteq> ?B"
    using assms(1) by (auto simp: cycle_inv_def)
  have "(v, v) \<notin> (edge_rel S)\<^sup>+"
  proof
    assume "(v, v) \<in> (edge_rel S)\<^sup>+"
    then obtain w where w: "w \<in> set (S v)" "(w, v) \<in> (edge_rel S)\<^sup>*"
      by (auto simp: edge_rel_def dest: tranclD)
    then have "v \<in> ?B"
      using closed_reach [OF w(2), of ?B] assms(2) b by blast
    with v show False by simp
  qed
  moreover have "rising S path" "distinct (v # path)"
    using assms(1) rising_tl [of S v path] by (simp_all add: cycle_inv_def)
  moreover have "\<forall>w. (color(v := 2)) w \<le> 2" "\<forall>w. (color(v := 2)) w = 1 \<longleftrightarrow> w \<in> set path"
    using assms(1) \<open>distinct (v # path)\<close> by (auto simp: cycle_inv_def)
  moreover have "\<forall>x \<in> set (S w). (color(v := 2)) x = 2" if "(color(v := 2)) w = 2" for w
    using that assms b [of w] by (auto split: if_splits)
  moreover have "(w, w) \<notin> (edge_rel S)\<^sup>+" if "(color(v := 2)) w = 2" for w
    using that assms(1) calculation(1) by (auto simp: cycle_inv_def split: if_splits)
  ultimately show ?thesis
    unfolding cycle_inv_def by simp
qed

lemma cycle_scan_ok:
  assumes visits: "\<And>node rest color. cycle_inv S rest color \<Longrightarrow> color node = 0 \<Longrightarrow> node \<in> U \<Longrightarrow>
      rest = [] \<or> node \<in> set (S (hd rest)) \<Longrightarrow> card (white U color) \<le> n \<Longrightarrow>
      cycle_done S U node rest color (cycle_visit g node color)"
    and S: "S = rel_succs g []" and U: "finite U" "\<And>v. v \<in> U \<Longrightarrow> set (S v) \<subseteq> U"
    and node: "node \<in> U" "cycle_inv S (node # rest) color" "card (white U color) \<le> n"
      "ed_to ` set es \<subseteq> set (S node)" "\<forall>w \<in> set (S node) - ed_to ` set es. color w = 2"
  shows "cycle_done S U node rest color (cycle_scan g node es color)"
  using node(2-)
proof (induction es arbitrary: color)
  case Nil
  then have black: "\<forall>w \<in> set (S node). color w = 2" and gray: "color node = 1"
    by (auto simp: cycle_inv_def)
  have "cycle_inv S rest (color(node := 2))"
    using cycle_inv_pop [OF Nil(1) black] .
  moreover have "white U (color(node := 2)) \<subseteq> white U color"
    by (auto simp: white_def split: if_splits)
  ultimately have "cycle_done S U node rest color (Some (False, color(node := 2)))"
    by (simp add: cycle_done_def)
  then show ?case
    by (subst cycle_scan.simps) simp
next
  case (Cons e es)
  let ?t = "ed_to e"
  have t: "?t \<in> set (S node)" "?t \<in> U"
    using Cons.prems(3) U(2) [OF node(1)] by auto
  consider "color ?t = 1" | "color ?t = 0" | "color ?t = 2"
    using Cons.prems(1) unfolding cycle_inv_def by (metis One_nat_def Suc_1 le_Suc_eq le_zero_eq)
  then show ?case
  proof cases
    case 1
    then have "?t \<in> set (node # rest)" "rising S (node # rest)"
      using Cons.prems(1) by (auto simp: cycle_inv_def)
    then have "(?t, ?t) \<in> (edge_rel S)\<^sup>+"
      using rising_cycle t(1) by metis
    then show ?thesis
      using t(2) 1 by (subst cycle_scan.simps) (auto simp: cycle_done_def)
  next
    case 2
    have "cycle_done S U ?t (node # rest) color (cycle_visit g ?t color)"
      by (rule visits) (use Cons.prems t 2 in auto)
    then show ?thesis
    proof (cases rule: cycle_doneE)
      case (found color' v)
      then show ?thesis
        using 2 by (subst cycle_scan.simps) (auto simp: cycle_visit_def cycle_done_def)
    next
      case (none color')
      have "card (white U color') \<le> n"
        using card_mono [OF _ none(5)] U(1) Cons.prems(2) by (simp add: white_def)
      then have "cycle_done S U node rest color' (cycle_scan g node es color')"
        using Cons.IH [OF none(2)] Cons.prems(3,4) none(3,4) by auto
      then have "cycle_done S U node rest color (cycle_scan g node es color')"
        using none(4,5) by (rule cycle_done_mono)
      then show ?thesis
        using 2 none(1) by (subst cycle_scan.simps) (simp add: cycle_visit_def)
    qed
  next
    case 3
    then have "cycle_done S U node rest color (cycle_scan g node es color)"
      using Cons by auto
    with 3 show ?thesis by (subst cycle_scan.simps) simp
  qed
qed

lemma cycle_visit_ok:
  assumes S: "S = rel_succs g []" and U: "finite U" "\<And>v. v \<in> U \<Longrightarrow> set (S v) \<subseteq> U"
    and "cycle_inv S rest color" "color node = 0" "node \<in> U" "rest = [] \<or> node \<in> set (S (hd rest))"
    "card (white U color) \<le> n"
  shows "cycle_done S U node rest color (cycle_visit g node color)"
  using assms(4-)
proof (induction n arbitrary: node rest color)
  case 0
  then have "white U color = {}" using U(1) by (simp add: white_def)
  with 0 show ?case by (auto simp: white_def)
next
  case (Suc n)
  let ?c = "color(node := 1)"
  have "white U ?c \<subset> white U color"
    using Suc.prems by (auto simp: white_def split: if_splits)
  then have w: "card (white U ?c) < card (white U color)"
    using U(1) by (intro psubset_card_mono) (simp add: white_def)
  have "cycle_done S U node rest ?c (cycle_scan g node (dg_neighbors g node) ?c)"
  proof (rule cycle_scan_ok [OF Suc.IH S U Suc.prems(3)])
    show "cycle_inv S (node # rest) ?c"
      using cycle_inv_push Suc.prems(1,2,4) by metis
    show "card (white U ?c) \<le> n" using w Suc.prems(5) by simp
  qed (simp_all add: S rel_succs_all)
  then show ?case
    unfolding cycle_visit_def
    by (rule cycle_done_mono) (use \<open>white U ?c \<subset> white U color\<close> Suc.prems(2) in auto)
qed

lemma cycle_roots_ok:
  assumes S: "S = rel_succs g []" and U: "finite U" "\<And>v. v \<in> U \<Longrightarrow> set (S v) \<subseteq> U"
    and "cycle_inv S [] color" "set ids \<subseteq> U"
  shows "\<exists>b. cycle_roots g ids color = Some b \<and> (if b then \<exists>v \<in> U. (v, v) \<in> (edge_rel S)\<^sup>+
    else \<exists>B. set ids \<subseteq> B \<and> (\<forall>v \<in> B. set (S v) \<subseteq> B \<and> (v, v) \<notin> (edge_rel S)\<^sup>+) \<and> {v. color v = 2} \<subseteq> B)"
  using assms(4,5)
proof (induction ids arbitrary: color)
  case Nil
  then show ?case
    by (auto simp: cycle_inv_def intro!: exI [of _ "{v. color v = 2}"])
next
  case (Cons nid ids)
  show ?case
  proof (cases "color nid = 0")
    case True
    have "cycle_done S U nid [] color (cycle_visit g nid color)"
      by (rule cycle_visit_ok [OF S U Cons.prems(1) True _ _ le_refl]) (use Cons.prems(2) in auto)
    then show ?thesis
    proof (cases rule: cycle_doneE)
      case (found color' v)
      then show ?thesis using True by auto
    next
      case (none color')
      obtain b where b: "cycle_roots g ids color' = Some b" "if b then \<exists>v \<in> U. (v, v) \<in> (edge_rel S)\<^sup>+
        else \<exists>B. set ids \<subseteq> B \<and> (\<forall>v \<in> B. set (S v) \<subseteq> B \<and> (v, v) \<notin> (edge_rel S)\<^sup>+) \<and> {v. color' v = 2} \<subseteq> B"
        using Cons.IH [OF none(2)] Cons.prems(2) by auto
      show ?thesis
      proof (intro exI [of _ b] conjI)
        show "cycle_roots g (nid # ids) color = Some b"
          using True none(1) b(1) by simp
        show "if b then \<exists>v \<in> U. (v, v) \<in> (edge_rel S)\<^sup>+
          else \<exists>B. set (nid # ids) \<subseteq> B \<and> (\<forall>v \<in> B. set (S v) \<subseteq> B \<and> (v, v) \<notin> (edge_rel S)\<^sup>+) \<and> {v. color v = 2} \<subseteq> B"
        proof (cases b)
          case False
          then obtain B where "set ids \<subseteq> B" "\<forall>v \<in> B. set (S v) \<subseteq> B \<and> (v, v) \<notin> (edge_rel S)\<^sup>+" "{v. color' v = 2} \<subseteq> B"
            using b(2) by auto
          then show ?thesis
            using False none(3,4) by (auto intro!: exI [of _ B])
        qed (use b(2) in simp)
      qed
    qed
  next
    case False
    then have "color nid = 2"
      using Cons.prems(1) unfolding cycle_inv_def
      by (metis One_nat_def Suc_1 empty_iff le_Suc_eq le_zero_eq list.set(1))
    moreover obtain b where "cycle_roots g ids color = Some b" "if b then \<exists>v \<in> U. (v, v) \<in> (edge_rel S)\<^sup>+
        else \<exists>B. set ids \<subseteq> B \<and> (\<forall>v \<in> B. set (S v) \<subseteq> B \<and> (v, v) \<notin> (edge_rel S)\<^sup>+) \<and> {v. color v = 2} \<subseteq> B"
      using Cons.IH [OF Cons.prems(1)] Cons.prems(2) by auto
    ultimately show ?thesis
    proof (intro exI [of _ b] conjI)
      assume n: "color nid = 2" and b: "cycle_roots g ids color = Some b" "if b then \<exists>v \<in> U. (v, v) \<in> (edge_rel S)\<^sup>+
        else \<exists>B. set ids \<subseteq> B \<and> (\<forall>v \<in> B. set (S v) \<subseteq> B \<and> (v, v) \<notin> (edge_rel S)\<^sup>+) \<and> {v. color v = 2} \<subseteq> B"
      show "cycle_roots g (nid # ids) color = Some b"
        using False b(1) by simp
      show "if b then \<exists>v \<in> U. (v, v) \<in> (edge_rel S)\<^sup>+
        else \<exists>B. set (nid # ids) \<subseteq> B \<and> (\<forall>v \<in> B. set (S v) \<subseteq> B \<and> (v, v) \<notin> (edge_rel S)\<^sup>+) \<and> {v. color v = 2} \<subseteq> B"
      proof (cases b)
        case False
        then obtain B where "set ids \<subseteq> B" "\<forall>v \<in> B. set (S v) \<subseteq> B \<and> (v, v) \<notin> (edge_rel S)\<^sup>+" "{v. color v = 2} \<subseteq> B"
          using b(2) by auto
        then show ?thesis
          using False n by (auto intro!: exI [of _ B])
      qed (use b(2) in simp)
    qed
  qed
qed

section \<open>Topological order\<close>

text \<open>Every node of the list comes after all its successors.\<close>

definition successors_first :: "('n \<Rightarrow> 'n list) \<Rightarrow> 'n list \<Rightarrow> bool" where
  "successors_first S xs \<longleftrightarrow> (\<forall>i < length xs. set (S (xs ! i)) \<subseteq> set (take i xs))"

lemma successors_first_snoc:
  "successors_first S xs \<Longrightarrow> set (S x) \<subseteq> set xs \<Longrightarrow> successors_first S (xs @ [x])"
  by (auto simp: successors_first_def nth_append less_Suc_eq)

lemma successors_first_order:
  assumes "successors_first S xs" "distinct xs" "i < length xs" "j < length xs" "rev xs ! j \<in> set (S (rev xs ! i))"
  shows "i < j"
proof -
  let ?i = "length xs - Suc i" and ?j = "length xs - Suc j"
  have "xs ! ?j \<in> set (S (xs ! ?i))"
    using assms(3-5) by (simp add: rev_nth)
  moreover have "set (S (xs ! ?i)) \<subseteq> set (take ?i xs)"
    using assms(1,3) unfolding successors_first_def by simp
  ultimately have "xs ! ?j \<in> set (take ?i xs)" by blast
  then obtain k where k: "k < ?i" "xs ! k = xs ! ?j"
    by (auto simp: in_set_conv_nth)
  then have "k = ?j"
    using assms(2-4) nth_eq_iff_index_eq [of xs k ?j] by simp
  with k show ?thesis by simp
qed

definition acyclic_on :: "('n \<Rightarrow> 'n list) \<Rightarrow> 'n set \<Rightarrow> bool" where
  "acyclic_on S U \<longleftrightarrow> (\<forall>v \<in> U. (v, v) \<notin> (edge_rel S)\<^sup>+)"

definition topo_inv :: "('n \<Rightarrow> 'n list) \<Rightarrow> 'n set \<Rightarrow> 'n list \<Rightarrow> 'n list \<Rightarrow> bool" where
  "topo_inv S U path result \<longleftrightarrow> rising S path \<and> distinct (path @ result) \<and> set result \<subseteq> U \<and>
     (\<forall>v \<in> set result. set (S v) \<subseteq> set result \<union> set path) \<and>
     (acyclic_on S U \<longrightarrow> successors_first S result)"

text \<open>A visit of \<open>node\<close> above the path \<open>rest\<close> appends nodes to the result, \<open>node\<close> the last.\<close>

definition topo_done ::
  "('n \<Rightarrow> 'n list) \<Rightarrow> 'n set \<Rightarrow> 'n \<Rightarrow> 'n list \<Rightarrow> 'n list \<Rightarrow> (('n \<Rightarrow> bool) \<times> 'n list) option \<Rightarrow> bool" where
  "topo_done S U node rest result r \<longleftrightarrow>
     (case r of None \<Rightarrow> False
      | Some (visited, result') \<Rightarrow> visited = (\<lambda>v. v \<in> set (rest @ result')) \<and>
          topo_inv S U rest result' \<and> node \<in> set result' \<and> set result \<subseteq> set result')"

lemma topo_doneE:
  assumes "topo_done S U node rest result r"
  obtains result' where "r = Some ((\<lambda>v. v \<in> set (rest @ result')), result')"
    "topo_inv S U rest result'" "node \<in> set result'" "set result \<subseteq> set result'"
  using assms by (auto simp: topo_done_def split: option.splits)

lemma topo_inv_pop:
  assumes "topo_inv S U (v # path) result" "set (S v) \<subseteq> set (v # path) \<union> set result" "v \<in> U" "set path \<subseteq> U"
  shows "topo_inv S U path (result @ [v])"
proof -
  have i: "rising S (v # path)" "distinct ((v # path) @ result)" "set result \<subseteq> U"
    "\<And>w. w \<in> set result \<Longrightarrow> set (S w) \<subseteq> set result \<union> set (v # path)"
    using assms(1) by (simp_all add: topo_inv_def)
  have "successors_first S (result @ [v])" if acy: "acyclic_on S U"
  proof (rule successors_first_snoc)
    show "successors_first S result" using assms(1) acy by (simp add: topo_inv_def)
    have "t \<notin> set (v # path)" if "t \<in> set (S v)" for t
    proof
      assume "t \<in> set (v # path)"
      then have "(t, t) \<in> (edge_rel S)\<^sup>+" "t \<in> U"
        using rising_cycle [OF i(1) _ that] assms(3,4) by auto
      with acy show False by (simp add: acyclic_on_def)
    qed
    then show "set (S v) \<subseteq> set result" using assms(2) by blast
  qed
  moreover have "\<forall>w \<in> set (result @ [v]). set (S w) \<subseteq> set (result @ [v]) \<union> set path"
    using i(4) assms(2) by fastforce
  ultimately show ?thesis
    using i(1-3) assms(3) rising_tl [OF i(1)] unfolding topo_inv_def by simp
qed

lemma topo_scan_ok:
  assumes visits: "\<And>node rest result. topo_inv S U rest result \<Longrightarrow> node \<notin> set (rest @ result) \<Longrightarrow> node \<in> U \<Longrightarrow>
      set rest \<subseteq> U \<Longrightarrow> rest = [] \<or> node \<in> set (S (hd rest)) \<Longrightarrow> card (U - set (rest @ result)) \<le> n \<Longrightarrow>
      topo_done S U node rest result (topo_visit g node (\<lambda>v. v \<in> set (rest @ result)) result)"
    and S: "S = rel_succs g []" and U: "finite U" "\<And>v. v \<in> U \<Longrightarrow> set (S v) \<subseteq> U"
    and node: "set (node # rest) \<subseteq> U" "topo_inv S U (node # rest) result" "card (U - set ((node # rest) @ result)) \<le> n"
      "ed_to ` set es \<subseteq> set (S node)" "set (S node) \<subseteq> ed_to ` set es \<union> set ((node # rest) @ result)"
  shows "topo_done S U node rest result (topo_scan g node es (\<lambda>v. v \<in> set ((node # rest) @ result)) result)"
  using node(2-)
proof (induction es arbitrary: result)
  case Nil
  have "topo_inv S U rest (result @ [node])"
    by (rule topo_inv_pop [OF Nil(1)]) (use Nil(4) node(1) in auto)
  moreover have "(\<lambda>v. v \<in> set ((node # rest) @ result)) = (\<lambda>v. v \<in> set (rest @ result @ [node]))"
    by auto
  ultimately show ?case
    by (subst topo_scan.simps) (auto simp: topo_done_def)
next
  case (Cons e es)
  let ?t = "ed_to e" and ?vis = "\<lambda>result v. v \<in> set ((node # rest) @ result)"
  show ?case
  proof (cases "?vis result ?t")
    case True
    then have "topo_done S U node rest result (topo_scan g node es (?vis result) result)"
      using Cons by auto
    with True show ?thesis by (subst topo_scan.simps) simp
  next
    case False
    have t: "?t \<in> set (S node)" "?t \<in> U"
      using Cons.prems(3) U(2) [of node] node(1) by auto
    have "topo_done S U ?t (node # rest) result (topo_visit g ?t (?vis result) result)"
      by (rule visits) (use Cons.prems False t node(1) in auto)
    then obtain result' where r: "topo_visit g ?t (?vis result) result = Some (?vis result', result')"
      "topo_inv S U (node # rest) result'" "?t \<in> set result'" "set result \<subseteq> set result'"
      by (rule topo_doneE)
    have "card (U - set ((node # rest) @ result')) \<le> n"
      using card_mono [of "U - set ((node # rest) @ result)" "U - set ((node # rest) @ result')"] U(1) r(4) Cons.prems(2)
      by fastforce
    then have "topo_done S U node rest result' (topo_scan g node es (?vis result') result')"
      using Cons.IH [OF r(2)] Cons.prems(3,4) r(3,4) by auto
    then have "topo_done S U node rest result (topo_scan g node es (?vis result') result')"
      using r(4) by (auto simp: topo_done_def split: option.splits)
    then show ?thesis
      using False r(1) by (subst topo_scan.simps) (simp add: topo_visit_def del: fun_upd_apply)
  qed
qed

lemma topo_visit_ok:
  assumes S: "S = rel_succs g []" and U: "finite U" "\<And>v. v \<in> U \<Longrightarrow> set (S v) \<subseteq> U"
    and "topo_inv S U rest result" "node \<notin> set (rest @ result)" "node \<in> U" "set rest \<subseteq> U"
    "rest = [] \<or> node \<in> set (S (hd rest))" "card (U - set (rest @ result)) \<le> n"
  shows "topo_done S U node rest result (topo_visit g node (\<lambda>v. v \<in> set (rest @ result)) result)"
  using assms(4-)
proof (induction n arbitrary: node rest result)
  case 0
  then have "U - set (rest @ result) = {}" using U(1) by simp
  with 0 show ?case by blast
next
  case (Suc n)
  have inv: "topo_inv S U (node # rest) result"
    using Suc.prems(1,2,5) by (cases rest) (auto simp: topo_inv_def)
  have "U - set ((node # rest) @ result) \<subset> U - set (rest @ result)"
    using Suc.prems(2,3) by auto
  then have w: "card (U - set ((node # rest) @ result)) < card (U - set (rest @ result))"
    using U(1) by (intro psubset_card_mono) simp_all
  have v: "(\<lambda>v. v \<in> set (rest @ result))(node := True) = (\<lambda>v. v \<in> set ((node # rest) @ result))"
    by auto
  show ?case
    unfolding topo_visit_def v
  proof (rule topo_scan_ok [OF Suc.IH S U])
    show "card (U - set ((node # rest) @ result)) \<le> n" using w Suc.prems(6) by simp
    show "ed_to ` set (dg_neighbors g node) \<subseteq> set (S node)"
      "set (S node) \<subseteq> ed_to ` set (dg_neighbors g node) \<union> set ((node # rest) @ result)"
      unfolding S rel_succs_all by auto
  qed (use Suc.prems inv in simp_all)
qed

lemma topo_roots_ok:
  assumes S: "S = rel_succs g []" and U: "finite U" "\<And>v. v \<in> U \<Longrightarrow> set (S v) \<subseteq> U"
    and "topo_inv S U [] result" "set ids \<subseteq> U"
  shows "\<exists>result'. topo_roots g ids (\<lambda>v. v \<in> set result) result = Some result' \<and>
    topo_inv S U [] result' \<and> set ids \<union> set result \<subseteq> set result'"
  using assms(4,5)
proof (induction ids arbitrary: result)
  case (Cons nid ids)
  show ?case
  proof (cases "nid \<in> set result")
    case True
    obtain result' where "topo_roots g ids (\<lambda>v. v \<in> set result) result = Some result'"
      "topo_inv S U [] result'" "set ids \<union> set result \<subseteq> set result'"
      using Cons.IH [OF Cons.prems(1)] Cons.prems(2) by auto
    then show ?thesis using True by auto
  next
    case False
    have "topo_done S U nid [] result (topo_visit g nid (\<lambda>v. v \<in> set ([] @ result)) result)"
      by (rule topo_visit_ok [OF S U Cons.prems(1) _ _ _ _ le_refl]) (use Cons.prems(2) False in auto)
    then obtain result1 where r: "topo_visit g nid (\<lambda>v. v \<in> set result) result = Some ((\<lambda>v. v \<in> set result1), result1)"
      "topo_inv S U [] result1" "nid \<in> set result1" "set result \<subseteq> set result1"
      by (elim topo_doneE) simp
    obtain result' where "topo_roots g ids (\<lambda>v. v \<in> set result1) result1 = Some result'"
      "topo_inv S U [] result'" "set ids \<union> set result1 \<subseteq> set result'"
      using Cons.IH [OF r(2)] Cons.prems(2) by auto
    then show ?thesis
      using False r by auto
  qed
qed simp

section \<open>Properties\<close>

definition reachable_from :: "dgraph \<Rightarrow> int list \<Rightarrow> int set" where
  "reachable_from g ids = (\<Union>i \<in> set ids. reachable (rel_succs g []) i)"

lemma reachable_from_facts:
  assumes "finite (dom (dg_adj g))"
  shows "finite (reachable_from g ids)" "set ids \<subseteq> reachable_from g ids"
    "\<And>v. v \<in> reachable_from g ids \<Longrightarrow> set (rel_succs g [] v) \<subseteq> reachable_from g ids"
  using finite_reachable [OF assms] reachable_step [of _ "rel_succs g []"]
  by (auto simp: reachable_from_def)

lemma reachable_in_closed:
  assumes "set ids \<subseteq> A" "\<And>v. v \<in> A \<Longrightarrow> set (rel_succs g [] v) \<subseteq> A"
  shows "reachable_from g ids \<subseteq> A"
  using closed_reach [of _ _ "rel_succs g []" A] assms unfolding reachable_from_def reachable_def by blast

text \<open>
  The depth first component search returns every reachable node once: the same nodes as
  the breadth first search.
\<close>

theorem dfs_component_reachable:
  assumes "represents g a"
  shows "\<exists>res. dfs_component g source = Some res \<and> distinct res \<and> set res = reachable (rel_succs g []) source"
proof -
  let ?U = "reachable_from g [source]"
  note U = reachable_from_facts [OF represents_finite [OF assms], where ids = "[source]"]
  obtain ys where ys: "dfs_loop g (\<lambda>v. v \<in> {}) [source] [] = Some ([] @ ys)" "distinct ([] @ ys)"
    "set ([] @ ys) \<subseteq> ?U" "set [source] \<subseteq> set ([] @ ys)"
    "\<forall>v \<in> set ([] @ ys). set (rel_succs g [] v) \<subseteq> set ([] @ ys)"
    using dfs_loop_ok [OF U(1,2,3), where A = "{}" and component = "[]"] by auto
  have "?U \<subseteq> set ys"
    by (rule reachable_in_closed) (use ys(4,5) in auto)
  with ys(1-3) show ?thesis
    by (intro exI [of _ ys]) (auto simp: dfs_component_def reachable_from_def)
qed

theorem dfs_component_reachable_witness:
  "\<exists>res. dfs_component (foldl graph_step dg_new chain_ops) 0 = Some res \<and> distinct res \<and>
    set res = reachable (rel_succs (foldl graph_step dg_new chain_ops) []) 0"
  by (rule dfs_component_reachable [OF chain_represents])

text \<open>
  Cycle detection returns, with true exactly when some node on a cycle is reachable from a node of
  the graph, in whatever order the node map is iterated. Cycles of ids that were never added as nodes, and
  that no node leads to, are not found.
\<close>

theorem dfs_has_cycle_reachable:
  assumes "represents g a" "set ids = dom (dg_meta g)"
  shows "dfs_has_cycle g ids =
    Some (\<exists>v \<in> reachable_from g ids. (v, v) \<in> (edge_rel (rel_succs g []))\<^sup>+)"
proof -
  let ?S = "rel_succs g []" and ?U = "reachable_from g ids"
  note U = reachable_from_facts [OF represents_finite [OF assms(1)], where ids = ids]
  have "cycle_inv ?S [] (\<lambda>_. 0)" by (simp add: cycle_inv_def)
  then have "\<exists>b. cycle_roots g ids (\<lambda>_. 0) = Some b \<and> (if b then \<exists>v \<in> ?U. (v, v) \<in> (edge_rel ?S)\<^sup>+
    else \<exists>B. set ids \<subseteq> B \<and> (\<forall>v \<in> B. set (?S v) \<subseteq> B \<and> (v, v) \<notin> (edge_rel ?S)\<^sup>+) \<and> {v::int. (0::nat) = 2} \<subseteq> B)"
    by (intro cycle_roots_ok [OF refl U(1) _ _ U(2)] U(3)) assumption
  then obtain b where
    b: "dfs_has_cycle g ids = Some b" "if b then \<exists>v \<in> ?U. (v, v) \<in> (edge_rel ?S)\<^sup>+
      else \<exists>B. set ids \<subseteq> B \<and> (\<forall>v \<in> B. set (?S v) \<subseteq> B \<and> (v, v) \<notin> (edge_rel ?S)\<^sup>+) \<and> {v::int. (0::nat) = 2} \<subseteq> B"
    unfolding dfs_has_cycle_def by (elim exE conjE)
  have "\<not> (\<exists>v \<in> ?U. (v, v) \<in> (edge_rel ?S)\<^sup>+)" if "\<not> b"
  proof -
    obtain B where B: "set ids \<subseteq> B" "\<forall>v \<in> B. set (?S v) \<subseteq> B \<and> (v, v) \<notin> (edge_rel ?S)\<^sup>+"
      using b(2) \<open>\<not> b\<close> by auto
    then have "?U \<subseteq> B" by (intro reachable_in_closed) auto
    with B show ?thesis by blast
  qed
  with b show ?thesis by (cases b) auto
qed

theorem dfs_has_cycle_reachable_witness:
  "dfs_has_cycle (foldl graph_step dg_new chain_ops) [2, 0] =
    Some (\<exists>v \<in> reachable_from (foldl graph_step dg_new chain_ops) [2, 0].
      (v, v) \<in> (edge_rel (rel_succs (foldl graph_step dg_new chain_ops) []))\<^sup>+)"
  by (rule dfs_has_cycle_reachable [OF chain_represents])
    (auto simp: chain_ops_def dg_add_node_def dg_add_edge_def dg_new_def)

text \<open>A node on a cycle has an edge.\<close>

lemma cycle_leaves:
  assumes "(v, v) \<in> (edge_rel (rel_succs g []))\<^sup>+"
  shows "dg_neighbors g v \<noteq> []"
  using assms by (auto dest!: tranclD simp: edge_rel_def rel_succs_def)

text \<open>
  C32. Cycle detection is right: on a graph whose edges leave added nodes it returns true exactly when the
  graph has a cycle, in whatever order the node map is iterated.
\<close>

theorem dfs_has_cycle_correct:
  assumes "represents g a" "set ids = dom (dg_meta g)" "\<forall>u. dg_neighbors g u \<noteq> [] \<longrightarrow> u \<in> dom (dg_meta g)"
  shows "dfs_has_cycle g ids = Some (\<exists>v. (v, v) \<in> (edge_rel (rel_succs g []))\<^sup>+)"
proof -
  have "v \<in> reachable_from g ids" if "(v, v) \<in> (edge_rel (rel_succs g []))\<^sup>+" for v
    using cycle_leaves [OF that] assms(2,3) by (auto simp: reachable_from_def reachable_def)
  then show ?thesis unfolding dfs_has_cycle_reachable [OF assms(1,2)] by auto
qed

theorem dfs_has_cycle_correct_witness:
  "dfs_has_cycle (foldl graph_step dg_new [GAddNode 1 None [], GAddNode 2 None [], GAddEdge 1 2 ''r'' f32_one, GAddEdge 2 1 ''r'' f32_one]) [2, 1] =
    Some True"
proof -
  let ?ops = "[GAddNode 1 None [], GAddNode 2 None [], GAddEdge 1 2 ''r'' f32_one, GAddEdge 2 1 ''r'' f32_one]"
  let ?g = "foldl graph_step dg_new ?ops" and ?S = "rel_succs (foldl graph_step dg_new ?ops) []"
  have n: "dg_neighbors ?g 1 = [\<lparr>ed_to = 2, ed_rel = ''r'', ed_weight = f32_one\<rparr>]"
    "dg_neighbors ?g 2 = [\<lparr>ed_to = 1, ed_rel = ''r'', ed_weight = f32_one\<rparr>]"
    "u \<noteq> 1 \<Longrightarrow> u \<noteq> 2 \<Longrightarrow> dg_neighbors ?g u = []" for u
    by (simp_all add: dg_neighbors_def dg_add_node_def dg_add_edge_def dg_new_def entry_def ensure_def)
  have dom: "set [2, 1] = dom (dg_meta ?g)" by (auto simp: dg_add_node_def dg_add_edge_def dg_new_def)
  then have "\<forall>u. dg_neighbors ?g u \<noteq> [] \<longrightarrow> u \<in> dom (dg_meta ?g)" using n(3) by (metis list.set_intros)
  from dfs_has_cycle_correct [OF graph.runs_follow [OF dg_new_ok] dom this]
  have found: "dfs_has_cycle ?g [2, 1] = Some (\<exists>v. (v, v) \<in> (edge_rel ?S)\<^sup>+)" .
  have "(1, 2) \<in> edge_rel ?S" "(2, 1) \<in> edge_rel ?S" using n(1,2) by (simp_all add: edge_rel_def rel_succs_def)
  then have "(1, 1) \<in> (edge_rel ?S)\<^sup>+" by (meson trancl.intros)
  then have "\<exists>v. (v, v) \<in> (edge_rel ?S)\<^sup>+" by blast
  then show ?thesis unfolding found by simp
qed

text \<open>
  The topological sort returns every node reachable from the given ones once; when no cycle is
  reachable each edge leads forward in it. With a cycle it is the same list of nodes, not the empty
  one that the header promises.
\<close>

theorem dfs_topo_sort_lists:
  assumes "represents g a"
  shows "\<exists>res. dfs_topo_sort g ids = Some res \<and> distinct res \<and> set res = reachable_from g ids \<and>
    (acyclic_on (rel_succs g []) (reachable_from g ids) \<longrightarrow>
      (\<forall>i < length res. \<forall>j < length res. res ! j \<in> set (rel_succs g [] (res ! i)) \<longrightarrow> i < j))"
proof -
  let ?S = "rel_succs g []" and ?U = "reachable_from g ids"
  note U = reachable_from_facts [OF represents_finite [OF assms], where ids = ids]
  have "topo_inv ?S ?U [] []" by (simp add: topo_inv_def successors_first_def)
  from topo_roots_ok [OF refl U(1,3) this U(2)] obtain xs where
    xs: "topo_roots g ids (\<lambda>_. False) [] = Some xs" "topo_inv ?S ?U [] xs" "set ids \<subseteq> set xs"
    by auto
  have d: "distinct xs" "set xs \<subseteq> ?U" "\<forall>v \<in> set xs. set (?S v) \<subseteq> set xs"
    "acyclic_on ?S ?U \<longrightarrow> successors_first ?S xs"
    using xs(2) by (simp_all add: topo_inv_def)
  have "set xs = ?U"
    using d(2) reachable_in_closed [OF xs(3)] d(3) by blast
  moreover have "i < j" if "acyclic_on ?S ?U" "i < length (rev xs)" "j < length (rev xs)"
    "rev xs ! j \<in> set (?S (rev xs ! i))" for i j
    using successors_first_order [of ?S xs i j] d(1,4) that by simp
  ultimately show ?thesis
    using xs(1) d(1) by (intro exI [of _ "rev xs"]) (simp add: dfs_topo_sort_def)
qed

theorem dfs_topo_sort_lists_witness:
  "\<exists>res. dfs_topo_sort (foldl graph_step dg_new chain_ops) [2, 0] = Some res \<and> distinct res \<and>
    set res = reachable_from (foldl graph_step dg_new chain_ops) [2, 0]"
  using dfs_topo_sort_lists [OF chain_represents, of "[2, 0]"] by blast

text \<open>
  C33. When no cycle is reachable from the given nodes, the topological sort returns an order of the nodes
  reachable from them: each appears once, and every edge leads from an earlier node to a later one.
\<close>

theorem dfs_topo_sort_order:
  assumes "represents g a" "acyclic_on (rel_succs g []) (reachable_from g ids)"
  shows "\<exists>res. dfs_topo_sort g ids = Some res \<and> distinct res \<and> set res = reachable_from g ids \<and>
    (\<forall>i < length res. \<forall>j < length res. res ! j \<in> set (rel_succs g [] (res ! i)) \<longrightarrow> i < j)"
  using dfs_topo_sort_lists [OF assms(1), of ids] assms(2) by blast

theorem dfs_topo_sort_order_witness:
  "\<exists>res. dfs_topo_sort (foldl graph_step dg_new chain_ops) [2, 0] = Some res \<and> distinct res \<and>
    set res = reachable_from (foldl graph_step dg_new chain_ops) [2, 0] \<and>
    (\<forall>i < length res. \<forall>j < length res. res ! j \<in> set (rel_succs (foldl graph_step dg_new chain_ops) [] (res ! i)) \<longrightarrow> i < j)"
proof (rule dfs_topo_sort_order [OF chain_represents])
  let ?S = "rel_succs (foldl graph_step dg_new chain_ops) []"
  have "edge_rel ?S \<subseteq> {(u, v). u < v}"
    by (auto simp: edge_rel_def rel_succs_def chain_ops_def dg_neighbors_def dg_add_node_def dg_add_edge_def dg_new_def
        entry_def ensure_def split: if_splits)
  then have "(edge_rel ?S)\<^sup>+ \<subseteq> {(u, v). u < v}"
    using trancl_mono [of _ "edge_rel ?S" "{(u, v). u < v}"] trancl_id [of "{(u, v). u < (v::int)}"] by (auto simp: trans_def)
  then show "acyclic_on ?S (reachable_from (foldl graph_step dg_new chain_ops) [2, 0])"
    by (auto simp: acyclic_on_def)
qed

end
