(* ===== verification/Dijkstra.thy ===== *)
theory Dijkstra
  imports Dynamic_Graph BFS
begin

text \<open>
  The weighted searches of \<^verbatim>\<open>src/graph/dijkstra.cpp\<close> on the mutable graph. A priority
  queue is a list from which a least entry is removed; the order is that of
  \<^verbatim>\<open>std::greater<Entry>\<close>, by cost and then by node. It is the contract of
  \<^verbatim>\<open>std::priority_queue\<close> as long as no cost is NaN, for which the comparison is no order.
\<close>

section \<open>Results and queue\<close>

record weighted_path =
  wp_nodes :: "int list"
  wp_rels :: "string list"
  wp_cost :: f32

definition no_wpath :: weighted_path where
  "no_wpath = \<lparr>wp_nodes = [], wp_rels = [], wp_cost = f32_zero\<rparr>"

definition wp_empty :: "weighted_path \<Rightarrow> bool" where
  "wp_empty p \<longleftrightarrow> wp_nodes p = []"

type_synonym pq_entry = "f32 \<times> int"

definition entry_less :: "pq_entry \<Rightarrow> pq_entry \<Rightarrow> bool" where
  "entry_less a b \<longleftrightarrow> f32_less (fst a) (fst b) \<or> (\<not> f32_less (fst b) (fst a) \<and> snd a < snd b)"

fun pq_least :: "pq_entry \<Rightarrow> pq_entry list \<Rightarrow> pq_entry" where
  "pq_least x [] = x"
| "pq_least x (y # ys) = pq_least (if entry_less y x then y else x) ys"

text \<open>\<^verbatim>\<open>top\<close> and \<^verbatim>\<open>pop\<close> of a queue that is not empty.\<close>

definition pq_pop :: "pq_entry list \<Rightarrow> (pq_entry \<times> pq_entry list) option" where
  "pq_pop q = (case q of [] \<Rightarrow> None | x # xs \<Rightarrow> let m = pq_least x xs in Some (m, remove1 m q))"

section \<open>Single target\<close>

record wp_state =
  ws_dist :: "int \<rightharpoonup> f32"
  ws_parent :: "int \<rightharpoonup> int"
  ws_via :: "int \<rightharpoonup> string"
  ws_pq :: "pq_entry list"

fun weigh_scan :: "string \<Rightarrow> f32 \<Rightarrow> int \<Rightarrow> edge list \<Rightarrow> wp_state \<Rightarrow> wp_state" where
  "weigh_scan rel cost node [] st = st"
| "weigh_scan rel cost node (e # es) st =
     (if \<not> admits rel e then weigh_scan rel cost node es st
      else
        let nc = f32_add cost (ed_weight e); dit = ws_dist st (ed_to e) in
        if dit = None \<or> f32_less nc (the dit) then
          weigh_scan rel cost node es \<lparr>ws_dist = (ws_dist st)(ed_to e \<mapsto> nc),
            ws_parent = (ws_parent st)(ed_to e \<mapsto> node), ws_via = (ws_via st)(ed_to e \<mapsto> ed_rel e),
            ws_pq = ws_pq st @ [(nc, ed_to e)]\<rparr>
        else weigh_scan rel cost node es st)"

text \<open>\<^verbatim>\<open>operator[]\<close> of the maps of parents and relationships: 0 and the empty string for an absent key.\<close>

definition parent_at :: "(int \<rightharpoonup> int) \<Rightarrow> int \<Rightarrow> int" where
  "parent_at parent cur = (case parent cur of None \<Rightarrow> 0 | Some p \<Rightarrow> p)"

definition via_at :: "(int \<rightharpoonup> string) \<Rightarrow> int \<Rightarrow> string" where
  "via_at via cur = (case via cur of None \<Rightarrow> [] | Some r \<Rightarrow> r)"

partial_function (option) trace_back ::
  "(int \<rightharpoonup> int) \<Rightarrow> (int \<rightharpoonup> string) \<Rightarrow> int \<Rightarrow> int list \<Rightarrow> string list \<Rightarrow> (int list \<times> string list) option" where
  [code]: "trace_back parent via cur nodes rels =
     (if cur = -1 then Some (nodes, rels)
      else trace_back parent via (parent_at parent cur) (nodes @ [cur])
        (if parent_at parent cur \<noteq> -1 then rels @ [via_at via cur] else rels))"

partial_function (option) weigh_loop :: "dgraph \<Rightarrow> string \<Rightarrow> int \<Rightarrow> wp_state \<Rightarrow> weighted_path option" where
  [code]: "weigh_loop g rel target st =
     (case pq_pop (ws_pq st) of
        None \<Rightarrow> Some no_wpath
      | Some ((cost, node), pq') \<Rightarrow>
          if node = target then
            map_option (\<lambda>(ns, rs). \<lparr>wp_nodes = rev ns, wp_rels = rev rs, wp_cost = cost\<rparr>)
              (trace_back (ws_parent st) (ws_via st) target [] [])
          else if (case ws_dist st node of None \<Rightarrow> False | Some d \<Rightarrow> f32_less d cost)
            then weigh_loop g rel target (st\<lparr>ws_pq := pq'\<rparr>)
          else weigh_loop g rel target
            (weigh_scan rel cost node (dg_neighbors g node) (st\<lparr>ws_pq := pq'\<rparr>)))"

definition dijkstra_path :: "dgraph \<Rightarrow> int \<Rightarrow> int \<Rightarrow> string \<Rightarrow> weighted_path option" where
  "dijkstra_path g source target rel = weigh_loop g rel target
     \<lparr>ws_dist = [source \<mapsto> f32_zero], ws_parent = [source \<mapsto> -1], ws_via = Map.empty,
       ws_pq = [(f32_zero, source)]\<rparr>"

section \<open>All distances\<close>

record distance_map =
  dm_dist :: "int \<rightharpoonup> f32"
  dm_parent :: "int \<rightharpoonup> int"

fun all_scan :: "f32 \<Rightarrow> int \<Rightarrow> edge list \<Rightarrow> distance_map \<Rightarrow> pq_entry list \<Rightarrow> distance_map \<times> pq_entry list" where
  "all_scan cost node [] dm pq = (dm, pq)"
| "all_scan cost node (e # es) dm pq =
     (let nc = f32_add cost (ed_weight e); dit = dm_dist dm (ed_to e) in
      if dit = None \<or> f32_less nc (the dit) then
        all_scan cost node es \<lparr>dm_dist = (dm_dist dm)(ed_to e \<mapsto> nc), dm_parent = (dm_parent dm)(ed_to e \<mapsto> node)\<rparr>
          (pq @ [(nc, ed_to e)])
      else all_scan cost node es dm pq)"

text \<open>\<^verbatim>\<open>result.dist[node]\<close> creates an entry of 0 when there is none.\<close>

definition dist_entry :: "distance_map \<Rightarrow> int \<Rightarrow> distance_map" where
  "dist_entry dm node =
     (if dm_dist dm node = None then dm\<lparr>dm_dist := (dm_dist dm)(node \<mapsto> f32_zero)\<rparr> else dm)"

partial_function (option) all_loop :: "dgraph \<Rightarrow> distance_map \<Rightarrow> pq_entry list \<Rightarrow> distance_map option" where
  [code]: "all_loop g dm pq =
     (case pq_pop pq of
        None \<Rightarrow> Some dm
      | Some ((cost, node), pq') \<Rightarrow>
          let dm1 = dist_entry dm node in
          if f32_less (the (dm_dist dm1 node)) cost then all_loop g dm1 pq'
          else let (dm', pq'') = all_scan cost node (dg_neighbors g node) dm1 pq' in all_loop g dm' pq'')"

definition dijkstra_all :: "dgraph \<Rightarrow> int \<Rightarrow> distance_map option" where
  "dijkstra_all g source =
     all_loop g \<lparr>dm_dist = [source \<mapsto> f32_zero], dm_parent = [source \<mapsto> -1]\<rparr> [(f32_zero, source)]"

end
