(* ===== verification/Shortest_Path.thy ===== *)
theory Shortest_Path
  imports Prelude
begin

text \<open>
  The laws of a search that always continues with a cheapest queued node, apart from any program. An
  edge extends a cost; costs are compared by a natural magnitude, which an extension never lowers and
  respects. Nothing is asked of the extension but these laws, so that rounded sums are covered. The
  queue may hold outdated entries, as in the three clients of \<^verbatim>\<open>src/graph/dijkstra.cpp\<close>.
\<close>

section \<open>Costs of walks\<close>

inductive cost_of :: "('n \<Rightarrow> 'e list) \<Rightarrow> ('e \<Rightarrow> 'n) \<Rightarrow> ('c \<Rightarrow> 'e \<Rightarrow> 'c) \<Rightarrow> 'c \<Rightarrow> 'n \<Rightarrow> 'n \<Rightarrow> 'c \<Rightarrow> bool"
  for out tgt ext zero s where
  start: "cost_of out tgt ext zero s s zero"
| extend: "cost_of out tgt ext zero s u c \<Longrightarrow> e \<in> set (out u) \<Longrightarrow> cost_of out tgt ext zero s (tgt e) (ext c e)"

section \<open>Invariants\<close>

text \<open>
  \<open>dist\<close> gives the cost at which a node was found, \<open>X\<close> are the nodes already expanded. Costs from the
  limit \<open>L\<close> on may be left out. While the edges of \<open>u\<close> are scanned, \<open>es\<close> are those still to come.
\<close>

definition relaxed :: "('e \<Rightarrow> 'n) \<Rightarrow> ('c \<Rightarrow> 'e \<Rightarrow> 'c) \<Rightarrow> ('c \<Rightarrow> nat) \<Rightarrow> nat \<Rightarrow> ('n \<rightharpoonup> 'c) \<Rightarrow> 'n \<Rightarrow> 'e \<Rightarrow> bool" where
  "relaxed tgt ext mag L dist v e \<longleftrightarrow>
     mag (ext (the (dist v)) e) < L \<longrightarrow> (\<exists>d. dist (tgt e) = Some d \<and> mag d \<le> mag (ext (the (dist v)) e))"

locale cheapest_first =
  fixes out :: "'n \<Rightarrow> 'e list"
    and tgt :: "'e \<Rightarrow> 'n"
    and ext :: "'c \<Rightarrow> 'e \<Rightarrow> 'c"
    and mag :: "'c \<Rightarrow> nat"
    and good :: "'c \<Rightarrow> bool"
    and zero :: 'c
    and s :: 'n
    and L :: nat
  assumes zero: "good zero" "mag zero = 0"
    and ext_good: "good c \<Longrightarrow> e \<in> set (out u) \<Longrightarrow> good (ext c e)"
    and ext_mono: "good a \<Longrightarrow> good b \<Longrightarrow> e \<in> set (out u) \<Longrightarrow> mag a \<le> mag b \<Longrightarrow> mag (ext a e) \<le> mag (ext b e)"
    and ext_up: "good c \<Longrightarrow> e \<in> set (out u) \<Longrightarrow> mag c \<le> mag (ext c e)"
    and mag_inj: "good a \<Longrightarrow> good b \<Longrightarrow> mag a = mag b \<Longrightarrow> a = b"
    and L_pos: "0 < L"
begin

definition found :: "('n \<rightharpoonup> 'c) \<Rightarrow> bool" where
  "found dist \<longleftrightarrow> dist s = Some zero \<and> (\<forall>v c. dist v = Some c \<longrightarrow> good c \<and> mag c < L \<and> cost_of out tgt ext zero s v c)"

definition queued :: "('n \<rightharpoonup> 'c) \<Rightarrow> ('c \<times> 'n) list \<Rightarrow> 'n set \<Rightarrow> bool" where
  "queued dist pq X \<longleftrightarrow> X \<subseteq> dom dist \<and>
     (\<forall>c v. (c, v) \<in> set pq \<longrightarrow> good c \<and> (\<exists>d. dist v = Some d \<and> mag d \<le> mag c)) \<and>
     (\<forall>x c v. x \<in> X \<longrightarrow> (c, v) \<in> set pq \<longrightarrow> mag (the (dist x)) \<le> mag c) \<and>
     (\<forall>v d. dist v = Some d \<longrightarrow> v \<notin> X \<longrightarrow> (d, v) \<in> set pq)"

definition search_inv :: "('n \<rightharpoonup> 'c) \<Rightarrow> ('c \<times> 'n) list \<Rightarrow> 'n set \<Rightarrow> bool" where
  "search_inv dist pq X \<longleftrightarrow> found dist \<and> queued dist pq X \<and>
     (\<forall>v \<in> X. \<forall>e \<in> set (out v). relaxed tgt ext mag L dist v e)"

definition scan_inv :: "('n \<rightharpoonup> 'c) \<Rightarrow> ('c \<times> 'n) list \<Rightarrow> 'n set \<Rightarrow> 'n \<Rightarrow> 'e list \<Rightarrow> bool" where
  "scan_inv dist pq X u es \<longleftrightarrow> found dist \<and> queued dist pq X \<and> u \<in> X \<and> set es \<subseteq> set (out u) \<and>
     (\<forall>v \<in> X. mag (the (dist v)) \<le> mag (the (dist u))) \<and>
     (\<forall>v \<in> X. \<forall>e \<in> set (out v). v = u \<and> e \<in> set es \<or> relaxed tgt ext mag L dist v e)"

lemma foundD: "found dist \<Longrightarrow> dist v = Some c \<Longrightarrow> good c \<and> mag c < L \<and> cost_of out tgt ext zero s v c"
  by (simp add: found_def)

lemma queuedD:
  assumes "queued dist pq X"
  shows "(c, v) \<in> set pq \<Longrightarrow> good c \<and> (\<exists>d. dist v = Some d \<and> mag d \<le> mag c)"
    and "x \<in> X \<Longrightarrow> (c, v) \<in> set pq \<Longrightarrow> mag (the (dist x)) \<le> mag c"
    and "dist v = Some d \<Longrightarrow> v \<notin> X \<Longrightarrow> (d, v) \<in> set pq"
    and "X \<subseteq> dom dist"
  using assms unfolding queued_def by blast+

lemma initial: "search_inv [s \<mapsto> zero] [(zero, s)] {}"
  using zero L_pos by (auto simp: search_inv_def found_def queued_def start)

text \<open>An entry above the known cost is dropped.\<close>

lemma stale:
  assumes "search_inv dist pq X" "mag (the (dist u)) < mag c"
  shows "search_inv dist (remove1 (c, u) pq) X"
proof -
  have "(d, v) \<in> set (remove1 (c, u) pq)" if "dist v = Some d" "v \<notin> X" for v d
  proof -
    have "(d, v) \<in> set pq" "(d, v) \<noteq> (c, u)"
      using assms that queuedD(3) by (auto simp: search_inv_def)
    then show ?thesis by simp
  qed
  then show ?thesis
    using assms(1) set_remove1_subset [of "(c, u)" pq] unfolding search_inv_def queued_def by blast
qed

text \<open>A cheapest entry at the known cost is expanded.\<close>

lemma take:
  assumes "search_inv dist pq X" "(c, u) \<in> set pq" "\<forall>q \<in> set pq. mag c \<le> mag (fst q)"
    "\<not> mag (the (dist u)) < mag c"
  shows "dist u = Some c" "scan_inv dist (remove1 (c, u) pq) (insert u X) u (out u)"
proof -
  let ?pq = "remove1 (c, u) pq"
  have q: "queued dist pq X" and f: "found dist"
    using assms(1) by (simp_all add: search_inv_def)
  obtain d where d: "dist u = Some d" "mag d \<le> mag c" "good c"
    using queuedD(1) [OF q assms(2)] by blast
  then have "d = c"
    using assms(4) foundD [OF f] mag_inj by (simp add: order_antisym)
  with d show du: "dist u = Some c" by simp
  have sub: "set ?pq \<subseteq> set pq" by (rule set_remove1_subset)
  have "(d, v) \<in> set ?pq" if "dist v = Some d" "v \<notin> insert u X" for v d
    using that queuedD(3) [OF q] by simp
  moreover have "mag (the (dist x)) \<le> mag c'" if "x \<in> insert u X" "(c', v) \<in> set ?pq" for x c' v
    using that sub bspec [OF assms(3), of "(c', v)"] queuedD(2) [OF q, of x c' v] du by auto
  ultimately have "queued dist ?pq (insert u X)"
    using queuedD(1) [OF q] queuedD(4) [OF q] sub du unfolding queued_def by blast
  moreover have "\<forall>v \<in> insert u X. mag (the (dist v)) \<le> mag (the (dist u))"
    using queuedD(2) [OF q _ assms(2)] du by auto
  ultimately show "scan_inv dist ?pq (insert u X) u (out u)"
    using assms(1) unfolding scan_inv_def search_inv_def by blast
qed

lemma relax_keep:
  assumes "scan_inv dist pq X u (e # es)" "dist u = Some c"
    "L \<le> mag (ext c e) \<or> (\<exists>d. dist (tgt e) = Some d \<and> \<not> mag (ext c e) < mag d)"
  shows "scan_inv dist pq X u es"
proof -
  have "relaxed tgt ext mag L dist u e"
    using assms(2,3) by (auto simp: relaxed_def)
  then show ?thesis
    using assms(1) unfolding scan_inv_def by auto
qed

lemma relax_set:
  assumes "scan_inv dist pq X u (e # es)" "dist u = Some c" "mag (ext c e) < L"
    "dist (tgt e) = None \<or> mag (ext c e) < mag (the (dist (tgt e)))"
  shows "tgt e \<notin> X" "tgt e \<noteq> s" "good (ext c e)"
    "scan_inv (dist(tgt e \<mapsto> ext c e)) (pq @ [(ext c e, tgt e)]) X u es"
proof -
  let ?t = "tgt e" and ?n = "ext c e"
  let ?dist = "dist(?t \<mapsto> ?n)" and ?pq = "pq @ [(?n, ?t)]"
  have f: "found dist" and q: "queued dist pq X" and u: "u \<in> X" and e: "e \<in> set (out u)"
    and top: "\<And>v. v \<in> X \<Longrightarrow> mag (the (dist v)) \<le> mag c"
    using assms(1,2) by (auto simp: scan_inv_def)
  have c: "good c" "cost_of out tgt ext zero s u c"
    using foundD [OF f assms(2)] by simp_all
  then show n: "good ?n" using ext_good e by blast
  have up: "mag c \<le> mag ?n" using ext_up c(1) e by blast
  show tX: "?t \<notin> X"
  proof
    assume "?t \<in> X"
    moreover from this have "dist ?t \<noteq> None" using queuedD(4) [OF q] by blast
    ultimately show False using top [of ?t] up assms(4) by simp
  qed
  show ts: "?t \<noteq> s"
    using f zero assms(4) by (auto simp: found_def)
  have same: "?dist v = dist v" if "v \<in> X" for v
    using that tX by auto
  have f': "found ?dist"
    using f ts n assms(3) extend [OF c(2) e] by (auto simp: found_def)
  have "queued ?dist ?pq X"
    unfolding queued_def
  proof (intro conjI allI impI)
    show "X \<subseteq> dom ?dist" using queuedD(4) [OF q] by auto
  next
    fix c' v
    assume a: "(c', v) \<in> set ?pq"
    show "good c'" using a n queuedD(1) [OF q, of c' v] by auto
    show "\<exists>d. ?dist v = Some d \<and> mag d \<le> mag c'"
    proof (cases "(c', v) = (?n, ?t)")
      case False
      then obtain d where "dist v = Some d" "mag d \<le> mag c'"
        using a queuedD(1) [OF q, of c' v] by auto
      then show ?thesis using assms(4) by (cases "v = ?t") auto
    qed simp
  next
    fix x c' v
    assume "x \<in> X" "(c', v) \<in> set ?pq"
    then show "mag (the (?dist x)) \<le> mag c'"
      using queuedD(2) [OF q, of x c' v] top [of x] up same [of x] by fastforce
  next
    fix v d
    assume "?dist v = Some d" "v \<notin> X"
    then show "(d, v) \<in> set ?pq"
      using queuedD(3) [OF q, of v d] by (auto split: if_splits)
  qed
  moreover have "relaxed tgt ext mag L ?dist v e'"
    if "v \<in> X" "e' \<in> set (out v)" "\<not> (v = u \<and> e' \<in> set es)" for v e'
  proof (cases "relaxed tgt ext mag L dist v e'")
    case True
    then show ?thesis
      using assms(4) same [OF that(1)] by (auto simp: relaxed_def)
  next
    case False
    then have "v = u" "e' = e" using assms(1) that by (auto simp: scan_inv_def)
    then show ?thesis using same [OF u] assms(2) by (simp add: relaxed_def)
  qed
  moreover have "\<forall>v \<in> X. mag (the (?dist v)) \<le> mag (the (?dist u))"
    using top same u assms(2) by simp
  ultimately show "scan_inv ?dist ?pq X u es"
    using f' u assms(1) unfolding scan_inv_def by auto
qed

lemma finish: "scan_inv dist pq X u [] \<Longrightarrow> search_inv dist pq X"
  by (auto simp: scan_inv_def search_inv_def)

text \<open>Every walk below the limit is matched by the known cost of its end, or no cheaper than the queue.\<close>

lemma bounded:
  assumes "search_inv dist pq X" "\<forall>q \<in> set pq. m \<le> mag (fst q)" "cost_of out tgt ext zero s v c"
  shows "good c \<and> (mag c < L \<longrightarrow> m \<le> mag c \<or> (\<exists>d. dist v = Some d \<and> mag d \<le> mag c))"
  using assms(3)
proof induction
  case start
  then show ?case
    using assms(1) zero by (auto simp: search_inv_def found_def)
next
  case (extend u c e)
  have q: "queued dist pq X" and f: "found dist"
    using assms(1) by (simp_all add: search_inv_def)
  have g: "good (ext c e)" and up: "mag c \<le> mag (ext c e)"
    using extend ext_good ext_up by auto
  have "m \<le> mag (ext c e) \<or> (\<exists>d. dist (tgt e) = Some d \<and> mag d \<le> mag (ext c e))" if l: "mag (ext c e) < L"
  proof -
    consider "m \<le> mag c" | d where "dist u = Some d" "mag d \<le> mag c"
      using extend.IH l up by auto
    then show ?thesis
    proof cases
      case 1
      with up show ?thesis by simp
    next
      case (2 d)
      show ?thesis
      proof (cases "u \<in> X")
        case True
        then have "relaxed tgt ext mag L dist u e"
          using assms(1) extend.hyps(2) by (auto simp: search_inv_def)
        moreover have "mag (ext d e) \<le> mag (ext c e)"
          using ext_mono [of d c e u] foundD [OF f 2(1)] extend 2(2) by blast
        ultimately show ?thesis
          using 2(1) l by (fastforce simp: relaxed_def)
      next
        case False
        then have "m \<le> mag d"
          using queuedD(3) [OF q 2(1)] assms(2) by fastforce
        with 2(2) up show ?thesis by simp
      qed
    qed
  qed
  with g show ?case by blast
qed

lemma optimal_min:
  assumes "search_inv dist pq X" "(c, u) \<in> set pq" "\<forall>q \<in> set pq. mag c \<le> mag (fst q)"
    "u \<notin> X" "cost_of out tgt ext zero s u c'"
  shows "dist u = Some c" "mag c' < L \<longrightarrow> mag c \<le> mag c'"
proof -
  have q: "queued dist pq X" and f: "found dist"
    using assms(1) by (simp_all add: search_inv_def)
  obtain d where d: "dist u = Some d" "mag d \<le> mag c" "good c"
    using queuedD(1) [OF q assms(2)] by blast
  have "mag c \<le> mag d"
    using queuedD(3) [OF q d(1) assms(4)] assms(3) by fastforce
  with d show "dist u = Some c"
    using foundD [OF f d(1)] mag_inj by (simp add: order_antisym)
  with d show "mag c' < L \<longrightarrow> mag c \<le> mag c'"
    using bounded [OF assms(1,3,5)] by auto
qed

lemma optimal_end:
  assumes "search_inv dist [] X" "cost_of out tgt ext zero s v c" "mag c < L"
  shows "\<exists>d. dist v = Some d \<and> mag d \<le> mag c"
proof -
  have "\<forall>q \<in> set []. Suc (mag c) \<le> mag (fst q)" by simp
  from bounded [OF assms(1) this assms(2)] assms(3) show ?thesis by auto
qed

lemma optimal_settled:
  assumes "search_inv dist pq X" "v \<in> X" "cost_of out tgt ext zero s v c" "mag c < L"
  shows "mag (the (dist v)) \<le> mag c"
proof -
  have q: "queued dist pq X" using assms(1) by (simp add: search_inv_def)
  have "good c \<and> (mag c < L \<longrightarrow> mag (the (dist v)) \<le> mag c \<or> (\<exists>d. dist v = Some d \<and> mag d \<le> mag c))"
    by (rule bounded [OF assms(1) _ assms(3)]) (use queuedD(2) [OF q assms(2)] in auto)
  with assms(4) show ?thesis by auto
qed

text \<open>The search ends: a new cost lowers the potential of its node by more than the queue grows.\<close>

definition potential :: "'n set \<Rightarrow> ('n \<rightharpoonup> 'c) \<Rightarrow> nat" where
  "potential U dist = (\<Sum>v \<in> U. case dist v of None \<Rightarrow> L | Some c \<Rightarrow> mag c)"

lemma potential_set:
  assumes "finite U" "t \<in> U" "mag c < L" "dist t = None \<or> mag c < mag (the (dist t))"
  shows "Suc (potential U (dist(t \<mapsto> c))) \<le> potential U dist"
proof -
  let ?p = "\<lambda>dist v. case dist v of None \<Rightarrow> L | Some c \<Rightarrow> mag c"
  have "(\<Sum>v \<in> U - {t}. ?p (dist(t \<mapsto> c)) v) = (\<Sum>v \<in> U - {t}. ?p dist v)"
    by (intro sum.cong) auto
  moreover have "?p (dist(t \<mapsto> c)) t < ?p dist t"
    using assms(3,4) by (cases "dist t") auto
  ultimately show ?thesis
    using assms(1,2) by (simp add: potential_def sum.remove [of U t])
qed

end

end
