(* ===== verification/Dijkstra_Proofs.thy ===== *)
theory Dijkstra_Proofs
  imports Dijkstra Shortest_Path DFS_Proofs
begin

text \<open>
  The weighted searches as clients of the laws of \<open>Shortest_Path\<close>. The cost of a path is the float that
  the program computes for it, the weights added from the source on, each sum rounded; with weights
  that are not negative and not NaN no path is cheaper than the answer.
\<close>

section \<open>Costs\<close>

definition dist_ok :: "f32 \<Rightarrow> bool" where
  "dist_ok c \<longleftrightarrow> cost_ok c \<and> c \<noteq> F32_Fin True 0"

lemma dist_ok_cost: "dist_ok c \<Longrightarrow> cost_ok c"
  by (simp add: dist_ok_def)

lemma dist_ok_inj: "dist_ok a \<Longrightarrow> dist_ok b \<Longrightarrow> cost_mag a = cost_mag b \<Longrightarrow> a = b"
  by (cases a; cases b) (auto simp: dist_ok_def)

lemma dist_ok_add:
  assumes "dist_ok a" "cost_ok w"
  shows "dist_ok (f32_add a w)"
  unfolding dist_ok_def
proof
  show "cost_ok (f32_add a w)"
    using assms by (simp add: cost_add_ok dist_ok_cost)
  show "f32_add a w \<noteq> F32_Fin True 0"
    using assms by (cases a; cases w) (auto simp: dist_ok_def f32_pack_def Let_def)
qed

definition add_edge_cost :: "f32 \<Rightarrow> edge \<Rightarrow> f32" where
  "add_edge_cost c e = f32_add c (ed_weight e)"

text \<open>The edges of a node that a search follows; the test of the weight is void in the graphs below.\<close>

definition cheap_edges :: "dgraph \<Rightarrow> string \<Rightarrow> int \<Rightarrow> edge list" where
  "cheap_edges g rel u = filter (\<lambda>e. admits rel e \<and> cost_ok (ed_weight e)) (dg_neighbors g u)"

definition weights_ok :: "dgraph \<Rightarrow> bool" where
  "weights_ok g \<longleftrightarrow> (\<forall>u. \<forall>e \<in> set (dg_neighbors g u). cost_ok (ed_weight e))"

definition cost_limit :: nat where
  "cost_limit = Suc (2 ^ 277)"

interpretation cheap: cheapest_first "cheap_edges g rel" ed_to add_edge_cost cost_mag dist_ok f32_zero s cost_limit
  for g rel s
proof
  show "dist_ok f32_zero" "cost_mag f32_zero = 0" "0 < cost_limit"
    by (simp_all add: dist_ok_def cost_limit_def) (simp add: f32_zero_def)
  show "dist_ok (add_edge_cost c e)" if "dist_ok c" "e \<in> set (cheap_edges g rel u)" for c e u
    using that by (simp add: add_edge_cost_def cheap_edges_def dist_ok_add)
  show "cost_mag (add_edge_cost a e) \<le> cost_mag (add_edge_cost b e)"
    if "dist_ok a" "dist_ok b" "e \<in> set (cheap_edges g rel u)" "cost_mag a \<le> cost_mag b" for a b e u
    using that cost_add_mono by (simp add: add_edge_cost_def cheap_edges_def dist_ok_cost)
  show "cost_mag c \<le> cost_mag (add_edge_cost c e)" if "dist_ok c" "e \<in> set (cheap_edges g rel u)" for c e u
    using that cost_add_inflates by (simp add: add_edge_cost_def cheap_edges_def dist_ok_cost)
qed (rule dist_ok_inj)

lemma below_limit: "dist_ok c \<Longrightarrow> cost_mag c < cost_limit"
  unfolding cost_limit_def less_Suc_eq_le by (rule cost_mag_le [OF dist_ok_cost])

section \<open>The queue\<close>

lemma pq_least_ok:
  assumes "\<forall>y \<in> set (x # ys). cost_ok (fst y)"
  shows "pq_least x ys \<in> set (x # ys)" "\<forall>y \<in> set (x # ys). cost_mag (fst (pq_least x ys)) \<le> cost_mag (fst y)"
proof -
  have "pq_least x ys \<in> set (x # ys) \<and> (\<forall>y \<in> set (x # ys). cost_mag (fst (pq_least x ys)) \<le> cost_mag (fst y))"
    using assms
  proof (induction ys arbitrary: x)
    case (Cons z zs)
    let ?m = "if entry_less z x then z else x"
    have "cost_mag (fst ?m) \<le> cost_mag (fst x) \<and> cost_mag (fst ?m) \<le> cost_mag (fst z)"
      using Cons.prems by (auto simp: entry_less_def cost_less)
    moreover have "pq_least ?m zs \<in> set (?m # zs) \<and> (\<forall>y \<in> set (?m # zs). cost_mag (fst (pq_least ?m zs)) \<le> cost_mag (fst y))"
      by (rule Cons.IH) (use Cons.prems in auto)
    ultimately show ?case
      by (auto simp del: pq_least.simps simp add: pq_least.simps(2) split: if_splits intro: order_trans)
  qed simp
  then show "pq_least x ys \<in> set (x # ys)" "\<forall>y \<in> set (x # ys). cost_mag (fst (pq_least x ys)) \<le> cost_mag (fst y)"
    by blast+
qed

lemma pq_pop_None: "pq_pop q = None \<longleftrightarrow> q = []"
  by (simp add: pq_pop_def Let_def split: list.splits)

lemma pq_popD:
  assumes "pq_pop q = Some ((c, u), q')" "\<forall>y \<in> set q. cost_ok (fst y)"
  shows "(c, u) \<in> set q" "q' = remove1 (c, u) q" "\<forall>y \<in> set q. cost_mag c \<le> cost_mag (fst y)"
    "length q = Suc (length q')"
proof -
  obtain x xs where q: "q = x # xs" "pq_least x xs = (c, u)" and q': "q' = remove1 (c, u) q"
    using assms(1) by (auto simp: pq_pop_def Let_def split: list.splits)
  have ok: "\<forall>y \<in> set (x # xs). cost_ok (fst y)"
    using assms(2) q(1) by simp
  show m: "(c, u) \<in> set q" using pq_least_ok(1) [OF ok] q by simp
  show "q' = remove1 (c, u) q" by (rule q')
  then show "length q = Suc (length q')"
    using m length_pos_if_in_set [OF m] by (simp add: length_remove1)
  show "\<forall>y \<in> set q. cost_mag c \<le> cost_mag (fst y)"
    using pq_least_ok(2) [OF ok] q by simp
qed

section \<open>Weighted walks\<close>

inductive wpath :: "dgraph \<Rightarrow> string \<Rightarrow> int \<Rightarrow> int \<Rightarrow> int list \<Rightarrow> string list \<Rightarrow> f32 \<Rightarrow> bool"
  for g rel s where
  start: "wpath g rel s s [s] [] f32_zero"
| step: "wpath g rel s u ns rs c \<Longrightarrow> e \<in> set (dg_neighbors g u) \<Longrightarrow> admits rel e \<Longrightarrow>
    wpath g rel s (ed_to e) (ns @ [ed_to e]) (rs @ [ed_rel e]) (f32_add c (ed_weight e))"

abbreviation costs :: "dgraph \<Rightarrow> string \<Rightarrow> int \<Rightarrow> int \<Rightarrow> f32 \<Rightarrow> bool" where
  "costs g rel s \<equiv> cost_of (cheap_edges g rel) ed_to add_edge_cost f32_zero s"

lemma wpath_costs:
  assumes "weights_ok g" "wpath g rel s v ns rs c"
  shows "costs g rel s v c"
  using assms(2)
proof induction
  case start
  then show ?case by (rule cost_of.start)
next
  case (step u ns rs c e)
  then have "e \<in> set (cheap_edges g rel u)"
    using assms(1) by (auto simp: cheap_edges_def weights_ok_def)
  then show ?case
    using cost_of.extend [OF step.IH] by (simp add: add_edge_cost_def)
qed

lemma costs_wpath: "costs g rel s v c \<Longrightarrow> \<exists>ns rs. wpath g rel s v ns rs c"
proof (induction rule: cost_of.induct)
  case start
  show ?case by (intro exI) (rule wpath.start)
next
  case (extend u c e)
  then obtain ns rs where "wpath g rel s u ns rs c" by blast
  moreover have "e \<in> set (dg_neighbors g u)" "admits rel e"
    using extend.hyps(2) by (auto simp: cheap_edges_def)
  ultimately show ?case
    unfolding add_edge_cost_def by (intro exI) (rule wpath.step)
qed

lemma reach_edge:
  "u \<in> reachable (rel_succs g rel) s \<Longrightarrow> e \<in> set (dg_neighbors g u) \<Longrightarrow> admits rel e \<Longrightarrow>
     ed_to e \<in> reachable (rel_succs g rel) s"
  by (erule reachable_step) (auto simp: rel_succs_def)

lemma costs_reachable: "costs g rel s v c \<Longrightarrow> v \<in> reachable (rel_succs g rel) s"
proof (induction rule: cost_of.induct)
  case (extend u c e)
  then show ?case
    by (intro reach_edge [of u]) (auto simp: cheap_edges_def)
qed simp

lemma wpath_reachable:
  "v \<in> reachable (rel_succs g rel) s \<longleftrightarrow> (\<exists>ns rs c. wpath g rel s v ns rs c)"
proof
  assume "v \<in> reachable (rel_succs g rel) s"
  then have "(s, v) \<in> (edge_rel (rel_succs g rel))\<^sup>*" by (simp add: reachable_def)
  then show "\<exists>ns rs c. wpath g rel s v ns rs c"
  proof (induction rule: rtrancl_induct)
    case base
    show ?case by (intro exI) (rule wpath.start)
  next
    case (step u w)
    then obtain e where e: "e \<in> set (dg_neighbors g u)" "admits rel e" "w = ed_to e"
      by (auto simp: edge_rel_def rel_succs_def)
    obtain ns rs c where "wpath g rel s u ns rs c" using step.IH by blast
    then show ?case
      unfolding e(3) by (intro exI) (rule wpath.step [OF _ e(1,2)])
  qed
next
  assume "\<exists>ns rs c. wpath g rel s v ns rs c"
  then obtain ns rs c where "wpath g rel s v ns rs c" by blast
  then show "v \<in> reachable (rel_succs g rel) s"
  proof induction
    case (step u ns rs c e)
    then show ?case by (intro reach_edge [of u])
  qed simp
qed

section \<open>Parents\<close>

text \<open>The path that the parents describe; its inner nodes are expanded ones, whose cost is final.\<close>

inductive trail :: "dgraph \<Rightarrow> string \<Rightarrow> int \<Rightarrow> (int \<rightharpoonup> int) \<Rightarrow> (int \<rightharpoonup> string) \<Rightarrow> int set \<Rightarrow> int \<Rightarrow> int list \<Rightarrow> string list \<Rightarrow> f32 \<Rightarrow> bool"
  for g rel s parent via X where
  start: "parent s = Some (-1) \<Longrightarrow> trail g rel s parent via X s [s] [] f32_zero"
| step: "trail g rel s parent via X u ns rs c \<Longrightarrow> u \<in> X \<Longrightarrow> e \<in> set (dg_neighbors g u) \<Longrightarrow>
    admits rel e \<Longrightarrow> parent (ed_to e) = Some u \<Longrightarrow> via (ed_to e) = Some (ed_rel e) \<Longrightarrow>
    trail g rel s parent via X (ed_to e) (ns @ [ed_to e]) (rs @ [ed_rel e]) (f32_add c (ed_weight e))"

lemma trail_wpath: "trail g rel s parent via X v ns rs c \<Longrightarrow> wpath g rel s v ns rs c"
  by (induction rule: trail.induct) (auto intro: wpath.intros)

lemma trail_update:
  assumes "trail g rel s parent via X v ns rs c" "X \<subseteq> X'" "t \<notin> X'" "v \<noteq> t"
  shows "trail g rel s (parent(t \<mapsto> p)) (via(t \<mapsto> r)) X' v ns rs c"
  using assms(1,4)
proof induction
  case start
  then show ?case by (intro trail.start) simp
next
  case (step u ns rs c e)
  moreover have "u \<noteq> t" using step.hyps(2) assms(2,3) by blast
  ultimately show ?case using assms(2) by (intro trail.step) auto
qed

lemma trail_mono: "trail g rel s parent via X v ns rs c \<Longrightarrow> X \<subseteq> X' \<Longrightarrow> trail g rel s parent via X' v ns rs c"
  by (induction rule: trail.induct) (auto intro: trail.intros)

lemma trace_back_ok:
  assumes "trail g rel s parent via X v ns rs c" "-1 \<notin> reachable (rel_succs g rel) s"
  shows "trace_back parent via v ns0 rs0 = Some (ns0 @ rev ns, rs0 @ rev rs)"
  using assms(1)
proof (induction arbitrary: ns0 rs0 rule: trail.induct)
  case start
  have "s \<noteq> -1" using assms(2) reachable_self by metis
  then show ?case
    using start by (subst trace_back.simps) (simp add: parent_at_def, subst trace_back.simps, simp)
next
  case (step u ns rs c e)
  have r: "u \<in> reachable (rel_succs g rel) s"
    using trail_wpath [OF step.hyps(1)] wpath_reachable by blast
  then have "u \<noteq> -1" "ed_to e \<noteq> -1"
    using reach_edge [OF r step.hyps(3,4)] assms(2) by metis+
  then show ?case
    using step by (subst trace_back.simps) (simp add: parent_at_def via_at_def)
qed

section \<open>Scanning the edges of a node\<close>

text \<open>What a scan keeps, whichever of the programs runs it: \<open>tr\<close> is its invariant on the parents.\<close>

definition weigh_ok :: "dgraph \<Rightarrow> string \<Rightarrow> int \<Rightarrow> wp_state \<Rightarrow> int set \<Rightarrow> bool" where
  "weigh_ok g rel s st X \<longleftrightarrow>
     (\<forall>v c. ws_dist st v = Some c \<longrightarrow> (\<exists>ns rs. trail g rel s (ws_parent st) (ws_via st) X v ns rs c))"

lemma weigh_okD:
  assumes "weigh_ok g rel s st X" "ws_dist st v = Some c"
  obtains ns rs where "trail g rel s (ws_parent st) (ws_via st) X v ns rs c"
  using assms unfolding weigh_ok_def by blast

lemma weigh_ok_mono: "weigh_ok g rel s st X \<Longrightarrow> X \<subseteq> X' \<Longrightarrow> weigh_ok g rel s st X'"
  unfolding weigh_ok_def by (meson trail_mono)

definition reached :: "dgraph \<Rightarrow> string \<Rightarrow> int \<Rightarrow> int set" where
  "reached g rel s = reachable (rel_succs g rel) s"

lemma weigh_step:
  assumes "weigh_ok g rel s st X" "ws_dist st u = Some c" "u \<in> X" "ed_to e \<notin> X"
    "e \<in> set (dg_neighbors g u)" "admits rel e"
  shows "weigh_ok g rel s \<lparr>ws_dist = (ws_dist st)(ed_to e \<mapsto> f32_add c (ed_weight e)),
      ws_parent = (ws_parent st)(ed_to e \<mapsto> u), ws_via = (ws_via st)(ed_to e \<mapsto> ed_rel e), ws_pq = pq\<rparr> X"
  unfolding weigh_ok_def
proof (intro allI impI)
  let ?par = "(ws_parent st)(ed_to e \<mapsto> u)" and ?via = "(ws_via st)(ed_to e \<mapsto> ed_rel e)"
  fix v d
  assume v: "ws_dist \<lparr>ws_dist = (ws_dist st)(ed_to e \<mapsto> f32_add c (ed_weight e)),
      ws_parent = ?par, ws_via = ?via, ws_pq = pq\<rparr> v = Some d"
  have upd: "\<exists>ns rs. trail g rel s ?par ?via X w ns rs d'" if w: "ws_dist st w = Some d'" "w \<noteq> ed_to e" for w d'
  proof -
    obtain ns rs where "trail g rel s (ws_parent st) (ws_via st) X w ns rs d'"
      using weigh_okD [OF assms(1) w(1)] .
    from trail_update [OF this subset_refl assms(4) w(2)] show ?thesis by (intro exI)
  qed
  show "\<exists>ns rs. trail g rel s (ws_parent \<lparr>ws_dist = (ws_dist st)(ed_to e \<mapsto> f32_add c (ed_weight e)),
      ws_parent = ?par, ws_via = ?via, ws_pq = pq\<rparr>) (ws_via \<lparr>ws_dist = (ws_dist st)(ed_to e \<mapsto> f32_add c (ed_weight e)),
      ws_parent = ?par, ws_via = ?via, ws_pq = pq\<rparr>) X v ns rs d"
  proof (cases "v = ed_to e")
    case True
    have "u \<noteq> ed_to e" using assms(3,4) by blast
    then obtain ns rs where t: "trail g rel s ?par ?via X u ns rs c"
      using upd [OF assms(2)] by blast
    have "trail g rel s ?par ?via X (ed_to e) (ns @ [ed_to e]) (rs @ [ed_rel e]) (f32_add c (ed_weight e))"
      by (rule trail.step [OF t assms(3,5,6)]) simp_all
    then show ?thesis using v True by (simp only: wp_state.simps fun_upd_same option.inject) (intro exI)
  next
    case False
    then show ?thesis using upd [of v d] v by simp
  qed
qed

lemma weigh_scan_ok:
  assumes "cheap.scan_inv g rel s (ws_dist st) (ws_pq st) X u (filter (\<lambda>e. admits rel e \<and> cost_ok (ed_weight e)) es)"
    "weigh_ok g rel s st X" "ws_dist st u = Some c" "weights_ok g" "set es \<subseteq> set (dg_neighbors g u)"
    "finite (reached g rel s)"
  shows "\<exists>st'. weigh_scan rel c u es st = st' \<and> cheap.scan_inv g rel s (ws_dist st') (ws_pq st') X u [] \<and>
    weigh_ok g rel s st' X \<and>
    cheap.potential (reached g rel s) (ws_dist st') + length (ws_pq st') \<le>
      cheap.potential (reached g rel s) (ws_dist st) + length (ws_pq st)"
  using assms(1-3,5)
proof (induction es arbitrary: st)
  case (Cons e es)
  let ?ok = "\<lambda>e. admits rel e \<and> cost_ok (ed_weight e)"
  have sub: "set es \<subseteq> set (dg_neighbors g u)" and e: "e \<in> set (dg_neighbors g u)"
    using Cons.prems(4) by simp_all
  have w: "cost_ok (ed_weight e)"
    using assms(4) e by (simp add: weights_ok_def)
  show ?case
  proof (cases "admits rel e")
    case False
    then show ?thesis
      using Cons.IH [OF _ Cons.prems(2,3) sub] Cons.prems(1) by simp
  next
    case True
    let ?t = "ed_to e" and ?n = "f32_add c (ed_weight e)"
    have n: "?n = add_edge_cost c e" by (simp add: add_edge_cost_def)
    have scan: "cheap.scan_inv g rel s (ws_dist st) (ws_pq st) X u (e # filter ?ok es)"
      using Cons.prems(1) True w by simp
    then have f: "cheap.found g rel s (ws_dist st)" and u: "u \<in> X"
      by (simp_all add: cheap.scan_inv_def)
    have gc: "dist_ok c" "costs g rel s u c"
      using cheap.foundD [OF f Cons.prems(3)] by simp_all
    then have gn: "dist_ok ?n" using w by (simp add: dist_ok_add)
    have lt: "f32_less ?n d \<longleftrightarrow> cost_mag ?n < cost_mag d" if "ws_dist st ?t = Some d" for d
      using cheap.foundD [OF f that] gn by (simp add: cost_less dist_ok_cost)
    show ?thesis
    proof (cases "ws_dist st ?t = None \<or> f32_less ?n (the (ws_dist st ?t))")
      case False
      then have "cheap.scan_inv g rel s (ws_dist st) (ws_pq st) X u (filter ?ok es)"
        using cheap.relax_keep [OF scan Cons.prems(3)] lt n by auto
      moreover have "weigh_scan rel c u (e # es) st = weigh_scan rel c u es st"
        by (simp only: weigh_scan.simps Let_def True False if_False not_True_eq_False)
      ultimately show ?thesis
        using Cons.IH [OF _ Cons.prems(2,3) sub] by simp
    next
      case less: True
      let ?st = "\<lparr>ws_dist = (ws_dist st)(?t \<mapsto> ?n), ws_parent = (ws_parent st)(?t \<mapsto> u),
        ws_via = (ws_via st)(?t \<mapsto> ed_rel e), ws_pq = ws_pq st @ [(?n, ?t)]\<rparr>"
      have less': "ws_dist st ?t = None \<or> cost_mag ?n < cost_mag (the (ws_dist st ?t))"
        using less by (cases "ws_dist st ?t") (simp_all add: lt)
      note rs = cheap.relax_set [OF scan Cons.prems(3) below_limit [OF gn [unfolded n]] less' [unfolded n], folded n]
      have ut: "u \<noteq> ?t" using rs(1) u by blast
      have ok: "weigh_ok g rel s ?st X"
        by (rule weigh_step [OF Cons.prems(2,3) u rs(1) e True])
      have "?t \<in> reached g rel s"
        using reach_edge [OF costs_reachable [OF gc(2)] e True] by (simp add: reached_def)
      then have "Suc (cheap.potential (reached g rel s) ((ws_dist st)(?t \<mapsto> ?n))) \<le>
          cheap.potential (reached g rel s) (ws_dist st)"
        using less' below_limit [OF gn] assms(6) by (intro cheap.potential_set)
      then have pot: "cheap.potential (reached g rel s) (ws_dist ?st) + length (ws_pq ?st) \<le>
          cheap.potential (reached g rel s) (ws_dist st) + length (ws_pq st)"
        by simp
      have "weigh_scan rel c u (e # es) st = weigh_scan rel c u es ?st"
        using True less by (simp add: Let_def)
      moreover have sc: "cheap.scan_inv g rel s (ws_dist ?st) (ws_pq ?st) X u (filter ?ok es)"
        using rs(4) by simp
      have du: "ws_dist ?st u = Some c" using ut Cons.prems(3) by simp
      obtain st' where "weigh_scan rel c u es ?st = st'"
        "cheap.scan_inv g rel s (ws_dist st') (ws_pq st') X u []" "weigh_ok g rel s st' X"
        "cheap.potential (reached g rel s) (ws_dist st') + length (ws_pq st') \<le>
          cheap.potential (reached g rel s) (ws_dist ?st) + length (ws_pq ?st)"
        using Cons.IH [OF sc ok du sub] by blast
      ultimately show ?thesis
        using pot by (intro exI [of _ st']) simp
    qed
  qed
qed simp

section \<open>The single target search\<close>

definition weigh_inv :: "dgraph \<Rightarrow> string \<Rightarrow> int \<Rightarrow> wp_state \<Rightarrow> int set \<Rightarrow> bool" where
  "weigh_inv g rel s st X \<longleftrightarrow> cheap.search_inv g rel s (ws_dist st) (ws_pq st) X \<and> weigh_ok g rel s st X"

definition weigh_measure :: "dgraph \<Rightarrow> string \<Rightarrow> int \<Rightarrow> wp_state \<Rightarrow> nat" where
  "weigh_measure g rel s st = cheap.potential (reached g rel s) (ws_dist st) + length (ws_pq st)"

text \<open>The queue is popped: what holds of the entry, and of the state when it is dropped or expanded.\<close>

lemma weigh_pop:
  assumes "weigh_inv g rel s st X" "pq_pop (ws_pq st) = Some ((c, u), pq')"
  obtains d where "(c, u) \<in> set (ws_pq st)" "\<forall>y \<in> set (ws_pq st). cost_mag c \<le> cost_mag (fst y)"
    "ws_dist st u = Some d" "f32_less d c \<longleftrightarrow> cost_mag d < cost_mag c" "u \<in> reached g rel s" "dist_ok c"
    "pq' = remove1 (c, u) (ws_pq st)" "weigh_measure g rel s (st\<lparr>ws_pq := pq'\<rparr>) < weigh_measure g rel s st"
proof -
  have inv: "cheap.search_inv g rel s (ws_dist st) (ws_pq st) X"
    using assms(1) by (simp add: weigh_inv_def)
  then have f: "cheap.found g rel s (ws_dist st)" and q: "cheap.queued (ws_dist st) (ws_pq st) X"
    by (simp_all add: cheap.search_inv_def)
  have "\<forall>y \<in> set (ws_pq st). cost_ok (fst y)"
    using cheap.queuedD(1) [OF q] dist_ok_cost by fastforce
  note pop = pq_popD [OF assms(2) this]
  obtain d where d: "ws_dist st u = Some d" "dist_ok c"
    using cheap.queuedD(1) [OF q pop(1)] by blast
  have "dist_ok d" "u \<in> reached g rel s"
    using cheap.foundD [OF f d(1)] costs_reachable by (auto simp: reached_def)
  with pop d show thesis
    by (intro that [of d]) (simp_all add: cost_less dist_ok_cost weigh_measure_def)
qed

lemma weigh_drop:
  assumes "weigh_inv g rel s st X" "ws_dist st u = Some d" "cost_mag d < cost_mag c" "pq' = remove1 (c, u) (ws_pq st)"
  shows "weigh_inv g rel s (st\<lparr>ws_pq := pq'\<rparr>) X"
  using assms cheap.stale [of g rel s "ws_dist st" "ws_pq st" X u c]
  by (simp add: weigh_inv_def weigh_ok_def)

lemma weigh_expand:
  assumes "weigh_inv g rel s st X" "(c, u) \<in> set (ws_pq st)" "\<forall>y \<in> set (ws_pq st). cost_mag c \<le> cost_mag (fst y)"
    "ws_dist st u = Some d" "\<not> cost_mag d < cost_mag c" "pq' = remove1 (c, u) (ws_pq st)"
    "weights_ok g" "finite (reached g rel s)"
  defines "st' \<equiv> weigh_scan rel c u (dg_neighbors g u) (st\<lparr>ws_pq := pq'\<rparr>)"
  shows "weigh_inv g rel s st' (insert u X)"
    "weigh_measure g rel s st' \<le> weigh_measure g rel s (st\<lparr>ws_pq := pq'\<rparr>)"
proof -
  have inv: "cheap.search_inv g rel s (ws_dist st) (ws_pq st) X" and ok: "weigh_ok g rel s st X"
    using assms(1) by (simp_all add: weigh_inv_def)
  have "\<not> cost_mag (the (ws_dist st u)) < cost_mag c"
    using assms(4,5) by simp
  note t = cheap.take [OF inv assms(2,3) this, folded assms(6)]
  have ok': "weigh_ok g rel s (st\<lparr>ws_pq := pq'\<rparr>) (insert u X)"
    using weigh_ok_mono [OF ok, of "insert u X"] by (auto simp: weigh_ok_def)
  have "cheap.scan_inv g rel s (ws_dist (st\<lparr>ws_pq := pq'\<rparr>)) (ws_pq (st\<lparr>ws_pq := pq'\<rparr>)) (insert u X) u
      (filter (\<lambda>e. admits rel e \<and> cost_ok (ed_weight e)) (dg_neighbors g u))"
    using t(2) by (simp add: cheap_edges_def)
  from weigh_scan_ok [OF this ok' _ assms(7) subset_refl assms(8), of c] t(1)
  show "weigh_inv g rel s st' (insert u X)"
    "weigh_measure g rel s st' \<le> weigh_measure g rel s (st\<lparr>ws_pq := pq'\<rparr>)"
    using cheap.finish unfolding st'_def weigh_inv_def weigh_measure_def by auto
qed

definition weigh_answer :: "dgraph \<Rightarrow> string \<Rightarrow> int \<Rightarrow> int \<Rightarrow> weighted_path \<Rightarrow> bool" where
  "weigh_answer g rel s t p \<longleftrightarrow>
     (if t \<in> reached g rel s
      then wpath g rel s t (wp_nodes p) (wp_rels p) (wp_cost p) \<and>
        (\<forall>ns rs c. wpath g rel s t ns rs c \<longrightarrow> \<not> f32_less c (wp_cost p))
      else p = no_wpath)"

lemma weigh_loop_ok:
  assumes "weigh_inv g rel s st X" "target \<notin> X" "-1 \<notin> reached g rel s" "weights_ok g" "finite (reached g rel s)"
  shows "\<exists>p. weigh_loop g rel target st = Some p \<and> weigh_answer g rel s target p"
  using assms(1,2)
proof (induction "weigh_measure g rel s st" arbitrary: st X rule: less_induct)
  case less
  have inv: "cheap.search_inv g rel s (ws_dist st) (ws_pq st) X" and ok: "weigh_ok g rel s st X"
    using less.prems(1) by (simp_all add: weigh_inv_def)
  then have q: "cheap.queued (ws_dist st) (ws_pq st) X"
    by (simp add: cheap.search_inv_def)
  have below: "costs g rel s v c \<Longrightarrow> cost_mag c < cost_limit" for v c
    using cheap.bounded [OF inv, of 0] below_limit by simp
  show ?case
  proof (cases "pq_pop (ws_pq st)")
    case None
    then have e: "ws_pq st = []" by (simp add: pq_pop_None)
    have "target \<notin> reached g rel s"
    proof
      assume "target \<in> reached g rel s"
      then obtain ns rs c where "wpath g rel s target ns rs c"
        unfolding reached_def wpath_reachable by blast
      then have c: "costs g rel s target c" using wpath_costs assms(4) by blast
      obtain d where "ws_dist st target = Some d"
        using cheap.optimal_end [OF inv [unfolded e] c below [OF c]] by blast
      then show False
        using cheap.queuedD(3) [OF q] less.prems(2) e by fastforce
    qed
    with None show ?thesis
      by (subst weigh_loop.simps) (simp add: weigh_answer_def)
  next
    case (Some y)
    then obtain c u pq' where pop: "pq_pop (ws_pq st) = Some ((c, u), pq')"
      by (metis prod.collapse)
    obtain d where d: "(c, u) \<in> set (ws_pq st)" "\<forall>y \<in> set (ws_pq st). cost_mag c \<le> cost_mag (fst y)"
      "ws_dist st u = Some d" "f32_less d c \<longleftrightarrow> cost_mag d < cost_mag c" "u \<in> reached g rel s" "dist_ok c"
      "pq' = remove1 (c, u) (ws_pq st)" "weigh_measure g rel s (st\<lparr>ws_pq := pq'\<rparr>) < weigh_measure g rel s st"
      by (rule weigh_pop [OF less.prems(1) pop])
    show ?thesis
    proof (cases "u = target")
      case True
      have opt: "cost_mag c \<le> cost_mag c'" if "costs g rel s u c'" for c'
        using cheap.optimal_min(2) [OF inv d(1,2) _ that] below [OF that] less.prems(2) True by blast
      have "cheap.found g rel s (ws_dist st)" using inv by (simp add: cheap.search_inv_def)
      then have "costs g rel s u d" using cheap.foundD d(3) by blast
      then have "ws_dist st u = Some c"
        using cheap.optimal_min(1) [OF inv d(1,2)] less.prems(2) True by blast
      then obtain ns rs where t: "trail g rel s (ws_parent st) (ws_via st) X u ns rs c"
        using weigh_okD [OF ok] by blast
      have "\<not> f32_less c' c" if "wpath g rel s target ns rs c'" for ns rs c'
      proof -
        have c': "costs g rel s u c'" using wpath_costs [OF assms(4) that] True by simp
        then have "dist_ok c'" using cheap.bounded [OF inv, of 0] by simp
        then show ?thesis using opt [OF c'] d(6) by (simp add: cost_less dist_ok_cost)
      qed
      then have "weigh_answer g rel s target \<lparr>wp_nodes = ns, wp_rels = rs, wp_cost = c\<rparr>"
        using trail_wpath [OF t] d(5) True by (simp add: weigh_answer_def)
      moreover have "weigh_loop g rel target st = Some \<lparr>wp_nodes = ns, wp_rels = rs, wp_cost = c\<rparr>"
        using trace_back_ok [OF t, of "[]" "[]"] assms(3) True unfolding reached_def
        by (subst weigh_loop.simps) (simp add: pop)
      ultimately show ?thesis by blast
    next
      case False
      show ?thesis
      proof (cases "f32_less d c")
        case True
        then have "weigh_loop g rel target st = weigh_loop g rel target (st\<lparr>ws_pq := pq'\<rparr>)"
          using False d(3) by (subst weigh_loop.simps) (simp add: pop)
        then show ?thesis
          using less.hyps [OF d(8) weigh_drop [OF less.prems(1) d(3) _ d(7)] less.prems(2)] True d(4) by simp
      next
        case f: False
        let ?st = "weigh_scan rel c u (dg_neighbors g u) (st\<lparr>ws_pq := pq'\<rparr>)"
        have step: "weigh_loop g rel target st = weigh_loop g rel target ?st"
          using False f d(3) by (subst weigh_loop.simps) (simp add: pop)
        have nl: "\<not> cost_mag d < cost_mag c" using f d(4) by simp
        note ex = weigh_expand [OF less.prems(1) d(1,2,3) nl d(7) assms(4,5)]
        show ?thesis
          unfolding step
          by (rule less.hyps [OF _ ex(1)]) (use ex(2) d(8) less.prems(2) False in auto)
      qed
    qed
  qed
qed

lemma weigh_start:
  "weigh_inv g rel s \<lparr>ws_dist = [s \<mapsto> f32_zero], ws_parent = [s \<mapsto> -1], ws_via = via,
     ws_pq = [(f32_zero, s)]\<rparr> {}"
proof -
  have "trail g rel s [s \<mapsto> -1] via {} s [s] [] f32_zero"
    by (rule trail.start) simp
  then show ?thesis
    using cheap.initial by (auto simp: weigh_inv_def weigh_ok_def)
qed

section \<open>All distances\<close>

abbreviation as_state :: "distance_map \<Rightarrow> (int \<rightharpoonup> string) \<Rightarrow> pq_entry list \<Rightarrow> wp_state" where
  "as_state dm via pq \<equiv> \<lparr>ws_dist = dm_dist dm, ws_parent = dm_parent dm, ws_via = via, ws_pq = pq\<rparr>"

text \<open>Apart from the relationships the two programs scan alike.\<close>

lemma all_scan_weigh:
  obtains dm' pq' via' where "all_scan c u es dm pq = (dm', pq')"
    "weigh_scan [] c u es (as_state dm via pq) = as_state dm' via' pq'"
proof (induction es arbitrary: dm pq via thesis)
  case (Cons e es)
  let ?n = "f32_add c (ed_weight e)" and ?dit = "dm_dist dm (ed_to e)"
  show ?case
  proof (cases "?dit = None \<or> f32_less ?n (the ?dit)")
    case True
    let ?dm = "\<lparr>dm_dist = (dm_dist dm)(ed_to e \<mapsto> ?n), dm_parent = (dm_parent dm)(ed_to e \<mapsto> u)\<rparr>"
    obtain dm' pq' via' where r: "all_scan c u es ?dm (pq @ [(?n, ed_to e)]) = (dm', pq')"
      "weigh_scan [] c u es (as_state ?dm (via(ed_to e \<mapsto> ed_rel e)) (pq @ [(?n, ed_to e)])) = as_state dm' via' pq'"
      by (rule Cons.IH)
    show ?thesis
      by (rule Cons.prems) (use True r in \<open>simp_all add: Let_def\<close>)
  next
    case False
    obtain dm' pq' via' where r: "all_scan c u es dm pq = (dm', pq')"
      "weigh_scan [] c u es (as_state dm via pq) = as_state dm' via' pq'"
      by (rule Cons.IH)
    have "all_scan c u (e # es) dm pq = all_scan c u es dm pq"
      by (simp only: all_scan.simps Let_def False if_False)
    moreover have "weigh_scan [] c u (e # es) (as_state dm via pq) = weigh_scan [] c u es (as_state dm via pq)"
      using False by (simp only: weigh_scan.simps wp_state.simps admits_all Let_def if_False not_True_eq_False)
    ultimately show ?thesis
      using r by (intro Cons.prems) simp_all
  qed
qed simp

definition distances :: "dgraph \<Rightarrow> int \<Rightarrow> (int \<rightharpoonup> f32) \<Rightarrow> bool" where
  "distances g s D \<longleftrightarrow> dom D = reached g [] s \<and>
     (\<forall>v d. D v = Some d \<longrightarrow> (\<exists>ns rs. wpath g [] s v ns rs d) \<and>
        (\<forall>ns rs c. wpath g [] s v ns rs c \<longrightarrow> \<not> f32_less c d))"

lemma all_loop_ok:
  assumes "weigh_inv g [] s (as_state dm via pq) X" "weights_ok g" "finite (reached g [] s)"
  shows "\<exists>dm'. all_loop g dm pq = Some dm' \<and> distances g s (dm_dist dm')"
  using assms(1)
proof (induction "weigh_measure g [] s (as_state dm via pq)" arbitrary: dm via pq X rule: less_induct)
  case less
  let ?st = "as_state dm via pq"
  have inv: "cheap.search_inv g [] s (dm_dist dm) pq X"
    using less.prems by (simp add: weigh_inv_def)
  then have f: "cheap.found g [] s (dm_dist dm)"
    by (simp add: cheap.search_inv_def)
  have good: "costs g [] s v c \<Longrightarrow> dist_ok c" for v c
    using cheap.bounded [OF inv, of 0] by simp
  show ?case
  proof (cases "pq_pop pq")
    case None
    then have e: "pq = []" by (simp add: pq_pop_None)
    have opt: "\<exists>d. dm_dist dm v = Some d \<and> cost_mag d \<le> cost_mag c" if "wpath g [] s v ns rs c" for v ns rs c
    proof -
      have c: "costs g [] s v c" by (rule wpath_costs [OF assms(2) that])
      show ?thesis
        by (rule cheap.optimal_end [OF inv [unfolded e] c below_limit [OF good [OF c]]])
    qed
    have "distances g s (dm_dist dm)"
      unfolding distances_def
    proof (intro conjI allI impI)
      have "v \<in> reached g [] s" if "dm_dist dm v = Some d" for v d
        using cheap.foundD [OF f that] costs_reachable by (auto simp: reached_def)
      moreover have "v \<in> dom (dm_dist dm)" if "v \<in> reached g [] s" for v
        using that opt [of v] unfolding reached_def wpath_reachable by blast
      ultimately show "dom (dm_dist dm) = reached g [] s" by blast
    next
      fix v d assume d: "dm_dist dm v = Some d"
      have cd: "costs g [] s v d" using cheap.foundD [OF f d] by blast
      then show "\<exists>ns rs. wpath g [] s v ns rs d" by (rule costs_wpath)
      fix ns rs c assume w: "wpath g [] s v ns rs c"
      then show "\<not> f32_less c d"
        using opt [OF w] d good [OF cd] good [OF wpath_costs [OF assms(2) w]]
        by (simp add: cost_less dist_ok_cost)
    qed
    with None show ?thesis
      by (subst all_loop.simps) simp
  next
    case (Some y)
    then obtain c u pq' where pop: "pq_pop pq = Some ((c, u), pq')"
      by (metis prod.collapse)
    obtain d where d: "(c, u) \<in> set pq" "\<forall>y \<in> set pq. cost_mag c \<le> cost_mag (fst y)"
      "dm_dist dm u = Some d" "f32_less d c \<longleftrightarrow> cost_mag d < cost_mag c"
      "pq' = remove1 (c, u) pq" "weigh_measure g [] s (?st\<lparr>ws_pq := pq'\<rparr>) < weigh_measure g [] s ?st"
      using weigh_pop [OF less.prems, of c u pq'] pop by auto
    have de: "dist_entry dm u = dm" using d(3) by (simp add: dist_entry_def)
    show ?thesis
    proof (cases "f32_less d c")
      case True
      have "weigh_inv g [] s (?st\<lparr>ws_pq := pq'\<rparr>) X"
        by (rule weigh_drop [OF less.prems]) (use d(3,4,5) True in simp_all)
      then have "\<exists>dm'. all_loop g dm pq' = Some dm' \<and> distances g s (dm_dist dm')"
        using less.hyps [of dm via pq' X] d(6) by simp
      then show ?thesis
        using True d(3) by (subst all_loop.simps) (simp add: pop de Let_def)
    next
      case False
      obtain dm' pq'' via' where r: "all_scan c u (dg_neighbors g u) dm pq' = (dm', pq'')"
        "weigh_scan [] c u (dg_neighbors g u) (as_state dm via pq') = as_state dm' via' pq''"
        by (rule all_scan_weigh)
      have nl: "\<not> cost_mag d < cost_mag c" using False d(4) by simp
      have "weigh_inv g [] s (as_state dm' via' pq'') (insert u X)"
        "weigh_measure g [] s (as_state dm' via' pq'') \<le> weigh_measure g [] s (?st\<lparr>ws_pq := pq'\<rparr>)"
        using weigh_expand [OF less.prems, of c u d pq'] d(1,2,3,5) nl assms(2,3) r(2) by simp_all
      then have "\<exists>dm2. all_loop g dm' pq'' = Some dm2 \<and> distances g s (dm_dist dm2)"
        using less.hyps [of dm' via' pq'' "insert u X"] d(6) by simp
      then show ?thesis
        using False d(3) r(1) by (subst all_loop.simps) (simp add: pop de Let_def)
    qed
  qed
qed

end
