(* ===== verification/Dijkstra_Properties.thy ===== *)
theory Dijkstra_Properties
  imports Dijkstra_Proofs
begin

text \<open>
  The properties of the weighted searches: cheapest paths and exact distances for weights that are not
  negative, and what a negative weight, which the command accepts, can do.
\<close>

section \<open>Whole numbers as floats\<close>

lemma f32_round_whole:
  assumes "k < 2 ^ 24"
  shows "f32_round (k * 2 ^ 149) = k * 2 ^ 149"
proof (cases "k = 0")
  case True
  then show ?thesis by (simp add: f32_round_small)
next
  case False
  define j where "j = 24 - floorlog 2 k"
  have fl: "floorlog 2 k \<le> 24" "0 < floorlog 2 k"
    using assms False by (intro floorlog_leI; simp) (use floorlog_ge_SucI [where b = 2 and w = 0 and x = k] False in simp)
  have b: "2 ^ (floorlog 2 k - 1) \<le> k" "k < 2 ^ floorlog 2 k"
    using floorlog_bounds [of k] False by simp_all
  have "2 ^ (floorlog 2 k - 1) * 2 ^ j \<le> k * 2 ^ j" "k * 2 ^ j < 2 ^ floorlog 2 k * 2 ^ j"
    using b by simp_all
  then have q: "2 ^ 23 \<le> k * 2 ^ j" "k * 2 ^ j < 2 ^ 24"
    using fl by (simp_all add: j_def flip: power_add)
  have "k * 2 ^ 149 = k * 2 ^ j * 2 ^ (149 - j)"
    by (simp add: j_def mult.assoc flip: power_add)
  then show ?thesis
    using f32_round_scaled [OF q, of "149 - j"] by (simp only:)
qed

definition f32_neg :: "nat \<Rightarrow> f32" where
  "f32_neg k = F32_Fin True (k * 2 ^ 149)"

lemma f32_neg_add: "k = i + j \<Longrightarrow> k < 2 ^ 24 \<Longrightarrow> f32_add (f32_neg i) (f32_neg j) = f32_neg k"
  using f32_round_whole [of "i + j"] mult_strict_mono [of "i + j" "2 ^ 24" "2 ^ 149" "2 ^ 150"]
  by (simp add: f32_neg_def f32_pack_def Let_def distrib_right)

lemma f32_zero_neg: "0 < j \<Longrightarrow> j < 2 ^ 24 \<Longrightarrow> f32_add f32_zero (f32_neg j) = f32_neg j"
  using f32_round_whole [of j] by (simp add: f32_neg_def f32_zero_def f32_pack_def Let_def)

lemma f32_neg_less:
  "f32_less (f32_neg i) (f32_neg j) \<longleftrightarrow> j < i" "f32_less (f32_neg i) f32_zero \<longleftrightarrow> 0 < i"
  "\<not> f32_less f32_zero (f32_neg i)"
  by (simp_all add: f32_neg_def f32_zero_def signed_mag_def)

text \<open>Following parents around a cycle does not end.\<close>

lemma trace_back_cycle:
  assumes "parent 1 = Some 2" "parent 2 = Some 1" "cur \<in> {1, 2}"
  shows "trace_back parent via cur ns rs = None"
proof -
  have "parent 1 = Some 2 \<longrightarrow> parent 2 = Some 1 \<longrightarrow> cur \<notin> {1, 2}" if "trace_back parent via cur ns rs = Some r" for r
    by (rule trace_back.raw_induct
          [where P = "\<lambda>parent via cur ns rs r. parent 1 = Some 2 \<longrightarrow> parent 2 = Some 1 \<longrightarrow> cur \<notin> {1, 2}", OF _ that])
      (fastforce simp: parent_at_def split: if_splits)
  then show ?thesis
    using assms by (cases "trace_back parent via cur ns rs") auto
qed

definition negative_ops :: "graph_op list" where
  "negative_ops = [GAddEdge 1 2 ''r'' (f32_neg 1), GAddEdge 2 1 ''r'' (f32_neg 1), GAddEdge 2 3 ''r'' (f32_neg 64)]"

section \<open>Properties\<close>

text \<open>
  C9. With weights that are neither negative nor NaN, and no node numbered -1 in reach of the source (the
  search uses -1 for a missing predecessor and would cut a path there), the weighted path search returns; when the target can be reached over the requested relationship the answer is a
  path to it with its accumulated cost, and no path costs less.
\<close>

theorem dijkstra_path_cheapest:
  assumes "represents g a" "weights_ok g" "-1 \<notin> reached g rel source"
  shows "\<exists>p. dijkstra_path g source target rel = Some p \<and> weigh_answer g rel source target p"
  unfolding dijkstra_path_def
  by (rule weigh_loop_ok [OF weigh_start _ assms(3,2)])
    (simp_all add: reached_def finite_reachable [OF represents_finite [OF assms(1)]])

theorem dijkstra_path_cheapest_witness:
  "\<exists>p. dijkstra_path (foldl graph_step dg_new chain_ops) 0 2 [] = Some p \<and>
     weigh_answer (foldl graph_step dg_new chain_ops) [] 0 2 p"
proof (rule dijkstra_path_cheapest [OF chain_represents])
  let ?g = "foldl graph_step dg_new chain_ops"
  have n: "dg_neighbors ?g u = (if u = 0 then [\<lparr>ed_to = 1, ed_rel = ''a'', ed_weight = f32_one\<rparr>]
      else if u = 1 then [\<lparr>ed_to = 2, ed_rel = ''b'', ed_weight = f32_one\<rparr>] else [])" for u
    by (simp add: chain_ops_def dg_neighbors_def dg_add_node_def dg_add_edge_def dg_new_def entry_def ensure_def)
  show "weights_ok ?g" by (simp add: weights_ok_def n)
  have "reached ?g [] 0 \<subseteq> {0, 1, 2}"
    unfolding reached_def reachable_def
    using closed_reach [of 0 _ "rel_succs ?g []" "{0, 1, 2}"] by (fastforce simp: rel_succs_all n)
  then show "-1 \<notin> reached ?g [] 0" by auto
qed

text \<open>
  C34. With such weights the search for all distances returns, and the map has exactly the reachable
  nodes, each with the cost of a cheapest path.
\<close>

theorem dijkstra_all_exact:
  assumes "represents g a" "weights_ok g"
  shows "\<exists>dm. dijkstra_all g source = Some dm \<and> distances g source (dm_dist dm)"
  unfolding dijkstra_all_def
  by (rule all_loop_ok [OF _ assms(2)])
    (use weigh_start [of g "[]" source Map.empty] in
      \<open>simp_all add: reached_def finite_reachable [OF represents_finite [OF assms(1)]]\<close>)

theorem dijkstra_all_exact_witness:
  "\<exists>dm. dijkstra_all (foldl graph_step dg_new [GAddEdge 1 2 ''r'' f32_one]) 1 = Some dm \<and>
     distances (foldl graph_step dg_new [GAddEdge 1 2 ''r'' f32_one]) 1 (dm_dist dm)"
  by (rule dijkstra_all_exact [OF graph.runs_follow [OF dg_new_ok]])
    (simp add: weights_ok_def dg_neighbors_def dg_add_edge_def dg_new_def entry_def)

text \<open>
  Negative weights can make the path search run forever: on the graph of the edges from 1 to 2 and
  back of weight -1 and from 2 to 3 of weight -64 the search for 3 closes a cycle of parents and then
  follows it, collecting nodes, without end.
\<close>

theorem dijkstra_path_negative_cycle:
  "dijkstra_path (foldl graph_step dg_new negative_ops) 1 3 [] = None"
proof -
  let ?g = "foldl graph_step dg_new negative_ops"
  let ?e = "\<lambda>t k. \<lparr>ed_to = t, ed_rel = ''r'', ed_weight = f32_neg k\<rparr>"
  have n: "dg_neighbors ?g 1 = [?e 2 1]" "dg_neighbors ?g 2 = [?e 1 1, ?e 3 64]"
    by (simp_all add: negative_ops_def dg_neighbors_def dg_add_edge_def dg_new_def entry_def)
  have add: "f32_add (f32_neg 1) (f32_neg 1) = f32_neg 2" "f32_add (f32_neg 1) (f32_neg 64) = f32_neg 65"
    by (rule f32_neg_add; simp)+
  let ?s1 = "\<lparr>ws_dist = [1 \<mapsto> f32_zero, 2 \<mapsto> f32_neg 1], ws_parent = [1 \<mapsto> -1, 2 \<mapsto> 1],
    ws_via = [2 \<mapsto> ''r''], ws_pq = [(f32_neg 1, 2)]\<rparr>"
  let ?s2 = "\<lparr>ws_dist = (ws_dist ?s1)(1 \<mapsto> f32_neg 2, 3 \<mapsto> f32_neg 65), ws_parent = (ws_parent ?s1)(1 \<mapsto> 2, 3 \<mapsto> 2),
    ws_via = (ws_via ?s1)(1 \<mapsto> ''r'', 3 \<mapsto> ''r''), ws_pq = [(f32_neg 2, 1), (f32_neg 65, 3)]\<rparr>"
  have z: "\<not> f32_less f32_zero f32_zero" by (simp add: f32_zero_def)
  have "dijkstra_path ?g 1 3 [] = weigh_loop ?g [] 3 ?s1"
    unfolding dijkstra_path_def
    by (subst weigh_loop.simps)
      (simp add: pq_pop_def n(1) z f32_zero_neg Let_def fun_upd_other fun_upd_same del: fun_upd_apply One_nat_def)
  also have "\<dots> = weigh_loop ?g [] 3 ?s2"
    by (subst weigh_loop.simps)
      (simp add: pq_pop_def n(2) add f32_neg_less Let_def del: One_nat_def)
  also have "\<dots> = map_option (\<lambda>(ns, rs). \<lparr>wp_nodes = rev ns, wp_rels = rev rs, wp_cost = f32_neg 65\<rparr>)
      (trace_back (ws_parent ?s2) (ws_via ?s2) 3 [] [])"
    by (subst weigh_loop.simps) (simp add: pq_pop_def entry_less_def f32_neg_less del: One_nat_def)
  also have "trace_back (ws_parent ?s2) (ws_via ?s2) 3 [] [] = trace_back (ws_parent ?s2) (ws_via ?s2) 2 [3] [''r'']"
    by (subst trace_back.simps) (simp add: parent_at_def via_at_def)
  also have "\<dots> = None"
    by (rule trace_back_cycle) simp_all
  finally show ?thesis by simp
qed

end
