(* ===== verification/CSR.thy ===== *)
theory CSR
  imports Dijkstra DFS
begin

text \<open>
  The compressed sparse row copy of the graph, \<^verbatim>\<open>src/graph/csr_graph.hpp\<close> and
  \<^verbatim>\<open>src/graph/csr_graph.cpp\<close>, and the two searches on it of
  \<^verbatim>\<open>src/graph/bfs.cpp\<close> and \<^verbatim>\<open>src/graph/dijkstra.cpp\<close>. A
  \<^verbatim>\<open>std::vector\<close> is a list whose accesses are checked: an index outside it, undefined
  behaviour in C++, is an error value here.
\<close>

section \<open>State\<close>

datatype csr_error = Bad_Index | Length_Error | Int_Overflow | Null_Label

record csr_graph =
  cs_node_count :: int
  cs_edge_count :: int
  cs_id_to_idx :: "int list"
  cs_idx_to_id :: "int list"
  cs_offsets :: "int list"
  cs_targets :: "int list"
  cs_weights :: "f32 list"
  cs_labels :: "string list"
  cs_props :: "string list"
  cs_rel_types :: "string list"

definition csr_empty :: csr_graph where
  "csr_empty = \<lparr>cs_node_count = 0, cs_edge_count = 0, cs_id_to_idx = [], cs_idx_to_id = [], cs_offsets = [],
     cs_targets = [], cs_weights = [], cs_labels = [], cs_props = [], cs_rel_types = []\<rparr>"

definition vec_get :: "'a list \<Rightarrow> int \<Rightarrow> csr_error + 'a" where
  "vec_get xs i = (if 0 \<le> i \<and> i < int (length xs) then Inr (xs ! nat i) else Inl Bad_Index)"

definition vec_put :: "'a list \<Rightarrow> int \<Rightarrow> 'a \<Rightarrow> csr_error + 'a list" where
  "vec_put xs i x = (if 0 \<le> i \<and> i < int (length xs) then Inr (xs[nat i := x]) else Inl Bad_Index)"

definition to_idx :: "int list \<Rightarrow> int \<Rightarrow> int" where
  "to_idx id_to_idx nid = (if nid < 0 \<or> int (length id_to_idx) \<le> nid then -1 else id_to_idx ! nat nid)"

definition neighbor_range :: "csr_graph \<Rightarrow> int \<Rightarrow> csr_error + (int \<times> int)" where
  "neighbor_range c idx =
     and_then (vec_get (cs_offsets c) idx) (\<lambda>b. and_then (vec_get (cs_offsets c) (idx + 1)) (\<lambda>e. Inr (b, e)))"

definition csr_degree :: "csr_graph \<Rightarrow> int \<Rightarrow> csr_error + int" where
  "csr_degree c idx =
     and_then (vec_get (cs_offsets c) (idx + 1)) (\<lambda>e. and_then (vec_get (cs_offsets c) idx) (\<lambda>b. Inr (e - b)))"

section \<open>Construction\<close>

text \<open>The loop that numbers the sorted ids.\<close>

fun number_ids :: "int list \<Rightarrow> int \<Rightarrow> int list \<Rightarrow> int list \<Rightarrow> csr_error + (int list \<times> int list)" where
  "number_ids [] i id_to_idx idx_to_id = Inr (id_to_idx, idx_to_id)"
| "number_ids (nid # ids) i id_to_idx idx_to_id =
     and_then (vec_put id_to_idx nid i) (\<lambda>a. and_then (vec_put idx_to_id i nid) (\<lambda>b. number_ids ids (i + 1) a b))"

fun count_degrees :: "int list \<Rightarrow> (int \<times> edge list) list \<Rightarrow> int list \<Rightarrow> csr_error + int list" where
  "count_degrees id_to_idx [] degree = Inr degree"
| "count_degrees id_to_idx ((nid, es) # adj) degree =
     (let idx = to_idx id_to_idx nid in
      if 0 \<le> idx then and_then (vec_put degree idx (int (length es))) (count_degrees id_to_idx adj)
      else count_degrees id_to_idx adj degree)"

text \<open>
  The offsets are exact sums: they stay below \<open>2 ^ 31\<close>, the range of their \<^verbatim>\<open>int\<close>, for any graph of fewer
  edges.
\<close>

fun prefix_sums :: "int \<Rightarrow> int list \<Rightarrow> int list" where
  "prefix_sums acc [] = [acc]"
| "prefix_sums acc (d # ds) = acc # prefix_sums (acc + d) ds"

record csr_fill =
  cf_cursor :: "int list"
  cf_targets :: "int list"
  cf_weights :: "f32 list"
  cf_rels :: "string list"

fun fill_edges :: "int list \<Rightarrow> int \<Rightarrow> edge list \<Rightarrow> csr_fill \<Rightarrow> csr_error + csr_fill" where
  "fill_edges id_to_idx from_idx [] st = Inr st"
| "fill_edges id_to_idx from_idx (e # es) st =
     (let ti = to_idx id_to_idx (ed_to e) in
      if ti < 0 then fill_edges id_to_idx from_idx es st
      else
        and_then (vec_get (cf_cursor st) from_idx) (\<lambda>pos.
        and_then (vec_put (cf_cursor st) from_idx (pos + 1)) (\<lambda>cursor.
        and_then (vec_put (cf_targets st) pos ti) (\<lambda>targets.
        and_then (vec_put (cf_weights st) pos (ed_weight e)) (\<lambda>weights.
        and_then (vec_put (cf_rels st) pos (ed_rel e)) (\<lambda>rels.
          fill_edges id_to_idx from_idx es
            \<lparr>cf_cursor = cursor, cf_targets = targets, cf_weights = weights, cf_rels = rels\<rparr>))))))"

fun fill_all :: "int list \<Rightarrow> (int \<times> edge list) list \<Rightarrow> csr_fill \<Rightarrow> csr_error + csr_fill" where
  "fill_all id_to_idx [] st = Inr st"
| "fill_all id_to_idx ((nid, es) # adj) st =
     (let from_idx = to_idx id_to_idx nid in
      if from_idx < 0 then fill_all id_to_idx adj st
      else and_then (fill_edges id_to_idx from_idx es st) (fill_all id_to_idx adj))"

text \<open>The labels are read as C strings from the memory \<open>bytes\<close> of the string pool; a null label throws.\<close>

fun fill_meta ::
  "(u64 \<Rightarrow> char) \<Rightarrow> int list \<Rightarrow> (int \<times> node_meta) list \<Rightarrow> string list \<Rightarrow> string list \<Rightarrow>
   csr_error + (string list \<times> string list)" where
  "fill_meta bytes id_to_idx [] labels props = Inr (labels, props)"
| "fill_meta bytes id_to_idx ((nid, meta) # ms) labels props =
     (let idx = to_idx id_to_idx nid in
      if idx < 0 then fill_meta bytes id_to_idx ms labels props
      else case Option.bind (nm_label meta) (read_cstr bytes) of
        None \<Rightarrow> Inl Null_Label
      | Some label \<Rightarrow>
          and_then (vec_put labels idx label) (\<lambda>ls.
          and_then (vec_put props idx (nm_props meta)) (\<lambda>ps. fill_meta bytes id_to_idx ms ls ps)))"

text \<open>
  \<open>metas\<close> and \<open>adj\<close> list the entries of the node map and of the adjacency map in the order of their
  iteration.
\<close>

definition build_csr ::
  "(u64 \<Rightarrow> char) \<Rightarrow> (int \<times> node_meta) list \<Rightarrow> (int \<times> edge list) list \<Rightarrow> csr_error + csr_graph" where
  "build_csr bytes metas adj =
     (let ids = sort (map fst metas); n = length ids; max_id = (if ids = [] then 0 else last ids) in
      if max_id = 2 ^ 31 - 1 then Inl Int_Overflow
      else if max_id + 1 < 0 then Inl Length_Error
      else
        and_then (number_ids ids 0 (replicate (nat (max_id + 1)) (-1)) (replicate n 0)) (\<lambda>(id_to_idx, idx_to_id).
        and_then (count_degrees id_to_idx adj (replicate n 0)) (\<lambda>degree.
        let offsets = prefix_sums 0 degree; m = last offsets in
        and_then (fill_all id_to_idx adj
            \<lparr>cf_cursor = offsets, cf_targets = replicate (nat m) 0, cf_weights = replicate (nat m) f32_zero,
              cf_rels = replicate (nat m) []\<rparr>) (\<lambda>st.
        and_then (fill_meta bytes id_to_idx metas (replicate n []) (replicate n [])) (\<lambda>(labels, props).
          Inr \<lparr>cs_node_count = int n, cs_edge_count = m, cs_id_to_idx = id_to_idx, cs_idx_to_id = idx_to_id,
            cs_offsets = offsets, cs_targets = cf_targets st, cs_weights = cf_weights st,
            cs_labels = labels, cs_props = props, cs_rel_types = cf_rels st\<rparr>)))))"

section \<open>Breadth first search on it\<close>

record csr_bfs =
  cb_parent :: "int list"
  cb_visited :: "bool list"
  cb_queue :: "int list"
  cb_tail :: int

text \<open>The loop over the slots \<open>e\<close> to \<open>last\<close> of a node; true when the target was discovered.\<close>

function csr_scan :: "csr_graph \<Rightarrow> int \<Rightarrow> int \<Rightarrow> int \<Rightarrow> int \<Rightarrow> csr_bfs \<Rightarrow> csr_error + (bool \<times> csr_bfs)" where
  "csr_scan c dst node e stop st =
     (if e < stop then
        and_then (vec_get (cs_targets c) e) (\<lambda>nb.
        and_then (vec_get (cb_visited st) nb) (\<lambda>seen.
          if seen then csr_scan c dst node (e + 1) stop st
          else
            and_then (vec_put (cb_visited st) nb True) (\<lambda>visited.
            and_then (vec_put (cb_parent st) nb node) (\<lambda>parent.
              if nb = dst then Inr (True, st\<lparr>cb_visited := visited, cb_parent := parent\<rparr>)
              else
                and_then (vec_put (cb_queue st) (cb_tail st) nb) (\<lambda>que.
                  csr_scan c dst node (e + 1) stop
                    \<lparr>cb_parent = parent, cb_visited = visited, cb_queue = que, cb_tail = cb_tail st + 1\<rparr>)))))
      else Inr (False, st))"
  by pat_completeness auto
termination by (relation "measure (\<lambda>(c, dst, node, e, stop, st). nat (stop - e))") auto

declare csr_scan.simps [simp del]

partial_function (option) csr_trace :: "csr_graph \<Rightarrow> int list \<Rightarrow> int \<Rightarrow> int list \<Rightarrow> (csr_error + int list) option" where
  [code]: "csr_trace c parent cur nodes =
     (if cur = -1 then Some (Inr nodes)
      else case vec_get (cs_idx_to_id c) cur of
        Inl x \<Rightarrow> Some (Inl x)
      | Inr nid \<Rightarrow>
          (case vec_get parent cur of Inl x \<Rightarrow> Some (Inl x) | Inr p \<Rightarrow> csr_trace c parent p (nodes @ [nid])))"

partial_function (option) csr_bfs_loop :: "csr_graph \<Rightarrow> int \<Rightarrow> int \<Rightarrow> csr_bfs \<Rightarrow> (csr_error + path_result) option" where
  [code]: "csr_bfs_loop c dst head st =
     (if head < cb_tail st then
        (case and_then (vec_get (cb_queue st) head) (\<lambda>node.
            and_then (neighbor_range c node) (\<lambda>(b, e). csr_scan c dst node b e st)) of
           Inl x \<Rightarrow> Some (Inl x)
         | Inr (found, st') \<Rightarrow>
             if found then
               map_option (map_sum (\<lambda>x. x) (\<lambda>ns. \<lparr>pr_nodes = rev ns, pr_rels = []\<rparr>)) (csr_trace c (cb_parent st') dst [])
             else csr_bfs_loop c dst (head + 1) st')
      else Some (Inr no_path))"

definition bfs_path_csr :: "csr_graph \<Rightarrow> int \<Rightarrow> int \<Rightarrow> (csr_error + path_result) option" where
  "bfs_path_csr c source_id target_id =
     (let src = to_idx (cs_id_to_idx c) source_id; dst = to_idx (cs_id_to_idx c) target_id;
          n = nat (cs_node_count c) in
      if src < 0 \<or> dst < 0 then Some (Inr no_path)
      else if src = dst then Some (Inr \<lparr>pr_nodes = [source_id], pr_rels = []\<rparr>)
      else case and_then (vec_put (replicate n 0) 0 src) (\<lambda>que.
          and_then (vec_put (replicate n False) src True) (\<lambda>visited. Inr (que, visited))) of
        Inl x \<Rightarrow> Some (Inl x)
      | Inr (que, visited) \<Rightarrow>
          csr_bfs_loop c dst 0 \<lparr>cb_parent = replicate n (-1), cb_visited = visited, cb_queue = que, cb_tail = 1\<rparr>)"

section \<open>Weighted search on it\<close>

record csr_dijkstra =
  cd_dist :: "f32 list"
  cd_parent :: "int list"
  cd_visited :: "bool list"
  cd_pq :: "pq_entry list"

function csr_relax :: "csr_graph \<Rightarrow> f32 \<Rightarrow> int \<Rightarrow> int \<Rightarrow> int \<Rightarrow> csr_dijkstra \<Rightarrow> csr_error + csr_dijkstra" where
  "csr_relax c cost node e stop st =
     (if e < stop then
        and_then (vec_get (cs_targets c) e) (\<lambda>nb.
        and_then (vec_get (cs_weights c) e) (\<lambda>w.
        and_then (vec_get (cd_dist st) nb) (\<lambda>d.
          let nc = f32_add cost w in
          if f32_less nc d then
            and_then (vec_put (cd_dist st) nb nc) (\<lambda>dst.
            and_then (vec_put (cd_parent st) nb node) (\<lambda>parent.
              csr_relax c cost node (e + 1) stop
                (st\<lparr>cd_dist := dst, cd_parent := parent, cd_pq := cd_pq st @ [(nc, nb)]\<rparr>)))
          else csr_relax c cost node (e + 1) stop st)))
      else Inr st)"
  by pat_completeness auto
termination by (relation "measure (\<lambda>(c, cost, node, e, stop, st). nat (stop - e))") auto

declare csr_relax.simps [simp del]

partial_function (option) csr_dijkstra_loop :: "csr_graph \<Rightarrow> int \<Rightarrow> csr_dijkstra \<Rightarrow> (csr_error + csr_dijkstra) option" where
  [code]: "csr_dijkstra_loop c dst st =
     (case pq_pop (cd_pq st) of
        None \<Rightarrow> Some (Inr st)
      | Some ((cost, node), pq') \<Rightarrow>
          if node = dst then Some (Inr (st\<lparr>cd_pq := pq'\<rparr>))
          else case vec_get (cd_visited st) node of
            Inl x \<Rightarrow> Some (Inl x)
          | Inr seen \<Rightarrow>
              if seen then csr_dijkstra_loop c dst (st\<lparr>cd_pq := pq'\<rparr>)
              else
                (case and_then (vec_put (cd_visited st) node True) (\<lambda>visited.
                    and_then (neighbor_range c node) (\<lambda>(b, e).
                      csr_relax c cost node b e (st\<lparr>cd_visited := visited, cd_pq := pq'\<rparr>))) of
                   Inl x \<Rightarrow> Some (Inl x)
                 | Inr st' \<Rightarrow> csr_dijkstra_loop c dst st'))"

text \<open>\<^verbatim>\<open>dist[dst] == INF\<close>\<close>

definition is_inf :: "f32 \<Rightarrow> bool" where
  "is_inf x \<longleftrightarrow> x = F32_Inf False"

definition dijkstra_path_csr :: "csr_graph \<Rightarrow> int \<Rightarrow> int \<Rightarrow> (csr_error + weighted_path) option" where
  "dijkstra_path_csr c source_id target_id =
     (let src = to_idx (cs_id_to_idx c) source_id; dst = to_idx (cs_id_to_idx c) target_id;
          n = nat (cs_node_count c) in
      if src < 0 \<or> dst < 0 then Some (Inr no_wpath)
      else case vec_put (replicate n (F32_Inf False)) src f32_zero of
        Inl x \<Rightarrow> Some (Inl x)
      | Inr d0 \<Rightarrow>
          do { r \<leftarrow> csr_dijkstra_loop c dst
                 \<lparr>cd_dist = d0, cd_parent = replicate n (-1), cd_visited = replicate n False, cd_pq = [(f32_zero, src)]\<rparr>;
               case r of
                 Inl x \<Rightarrow> Some (Inl x)
               | Inr st \<Rightarrow>
                   (case vec_get (cd_dist st) dst of
                      Inl x \<Rightarrow> Some (Inl x)
                    | Inr d \<Rightarrow>
                        if is_inf d then Some (Inr no_wpath)
                        else map_option (map_sum (\<lambda>x. x) (\<lambda>ns. \<lparr>wp_nodes = rev ns, wp_rels = [], wp_cost = d\<rparr>))
                          (csr_trace c (cd_parent st) dst [])) })"

end
