(* ===== verification/CSR_Proofs.thy ===== *)
theory CSR_Proofs
  imports CSR Dynamic_Graph_Proofs
begin

text \<open>
  The compressed copy holds the same graph: every node's slots list its edges in order. An edge whose
  end is no node leaves a slot that keeps the default values, at the end of the slots of its source.
\<close>

section \<open>Checked access\<close>

lemma vec_get_nat [simp]: "i < length xs \<Longrightarrow> vec_get xs (int i) = Inr (xs ! i)"
  by (simp add: vec_get_def)

lemma vec_put_nat [simp]: "i < length xs \<Longrightarrow> vec_put xs (int i) x = Inr (xs[i := x])"
  by (simp add: vec_put_def)

lemma prefix_sums_length [simp]: "length (prefix_sums acc ds) = Suc (length ds)"
  by (induction ds arbitrary: acc) auto

lemma prefix_sums_nth: "i \<le> length ds \<Longrightarrow> prefix_sums acc ds ! i = acc + sum_list (take i ds)"
proof (induction ds arbitrary: acc i)
  case (Cons d ds)
  then show ?case by (cases i) auto
qed simp

lemma prefix_sums_last: "last (prefix_sums acc ds) = acc + sum_list ds"
  using prefix_sums_nth [of "length ds" ds acc]
  by (subst last_conv_nth) (auto simp flip: length_0_conv)

section \<open>Blocks of a concatenation\<close>

definition block_at :: "'a list list \<Rightarrow> nat \<Rightarrow> nat" where
  "block_at B i = length (concat (take i B))"

lemma block_split:
  assumes "i < length B"
  shows "concat B = concat (take i B) @ B ! i @ concat (drop (Suc i) B)"
  using arg_cong [OF id_take_nth_drop [OF assms], of concat] by simp

lemma block_bound: "i < length B \<Longrightarrow> j < length (B ! i) \<Longrightarrow> block_at B i + j < length (concat B)"
  by (subst block_split) (auto simp: block_at_def)

lemma concat_update:
  assumes "i < length B" "j < length (B ! i)"
  shows "(concat B)[block_at B i + j := x] = concat (B[i := (B ! i)[j := x]])"
proof -
  have "concat (B[i := (B ! i)[j := x]]) = concat (take i B) @ (B ! i)[j := x] @ concat (drop (Suc i) B)"
    using block_split [of i "B[i := (B ! i)[j := x]]"] assms(1) by simp
  then show ?thesis
    using assms by (subst block_split [OF assms(1)]) (simp add: block_at_def list_update_append)
qed

lemma block_read:
  assumes "i < length B"
  shows "take (length (B ! i)) (drop (block_at B i) (concat B)) = B ! i"
  by (subst block_split [OF assms]) (simp add: block_at_def)

lemma block_at_lengths: "map length B = map length C \<Longrightarrow> block_at B i = block_at C i"
  by (simp add: block_at_def length_concat take_map [symmetric])

lemma block_at_sum: "block_at B i = sum_list (take i (map length B))"
  by (simp add: block_at_def length_concat take_map)

section \<open>Numbering\<close>

lemma number_ids_ok:
  assumes "distinct ids" "\<forall>n \<in> set ids. 0 \<le> n \<and> n < int (length A)" "i + length ids \<le> length D"
  shows "\<exists>A'. number_ids ids (int i) A D = Inr (A', take i D @ ids @ drop (i + length ids) D) \<and>
    length A' = length A \<and> (\<forall>j < length ids. A' ! nat (ids ! j) = int (i + j)) \<and>
    (\<forall>n. 0 \<le> n \<longrightarrow> n < int (length A) \<longrightarrow> n \<notin> set ids \<longrightarrow> A' ! nat n = A ! nat n)"
  using assms
proof (induction ids arbitrary: A D i)
  case (Cons n ids)
  have n: "0 \<le> n" "nat n < length A" using Cons.prems(2) by auto
  then have put: "vec_put A n (int i) = Inr (A[nat n := int i])" using vec_put_nat [of "nat n" A] by simp
  have i: "i < length D" using Cons.prems(3) by simp
  obtain A' where A': "number_ids ids (int (Suc i)) (A[nat n := int i]) (D[i := n]) =
      Inr (A', take (Suc i) (D[i := n]) @ ids @ drop (Suc i + length ids) (D[i := n]))" "length A' = length A"
    "\<forall>j < length ids. A' ! nat (ids ! j) = int (Suc i + j)"
    "\<forall>m. 0 \<le> m \<longrightarrow> m < int (length A) \<longrightarrow> m \<notin> set ids \<longrightarrow> A' ! nat m = A[nat n := int i] ! nat m"
    using Cons.IH [of "A[nat n := int i]" "Suc i" "D[i := n]"] Cons.prems by auto
  have "take (Suc i) (D[i := n]) = take i D @ [n]"
    using i by (simp add: take_Suc_conv_app_nth)
  moreover have "\<forall>j < length (n # ids). A' ! nat ((n # ids) ! j) = int (i + j)"
    using A'(3,4) Cons.prems(1) n by (auto simp: nth_Cons' less_Suc_eq_0_disj)
  moreover have "A' ! nat m = A ! nat m" if "0 \<le> m" "m < int (length A)" "m \<notin> set (n # ids)" for m
    using A'(4) that n by (auto simp: nth_list_update)
  ultimately show ?case
    using A'(1,2) put i by (simp add: add.commute)
qed (auto intro!: exI [of _ A])

text \<open>What the numbering promises: \<open>to_idx\<close> is the position in the sorted list of ids.\<close>

definition numbers :: "int list \<Rightarrow> int list \<Rightarrow> bool" where
  "numbers A ids \<longleftrightarrow> distinct ids \<and> (\<forall>i < length ids. to_idx A (ids ! i) = int i) \<and> (\<forall>n. n \<notin> set ids \<longrightarrow> to_idx A n = -1)"

lemma number_all_ok:
  assumes "distinct ids" "\<forall>n \<in> set ids. 0 \<le> n \<and> n < int m" "length D = length ids"
  shows "\<exists>A. number_ids ids 0 (replicate m (-1)) D = Inr (A, ids) \<and> numbers A ids"
proof -
  obtain A where A: "number_ids ids (int 0) (replicate m (-1)) D = Inr (A, ids)" "length A = m"
    "\<forall>j < length ids. A ! nat (ids ! j) = int j"
    "\<forall>n. 0 \<le> n \<longrightarrow> n < int m \<longrightarrow> n \<notin> set ids \<longrightarrow> A ! nat n = -1"
    using number_ids_ok [of ids "replicate m (-1)" 0 D] assms by auto
  moreover have "\<not> ids ! i < 0" "\<not> int m \<le> ids ! i" if "i < length ids" for i using bspec [OF assms(2) nth_mem [OF that]] by auto
  ultimately have "numbers A ids"
    using assms(1) by (auto simp: numbers_def to_idx_def)
  with A(1) show ?thesis by auto
qed

lemma numbers_cases:
  assumes "numbers A ids"
  obtains (node) i where "i < length ids" "n = ids ! i" "to_idx A n = int i"
    | (none) "n \<notin> set ids" "to_idx A n = -1"
  using assms by (metis in_set_conv_nth numbers_def)

lemma numbers_iff: "numbers A ids \<Longrightarrow> 0 \<le> to_idx A n \<longleftrightarrow> n \<in> set ids"
  by (erule numbers_cases [of A ids n]) auto

section \<open>Degrees\<close>

lemma count_degrees_ok:
  assumes "numbers A ids" "length D = length ids" "distinct (map fst adj)"
  shows "\<exists>D'. count_degrees A adj D = Inr D' \<and> length D' = length ids \<and>
    (\<forall>i < length ids. D' ! i = (case map_of adj (ids ! i) of None \<Rightarrow> D ! i | Some es \<Rightarrow> int (length es)))"
  using assms(2,3)
proof (induction adj arbitrary: D)
  case (Cons x adj)
  obtain n es where x: "x = (n, es)" by (cases x)
  show ?case
  proof (rule numbers_cases [OF assms(1), of n])
    fix i assume i: "i < length ids" "n = ids ! i" "to_idx A n = int i"
    obtain D' where D': "count_degrees A adj (D[i := int (length es)]) = Inr D'" "length D' = length ids"
      "\<forall>j < length ids. D' ! j = (case map_of adj (ids ! j) of None \<Rightarrow> D[i := int (length es)] ! j | Some es \<Rightarrow> int (length es))"
      using Cons.IH [of "D[i := int (length es)]"] Cons.prems by (auto simp: x)
    have "map_of adj n = None" using Cons.prems(2) by (simp add: x map_of_eq_None_iff)
    moreover have "ids ! j \<noteq> n" if "j < length ids" "j \<noteq> i" for j
      using that i assms(1) by (auto simp: numbers_def nth_eq_iff_index_eq)
    ultimately show ?thesis
      using D' i Cons.prems(1) by (auto simp: x nth_list_update split: option.splits intro!: exI [of _ D'])
  next
    assume n: "n \<notin> set ids" "to_idx A n = -1"
    obtain D' where D': "count_degrees A adj D = Inr D'" "length D' = length ids"
      "\<forall>j < length ids. D' ! j = (case map_of adj (ids ! j) of None \<Rightarrow> D ! j | Some es \<Rightarrow> int (length es))"
      using Cons.IH [of D] Cons.prems by (auto simp: x)
    moreover have "ids ! j \<noteq> n" if "j < length ids" for j using that n(1) by auto
    ultimately show ?thesis using n(2) by (auto simp: x intro!: exI [of _ D'])
  qed
qed auto


section \<open>Filling\<close>

type_synonym slot = "int \<times> f32 \<times> string"

definition phantom :: slot where
  "phantom = (0, f32_zero, [])"

definition slot_of :: "int list \<Rightarrow> edge \<Rightarrow> slot" where
  "slot_of A e = (to_idx A (ed_to e), ed_weight e, ed_rel e)"

definition slots_of :: "int list \<Rightarrow> edge list \<Rightarrow> slot list" where
  "slots_of A es = map (slot_of A) (filter (\<lambda>e. 0 \<le> to_idx A (ed_to e)) es)"

text \<open>The three arrays hold the slots, block after block, and the cursors stand in their blocks.\<close>

definition arrays_hold :: "csr_fill \<Rightarrow> slot list list \<Rightarrow> bool" where
  "arrays_hold st B \<longleftrightarrow> cf_targets st = map fst (concat B) \<and> cf_weights st = map (fst \<circ> snd) (concat B) \<and>
     cf_rels st = map (snd \<circ> snd) (concat B)"

definition put_at :: "'a list \<Rightarrow> nat \<Rightarrow> 'a list \<Rightarrow> 'a list" where
  "put_at xs j ys = take j xs @ ys @ drop (j + length ys) xs"

lemma put_at_Cons:
  assumes "j < length xs"
  shows "put_at (xs[j := y]) (Suc j) ys = put_at xs j (y # ys)"
  using assms by (simp add: put_at_def take_Suc_conv_app_nth)

lemma put_at_length [simp]: "j + length ys \<le> length xs \<Longrightarrow> length (put_at xs j ys) = length xs"
  by (simp add: put_at_def)

lemma arrays_put:
  assumes "arrays_hold st B" "i < length B" "j < length (B ! i)"
    "B' = B[i := (B ! i)[j := (t, w, r)]]"
  shows "\<exists>ts ws rs. vec_put (cf_targets st) (int (block_at B i + j)) t = Inr ts \<and>
    vec_put (cf_weights st) (int (block_at B i + j)) w = Inr ws \<and>
    vec_put (cf_rels st) (int (block_at B i + j)) r = Inr rs \<and>
    ts = map fst (concat B') \<and> ws = map (fst \<circ> snd) (concat B') \<and> rs = map (snd \<circ> snd) (concat B')"
proof -
  have "block_at B i + j < length (concat B)" by (rule block_bound [OF assms(2,3)])
  moreover have "concat B' = (concat B)[block_at B i + j := (t, w, r)]"
    unfolding assms(4) by (rule concat_update [OF assms(2,3), symmetric])
  ultimately show ?thesis
    using assms(1) by (simp add: arrays_hold_def map_update del: of_nat_add)
qed

lemma fill_edges_ok:
  assumes "arrays_hold st B" "i < length B" "i < length (cf_cursor st)"
    "cf_cursor st ! i = int (block_at B i + j)" "j + length (slots_of A es) \<le> length (B ! i)"
  shows "\<exists>st'. fill_edges A (int i) es st = Inr st' \<and> arrays_hold st' (B[i := put_at (B ! i) j (slots_of A es)]) \<and>
    cf_cursor st' = (cf_cursor st)[i := int (block_at B i + j + length (slots_of A es))]"
  using assms
proof (induction es arbitrary: st B j)
  case Nil
  then show ?case by (simp add: slots_of_def put_at_def) (metis list_update_id)
next
  case (Cons e es)
  show ?case
  proof (cases "to_idx A (ed_to e) < 0")
    case True
    then have "slots_of A (e # es) = slots_of A es" by (simp add: slots_of_def)
    with True show ?thesis using Cons.IH [of st B j] Cons.prems by simp
  next
    case False
    then have sl: "slots_of A (e # es) = slot_of A e # slots_of A es" by (simp add: slots_of_def)
    then have j: "j < length (B ! i)" using Cons.prems(5) by simp
    let ?B = "B[i := (B ! i)[j := slot_of A e]]"
    obtain ts ws rs where p: "vec_put (cf_targets st) (int (block_at B i + j)) (to_idx A (ed_to e)) = Inr ts"
      "vec_put (cf_weights st) (int (block_at B i + j)) (ed_weight e) = Inr ws"
      "vec_put (cf_rels st) (int (block_at B i + j)) (ed_rel e) = Inr rs"
      "ts = map fst (concat ?B)" "ws = map (fst \<circ> snd) (concat ?B)" "rs = map (snd \<circ> snd) (concat ?B)"
      using arrays_put [OF Cons.prems(1,2) j refl] unfolding slot_of_def by blast
    let ?st = "\<lparr>cf_cursor = (cf_cursor st)[i := int (block_at B i + j) + 1], cf_targets = ts, cf_weights = ws, cf_rels = rs\<rparr>"
    have blk: "block_at ?B i = block_at B i" by (simp add: block_at_def)
    have "\<exists>st'. fill_edges A (int i) es ?st = Inr st' \<and> arrays_hold st' (?B[i := put_at (?B ! i) (Suc j) (slots_of A es)]) \<and>
      cf_cursor st' = (cf_cursor ?st)[i := int (block_at ?B i + Suc j + length (slots_of A es))]"
      by (rule Cons.IH) (use Cons.prems sl p blk in \<open>auto simp: arrays_hold_def\<close>)
    then obtain st' where "fill_edges A (int i) es ?st = Inr st'"
      "arrays_hold st' (?B[i := put_at (?B ! i) (Suc j) (slots_of A es)])"
      "cf_cursor st' = (cf_cursor ?st)[i := int (block_at ?B i + Suc j + length (slots_of A es))]" by blast
    moreover have "fill_edges A (int i) (e # es) st = fill_edges A (int i) es ?st"
      using False Cons.prems(3,4) p by (simp add: Let_def del: of_nat_add)
    ultimately show ?thesis
      using Cons.prems(2) j blk by (auto simp: sl put_at_Cons algebra_simps)
  qed
qed

lemma fill_all_ok:
  assumes num: "numbers A ids" and "arrays_hold st B" "length B = length ids" "length ids < length (cf_cursor st)"
    "distinct (map fst adj)"
    "\<forall>i < length ids. \<forall>es. map_of adj (ids ! i) = Some es \<longrightarrow> cf_cursor st ! i = int (block_at B i) \<and> length (B ! i) = length es"
  shows "\<exists>st' B'. fill_all A adj st = Inr st' \<and> arrays_hold st' B' \<and> map length B' = map length B \<and>
    (\<forall>i < length ids. B' ! i = (case map_of adj (ids ! i) of None \<Rightarrow> B ! i | Some es \<Rightarrow> put_at (B ! i) 0 (slots_of A es)))"
  using assms(2-)
proof (induction adj arbitrary: st B)
  case (Cons x adj)
  obtain n es where x: "x = (n, es)" by (cases x)
  show ?case
  proof (rule numbers_cases [OF num, of n])
    fix i assume i: "i < length ids" "n = ids ! i" "to_idx A n = int i"
    have other: "ids ! j \<noteq> n" if "j < length ids" "j \<noteq> i" for j
      using that i num by (auto simp: numbers_def nth_eq_iff_index_eq)
    have gone: "map_of adj n = None" using Cons.prems(4) by (simp add: x map_of_eq_None_iff)
    have ci: "cf_cursor st ! i = int (block_at B i + 0)" "length (B ! i) = length es"
      using Cons.prems(5) i by (auto simp: x)
    have le: "length (slots_of A es) \<le> length es" by (simp add: slots_of_def)
    let ?B = "B[i := put_at (B ! i) 0 (slots_of A es)]"
    obtain st1 where st1: "fill_edges A (int i) es st = Inr st1" "arrays_hold st1 ?B"
      "cf_cursor st1 = (cf_cursor st)[i := int (block_at B i + 0 + length (slots_of A es))]"
      using fill_edges_ok [OF Cons.prems(1) _ _ ci(1), of A es] Cons.prems(2,3) i ci(2) le by auto
    have len: "map length ?B = map length B"
      using Cons.prems(2) i ci(2) le by (simp add: map_update list_update_same_conv)
    have "\<exists>st' B'. fill_all A adj st1 = Inr st' \<and> arrays_hold st' B' \<and> map length B' = map length ?B \<and>
      (\<forall>j < length ids. B' ! j = (case map_of adj (ids ! j) of None \<Rightarrow> ?B ! j | Some es \<Rightarrow> put_at (?B ! j) 0 (slots_of A es)))"
    proof (rule Cons.IH [OF st1(2)])
      show "\<forall>j < length ids. \<forall>fs. map_of adj (ids ! j) = Some fs \<longrightarrow>
        cf_cursor st1 ! j = int (block_at ?B j) \<and> length (?B ! j) = length fs"
      proof (intro allI impI)
        fix j fs assume j: "j < length ids" "map_of adj (ids ! j) = Some fs"
        then have "j \<noteq> i" using gone i(2) by auto
        moreover have "map_of (x # adj) (ids ! j) = Some fs" using j other [OF j(1) calculation] by (simp add: x)
        ultimately show "cf_cursor st1 ! j = int (block_at ?B j) \<and> length (?B ! j) = length fs"
          using Cons.prems(5) j(1) st1(3) block_at_lengths [OF len] by auto
      qed
    qed (use Cons.prems st1(3) in auto)
    then obtain st' B' where r: "fill_all A adj st1 = Inr st'" "arrays_hold st' B'" "map length B' = map length ?B"
      "\<forall>j < length ids. B' ! j = (case map_of adj (ids ! j) of None \<Rightarrow> ?B ! j | Some es \<Rightarrow> put_at (?B ! j) 0 (slots_of A es))"
      by blast
    have "B' ! j = (case map_of (x # adj) (ids ! j) of None \<Rightarrow> B ! j | Some es \<Rightarrow> put_at (B ! j) 0 (slots_of A es))"
      if j: "j < length ids" for j
    proof (cases "j = i")
      case True
      then show ?thesis using r(4) j gone i Cons.prems(2) by (simp add: x)
    next
      case False
      then show ?thesis using r(4) j other [OF j False] by (simp add: x split: option.splits)
    qed
    then show ?thesis using r(1-3) st1(1) i len by (intro exI [of _ st'] exI [of _ B']) (simp add: x)
  next
    assume n: "n \<notin> set ids" "to_idx A n = -1"
    then have "map_of (x # adj) (ids ! j) = map_of adj (ids ! j)" if "j < length ids" for j
      using that by (auto simp: x)
    with Cons.IH [OF Cons.prems(1-3)] Cons.prems(4,5) n(2) show ?thesis by (simp add: x)
  qed
qed auto


section \<open>Node data\<close>

lemma fill_meta_ok:
  assumes "numbers A ids" "fst ` set metas \<subseteq> set ids" "length L = length ids" "length R = length ids"
    "\<forall>m \<in> set metas. Option.bind (nm_label (snd m)) (read_cstr bytes) \<noteq> None" "distinct (map fst metas)"
  shows "\<exists>L' R'. fill_meta bytes A metas L R = Inr (L', R') \<and> length L' = length ids \<and> length R' = length ids \<and>
    (\<forall>i < length ids. case map_of metas (ids ! i) of None \<Rightarrow> L' ! i = L ! i \<and> R' ! i = R ! i
      | Some m \<Rightarrow> Option.bind (nm_label m) (read_cstr bytes) = Some (L' ! i) \<and> R' ! i = nm_props m)"
  using assms(2-)
proof (induction metas arbitrary: L R)
  case (Cons x metas)
  obtain n m where x: "x = (n, m)" by (cases x)
  obtain i where i: "i < length ids" "n = ids ! i" "to_idx A n = int i"
    using numbers_cases [OF assms(1), of n] Cons.prems(1) x by auto
  obtain l where l: "Option.bind (nm_label m) (read_cstr bytes) = Some l" using Cons.prems(4) x by auto
  obtain L' R' where r: "fill_meta bytes A metas (L[i := l]) (R[i := nm_props m]) = Inr (L', R')"
    "length L' = length ids" "length R' = length ids"
    "\<forall>j < length ids. case map_of metas (ids ! j) of None \<Rightarrow> L' ! j = L[i := l] ! j \<and> R' ! j = R[i := nm_props m] ! j
      | Some m \<Rightarrow> Option.bind (nm_label m) (read_cstr bytes) = Some (L' ! j) \<and> R' ! j = nm_props m"
    using Cons.IH [of "L[i := l]" "R[i := nm_props m]"] Cons.prems x by auto
  have gone: "map_of metas n = None" using Cons.prems(5) by (simp add: x map_of_eq_None_iff)
  have other: "ids ! j \<noteq> n" if "j < length ids" "j \<noteq> i" for j
    using that i assms(1) by (auto simp: numbers_def nth_eq_iff_index_eq)
  have "case map_of (x # metas) (ids ! j) of None \<Rightarrow> L' ! j = L ! j \<and> R' ! j = R ! j
      | Some m \<Rightarrow> Option.bind (nm_label m) (read_cstr bytes) = Some (L' ! j) \<and> R' ! j = nm_props m"
    if j: "j < length ids" for j
  proof (cases "j = i")
    case True
    then show ?thesis using spec [OF r(4), of j] j gone i l Cons.prems(2,3) by (simp add: x)
  next
    case False
    then show ?thesis using spec [OF r(4), of j] j other [OF j False] by (simp add: x split: option.splits)
  qed
  moreover have "fill_meta bytes A (x # metas) L R = Inr (L', R')"
    using i l Cons.prems(2,3) r(1) by (simp add: x Let_def)
  ultimately show ?case using r(2,3) by blast
qed auto

section \<open>The whole construction\<close>

text \<open>The slots of a node: targets as indices, with weight and relationship.\<close>

definition slice :: "'a list \<Rightarrow> int \<Rightarrow> int \<Rightarrow> 'a list" where
  "slice xs b e = take (nat (e - b)) (drop (nat b) xs)"

definition csr_slots :: "csr_graph \<Rightarrow> nat \<Rightarrow> slot list" where
  "csr_slots c i = (let b = cs_offsets c ! i; e = cs_offsets c ! Suc i in
     zip (slice (cs_targets c) b e) (zip (slice (cs_weights c) b e) (slice (cs_rel_types c) b e)))"

lemma slice_block:
  assumes "i < length B" "b = int (block_at B i)" "e = int (block_at B (Suc i))"
  shows "slice (map f (concat B)) b e = map f (B ! i)"
proof -
  have "block_at B (Suc i) = block_at B i + length (B ! i)"
    using assms(1) by (simp add: block_at_def take_Suc_conv_app_nth)
  then show ?thesis
    using block_read [OF assms(1)] assms(2,3) by (simp add: slice_def drop_map take_map)
qed

lemma arrays_slots:
  assumes "arrays_hold st B" "i < length B" "b = int (block_at B i)" "e = int (block_at B (Suc i))"
  shows "zip (slice (cf_targets st) b e) (zip (slice (cf_weights st) b e) (slice (cf_rels st) b e)) = B ! i"
proof -
  have "cf_targets st = map fst (concat B)" "cf_weights st = map (fst \<circ> snd) (concat B)"
    "cf_rels st = map (snd \<circ> snd) (concat B)" using assms(1) by (simp_all only: arrays_hold_def)
  then show ?thesis
    by (simp only: slice_block [OF assms(2-4)]) (simp add: zip_map_fst_snd [of "map snd (B ! i)"] zip_map_fst_snd flip: map_map)
qed

definition filled :: "int list \<Rightarrow> edge list \<Rightarrow> slot list" where
  "filled A es = slots_of A es @ replicate (length es - length (slots_of A es)) phantom"

lemma put_at_filled: "put_at (replicate (length es) phantom) 0 (slots_of A es) = filled A es"
  by (simp add: put_at_def filled_def)

definition csr_of :: "(u64 \<Rightarrow> char) \<Rightarrow> (int \<rightharpoonup> node_meta) \<Rightarrow> (int \<Rightarrow> edge list) \<Rightarrow> csr_graph \<Rightarrow> bool" where
  "csr_of bytes meta nbs c \<longleftrightarrow>
     (let ids = sorted_list_of_set (dom meta) in
      cs_node_count c = int (length ids) \<and> cs_idx_to_id c = ids \<and> numbers (cs_id_to_idx c) ids \<and>
      length (cs_offsets c) = Suc (length ids) \<and> length (cs_labels c) = length ids \<and> length (cs_props c) = length ids \<and>
      cs_offsets c ! 0 = 0 \<and> cs_edge_count c = cs_offsets c ! length ids \<and> int (length (cs_targets c)) = cs_edge_count c \<and>
      length (cs_weights c) = length (cs_targets c) \<and> length (cs_rel_types c) = length (cs_targets c) \<and>
      (\<forall>i < length ids.
         csr_slots c i = filled (cs_id_to_idx c) (nbs (ids ! i)) \<and>
         cs_offsets c ! Suc i = cs_offsets c ! i + int (length (nbs (ids ! i))) \<and>
         Option.bind (nm_label (the (meta (ids ! i)))) (read_cstr bytes) = Some (cs_labels c ! i) \<and>
         cs_props c ! i = nm_props (the (meta (ids ! i)))))"

lemma int_sum_list: "sum_list (map int xs) = int (sum_list xs)"
  by (induction xs) simp_all

lemma build_fill_ok:
  assumes num: "numbers A ids" and dist: "distinct (map fst adj)"
    and dg: "length D = length ids" "\<forall>i < length ids. D ! i = int (length (nbs (ids ! i)))"
    and nbs: "\<And>u. nbs u = (case map_of adj u of None \<Rightarrow> [] | Some es \<Rightarrow> es)"
  defines "m \<equiv> nat (last (prefix_sums 0 D))"
  shows "\<exists>st B. fill_all A adj \<lparr>cf_cursor = prefix_sums 0 D, cf_targets = replicate m 0, cf_weights = replicate m f32_zero,
      cf_rels = replicate m []\<rparr> = Inr st \<and> arrays_hold st B \<and> length B = length ids \<and>
    (\<forall>i < length ids. B ! i = filled A (nbs (ids ! i))) \<and> (\<forall>i \<le> length ids. prefix_sums 0 D ! i = int (block_at B i))"
proof -
  let ?B = "map (\<lambda>n. replicate (length (nbs n)) phantom) ids"
  have D: "D = map int (map length ?B)" using dg by (intro nth_equalityI) auto
  have sums: "prefix_sums 0 D ! i = int (block_at ?B i)" if "i \<le> length ids" for i
  proof -
    have "prefix_sums 0 D ! i = sum_list (take i D)" using that dg(1) by (simp add: prefix_sums_nth)
    also have "take i D = map int (take i (map length ?B))" unfolding D by (rule take_map)
    finally show ?thesis unfolding block_at_sum int_sum_list .
  qed
  have m: "m = length (concat ?B)"
    unfolding m_def prefix_sums_last D int_sum_list by (simp add: length_concat)
  have "concat ?B = replicate m phantom"
    using m by (intro replicate_eqI) auto
  then have hold: "arrays_hold \<lparr>cf_cursor = prefix_sums 0 D, cf_targets = replicate m 0, cf_weights = replicate m f32_zero,
      cf_rels = replicate m []\<rparr> ?B"
    by (simp add: arrays_hold_def phantom_def)
  obtain st B where st: "fill_all A adj \<lparr>cf_cursor = prefix_sums 0 D, cf_targets = replicate m 0, cf_weights = replicate m f32_zero,
      cf_rels = replicate m []\<rparr> = Inr st" "arrays_hold st B" "map length B = map length ?B"
    "\<forall>i < length ids. B ! i = (case map_of adj (ids ! i) of None \<Rightarrow> ?B ! i | Some es \<Rightarrow> put_at (?B ! i) 0 (slots_of A es))"
    using fill_all_ok [OF num hold _ _ dist] sums dg(1) nbs by auto
  have "B ! i = filled A (nbs (ids ! i))" if "i < length ids" for i
    using st(4) that nbs [of "ids ! i"] put_at_filled [of "nbs (ids ! i)" A]
    by (auto split: option.splits simp: filled_def slots_of_def)
  moreover have "length B = length ids" using arg_cong [OF st(3), of length] by simp
  ultimately show ?thesis
    using st(1,2) sums block_at_lengths [OF st(3)] by auto
qed


lemma sorted_le_last: "sorted xs \<Longrightarrow> x \<in> set xs \<Longrightarrow> x \<le> last xs"
  by (induction xs) (auto split: if_splits)

lemma build_csr_ok:
  assumes metas: "map_of metas = meta" "distinct (map fst metas)" and adj: "distinct (map fst adj)"
    and nbs: "\<And>u. nbs u = (case map_of adj u of None \<Rightarrow> [] | Some es \<Rightarrow> es)"
    and ids: "\<forall>n \<in> dom meta. 0 \<le> n \<and> n < 2 ^ 31 - 1"
    and labels: "\<forall>m \<in> ran meta. Option.bind (nm_label m) (read_cstr bytes) \<noteq> None"
  shows "\<exists>c. build_csr bytes metas adj = Inr c \<and> csr_of bytes meta nbs c"
proof -
  let ?ids = "sort (map fst metas)" and ?n = "length metas"
  define max_id where "max_id = (if ?ids = [] then 0 else last ?ids)"
  have dom: "dom meta = set ?ids" unfolding metas(1) [symmetric] by (simp add: dom_map_of_conv_image_fst)
  have sl: "sorted_list_of_set (dom meta) = ?ids"
    unfolding dom using metas(2) by (intro sorted_list_of_set.idem_if_sorted_distinct) auto
  have max: "0 \<le> max_id" "max_id < 2 ^ 31 - 1" using ids dom last_in_set [of ?ids] unfolding max_id_def
    by (simp_all del: set_sort)
  have "n \<le> max_id" if "n \<in> set ?ids" for n
    using sorted_le_last [OF sorted_sort that] that unfolding max_id_def by (cases ?ids) auto
  then have below: "\<forall>n \<in> set ?ids. 0 \<le> n \<and> n < int (nat (max_id + 1))" using ids dom max by force
  obtain A where A: "number_ids ?ids 0 (replicate (nat (max_id + 1)) (-1)) (replicate ?n 0) = Inr (A, ?ids)" "numbers A ?ids"
    using number_all_ok [OF _ below, of "replicate ?n 0"] metas(2) by auto
  obtain D where D: "count_degrees A adj (replicate ?n 0) = Inr D" "length D = length ?ids"
    "\<forall>i < length ?ids. D ! i = int (length (nbs (?ids ! i)))"
    using count_degrees_ok [OF A(2) _ adj, of "replicate ?n 0"] nbs by (fastforce split: option.splits)
  let ?m = "nat (last (prefix_sums 0 D))"
  obtain st B where st: "fill_all A adj \<lparr>cf_cursor = prefix_sums 0 D, cf_targets = replicate ?m 0, cf_weights = replicate ?m f32_zero,
      cf_rels = replicate ?m []\<rparr> = Inr st" "arrays_hold st B" "length B = length ?ids"
    "\<forall>i < length ?ids. B ! i = filled A (nbs (?ids ! i))" "\<forall>i \<le> length ?ids. prefix_sums 0 D ! i = int (block_at B i)"
    using build_fill_ok [OF A(2) adj D(2,3) nbs] by blast
  have "snd m \<in> ran meta" if "m \<in> set metas" for m
    using that metas map_of_is_SomeI [of metas "fst m" "snd m"] by (auto simp: ran_def)
  then have labels': "\<forall>m \<in> set metas. Option.bind (nm_label (snd m)) (read_cstr bytes) \<noteq> None"
    using labels by blast
  obtain L R where lr: "fill_meta bytes A metas (replicate ?n []) (replicate ?n []) = Inr (L, R)"
    "length L = length ?ids" "length R = length ?ids"
    "\<forall>i < length ?ids. case map_of metas (?ids ! i) of None \<Rightarrow> L ! i = replicate ?n [] ! i \<and> R ! i = replicate ?n [] ! i
      | Some m \<Rightarrow> Option.bind (nm_label m) (read_cstr bytes) = Some (L ! i) \<and> R ! i = nm_props m"
    using fill_meta_ok [OF A(2) _ _ _ labels' metas(2), of "replicate ?n []" "replicate ?n []"] by auto
  let ?c = "\<lparr>cs_node_count = int ?n, cs_edge_count = last (prefix_sums 0 D), cs_id_to_idx = A, cs_idx_to_id = ?ids,
    cs_offsets = prefix_sums 0 D, cs_targets = cf_targets st, cs_weights = cf_weights st, cs_labels = L, cs_props = R,
    cs_rel_types = cf_rels st\<rparr>"
  have "build_csr bytes metas adj = Inr ?c"
    using A(1) D(1) st(1) lr(1) max by (simp add: build_csr_def Let_def max_id_def [symmetric])
  moreover have "csr_slots ?c i = filled A (nbs (?ids ! i))" if i: "i < length ?ids" for i
    using arrays_slots [OF st(2), of i "prefix_sums 0 D ! i" "prefix_sums 0 D ! Suc i"] st(3-5) i
    by (simp add: csr_slots_def)
  moreover have "prefix_sums 0 D ! Suc i = prefix_sums 0 D ! i + int (length (nbs (?ids ! i)))" if "i < length ?ids" for i
    using that D(2,3) by (simp add: prefix_sums_nth take_Suc_conv_app_nth)
  moreover have "Option.bind (nm_label (the (meta (?ids ! i)))) (read_cstr bytes) = Some (L ! i) \<and>
      R ! i = nm_props (the (meta (?ids ! i)))" if "i < length ?ids" for i
  proof -
    have "?ids ! i \<in> dom meta" unfolding dom by (rule nth_mem [OF that])
    then obtain m where "map_of metas (?ids ! i) = Some m" unfolding metas(1) by blast
    then show ?thesis using spec [OF lr(4), of i] that metas(1) by simp
  qed
  moreover have "prefix_sums 0 D ! 0 = 0" "last (prefix_sums 0 D) = prefix_sums 0 D ! length ?ids"
    using D(2) by (simp_all add: prefix_sums_nth prefix_sums_last)
  moreover have "int (length (cf_targets st)) = prefix_sums 0 D ! length ?ids" "length (cf_weights st) = length (cf_targets st)"
    "length (cf_rels st) = length (cf_targets st)"
    using st(2,3) st(5) [rule_format, of "length ?ids"] by (simp_all add: arrays_hold_def block_at_def)
  ultimately show ?thesis
    using A(2) D(2) lr(2,3) by (intro exI [of _ ?c]) (simp add: csr_of_def sl Let_def)
qed


section \<open>Properties\<close>

text \<open>
  C18. For a graph of nodes numbered from 0 to below the greatest \<^verbatim>\<open>int\<close>, whose labels are
  readable, the compressed copy is built without an access out of bounds, in whatever order the hash
  maps are iterated: the ids are sorted and numbered, \<open>to_idx\<close> finds exactly them, each node has its
  label and properties, and its slots list its edges to nodes in order, followed by one slot with the
  default values (index 0, weight 0) for each of its edges to something that is no node: such
  an edge is not copied, but leaves an edge to the smallest node.
\<close>

theorem csr_copies_graph:
  assumes "map_of metas = dg_meta g" "distinct (map fst metas)" "map_of adj = dg_adj g" "distinct (map fst adj)"
    "\<forall>n \<in> dom (dg_meta g). 0 \<le> n \<and> n < 2 ^ 31 - 1"
    "\<forall>m \<in> ran (dg_meta g). Option.bind (nm_label m) (read_cstr bytes) \<noteq> None"
  shows "\<exists>c. build_csr bytes metas adj = Inr c \<and> csr_of bytes (dg_meta g) (dg_neighbors g) c"
  using assms by (intro build_csr_ok) (auto simp: dg_neighbors_def)

theorem csr_copies_graph_witness:
  "\<exists>c. build_csr (\<lambda>_. CHR 0x00) [(5, \<lparr>nm_label = Some 0, nm_props = ''p''\<rparr>), (2, \<lparr>nm_label = Some 0, nm_props = ''q''\<rparr>)]
      [(5, [\<lparr>ed_to = 9, ed_rel = ''r'', ed_weight = f32_one\<rparr>, \<lparr>ed_to = 2, ed_rel = ''s'', ed_weight = f32_one\<rparr>])] = Inr c \<and>
    csr_slots c 1 = [(0, f32_one, ''s''), phantom]"
proof -
  let ?ms = "[(5::int, \<lparr>nm_label = Some (0::u64), nm_props = ''p''\<rparr>), (2, \<lparr>nm_label = Some 0, nm_props = ''q''\<rparr>)]"
  let ?es = "[\<lparr>ed_to = 9, ed_rel = ''r'', ed_weight = f32_one\<rparr>, \<lparr>ed_to = 2, ed_rel = ''s'', ed_weight = f32_one\<rparr>]"
  let ?g = "dg_new\<lparr>dg_meta := map_of ?ms, dg_adj := map_of [(5, ?es)]\<rparr>"
  let ?b = "\<lambda>_ :: u64. CHR 0x00"
  have "read_cstr ?b p = Some []" for p by (subst read_cstr.simps) simp
  then have "\<forall>m \<in> ran (dg_meta ?g). Option.bind (nm_label m) (read_cstr ?b) \<noteq> None"
    by (auto simp: ran_def split: if_splits)
  then obtain c where c: "build_csr ?b ?ms [(5, ?es)] = Inr c" "csr_of ?b (dg_meta ?g) (dg_neighbors ?g) c"
    using csr_copies_graph [of ?ms ?g "[(5, ?es)]" ?b] by auto
  have ids: "sorted_list_of_set (dom (dg_meta ?g)) = [2, 5]" by (simp add: insert_commute)
  let ?A = "cs_id_to_idx c"
  have num: "numbers ?A [2, 5]" and sl: "csr_slots c 1 = filled ?A ?es"
    using c(2) unfolding csr_of_def ids Let_def by (auto simp: dg_neighbors_def)
  have "to_idx ?A 2 = 0" "to_idx ?A 9 = -1"
    using num spec [of "\<lambda>i. i < 2 \<longrightarrow> to_idx ?A ([2, 5] ! i) = int i" 0] unfolding numbers_def by auto
  then have "filled ?A ?es = [(0, f32_one, ''s''), phantom]"
    by (simp add: filled_def slots_of_def slot_of_def)
  with c(1) sl show ?thesis by auto
qed

end
