(* ===== verification/CSR_Search.thy ===== *)
theory CSR_Search
  imports CSR_Proofs BFS_Properties
begin

text \<open>
  The breadth first search on the compressed graph as a client of the breadth first laws: on a copy built
  from the mutable graph it stays within its arrays and finds a shortest path of the graph, as long as
  every edge ends at a node.
\<close>

section \<open>The shape of a compressed graph\<close>

text \<open>The ends of the slots of a node, and the bounds under which a search stays within the arrays.\<close>

definition csr_ends :: "csr_graph \<Rightarrow> int \<Rightarrow> int list" where
  "csr_ends c i = (if 0 \<le> i \<and> i < cs_node_count c then map fst (csr_slots c (nat i)) else [])"

definition csr_shape :: "csr_graph \<Rightarrow> nat \<Rightarrow> bool" where
  "csr_shape c n \<longleftrightarrow> cs_node_count c = int n \<and> length (cs_offsets c) = Suc n \<and> length (cs_idx_to_id c) = n \<and>
     length (cs_weights c) = length (cs_targets c) \<and> length (cs_rel_types c) = length (cs_targets c) \<and>
     (\<forall>i < n. 0 \<le> cs_offsets c ! i \<and> cs_offsets c ! i \<le> cs_offsets c ! Suc i \<and>
        cs_offsets c ! Suc i \<le> int (length (cs_targets c)) \<and> (\<forall>x \<in> set (csr_slots c i). 0 \<le> fst x \<and> fst x < int n))"

lemma steps_mono:
  fixes xs :: "int list"
  assumes "\<forall>i < n. xs ! i \<le> xs ! Suc i" "j \<le> k" "k \<le> n"
  shows "xs ! j \<le> xs ! k"
  using assms(2,3)
proof (induction k rule: dec_induct)
  case (step k)
  then have "xs ! j \<le> xs ! k" "xs ! k \<le> xs ! Suc k" using assms(1) by simp_all
  then show ?case by simp
qed simp

lemma csr_of_shape:
  assumes "csr_of bytes meta nbs c"
  shows "csr_shape c (card (dom meta))"
proof -
  let ?ids = "sorted_list_of_set (dom meta)" and ?A = "cs_id_to_idx c" and ?o = "cs_offsets c"
  note c = assms [unfolded csr_of_def Let_def]
  have step: "\<forall>i < length ?ids. ?o ! i \<le> ?o ! Suc i" using c by simp
  have "0 \<le> ?o ! i" "?o ! i \<le> int (length (cs_targets c))" if "i \<le> length ?ids" for i
    using steps_mono [OF step, of 0 i] steps_mono [OF step, of i "length ?ids"] that c by auto
  moreover have "0 \<le> fst x \<and> fst x < int (length ?ids)" if "i < length ?ids" "x \<in> set (csr_slots c i)" for i x
  proof -
    have "x \<in> set (filled ?A (nbs (?ids ! i)))" using that c by auto
    then consider "x = phantom" | e where "x = slot_of ?A e" "0 \<le> to_idx ?A (ed_to e)"
      by (auto simp: filled_def slots_of_def)
    then show ?thesis
    proof cases
      case 1
      then show ?thesis using that(1) by (simp add: phantom_def)
    next
      case (2 e)
      have "numbers ?A ?ids" using c by blast
      then show ?thesis using 2 by (auto simp: slot_of_def elim: numbers_cases [of ?A ?ids "ed_to e"])
    qed
  qed
  ultimately have "0 \<le> ?o ! i \<and> ?o ! i \<le> ?o ! Suc i \<and> ?o ! Suc i \<le> int (length (cs_targets c)) \<and>
      (\<forall>x \<in> set (csr_slots c i). 0 \<le> fst x \<and> fst x < int (length ?ids))" if "i < length ?ids" for i
    using that step by (simp add: Suc_leI del: length_sorted_list_of_set)
  then show ?thesis using c unfolding csr_shape_def by simp
qed

lemma slot_access:
  assumes "csr_shape c n" "i < n"
  defines "b \<equiv> cs_offsets c ! i" and "e \<equiv> cs_offsets c ! Suc i"
  shows "neighbor_range c (int i) = Inr (b, e)" "e = b + int (length (csr_slots c i))" "0 \<le> b"
    "k < length (csr_slots c i) \<Longrightarrow> vec_get (cs_targets c) (b + int k) = Inr (fst (csr_slots c i ! k)) \<and>
      vec_get (cs_weights c) (b + int k) = Inr (fst (snd (csr_slots c i ! k)))"
proof -
  have o: "0 \<le> b" "b \<le> e" "e \<le> int (length (cs_targets c))" "length (cs_offsets c) = Suc n"
    "length (cs_weights c) = length (cs_targets c)" "length (cs_rel_types c) = length (cs_targets c)"
    using assms by (auto simp: csr_shape_def)
  show "neighbor_range c (int i) = Inr (b, e)"
    using o(4) assms(2) by (simp add: neighbor_range_def vec_get_def nat_add_distrib b_def e_def)
  show "0 \<le> b" by (rule o)
  have len: "length (csr_slots c i) = nat (e - b)"
    using o by (simp add: csr_slots_def Let_def slice_def flip: b_def e_def)
  then show "e = b + int (length (csr_slots c i))" using o by simp
  show "vec_get (cs_targets c) (b + int k) = Inr (fst (csr_slots c i ! k)) \<and>
      vec_get (cs_weights c) (b + int k) = Inr (fst (snd (csr_slots c i ! k)))" if "k < length (csr_slots c i)"
    using that o len
    by (simp add: csr_slots_def Let_def slice_def vec_get_def nat_add_distrib flip: b_def e_def)
qed

lemma csr_ends_range: "csr_shape c n \<Longrightarrow> set (csr_ends c u) \<subseteq> {0 ..< int n}"
  by (auto simp: csr_ends_def csr_shape_def nat_less_iff dest!: spec [of _ "nat u"] dest: bspec)

section \<open>Following the parents\<close>

definition parent_chain :: "int list \<Rightarrow> int list \<Rightarrow> bool" where
  "parent_chain par vs \<longleftrightarrow> vs \<noteq> [] \<and> par ! nat (hd vs) = -1 \<and> (\<forall>i. Suc i < length vs \<longrightarrow> par ! nat (vs ! Suc i) = vs ! i)"

lemma parent_chain_snoc:
  "vs \<noteq> [] \<Longrightarrow> parent_chain par (vs @ [v]) \<longleftrightarrow> parent_chain par vs \<and> par ! nat v = last vs"
  unfolding parent_chain_def
  by (auto simp: nth_append last_conv_nth less_Suc_eq; metis Suc_lessI diff_Suc_Suc diff_zero)

definition node_ids :: "csr_graph \<Rightarrow> int list \<Rightarrow> int list" where
  "node_ids c vs = map (\<lambda>i. cs_idx_to_id c ! nat i) vs"

lemma csr_trace_chain:
  assumes "parent_chain par vs" "set vs \<subseteq> {0 ..< int n}" "length par = n" "length (cs_idx_to_id c) = n"
  shows "csr_trace c par (last vs) nodes = Some (Inr (nodes @ rev (node_ids c vs)))"
  using assms(1,2)
proof (induction vs arbitrary: nodes rule: rev_induct)
  case (snoc v vs)
  then have v: "0 \<le> v" "v < int n" by auto
  then have get: "vec_get (cs_idx_to_id c) v = Inr (cs_idx_to_id c ! nat v)" "vec_get par v = Inr (par ! nat v)"
    using assms(3,4) by (simp_all add: vec_get_def)
  show ?case
  proof (cases "vs = []")
    case True
    then have "par ! nat v = -1" using snoc.prems(1) by (simp add: parent_chain_def)
    moreover have "csr_trace c par (-1) ns = Some (Inr ns)" for ns by (subst csr_trace.simps) simp
    ultimately show ?thesis
      using True v get by (subst csr_trace.simps) (simp add: node_ids_def)
  next
    case False
    then have "parent_chain par vs" "par ! nat v = last vs"
      using snoc.prems(1) by (simp_all add: parent_chain_snoc)
    then show ?thesis
      using v get snoc.IH [of "nodes @ [cs_idx_to_id c ! nat v]"] snoc.prems(2)
      by (subst csr_trace.simps) (simp add: node_ids_def)
  qed
qed (simp add: parent_chain_def)

section \<open>Breadth first search\<close>

text \<open>
  \<open>pre\<close> are the nodes taken from the queue, \<open>Q\<close> those in it; \<open>D\<close> gives the hops at which a node was
  discovered, and the parent of a node is one hop nearer.
\<close>

definition csr_queue_ok :: "nat \<Rightarrow> (int \<rightharpoonup> nat) \<Rightarrow> int list \<Rightarrow> csr_bfs \<Rightarrow> bool" where
  "csr_queue_ok n D q st \<longleftrightarrow> length (cb_parent st) = n \<and> length (cb_visited st) = n \<and> length (cb_queue st) = n \<and>
     cb_tail st = int (length q) \<and> take (length q) (cb_queue st) = q \<and> distinct q \<and> set q = dom D \<and>
     dom D \<subseteq> {0 ..< int n} \<and> (\<forall>v \<in> {0 ..< int n}. cb_visited st ! nat v \<longleftrightarrow> v \<in> dom D)"

definition csr_parents :: "(int \<Rightarrow> int list) \<Rightarrow> int \<Rightarrow> (int \<rightharpoonup> nat) \<Rightarrow> int list \<Rightarrow> bool" where
  "csr_parents S s D par \<longleftrightarrow> D s = Some 0 \<and> par ! nat s = -1 \<and> (\<forall>v d. D v = Some d \<longrightarrow> v \<noteq> s \<longrightarrow>
     (\<exists>d'. d = Suc d' \<and> D (par ! nat v) = Some d' \<and> v \<in> set (S (par ! nat v))))"

lemma csr_parents_walk:
  assumes "csr_parents S s D par" "D v = Some d" "dom D \<subseteq> A"
  shows "\<exists>vs. walk S vs \<and> hd vs = s \<and> last vs = v \<and> length vs = Suc d \<and> set vs \<subseteq> A \<and> parent_chain par vs"
  using assms(2)
proof (induction d arbitrary: v)
  case 0
  then have "v = s" "par ! nat s = -1" "s \<in> A" using assms by (auto simp: csr_parents_def)
  then show ?case by (intro exI [of _ "[s]"]) (simp add: parent_chain_def)
next
  case (Suc d)
  then have "v \<noteq> s" "v \<in> A" using assms by (auto simp: csr_parents_def)
  then have p: "D (par ! nat v) = Some d" "v \<in> set (S (par ! nat v))"
    using assms(1) Suc.prems by (auto simp: csr_parents_def)
  obtain vs where "walk S vs" "hd vs = s" "last vs = par ! nat v" "length vs = Suc d" "set vs \<subseteq> A" "parent_chain par vs"
    using Suc.IH [OF p(1)] by blast
  moreover from this have "vs \<noteq> []" by auto
  ultimately show ?case
    using p(2) \<open>v \<in> A\<close> by (intro exI [of _ "vs @ [v]"]) (simp add: walk_append parent_chain_snoc)
qed

lemma csr_parents_link:
  assumes "csr_parents S s D par" "v \<notin> dom D" "D u = Some d" "v \<in> set (S u)" "dom D \<subseteq> {0 ..< int (length par)}"
    "0 \<le> v" "v < int (length par)"
  shows "csr_parents S s (D(v \<mapsto> Suc d)) (par[nat v := u])"
proof -
  have same: "par[nat v := u] ! nat w = par ! nat w" if "w \<in> dom D" for w
  proof -
    have "nat w \<noteq> nat v" using that assms(2,5,6) by (metis atLeastLessThan_iff eq_nat_nat_iff subsetD)
    then show ?thesis by simp
  qed
  let ?D = "D(v \<mapsto> Suc d)" and ?par = "par[nat v := u]"
  have s: "D s = Some 0" "par ! nat s = -1" using assms(1) by (simp_all add: csr_parents_def)
  have vs: "v \<noteq> s" using assms(2) s(1) by auto
  have "\<exists>d'. k = Suc d' \<and> ?D (?par ! nat w) = Some d' \<and> w \<in> set (S (?par ! nat w))" if w: "?D w = Some k" "w \<noteq> s" for w k
  proof (cases "w = v")
    case True
    then show ?thesis using w(1) assms(2-4,6,7) by auto
  next
    case False
    then have Dw: "D w = Some k" using w(1) by simp
    then obtain d' where "k = Suc d'" "D (par ! nat w) = Some d'" "w \<in> set (S (par ! nat w))"
      using assms(1) w(2) by (auto simp: csr_parents_def)
    moreover from this have "par ! nat w \<noteq> v" using assms(2) by auto
    moreover have "w \<in> dom D" using Dw by auto
    ultimately show ?thesis by (simp add: same)
  qed
  moreover have "s \<in> dom D" using s(1) by auto
  then have "?par ! nat s = -1" using s(2) by (simp add: same)
  ultimately show ?thesis using s(1) vs unfolding csr_parents_def by simp
qed

text \<open>The state after a discovery, before and after the node is queued.\<close>

lemma csr_queue_push:
  assumes "csr_queue_ok n D q st" "v \<notin> dom D" "0 \<le> v" "v < int n" "length par = n"
  shows "vec_put (cb_queue st) (cb_tail st) v = Inr ((cb_queue st)[length q := v])"
    "csr_queue_ok n (D(v \<mapsto> d)) (q @ [v])
      \<lparr>cb_parent = par, cb_visited = (cb_visited st)[nat v := True], cb_queue = (cb_queue st)[length q := v],
        cb_tail = cb_tail st + 1\<rparr>"
proof -
  note q = assms(1) [unfolded csr_queue_ok_def]
  have "insert v (set q) \<subseteq> {0 ..< int n}" using q assms(3,4) by auto
  then have "card (insert v (set q)) \<le> n" using card_mono [of "{0 ..< int n}" "insert v (set q)"] by simp
  moreover have "card (insert v (set q)) = Suc (length q)"
    using q assms(2) distinct_card [of q] by (metis List.finite_set card_insert_disjoint)
  ultimately have room: "length q < n" by simp
  then show "vec_put (cb_queue st) (cb_tail st) v = Inr ((cb_queue st)[length q := v])"
    using q by (simp add: vec_put_def)
  have "take (Suc (length q)) ((cb_queue st)[length q := v]) = q @ [v]"
    using q room by (simp add: take_Suc_conv_app_nth)
  moreover have "(cb_visited st)[nat v := True] ! nat w \<longleftrightarrow> w = v \<or> w \<in> dom D" if "0 \<le> w" "w < int n" for w
    using q that assms(3,4) by (cases "w = v") (auto simp: nth_list_update)
  ultimately show "csr_queue_ok n (D(v \<mapsto> d)) (q @ [v])
      \<lparr>cb_parent = par, cb_visited = (cb_visited st)[nat v := True], cb_queue = (cb_queue st)[length q := v],
        cb_tail = cb_tail st + 1\<rparr>"
    using q assms(2-5) unfolding csr_queue_ok_def by auto
qed

lemma csr_scan_ok:
  assumes "bfs_scan S s (\<lambda>_. True) D u ts Q" "csr_queue_ok n D (pre @ Q) st" "csr_parents S s D (cb_parent st)"
    "dst \<notin> dom D" "\<forall>k < length ts. vec_get (cs_targets c) (e + int k) = Inr (ts ! k)" "set ts \<subseteq> {0 ..< int n}"
  shows "\<exists>found st' D'. csr_scan c dst u e (e + int (length ts)) st = Inr (found, st') \<and> csr_parents S s D' (cb_parent st') \<and>
    length (cb_parent st') = n \<and> dom D' \<subseteq> {0 ..< int n} \<and> (\<forall>v d. D' v = Some d \<longrightarrow> hop_dist S s v d) \<and>
    (found \<longleftrightarrow> dst \<in> dom D') \<and> (\<not> found \<longrightarrow> (\<exists>Q'. bfs_inv S s (\<lambda>_. True) D' Q' \<and> csr_queue_ok n D' (pre @ Q') st'))"
  using assms
proof (induction ts arbitrary: D Q st e)
  case Nil
  have "bfs_inv S s (\<lambda>_. True) D Q" by (rule bfs_all.scanned [OF Nil.prems(1)])
  moreover have "csr_scan c dst u e e st = Inr (False, st)" by (subst csr_scan.simps) simp
  ultimately show ?case
    using Nil.prems by (intro exI [of _ False] exI [of _ st] exI [of _ D]) (auto simp: csr_queue_ok_def bfs_inv_def)
next
  case (Cons v ts)
  note q = Cons.prems(2) [unfolded csr_queue_ok_def]
  have v: "0 \<le> v" "v < int n" "vec_get (cs_targets c) e = Inr v" "e < e + int (length (v # ts))"
    using Cons.prems(5,6) by auto
  have later: "\<forall>k < length ts. vec_get (cs_targets c) (e + 1 + int k) = Inr (ts ! k)" "set ts \<subseteq> {0 ..< int n}"
    using Cons.prems(5,6) by (fastforce simp: algebra_simps)+
  have stop: "e + int (length (v # ts)) = e + 1 + int (length ts)" by simp
  have seen: "vec_get (cb_visited st) v = Inr (v \<in> dom D)" using q v by (simp add: vec_get_def)
  show ?case
  proof (cases "v \<in> dom D")
    case True
    have "csr_scan c dst u e (e + int (length (v # ts))) st = csr_scan c dst u (e + 1) (e + int (length (v # ts))) st"
      using v seen True by (subst csr_scan.simps) simp
    then show ?thesis
      unfolding stop using Cons.IH [OF bfs_all.known [OF Cons.prems(1) True] Cons.prems(2-4) later] by simp
  next
    case False
    let ?D = "D(v \<mapsto> Suc (the (D u)))" and ?par = "(cb_parent st)[nat v := u]"
    note new = bfs_all.discover [OF Cons.prems(1) False]
    have u: "D u = Some (the (D u))" "v \<in> set (S u)"
      using Cons.prems(1) by (auto simp: bfs_scan_def)
    have par: "csr_parents S s ?D ?par"
      using q v by (intro csr_parents_link [OF Cons.prems(3) False u]) auto
    have puts: "vec_put (cb_visited st) v True = Inr ((cb_visited st)[nat v := True])"
      "vec_put (cb_parent st) v u = Inr ?par" using q v by (simp_all add: vec_put_def)
    have dist: "\<forall>w d. ?D w = Some d \<longrightarrow> hop_dist S s w d" using new by (simp add: bfs_scan_def)
    show ?thesis
    proof (cases "v = dst")
      case True
      let ?st = "st\<lparr>cb_visited := (cb_visited st)[nat v := True], cb_parent := ?par\<rparr>"
      have "csr_scan c dst u e (e + int (length (v # ts))) st = Inr (True, ?st)"
        using v seen False puts True by (subst csr_scan.simps) simp
      moreover have "dom ?D \<subseteq> {0 ..< int n}" "dst \<in> dom ?D" using q v True by auto
      ultimately show ?thesis
        using par dist q by (intro exI [of _ True] exI [of _ ?st] exI [of _ ?D]) (simp del: fun_upd_apply)
    next
      case other: False
      have len: "length ?par = n" using q by simp
      note push = csr_queue_push(1) [OF Cons.prems(2) False v(1,2) len]
        csr_queue_push(2) [OF Cons.prems(2) False v(1,2) len, of "Suc (the (D u))"]
      let ?st = "\<lparr>cb_parent = ?par, cb_visited = (cb_visited st)[nat v := True],
        cb_queue = (cb_queue st)[length (pre @ Q) := v], cb_tail = cb_tail st + 1\<rparr>"
      have "csr_scan c dst u e (e + int (length (v # ts))) st = csr_scan c dst u (e + 1) (e + int (length (v # ts))) ?st"
        using v seen False puts other push(1) by (subst csr_scan.simps) simp
      moreover have "dst \<notin> dom ?D" using Cons.prems(4) other by simp
      moreover have "csr_queue_ok n ?D (pre @ Q @ [v]) ?st" using push(2) by simp
      ultimately show ?thesis
        unfolding stop using Cons.IH [OF new _ _ _ later, of ?st] par by (simp del: fun_upd_apply dom_fun_upd)
    qed
  qed
qed

text \<open>The answer: no path, or the ids of the nodes of a shortest walk.\<close>

definition csr_answer :: "csr_graph \<Rightarrow> int \<Rightarrow> int \<Rightarrow> path_result \<Rightarrow> bool" where
  "csr_answer c src dst p \<longleftrightarrow>
     (if dst \<in> reachable (csr_ends c) src
      then \<exists>vs d. walk (csr_ends c) vs \<and> hd vs = src \<and> last vs = dst \<and> length vs = Suc d \<and>
        hop_dist (csr_ends c) src dst d \<and> set vs \<subseteq> {0 ..< cs_node_count c} \<and> p = \<lparr>pr_nodes = node_ids c vs, pr_rels = []\<rparr>
      else p = no_path)"

lemma csr_bfs_loop_ok:
  assumes shape: "csr_shape c n"
    and "bfs_inv (csr_ends c) s (\<lambda>_. True) D Q" "csr_queue_ok n D (pre @ Q) st" "csr_parents (csr_ends c) s D (cb_parent st)"
      "dst \<notin> dom D"
  shows "\<exists>p. csr_bfs_loop c dst (int (length pre)) st = Some (Inr p) \<and> csr_answer c s dst p"
  using assms(2-)
proof (induction "n - length pre" arbitrary: D Q pre st rule: less_induct)
  case less
  let ?S = "csr_ends c"
  note q = less.prems(2) [unfolded csr_queue_ok_def]
  show ?case
  proof (cases Q)
    case Nil
    then have "csr_bfs_loop c dst (int (length pre)) st = Some (Inr no_path)"
      using q by (subst csr_bfs_loop.simps) simp
    moreover have "dst \<notin> reachable ?S s"
      using bfs_all.complete(2) [of ?S s D dst] less.prems(1,4) Nil by (auto simp: hop_dist_ex)
    ultimately show ?thesis by (simp add: csr_answer_def)
  next
    case (Cons u Q')
    have "set (pre @ Q) \<subseteq> {0 ..< int n}" using q by metis
    then have u: "0 \<le> u" "u < int n" using Cons by auto
    obtain i where i: "u = int i" "i < n" using u by (metis nonneg_int_cases of_nat_less_iff)
    have get: "vec_get (cb_queue st) (int (length pre)) = Inr u"
    proof -
      have len: "length (take (length (pre @ Q)) (cb_queue st)) = length (pre @ Q)" using q by metis
      then have "length pre < length (cb_queue st)" using Cons by simp
      moreover have "cb_queue st ! length pre = u"
        using q nth_take [of "length pre" "length (pre @ Q)" "cb_queue st"] Cons by simp
      ultimately show ?thesis by simp
    qed
    have ends: "?S u = map fst (csr_slots c i)" using i shape by (simp add: csr_ends_def csr_shape_def)
    let ?b = "cs_offsets c ! i" and ?e = "cs_offsets c ! Suc i"
    note acc = slot_access [OF shape i(2)]
    have 1: "bfs_scan ?S s (\<lambda>_. True) D u (?S u) Q'" using bfs_all.pop less.prems(1) Cons by blast
    have 2: "csr_queue_ok n D ((pre @ [u]) @ Q') st" using less.prems(2) Cons by simp
    have 3: "\<forall>k < length (?S u). vec_get (cs_targets c) (?b + int k) = Inr (?S u ! k)"
      using acc(4) by (simp add: ends)
    obtain found st' D' where sc: "csr_scan c dst u ?b (?b + int (length (?S u))) st = Inr (found, st')"
      "csr_parents ?S s D' (cb_parent st')" "length (cb_parent st') = n" "dom D' \<subseteq> {0 ..< int n}"
      "\<forall>v d. D' v = Some d \<longrightarrow> hop_dist ?S s v d" "found \<longleftrightarrow> dst \<in> dom D'"
      "\<not> found \<longrightarrow> (\<exists>Q1. bfs_inv ?S s (\<lambda>_. True) D' Q1 \<and> csr_queue_ok n D' ((pre @ [u]) @ Q1) st')"
      using csr_scan_ok [OF 1 2 less.prems(3,4) 3 csr_ends_range [OF shape]] by (elim exE conjE) (rule that)
    have turn: "and_then (vec_get (cb_queue st) (int (length pre))) (\<lambda>node.
        and_then (neighbor_range c node) (\<lambda>(b, e). csr_scan c dst node b e st)) = Inr (found, st')"
      using get acc(1,2) sc(1) ends by (simp add: i(1))
    have more_nodes: "int (length pre) < cb_tail st" using q Cons by simp
    show ?thesis
    proof (cases found)
      case True
      then obtain d where d: "D' dst = Some d" using sc(6) by auto
      obtain vs where vs: "walk ?S vs" "hd vs = s" "last vs = dst" "length vs = Suc d" "set vs \<subseteq> {0 ..< int n}"
        "parent_chain (cb_parent st') vs"
        using csr_parents_walk [OF sc(2) d sc(4)] by blast
      have "length (cs_idx_to_id c) = n" using shape by (simp add: csr_shape_def)
      then have "csr_trace c (cb_parent st') dst [] = Some (Inr (rev (node_ids c vs)))"
        using csr_trace_chain [OF vs(6,5) sc(3)] vs(3) by simp
      then have "csr_bfs_loop c dst (int (length pre)) st = Some (Inr \<lparr>pr_nodes = node_ids c vs, pr_rels = []\<rparr>)"
        using more_nodes turn True by (subst csr_bfs_loop.simps) simp
      moreover have "hop_dist ?S s dst d" using sc(5) d by simp
      moreover from this have "dst \<in> reachable ?S s" unfolding hop_dist_ex by (rule exI)
      moreover have "cs_node_count c = int n" using shape by (simp add: csr_shape_def)
      ultimately show ?thesis using vs by (auto simp: csr_answer_def)
    next
      case False
      then obtain Q1 where Q1: "bfs_inv ?S s (\<lambda>_. True) D' Q1" "csr_queue_ok n D' ((pre @ [u]) @ Q1) st'"
        using sc(7) by blast
      have "length (pre @ Q) \<le> n"
        using q by (metis length_take min.cobounded1)
      then have "n - length (pre @ [u]) < n - length pre" using Cons by simp
      from less.hyps [OF this Q1 sc(2)] have "\<exists>p. csr_bfs_loop c dst (int (length (pre @ [u]))) st' = Some (Inr p) \<and> csr_answer c s dst p"
        using False sc(6) by blast
      moreover have "csr_bfs_loop c dst (int (length pre)) st = csr_bfs_loop c dst (int (length pre) + 1) st'"
        using more_nodes turn False by (subst csr_bfs_loop.simps) simp
      ultimately show ?thesis by (simp add: add.commute)
    qed
  qed
qed

lemma bfs_path_csr_ok:
  assumes shape: "csr_shape c n" and src: "to_idx (cs_id_to_idx c) source = src" "0 \<le> src" "src < int n"
    and dst: "to_idx (cs_id_to_idx c) target = dst" "0 \<le> dst" "dst \<noteq> src"
  shows "\<exists>p. bfs_path_csr c source target = Some (Inr p) \<and> csr_answer c src dst p"
proof -
  have n: "cs_node_count c = int n" using shape by (simp add: csr_shape_def)
  let ?st = "\<lparr>cb_parent = replicate n (-1), cb_visited = (replicate n False)[nat src := True],
    cb_queue = (replicate n 0)[0 := src], cb_tail = 1\<rparr>"
  have "bfs_path_csr c source target = csr_bfs_loop c dst 0 ?st"
    using src dst n by (simp add: bfs_path_csr_def Let_def vec_put_def)
  moreover have "csr_queue_ok n [src \<mapsto> 0] ([] @ [src]) ?st"
    using src by (auto simp: csr_queue_ok_def nth_list_update take_Suc_conv_app_nth split: if_splits)
  moreover have "csr_parents (csr_ends c) src [src \<mapsto> 0] (cb_parent ?st)"
    using src by (simp add: csr_parents_def)
  ultimately show ?thesis
    using csr_bfs_loop_ok [OF shape bfs_all.start, of src "[]" ?st dst] dst by simp
qed

section \<open>Indices and ids\<close>

text \<open>A search on the indices is a search on the ids when \<open>f\<close> maps the successors of the one to those of the other.\<close>

lemma relpow_map:
  assumes "\<And>i. i \<in> A \<Longrightarrow> T (f i) = map f (S i)" "\<And>i. i \<in> A \<Longrightarrow> set (S i) \<subseteq> A" "i \<in> A"
  shows "(f i, y) \<in> edge_rel T ^^ k \<longleftrightarrow> (\<exists>j \<in> A. y = f j \<and> (i, j) \<in> edge_rel S ^^ k)"
proof (induction k arbitrary: y)
  case 0
  then show ?case using assms(3) by auto
next
  case (Suc k)
  show ?case
  proof
    assume "(f i, y) \<in> edge_rel T ^^ Suc k"
    then obtain x where "(f i, x) \<in> edge_rel T ^^ k" "y \<in> set (T x)" by (auto simp: edge_rel_def)
    then obtain j where "j \<in> A" "(i, j) \<in> edge_rel S ^^ k" "y \<in> f ` set (S j)" using Suc assms(1) by auto
    then show "\<exists>j \<in> A. y = f j \<and> (i, j) \<in> edge_rel S ^^ Suc k"
      using assms(2) by (fastforce simp: edge_rel_def)
  next
    assume "\<exists>j \<in> A. y = f j \<and> (i, j) \<in> edge_rel S ^^ Suc k"
    then obtain j l where j: "y = f j" "(i, l) \<in> edge_rel S ^^ k" "j \<in> set (S l)" by (auto simp: edge_rel_def)
    have "l \<in> A" using j(2) assms(2,3) by (induction k arbitrary: l) (auto simp: edge_rel_def)
    then have "(f i, f l) \<in> edge_rel T ^^ k" "f j \<in> set (T (f l))" using Suc j(2,3) assms(1) by auto
    then show "(f i, y) \<in> edge_rel T ^^ Suc k" using j(1) by (auto simp: edge_rel_def)
  qed
qed

lemma hop_dist_map:
  assumes "\<And>i. i \<in> A \<Longrightarrow> T (f i) = map f (S i)" "\<And>i. i \<in> A \<Longrightarrow> set (S i) \<subseteq> A" "inj_on f A" "i \<in> A" "j \<in> A"
  shows "hop_dist T (f i) (f j) d \<longleftrightarrow> hop_dist S i j d" "f j \<in> reachable T (f i) \<longleftrightarrow> j \<in> reachable S i"
proof -
  have "(f i, f j) \<in> edge_rel T ^^ k \<longleftrightarrow> (i, j) \<in> edge_rel S ^^ k" for k
    using relpow_map [of A T f S i "f j" k] assms by (metis inj_onD)
  then show "hop_dist T (f i) (f j) d \<longleftrightarrow> hop_dist S i j d" "f j \<in> reachable T (f i) \<longleftrightarrow> j \<in> reachable S i"
    by (simp_all add: hop_dist_def reachable_def rtrancl_power)
qed

lemma walk_map:
  assumes "\<And>i. i \<in> A \<Longrightarrow> T (f i) = map f (S i)"
  shows "walk S vs \<Longrightarrow> set vs \<subseteq> A \<Longrightarrow> walk T (map f vs)"
  by (induction vs rule: induct_list012) (simp_all add: assms)

lemma numbers_node:
  "numbers A ids \<Longrightarrow> n \<in> set ids \<Longrightarrow> 0 \<le> to_idx A n \<and> to_idx A n < int (length ids) \<and> ids ! nat (to_idx A n) = n"
  by (rule numbers_cases [of A ids n]) auto

text \<open>Every edge of a node ends at a node.\<close>

definition no_dangling :: "dgraph \<Rightarrow> bool" where
  "no_dangling g \<longleftrightarrow> (\<forall>u \<in> dom (dg_meta g). \<forall>e \<in> set (dg_neighbors g u). ed_to e \<in> dom (dg_meta g))"

lemma no_dangling_edge:
  assumes "no_dangling g" "finite (dom (dg_meta g))" "k < length (sorted_list_of_set (dom (dg_meta g)))"
    "e \<in> set (dg_neighbors g (sorted_list_of_set (dom (dg_meta g)) ! k))"
  shows "ed_to e \<in> set (sorted_list_of_set (dom (dg_meta g)))"
proof -
  have "sorted_list_of_set (dom (dg_meta g)) ! k \<in> dom (dg_meta g)"
    using assms(2,3) by (metis nth_mem set_sorted_list_of_set)
  then show ?thesis using assms(1,2,4) by (auto simp: no_dangling_def)
qed

lemma csr_ends_ids:
  assumes "csr_of bytes (dg_meta g) (dg_neighbors g) c" "no_dangling g" "finite (dom (dg_meta g))"
    "0 \<le> i" "i < cs_node_count c"
  shows "rel_succs g [] (cs_idx_to_id c ! nat i) = map (\<lambda>j. cs_idx_to_id c ! nat j) (csr_ends c i)"
proof -
  let ?ids = "sorted_list_of_set (dom (dg_meta g))" and ?A = "cs_id_to_idx c"
  have c: "cs_node_count c = int (length ?ids)" "cs_idx_to_id c = ?ids" "numbers ?A ?ids"
    "\<forall>i < length ?ids. csr_slots c i = filled ?A (dg_neighbors g (?ids ! i))"
    using assms(1) by (simp_all add: csr_of_def Let_def)
  have len: "nat i < length ?ids" using assms(4,5) c(1) by linarith
  then have node: "?ids ! nat i \<in> dom (dg_meta g)" using assms(3) by (metis nth_mem set_sorted_list_of_set)
  let ?es = "dg_neighbors g (?ids ! nat i)"
  have idx: "0 \<le> to_idx ?A (ed_to e) \<and> ?ids ! nat (to_idx ?A (ed_to e)) = ed_to e" if "e \<in> set ?es" for e
    using numbers_node [OF c(3)] no_dangling_edge [OF assms(2,3) len that] by blast
  then have "filter (\<lambda>e. 0 \<le> to_idx ?A (ed_to e)) ?es = ?es" by (auto simp: filter_id_conv)
  then have "csr_ends c i = map (\<lambda>e. to_idx ?A (ed_to e)) ?es"
    using c(4) len assms(4,5) by (simp add: csr_ends_def filled_def slots_of_def slot_of_def)
  then show ?thesis using idx c(2) by (simp add: rel_succs_all)
qed

lemma no_dangling_closed:
  assumes "no_dangling g" "source \<in> dom (dg_meta g)" "target \<in> reachable (rel_succs g []) source"
  shows "target \<in> dom (dg_meta g)"
  using assms(3) unfolding reachable_def mem_Collect_eq
proof (induction rule: rtrancl_induct)
  case (step y z)
  then show ?case using assms(1) by (auto simp: edge_rel_def rel_succs_all no_dangling_def)
qed (rule assms(2))

text \<open>For two nodes, searching from index to index is searching from id to id.\<close>

lemma csr_same_search:
  assumes c: "csr_of bytes (dg_meta g) (dg_neighbors g) c" "no_dangling g" "finite (dom (dg_meta g))"
    and nodes: "source \<in> dom (dg_meta g)" "target \<in> dom (dg_meta g)"
  defines "S \<equiv> csr_ends c" and "T \<equiv> rel_succs g []" and "A \<equiv> {0 ..< cs_node_count c}"
    and "src \<equiv> to_idx (cs_id_to_idx c) source" and "dst \<equiv> to_idx (cs_id_to_idx c) target"
  shows "src \<in> A" "dst \<in> A" "cs_idx_to_id c ! nat src = source" "cs_idx_to_id c ! nat dst = target"
    "hop_dist T source target d \<longleftrightarrow> hop_dist S src dst d" "target \<in> reachable T source \<longleftrightarrow> dst \<in> reachable S src"
    "walk S vs \<Longrightarrow> set vs \<subseteq> A \<Longrightarrow> walk T (node_ids c vs)"
proof -
  let ?ids = "sorted_list_of_set (dom (dg_meta g))" and ?f = "\<lambda>i. cs_idx_to_id c ! nat i"
  have facts: "cs_node_count c = int (length ?ids)" "cs_idx_to_id c = ?ids" "numbers (cs_id_to_idx c) ?ids"
    using c(1) by (simp_all add: csr_of_def Let_def)
  have shape: "csr_shape c (length ?ids)" using csr_of_shape [OF c(1)] by simp
  show ends: "src \<in> A" "dst \<in> A" "?f src = source" "?f dst = target"
    using numbers_node [OF facts(3)] nodes c(3) facts(1,2) by (auto simp: src_def dst_def A_def)
  have succs: "T (?f i) = map ?f (S i)" "set (S i) \<subseteq> A" if "i \<in> A" for i
    using csr_ends_ids [OF c] csr_ends_range [OF shape, of i] that facts(1) by (auto simp: S_def T_def A_def)
  have inj: "inj_on ?f A"
    using facts by (auto simp: inj_on_def numbers_def nth_eq_iff_index_eq nat_less_iff A_def)
  show "hop_dist T source target d \<longleftrightarrow> hop_dist S src dst d" "target \<in> reachable T source \<longleftrightarrow> dst \<in> reachable S src"
    using hop_dist_map [where f = ?f and T = T and S = S, OF succs inj ends(1,2)] unfolding ends(3,4) by simp_all
  show "walk S vs \<Longrightarrow> set vs \<subseteq> A \<Longrightarrow> walk T (node_ids c vs)"
    unfolding node_ids_def by (rule walk_map [where f = ?f and T = T and S = S, OF succs(1)])
qed

definition shortest_ids :: "dgraph \<Rightarrow> int \<Rightarrow> int \<Rightarrow> int list \<Rightarrow> bool" where
  "shortest_ids g source target ns \<longleftrightarrow>
     (if source \<in> dom (dg_meta g) \<and> target \<in> reachable (rel_succs g []) source
      then \<exists>d. hop_dist (rel_succs g []) source target d \<and> walk (rel_succs g []) ns \<and>
        hd ns = source \<and> last ns = target \<and> length ns = Suc d
      else ns = [])"

lemma bfs_csr_ok:
  assumes c: "csr_of bytes (dg_meta g) (dg_neighbors g) c" "no_dangling g" and fin: "finite (dom (dg_meta g))"
  shows "\<exists>p. bfs_path_csr c source target = Some (Inr p) \<and> shortest_ids g source target (pr_nodes p)"
proof -
  let ?g = "rel_succs g []"
  let ?src = "to_idx (cs_id_to_idx c) source" and ?dst = "to_idx (cs_id_to_idx c) target"
  have num: "numbers (cs_id_to_idx c) (sorted_list_of_set (dom (dg_meta g)))" using c(1) by (simp add: csr_of_def Let_def)
  consider (none) "source \<notin> dom (dg_meta g) \<or> target \<notin> dom (dg_meta g)" | (same) "source \<in> dom (dg_meta g)" "source = target"
    | (search) "source \<in> dom (dg_meta g)" "target \<in> dom (dg_meta g)" "source \<noteq> target" by blast
  then show ?thesis
  proof cases
    case none
    then have "bfs_path_csr c source target = Some (Inr no_path)"
      using numbers_iff [OF num] fin by (auto simp: bfs_path_csr_def Let_def not_le [symmetric])
    then show ?thesis using none no_dangling_closed [OF c(2)] by (auto simp: shortest_ids_def no_path_def)
  next
    case same
    then have "bfs_path_csr c source target = Some (Inr \<lparr>pr_nodes = [source], pr_rels = []\<rparr>)"
      using numbers_iff [OF num, of source] fin by (auto simp: bfs_path_csr_def Let_def)
    then show ?thesis using same hop_dist_self [of ?g source] by (auto simp: shortest_ids_def reachable_def)
  next
    case search
    note s = csr_same_search [OF c fin search(1,2)]
    have "?dst \<noteq> ?src" using s(3,4) search(3) by metis
    moreover have "cs_node_count c = int (card (dom (dg_meta g)))" using c(1) by (simp add: csr_of_def Let_def)
    ultimately obtain p where p: "bfs_path_csr c source target = Some (Inr p)" "csr_answer c ?src ?dst p"
      using bfs_path_csr_ok [OF csr_of_shape [OF c(1)], of source ?src target ?dst] s(1,2) by auto
    have "\<exists>d. hop_dist ?g source target d \<and> walk ?g (pr_nodes p) \<and> hd (pr_nodes p) = source \<and>
        last (pr_nodes p) = target \<and> length (pr_nodes p) = Suc d" if reach: "target \<in> reachable ?g source"
    proof -
      obtain vs d where vs: "walk (csr_ends c) vs" "hd vs = ?src" "last vs = ?dst" "length vs = Suc d"
        "hop_dist (csr_ends c) ?src ?dst d" "set vs \<subseteq> {0 ..< cs_node_count c}" "pr_nodes p = node_ids c vs"
        using p(2) reach s(6) by (auto simp: csr_answer_def)
      moreover have "vs \<noteq> []" using vs(4) by auto
      ultimately show ?thesis
        using s(3,4) s(5) [of d] s(7) [of vs] by (auto simp: node_ids_def hd_map last_map)
    qed
    moreover have "pr_nodes p = []" if "target \<notin> reachable ?g source"
      using p(2) that s(6) by (simp add: csr_answer_def no_path_def)
    ultimately show ?thesis using p(1) search(1) by (auto simp: shortest_ids_def)
  qed
qed

section \<open>Properties\<close>

text \<open>
  C19. The breadth first search on the compressed graph finds shortest paths of the graph: built from a
  graph with readable labels, ids from 0 to below the greatest \<^verbatim>\<open>int\<close> and edges that end at nodes, it returns without an access out of bounds, for any two ids, with the
  ids of a walk of fewest hops if the first is a node from which the second can be reached, and with
  no path otherwise.
\<close>

theorem bfs_csr_shortest:
  assumes "map_of metas = dg_meta g" "distinct (map fst metas)" "map_of adj = dg_adj g" "distinct (map fst adj)"
    "\<forall>n \<in> dom (dg_meta g). 0 \<le> n \<and> n < 2 ^ 31 - 1"
    "\<forall>m \<in> ran (dg_meta g). Option.bind (nm_label m) (read_cstr bytes) \<noteq> None" "no_dangling g"
  shows "\<exists>c p. build_csr bytes metas adj = Inr c \<and> bfs_path_csr c source target = Some (Inr p) \<and>
    (if source \<in> dom (dg_meta g) \<and> target \<in> reachable (rel_succs g []) source
     then \<exists>d. hop_dist (rel_succs g []) source target d \<and> walk (rel_succs g []) (pr_nodes p) \<and>
       hd (pr_nodes p) = source \<and> last (pr_nodes p) = target \<and> length (pr_nodes p) = Suc d
     else pr_nodes p = [])"
proof -
  obtain c where c: "build_csr bytes metas adj = Inr c" "csr_of bytes (dg_meta g) (dg_neighbors g) c"
    using build_csr_ok [OF assms(1,2,4) _ assms(5,6), of "dg_neighbors g"] assms(3) by (auto simp: dg_neighbors_def)
  have "finite (dom (dg_meta g))" using finite_dom_map_of [of metas] assms(1) by simp
  from bfs_csr_ok [OF c(2) assms(7) this] c(1) show ?thesis by (auto simp: shortest_ids_def)
qed

theorem bfs_csr_shortest_witness:
  "\<exists>c p. build_csr (\<lambda>_. CHR 0x00) [(5, \<lparr>nm_label = Some 0, nm_props = []\<rparr>), (2, \<lparr>nm_label = Some 0, nm_props = []\<rparr>)]
      [(5, [\<lparr>ed_to = 2, ed_rel = ''r'', ed_weight = f32_one\<rparr>])] = Inr c \<and>
    bfs_path_csr c 5 2 = Some (Inr p) \<and> hd (pr_nodes p) = 5 \<and> last (pr_nodes p) = 2"
proof -
  let ?ms = "[(5::int, \<lparr>nm_label = Some (0::u64), nm_props = []\<rparr>), (2, \<lparr>nm_label = Some 0, nm_props = []\<rparr>)]"
  let ?adj = "[(5::int, [\<lparr>ed_to = 2, ed_rel = ''r'', ed_weight = f32_one\<rparr>])]"
  let ?g = "dg_new\<lparr>dg_meta := map_of ?ms, dg_adj := map_of ?adj\<rparr>" and ?b = "\<lambda>_ :: u64. CHR 0x00"
  have "read_cstr ?b p = Some []" for p by (subst read_cstr.simps) simp
  then have labels: "\<forall>m \<in> ran (dg_meta ?g). Option.bind (nm_label m) (read_cstr ?b) \<noteq> None"
    by (auto simp: ran_def split: if_splits)
  have "no_dangling ?g" by (auto simp: no_dangling_def dg_neighbors_def split: if_splits)
  moreover have "2 \<in> reachable (rel_succs ?g []) 5"
    by (auto simp: reachable_def edge_rel_def rel_succs_all dg_neighbors_def intro!: r_into_rtrancl)
  ultimately show ?thesis
    using bfs_csr_shortest [of ?ms ?g ?adj ?b 5 2] labels by auto
qed

end
