(* ===== verification/CSR_Dijkstra.thy ===== *)
theory CSR_Dijkstra
  imports CSR_Search Dijkstra_Properties
begin

text \<open>
  The weighted search on the compressed graph as a client of the laws of \<open>Shortest_Path\<close>: its costs are
  those below infinity, which stands for a node not yet found, and its array of visited nodes drops the
  outdated entries of the queue.
\<close>

section \<open>The compressed graph as a graph on indices\<close>

fun slot_edge :: "slot \<Rightarrow> edge" where
  "slot_edge (t, w, r) = \<lparr>ed_to = t, ed_rel = r, ed_weight = w\<rparr>"

definition csr_dgraph :: "csr_graph \<Rightarrow> dgraph" where
  "csr_dgraph c = dg_new\<lparr>dg_adj := (\<lambda>i. if 0 \<le> i \<and> i < cs_node_count c
     then Some (map slot_edge (csr_slots c (nat i))) else None)\<rparr>"

lemma slot_edge_simps [simp]: "ed_to (slot_edge x) = fst x" "ed_weight (slot_edge x) = fst (snd x)"
  by (cases x; simp)+

lemma csr_neighbors:
  "dg_neighbors (csr_dgraph c) i = (if 0 \<le> i \<and> i < cs_node_count c then map slot_edge (csr_slots c (nat i)) else [])"
  by (simp add: dg_neighbors_def csr_dgraph_def)

lemma csr_ends_neighbors: "map ed_to (dg_neighbors (csr_dgraph c) i) = csr_ends c i"
  by (simp add: csr_neighbors csr_ends_def comp_def)

definition inf_mag :: nat where
  "inf_mag = cost_mag (F32_Inf False)"

lemma below_inf: "cost_mag c < inf_mag \<Longrightarrow> \<not> is_inf c"
  by (auto simp: inf_mag_def is_inf_def)

interpretation finite_costs: cheapest_first "cheap_edges g rel" ed_to add_edge_cost cost_mag dist_ok f32_zero s inf_mag
  for g rel s
  by unfold_locales
    (use cheap.zero cheap.ext_good cheap.ext_mono cheap.ext_up dist_ok_inj in \<open>auto simp: inf_mag_def simp del: cost_zero\<close>)

text \<open>An entry of a settled node can go, whatever its cost.\<close>

lemma settled_entry:
  assumes "finite_costs.search_inv g rel s D pq X" "u \<in> X"
  shows "finite_costs.search_inv g rel s D (remove1 (c, u) pq) X"
proof -
  have "(d, v) \<in> set (remove1 (c, u) pq)" if "(d, v) \<in> set pq" "v \<notin> X" for d v
    using that assms(2) by (metis in_set_remove1 prod.inject)
  then show ?thesis
    using assms(1) set_remove1_subset [of "(c, u)" pq]
    unfolding finite_costs.search_inv_def finite_costs.queued_def by blast
qed

section \<open>Arrays as maps\<close>

definition found_map :: "nat \<Rightarrow> f32 list \<Rightarrow> int \<rightharpoonup> f32" where
  "found_map n d v = (if 0 \<le> v \<and> v < int n \<and> \<not> is_inf (d ! nat v) then Some (d ! nat v) else None)"

definition par_map :: "nat \<Rightarrow> int list \<Rightarrow> int \<rightharpoonup> int" where
  "par_map n p v = (if 0 \<le> v \<and> v < int n then Some (p ! nat v) else None)"

lemma array_update:
  assumes "length xs = n" "0 \<le> v" "v < int n" "0 \<le> w" "w < int n"
  shows "xs[nat v := x] ! nat w = (if w = v then x else xs ! nat w)"
  using assms by (simp add: nth_list_update eq_nat_nat_iff)

lemma found_map_put:
  "length d = n \<Longrightarrow> 0 \<le> v \<Longrightarrow> v < int n \<Longrightarrow> \<not> is_inf x \<Longrightarrow> found_map n (d[nat v := x]) = (found_map n d)(v \<mapsto> x)"
  by (auto simp: found_map_def fun_eq_iff array_update split: if_splits)

lemma par_map_put: "length p = n \<Longrightarrow> 0 \<le> v \<Longrightarrow> v < int n \<Longrightarrow> par_map n (p[nat v := x]) = (par_map n p)(v \<mapsto> x)"
  by (auto simp: par_map_def fun_eq_iff array_update)

abbreviation csr_state :: "nat \<Rightarrow> csr_dijkstra \<Rightarrow> (int \<rightharpoonup> string) \<Rightarrow> wp_state" where
  "csr_state n st via \<equiv> \<lparr>ws_dist = found_map n (cd_dist st), ws_parent = par_map n (cd_parent st), ws_via = via, ws_pq = cd_pq st\<rparr>"

definition csr_sized :: "nat \<Rightarrow> csr_dijkstra \<Rightarrow> bool" where
  "csr_sized n st \<longleftrightarrow> length (cd_dist st) = n \<and> length (cd_parent st) = n \<and> length (cd_visited st) = n"

lemma less_inf: "dist_ok c \<Longrightarrow> f32_less c (F32_Inf False) \<longleftrightarrow> cost_mag c < inf_mag"
  unfolding inf_mag_def by (rule cost_less) (simp_all add: dist_ok_cost)

text \<open>The test of the program against the laws: infinity is above every cost that was found.\<close>

lemma dist_less:
  assumes "finite_costs.found g [] s (found_map n d)" "dist_ok c" "0 \<le> v" "v < int n"
  shows "f32_less c (d ! nat v) \<longleftrightarrow> cost_mag c < inf_mag \<and>
    (found_map n d v = None \<or> cost_mag c < cost_mag (the (found_map n d v)))"
proof (cases "is_inf (d ! nat v)")
  case True
  then have "d ! nat v = F32_Inf False" "found_map n d v = None" by (simp_all add: is_inf_def found_map_def)
  then show ?thesis by (simp only: less_inf [OF assms(2)]) simp
next
  case False
  then have "found_map n d v = Some (d ! nat v)" using assms(3,4) by (simp add: found_map_def)
  from finite_costs.foundD [OF assms(1) this] this show ?thesis
    using assms(2) by (auto simp: cost_less dist_ok_cost)
qed

section \<open>Scanning the slots of a node\<close>

text \<open>What a discovery lowers: the potential of the indices and the length of the queue.\<close>

definition csr_measure :: "nat \<Rightarrow> csr_dijkstra \<Rightarrow> nat" where
  "csr_measure n st = finite_costs.potential {0 ..< int n} (found_map n (cd_dist st)) + length (cd_pq st)"

lemma csr_relax_ok:
  assumes "finite_costs.scan_inv g [] s (found_map n (cd_dist st)) (cd_pq st) X u es"
    "weigh_ok g [] s (csr_state n st via) X" "found_map n (cd_dist st) u = Some cost" "csr_sized n st"
    "\<forall>k < length es. vec_get (cs_targets c) (e + int k) = Inr (ed_to (es ! k)) \<and>
       vec_get (cs_weights c) (e + int k) = Inr (ed_weight (es ! k))"
    "\<forall>x \<in> set es. 0 \<le> ed_to x \<and> ed_to x < int n \<and> cost_ok (ed_weight x) \<and> x \<in> set (dg_neighbors g u)"
  shows "\<exists>st' via'. csr_relax c cost u e (e + int (length es)) st = Inr st' \<and> csr_sized n st' \<and>
    cd_visited st' = cd_visited st \<and> finite_costs.scan_inv g [] s (found_map n (cd_dist st')) (cd_pq st') X u [] \<and>
    weigh_ok g [] s (csr_state n st' via') X \<and>
    csr_measure n st' \<le> csr_measure n st"
  using assms
proof (induction es arbitrary: st via e)
  case Nil
  have "csr_relax c cost u e e st = Inr st" by (subst csr_relax.simps) simp
  then show ?case using Nil by (intro exI [of _ st] exI [of _ via]) simp
next
  case (Cons x es)
  let ?t = "ed_to x" and ?nc = "f32_add cost (ed_weight x)" and ?D = "found_map n (cd_dist st)"
  have x: "0 \<le> ?t" "?t < int n" "cost_ok (ed_weight x)" "x \<in> set (dg_neighbors g u)" using Cons.prems(6) by auto
  have get: "vec_get (cs_targets c) e = Inr ?t" "vec_get (cs_weights c) e = Inr (ed_weight x)"
    using spec [OF Cons.prems(5), of 0] by simp_all
  have later: "\<forall>k < length es. vec_get (cs_targets c) (e + 1 + int k) = Inr (ed_to (es ! k)) \<and>
      vec_get (cs_weights c) (e + 1 + int k) = Inr (ed_weight (es ! k))"
    using Cons.prems(5) by (fastforce simp: algebra_simps)
  have es: "\<forall>x \<in> set es. 0 \<le> ed_to x \<and> ed_to x < int n \<and> cost_ok (ed_weight x) \<and> x \<in> set (dg_neighbors g u)"
    using Cons.prems(6) by simp
  have stop: "e + int (length (x # es)) = e + 1 + int (length es)" by simp
  have f: "finite_costs.found g [] s ?D" and u: "u \<in> X" using Cons.prems(1) by (simp_all add: finite_costs.scan_inv_def)
  have good: "dist_ok ?nc" using finite_costs.foundD [OF f Cons.prems(3)] x(3) by (simp add: dist_ok_add)
  note less = dist_less [OF f good x(1,2)]
  have nc: "?nc = add_edge_cost cost x" by (simp add: add_edge_cost_def)
  have old: "vec_get (cd_dist st) ?t = Inr (cd_dist st ! nat ?t)"
    using Cons.prems(4) x by (simp add: vec_get_def csr_sized_def)
  show ?case
  proof (cases "f32_less ?nc (cd_dist st ! nat ?t)")
    case False
    have "inf_mag \<le> cost_mag ?nc \<or> (\<exists>d. ?D ?t = Some d \<and> \<not> cost_mag ?nc < cost_mag d)"
      using False less by (cases "?D ?t") auto
    from finite_costs.relax_keep [OF Cons.prems(1,3) this [unfolded nc]]
    have sc: "finite_costs.scan_inv g [] s ?D (cd_pq st) X u es" .
    have "csr_relax c cost u e (e + int (length (x # es))) st = csr_relax c cost u (e + 1) (e + int (length (x # es))) st"
      using get old False by (subst csr_relax.simps) (simp add: Let_def)
    then show ?thesis unfolding stop using Cons.IH [OF sc Cons.prems(2-4) later es] by simp
  next
    case True
    then have lt: "cost_mag ?nc < inf_mag" "?D ?t = None \<or> cost_mag ?nc < cost_mag (the (?D ?t))" using less by auto
    note rs = finite_costs.relax_set [OF Cons.prems(1,3) lt [unfolded nc], folded nc]
    have ni: "\<not> is_inf ?nc" by (rule below_inf [OF lt(1)])
    let ?st = "st\<lparr>cd_dist := (cd_dist st)[nat ?t := ?nc], cd_parent := (cd_parent st)[nat ?t := u],
      cd_pq := cd_pq st @ [(?nc, ?t)]\<rparr>" and ?via = "via(?t \<mapsto> ed_rel x)"
    have len: "length (cd_dist st) = n" "length (cd_parent st) = n" using Cons.prems(4) by (simp_all add: csr_sized_def)
    have D: "found_map n (cd_dist ?st) = ?D(?t \<mapsto> ?nc)" "par_map n (cd_parent ?st) = (par_map n (cd_parent st))(?t \<mapsto> u)"
      using found_map_put [OF len(1) x(1,2) ni] par_map_put [OF len(2) x(1,2)] by simp_all
    have sc: "finite_costs.scan_inv g [] s (found_map n (cd_dist ?st)) (cd_pq ?st) X u es" using rs(4) D by simp
    have ok: "weigh_ok g [] s (csr_state n ?st ?via) X"
      using weigh_step [OF Cons.prems(2) _ u rs(1) x(4), of cost "cd_pq ?st"] Cons.prems(3) D by simp
    have "u \<noteq> ?t" using rs(1) u by blast
    then have du: "found_map n (cd_dist ?st) u = Some cost" using D Cons.prems(3) by simp
    have sized: "csr_sized n ?st" using Cons.prems(4) by (simp add: csr_sized_def)
    have "Suc (finite_costs.potential {0 ..< int n} (?D(?t \<mapsto> ?nc))) \<le> finite_costs.potential {0 ..< int n} ?D"
      by (rule finite_costs.potential_set) (use x lt in auto)
    then have measure: "csr_measure n ?st \<le> csr_measure n st" by (simp add: csr_measure_def D(1) [simplified])
    moreover have "csr_relax c cost u e (e + int (length (x # es))) st = csr_relax c cost u (e + 1) (e + int (length (x # es))) ?st"
      using get old True len x by (subst csr_relax.simps) (simp add: Let_def vec_put_def)
    moreover obtain st' via' where "csr_relax c cost u (e + 1) (e + 1 + int (length es)) ?st = Inr st'" "csr_sized n st'"
      "cd_visited st' = cd_visited ?st" "finite_costs.scan_inv g [] s (found_map n (cd_dist st')) (cd_pq st') X u []"
      "weigh_ok g [] s (csr_state n st' via') X" "csr_measure n st' \<le> csr_measure n ?st"
      using Cons.IH [OF sc ok du sized later es] by blast
    ultimately show ?thesis
      unfolding stop by (intro exI [of _ st'] exI [of _ via']) simp
  qed
qed

section \<open>The search\<close>

definition csr_dij_inv :: "dgraph \<Rightarrow> nat \<Rightarrow> int \<Rightarrow> csr_dijkstra \<Rightarrow> int set \<Rightarrow> bool" where
  "csr_dij_inv g n s st X \<longleftrightarrow> csr_sized n st \<and> finite_costs.search_inv g [] s (found_map n (cd_dist st)) (cd_pq st) X \<and>
     (\<exists>via. weigh_ok g [] s (csr_state n st via) X) \<and> (\<forall>v \<in> {0 ..< int n}. cd_visited st ! nat v \<longleftrightarrow> v \<in> X)"

text \<open>The head of the queue: an index, at a cost no greater than any other entry's.\<close>

lemma csr_pop:
  assumes inv: "csr_dij_inv g n s st X" and pop: "pq_pop (cd_pq st) = Some ((cost, u), pq')"
  shows "(cost, u) \<in> set (cd_pq st)" "\<forall>y \<in> set (cd_pq st). cost_mag cost \<le> cost_mag (fst y)" "pq' = remove1 (cost, u) (cd_pq st)"
    "0 \<le> u" "u < int n" "csr_measure n (st\<lparr>cd_pq := pq'\<rparr>) < csr_measure n st"
    "u \<notin> X \<Longrightarrow> found_map n (cd_dist st) u = Some cost"
proof -
  have si: "finite_costs.search_inv g [] s (found_map n (cd_dist st)) (cd_pq st) X"
    using inv by (simp add: csr_dij_inv_def)
  then have q: "finite_costs.queued (found_map n (cd_dist st)) (cd_pq st) X"
    and f: "finite_costs.found g [] s (found_map n (cd_dist st))"
    by (simp_all add: finite_costs.search_inv_def)
  have "\<forall>y \<in> set (cd_pq st). cost_ok (fst y)" using finite_costs.queuedD(1) [OF q] dist_ok_cost by fastforce
  note p = pq_popD [OF pop this]
  then show head: "(cost, u) \<in> set (cd_pq st)" "\<forall>y \<in> set (cd_pq st). cost_mag cost \<le> cost_mag (fst y)"
    "pq' = remove1 (cost, u) (cd_pq st)" by blast+
  obtain d where d: "found_map n (cd_dist st) u = Some d"
    using finite_costs.queuedD(1) [OF q p(1)] by blast
  then show "0 \<le> u" "u < int n" by (simp_all add: found_map_def split: if_splits)
  show "csr_measure n (st\<lparr>cd_pq := pq'\<rparr>) < csr_measure n st" using p(4) by (simp add: csr_measure_def)
  show "found_map n (cd_dist st) u = Some cost" if "u \<notin> X"
    using finite_costs.optimal_min(1) [OF si head(1,2) that] finite_costs.foundD [OF f d] by blast
qed

lemma csr_drop:
  assumes "csr_dij_inv g n s st X" "u \<in> X"
  shows "csr_dij_inv g n s (st\<lparr>cd_pq := remove1 (cost, u) (cd_pq st)\<rparr>) X"
  using assms settled_entry [of g "[]" s "found_map n (cd_dist st)" "cd_pq st" X u cost]
  by (simp add: csr_dij_inv_def csr_sized_def weigh_ok_def)

lemma csr_expand:
  assumes inv: "csr_dij_inv (csr_dgraph c) n s st X" and pop: "pq_pop (cd_pq st) = Some ((cost, u), pq')" and u: "u \<notin> X"
    and shape: "csr_shape c n" and weights: "weights_ok (csr_dgraph c)"
  defines "st1 \<equiv> st\<lparr>cd_visited := (cd_visited st)[nat u := True], cd_pq := pq'\<rparr>"
  shows "\<exists>b e st2. vec_put (cd_visited st) u True = Inr ((cd_visited st)[nat u := True]) \<and> neighbor_range c u = Inr (b, e) \<and>
    csr_relax c cost u b e st1 = Inr st2 \<and> csr_dij_inv (csr_dgraph c) n s st2 (insert u X) \<and>
    csr_measure n st2 < csr_measure n st"
proof -
  let ?g = "csr_dgraph c" and ?D = "found_map n (cd_dist st)"
  note p = csr_pop [OF inv pop]
  have du: "?D u = Some cost" by (rule p(7) [OF u])
  have n: "cs_node_count c = int n" using shape by (simp add: csr_shape_def)
  obtain i where i: "u = int i" "i < n" using p(4,5) by (metis nonneg_int_cases of_nat_less_iff)
  let ?es = "dg_neighbors ?g u"
  have es: "?es = map slot_edge (csr_slots c i)" using i n by (simp add: csr_neighbors)
  have filter: "filter (\<lambda>e. admits [] e \<and> cost_ok (ed_weight e)) ?es = ?es"
    using weights by (auto simp: filter_id_conv weights_ok_def)
  have si: "finite_costs.search_inv ?g [] s ?D (cd_pq st) X" using inv by (simp add: csr_dij_inv_def)
  have "\<not> cost_mag (the (?D u)) < cost_mag cost" using du by simp
  from finite_costs.take(2) [OF si p(1,2) this]
  have scan: "finite_costs.scan_inv ?g [] s (found_map n (cd_dist st1)) (cd_pq st1) (insert u X) u ?es"
    using filter p(3) by (simp add: st1_def cheap_edges_def)
  obtain via where "weigh_ok ?g [] s (csr_state n st via) X" using inv unfolding csr_dij_inv_def by blast
  then have "weigh_ok ?g [] s (csr_state n st via) (insert u X)" by (rule weigh_ok_mono) blast
  then have via: "weigh_ok ?g [] s (csr_state n st1 via) (insert u X)" by (simp add: weigh_ok_def st1_def)
  have sized: "csr_sized n st1" using inv by (simp add: csr_dij_inv_def csr_sized_def st1_def)
  note acc = slot_access [OF shape i(2)]
  let ?b = "cs_offsets c ! i"
  have access: "\<forall>k < length ?es. vec_get (cs_targets c) (?b + int k) = Inr (ed_to (?es ! k)) \<and>
      vec_get (cs_weights c) (?b + int k) = Inr (ed_weight (?es ! k))"
    using acc(4) by (simp add: es)
  have ends: "\<forall>x \<in> set ?es. 0 \<le> ed_to x \<and> ed_to x < int n \<and> cost_ok (ed_weight x) \<and> x \<in> set ?es"
  proof
    fix x assume x: "x \<in> set ?es"
    then have "ed_to x \<in> set (csr_ends c u)" unfolding csr_ends_neighbors [symmetric] by simp
    then have "ed_to x \<in> {0 ..< int n}" using csr_ends_range [OF shape] by blast
    with x weights show "0 \<le> ed_to x \<and> ed_to x < int n \<and> cost_ok (ed_weight x) \<and> x \<in> set ?es"
      by (simp add: weights_ok_def)
  qed
  obtain st2 via' where st2: "csr_relax c cost u ?b (?b + int (length ?es)) st1 = Inr st2" "csr_sized n st2"
    "cd_visited st2 = cd_visited st1" "finite_costs.scan_inv ?g [] s (found_map n (cd_dist st2)) (cd_pq st2) (insert u X) u []"
    "weigh_ok ?g [] s (csr_state n st2 via') (insert u X)" "csr_measure n st2 \<le> csr_measure n st1"
    using csr_relax_ok [OF scan via _ sized access ends, of cost] du by (auto simp: st1_def)
  have vis: "length (cd_visited st) = n" using inv by (simp add: csr_dij_inv_def csr_sized_def)
  have "cd_visited st2 ! nat v \<longleftrightarrow> v \<in> insert u X" if "v \<in> {0 ..< int n}" for v
    using inv that p(4,5) st2(3) vis by (simp add: csr_dij_inv_def st1_def array_update)
  then have "csr_dij_inv ?g n s st2 (insert u X)"
    using st2(2,5) finite_costs.finish [OF st2(4)] unfolding csr_dij_inv_def by blast
  moreover have "csr_measure n st2 < csr_measure n st"
    using st2(6) p(6) by (simp add: csr_measure_def st1_def)
  moreover have "neighbor_range c u = Inr (?b, ?b + int (length ?es))" using acc(1,2) es by (simp add: i(1))
  ultimately show ?thesis using st2(1) vis p(4,5) by (simp add: vec_put_def)
qed

definition csr_settled :: "csr_graph \<Rightarrow> nat \<Rightarrow> int \<Rightarrow> int \<Rightarrow> csr_dijkstra \<Rightarrow> bool" where
  "csr_settled c n s dst st \<longleftrightarrow> csr_sized n st \<and>
     (case found_map n (cd_dist st) dst of
        None \<Rightarrow> \<forall>k. costs (csr_dgraph c) [] s dst k \<longrightarrow> inf_mag \<le> cost_mag k
      | Some k \<Rightarrow> cost_mag k < inf_mag \<and> (\<exists>via X ns rs. trail (csr_dgraph c) [] s (par_map n (cd_parent st)) via X dst ns rs k) \<and>
          (\<forall>k'. costs (csr_dgraph c) [] s dst k' \<longrightarrow> \<not> f32_less k' k))"

lemma csr_settled_head:
  assumes inv: "csr_dij_inv (csr_dgraph c) n s st X" and pop: "pq_pop (cd_pq st) = Some ((cost, dst), pq')" and "dst \<notin> X"
  shows "csr_settled c n s dst (st\<lparr>cd_pq := pq'\<rparr>)"
proof -
  let ?g = "csr_dgraph c" and ?D = "found_map n (cd_dist st)"
  note p = csr_pop [OF inv pop]
  have d: "?D dst = Some cost" by (rule p(7) [OF assms(3)])
  have si: "finite_costs.search_inv ?g [] s ?D (cd_pq st) X" using inv by (simp add: csr_dij_inv_def)
  then have f: "dist_ok cost" "cost_mag cost < inf_mag"
    using finite_costs.foundD d by (auto simp: finite_costs.search_inv_def)
  have "\<not> f32_less k cost" if k: "costs ?g [] s dst k" for k
  proof -
    have "dist_ok k" using finite_costs.bounded [OF si, of 0] k by simp
    moreover have "cost_mag cost \<le> cost_mag k"
      using finite_costs.optimal_min(2) [OF si p(1,2) assms(3) k] f(2) by linarith
    ultimately show ?thesis using f(1) by (simp add: cost_less dist_ok_cost)
  qed
  moreover obtain via where "weigh_ok ?g [] s (csr_state n st via) X" using inv unfolding csr_dij_inv_def by blast
  then obtain ns rs where "trail ?g [] s (par_map n (cd_parent st)) via X dst ns rs cost"
    using d by (auto elim: weigh_okD [where v = dst and c = cost])
  ultimately show ?thesis using inv d f(2) by (auto simp: csr_settled_def csr_dij_inv_def csr_sized_def)
qed

lemma csr_dijkstra_loop_ok:
  assumes shape: "csr_shape c n" and weights: "weights_ok (csr_dgraph c)"
    and "csr_dij_inv (csr_dgraph c) n s st X" "dst \<notin> X"
  shows "\<exists>st'. csr_dijkstra_loop c dst st = Some (Inr st') \<and> csr_settled c n s dst st'"
  using assms(3,4)
proof (induction "csr_measure n st" arbitrary: st X rule: less_induct)
  case less
  let ?g = "csr_dgraph c"
  note inv = less.prems(1)
  have si: "finite_costs.search_inv ?g [] s (found_map n (cd_dist st)) (cd_pq st) X" using inv by (simp add: csr_dij_inv_def)
  show ?case
  proof (cases "pq_pop (cd_pq st)")
    case None
    then have e: "cd_pq st = []" by (simp add: pq_pop_None)
    have "finite_costs.queued (found_map n (cd_dist st)) (cd_pq st) X" using si by (simp add: finite_costs.search_inv_def)
    then have none: "found_map n (cd_dist st) dst = None"
      using finite_costs.queuedD(3) less.prems(2) e by (cases "found_map n (cd_dist st) dst") fastforce+
    moreover have "inf_mag \<le> cost_mag k" if "costs ?g [] s dst k" for k
      using finite_costs.optimal_end [OF si [unfolded e] that] none by (auto simp: not_less [symmetric])
    ultimately have "csr_settled c n s dst st" using inv by (simp add: csr_settled_def csr_dij_inv_def)
    then show ?thesis using None by (subst csr_dijkstra_loop.simps) simp
  next
    case (Some y)
    then obtain cost u pq' where pop: "pq_pop (cd_pq st) = Some ((cost, u), pq')" by (metis prod.collapse)
    note p = csr_pop [OF inv pop]
    have seen: "vec_get (cd_visited st) u = Inr (u \<in> X)"
      using inv p(4,5) by (simp add: csr_dij_inv_def csr_sized_def vec_get_def)
    show ?thesis
    proof (cases "u = dst")
      case True
      then have "csr_dijkstra_loop c dst st = Some (Inr (st\<lparr>cd_pq := pq'\<rparr>))"
        by (subst csr_dijkstra_loop.simps) (simp add: pop)
      then show ?thesis using csr_settled_head [OF inv pop [unfolded True]] less.prems(2) by simp
    next
      case other: False
      show ?thesis
      proof (cases "u \<in> X")
        case True
        have "csr_dijkstra_loop c dst st = csr_dijkstra_loop c dst (st\<lparr>cd_pq := pq'\<rparr>)"
          using other seen True by (subst csr_dijkstra_loop.simps) (simp add: pop)
        then show ?thesis
          using less.hyps [OF p(6) csr_drop [OF inv True, of cost, folded p(3)] less.prems(2)] by simp
      next
        case False
        obtain b e st2 where st2: "vec_put (cd_visited st) u True = Inr ((cd_visited st)[nat u := True])"
          "neighbor_range c u = Inr (b, e)"
          "csr_relax c cost u b e (st\<lparr>cd_visited := (cd_visited st)[nat u := True], cd_pq := pq'\<rparr>) = Inr st2"
          "csr_dij_inv ?g n s st2 (insert u X)" "csr_measure n st2 < csr_measure n st"
          using csr_expand [OF inv pop False shape weights] by blast
        have "csr_dijkstra_loop c dst st = csr_dijkstra_loop c dst st2"
          using other seen False st2(1-3) by (subst csr_dijkstra_loop.simps) (simp add: pop)
        then show ?thesis using less.hyps [OF st2(5,4)] less.prems(2) other by simp
      qed
    qed
  qed
qed

text \<open>The parents lead back along the trail.\<close>

lemma trail_chain:
  "trail g rel s (par_map n par) via X v ns rs k \<Longrightarrow> parent_chain par ns \<and> set ns \<subseteq> {0 ..< int n} \<and> last ns = v"
proof (induction rule: trail.induct)
  case start
  then show ?case by (simp add: parent_chain_def par_map_def split: if_splits)
next
  case (step u ns rs k e)
  then have "ns \<noteq> []" by (auto simp: parent_chain_def)
  then show ?case using step by (simp add: parent_chain_snoc par_map_def split: if_splits)
qed

definition csr_weigh_answer :: "csr_graph \<Rightarrow> int \<Rightarrow> int \<Rightarrow> weighted_path \<Rightarrow> bool" where
  "csr_weigh_answer c src dst p \<longleftrightarrow>
     (if \<exists>k. costs (csr_dgraph c) [] src dst k \<and> cost_mag k < inf_mag
      then \<exists>vs rs. wpath (csr_dgraph c) [] src dst vs rs (wp_cost p) \<and> wp_nodes p = node_ids c vs \<and>
        (\<forall>k. costs (csr_dgraph c) [] src dst k \<longrightarrow> \<not> f32_less k (wp_cost p))
      else p = no_wpath)"

lemma dijkstra_path_csr_ok:
  assumes shape: "csr_shape c n" and weights: "weights_ok (csr_dgraph c)"
    and src: "to_idx (cs_id_to_idx c) source = src" "0 \<le> src" "src < int n"
    and dst: "to_idx (cs_id_to_idx c) target = dst" "0 \<le> dst" "dst < int n"
  shows "\<exists>p. dijkstra_path_csr c source target = Some (Inr p) \<and> csr_weigh_answer c src dst p"
proof -
  let ?g = "csr_dgraph c"
  have n: "cs_node_count c = int n" and ids: "length (cs_idx_to_id c) = n" using shape by (simp_all add: csr_shape_def)
  let ?d = "(replicate n (F32_Inf False))[nat src := f32_zero]"
  let ?st = "\<lparr>cd_dist = ?d, cd_parent = replicate n (-1), cd_visited = replicate n False, cd_pq = [(f32_zero, src)]\<rparr>"
  have D: "found_map n ?d = [src \<mapsto> f32_zero]"
    using src by (subst found_map_put) (auto simp: found_map_def is_inf_def f32_zero_def fun_eq_iff)
  have "trail ?g [] src (par_map n (replicate n (-1))) Map.empty {} src [src] [] f32_zero"
    using src by (intro trail.start) (simp add: par_map_def)
  then have "csr_dij_inv ?g n src ?st {}"
    using finite_costs.initial by (auto simp: csr_dij_inv_def csr_sized_def D weigh_ok_def intro!: exI [of _ Map.empty])
  from csr_dijkstra_loop_ok [OF shape weights this, of dst]
  obtain st where st: "csr_dijkstra_loop c dst ?st = Some (Inr st)" "csr_settled c n src dst st" by auto
  have get: "vec_get (cd_dist st) dst = Inr (cd_dist st ! nat dst)"
    using st(2) dst by (simp add: csr_settled_def csr_sized_def vec_get_def)
  have run: "dijkstra_path_csr c source target = (if is_inf (cd_dist st ! nat dst) then Some (Inr no_wpath)
      else map_option (map_sum (\<lambda>x. x) (\<lambda>ns. \<lparr>wp_nodes = rev ns, wp_rels = [], wp_cost = cd_dist st ! nat dst\<rparr>))
        (csr_trace c (cd_parent st) dst []))"
    using src dst n get st(1) by (simp add: dijkstra_path_csr_def Let_def vec_put_def)
  show ?thesis
  proof (cases "found_map n (cd_dist st) dst")
    case None
    then have "is_inf (cd_dist st ! nat dst)" using dst by (simp add: found_map_def split: if_splits)
    moreover have "csr_weigh_answer c src dst no_wpath"
      using st(2) None by (auto simp: csr_settled_def csr_weigh_answer_def not_less)
    ultimately show ?thesis using run by simp
  next
    case (Some k)
    then have k: "\<not> is_inf (cd_dist st ! nat dst)" "cd_dist st ! nat dst = k" by (auto simp: found_map_def split: if_splits)
    obtain via X ns rs where t: "trail ?g [] src (par_map n (cd_parent st)) via X dst ns rs k"
      using st(2) Some by (auto simp: csr_settled_def)
    note ch = trail_chain [OF t]
    have "csr_trace c (cd_parent st) dst [] = Some (Inr (rev (node_ids c ns)))"
      using csr_trace_chain [of "cd_parent st" ns n c "[]"] ch ids st(2) by (auto simp: csr_settled_def csr_sized_def)
    moreover have w: "wpath ?g [] src dst ns rs k" by (rule trail_wpath [OF t])
    moreover have "costs ?g [] src dst k" by (rule wpath_costs [OF weights w])
    ultimately show ?thesis
      using run k st(2) Some by (auto simp: csr_weigh_answer_def csr_settled_def)
  qed
qed

section \<open>Indices and ids\<close>

lemma wpath_map:
  assumes "\<And>i. i \<in> A \<Longrightarrow> dg_neighbors g (f i) = map (\<lambda>e. e\<lparr>ed_to := f (ed_to e)\<rparr>) (dg_neighbors h i)"
    "\<And>i e. i \<in> A \<Longrightarrow> e \<in> set (dg_neighbors h i) \<Longrightarrow> ed_to e \<in> A" "i \<in> A"
  shows "wpath g [] (f i) y ys rs k \<longleftrightarrow> (\<exists>j vs. j \<in> A \<and> y = f j \<and> ys = map f vs \<and> wpath h [] i j vs rs k)"
proof
  assume "wpath g [] (f i) y ys rs k"
  then show "\<exists>j vs. j \<in> A \<and> y = f j \<and> ys = map f vs \<and> wpath h [] i j vs rs k"
  proof induction
    case start
    show ?case using assms(3) by (intro exI [of _ i] exI [of _ "[i]"]) (simp add: wpath.start)
  next
    case (step u ns rs k e)
    then obtain j vs where j: "j \<in> A" "u = f j" "ns = map f vs" "wpath h [] i j vs rs k" by blast
    then obtain e' where e': "e' \<in> set (dg_neighbors h j)" "e = e'\<lparr>ed_to := f (ed_to e')\<rparr>"
      using step.hyps(2) assms(1) by auto
    have "wpath h [] i (ed_to e') (vs @ [ed_to e']) (rs @ [ed_rel e']) (f32_add k (ed_weight e'))"
      by (rule wpath.step [OF j(4) e'(1)]) simp
    then show ?case using e' j assms(2) by (intro exI [of _ "ed_to e'"] exI [of _ "vs @ [ed_to e']"]) simp
  qed
next
  assume "\<exists>j vs. j \<in> A \<and> y = f j \<and> ys = map f vs \<and> wpath h [] i j vs rs k"
  then obtain j vs where j: "y = f j" "ys = map f vs" "wpath h [] i j vs rs k" by blast
  from j(3) have "j \<in> A \<and> wpath g [] (f i) (f j) (map f vs) rs k"
  proof induction
    case start
    show ?case using assms(3) by (simp add: wpath.start)
  next
    case (step u ns rs k e)
    then have "e\<lparr>ed_to := f (ed_to e)\<rparr> \<in> set (dg_neighbors g (f u))" using assms(1) by simp
    from wpath.step [OF conjunct2 [OF step.IH] this] step show ?case using assms(2) [of u e] by simp
  qed
  with j show "wpath g [] (f i) y ys rs k" by simp
qed

lemma csr_neighbors_ids:
  assumes "csr_of bytes (dg_meta g) (dg_neighbors g) c" "no_dangling g" "finite (dom (dg_meta g))"
    "0 \<le> i" "i < cs_node_count c"
  shows "dg_neighbors g (cs_idx_to_id c ! nat i) =
    map (\<lambda>e. e\<lparr>ed_to := cs_idx_to_id c ! nat (ed_to e)\<rparr>) (dg_neighbors (csr_dgraph c) i)"
proof -
  let ?ids = "sorted_list_of_set (dom (dg_meta g))" and ?A = "cs_id_to_idx c"
  have c: "cs_node_count c = int (length ?ids)" "cs_idx_to_id c = ?ids" "numbers ?A ?ids"
    "\<forall>i < length ?ids. csr_slots c i = filled ?A (dg_neighbors g (?ids ! i))"
    using assms(1) by (simp_all add: csr_of_def Let_def)
  have len: "nat i < length ?ids" using assms(4,5) c(1) by linarith
  let ?es = "dg_neighbors g (?ids ! nat i)"
  have idx: "0 \<le> to_idx ?A (ed_to e) \<and> ?ids ! nat (to_idx ?A (ed_to e)) = ed_to e" if "e \<in> set ?es" for e
    using numbers_node [OF c(3)] no_dangling_edge [OF assms(2,3) len that] by blast
  then have "filter (\<lambda>e. 0 \<le> to_idx ?A (ed_to e)) ?es = ?es" by (auto simp: filter_id_conv)
  then have "dg_neighbors (csr_dgraph c) i = map (slot_edge \<circ> slot_of ?A) ?es"
    using c(4) len assms(4,5) by (simp add: csr_neighbors filled_def slots_of_def)
  then show ?thesis using idx c(2) by (auto simp: slot_of_def intro!: map_idI [symmetric])
qed

lemma costs_good: "costs g rel s v k \<Longrightarrow> dist_ok k"
  by (induction rule: cost_of.induct) (use cheap.zero(1) cheap.ext_good in auto)

lemma csr_weights_ok:
  assumes "csr_of bytes (dg_meta g) (dg_neighbors g) c" "no_dangling g" "finite (dom (dg_meta g))" "weights_ok g"
  shows "weights_ok (csr_dgraph c)"
  unfolding weights_ok_def
proof (intro allI ballI)
  fix i e assume e: "e \<in> set (dg_neighbors (csr_dgraph c) i)"
  then have "0 \<le> i" "i < cs_node_count c" by (auto simp: csr_neighbors split: if_splits)
  from csr_neighbors_ids [OF assms(1-3) this] e
  have "e\<lparr>ed_to := cs_idx_to_id c ! nat (ed_to e)\<rparr> \<in> set (dg_neighbors g (cs_idx_to_id c ! nat i))" by simp
  then have "cost_ok (ed_weight (e\<lparr>ed_to := cs_idx_to_id c ! nat (ed_to e)\<rparr>))"
    using assms(4) unfolding weights_ok_def by blast
  then show "cost_ok (ed_weight e)" by simp
qed

text \<open>The paths of the graph from a node are the paths on the indices.\<close>

lemma csr_wpath:
  assumes c: "csr_of bytes (dg_meta g) (dg_neighbors g) c" "no_dangling g" "finite (dom (dg_meta g))"
    and source: "source \<in> dom (dg_meta g)"
  defines "src \<equiv> to_idx (cs_id_to_idx c) source"
  shows "wpath g [] source target ys rs k \<longleftrightarrow> target \<in> dom (dg_meta g) \<and>
    (\<exists>vs. ys = node_ids c vs \<and> wpath (csr_dgraph c) [] src (to_idx (cs_id_to_idx c) target) vs rs k)"
proof -
  let ?f = "\<lambda>i. cs_idx_to_id c ! nat i" and ?A = "{0 ..< cs_node_count c}" and ?ids = "sorted_list_of_set (dom (dg_meta g))"
  have facts: "cs_node_count c = int (length ?ids)" "cs_idx_to_id c = ?ids" "numbers (cs_id_to_idx c) ?ids"
    using c(1) by (simp_all add: csr_of_def Let_def)
  have shape: "csr_shape c (length ?ids)" using csr_of_shape [OF c(1)] by simp
  have src: "src \<in> ?A" "?f src = source"
    using csr_same_search(1,3) [OF c source source] by (simp_all add: src_def)
  have ends: "ed_to e \<in> ?A" if "e \<in> set (dg_neighbors (csr_dgraph c) i)" for i e
  proof -
    have "ed_to e \<in> set (csr_ends c i)" unfolding csr_ends_neighbors [symmetric] using that by simp
    then show ?thesis using subsetD [OF csr_ends_range [OF shape]] facts(1) by metis
  qed
  have paths: "wpath g [] (?f src) target ys rs k \<longleftrightarrow>
      (\<exists>j vs. j \<in> ?A \<and> target = ?f j \<and> ys = map ?f vs \<and> wpath (csr_dgraph c) [] src j vs rs k)"
    by (rule wpath_map [where f = ?f, OF csr_neighbors_ids [OF c] ends src(1)]) auto
  have ids: "j \<in> ?A \<and> target = ?f j \<longleftrightarrow> target \<in> dom (dg_meta g) \<and> j = to_idx (cs_id_to_idx c) target" for j
  proof
    assume j: "j \<in> ?A \<and> target = ?f j"
    then have "nat j < length ?ids" "target = ?ids ! nat j" using facts(1,2) by auto
    then have "target \<in> set ?ids" "to_idx (cs_id_to_idx c) target = int (nat j)"
      using facts(3) by (auto simp: numbers_def simp del: set_sorted_list_of_set)
    then show "target \<in> dom (dg_meta g) \<and> j = to_idx (cs_id_to_idx c) target" using c(3) j by simp
  next
    assume "target \<in> dom (dg_meta g) \<and> j = to_idx (cs_id_to_idx c) target"
    then show "j \<in> ?A \<and> target = ?f j" using csr_same_search(2,4) [OF c source] by auto
  qed
  show ?thesis
    using paths unfolding src(2) node_ids_def conj_assoc [symmetric, of "_ \<in> ?A"] ids by blast
qed

lemma csr_costs:
  assumes c: "csr_of bytes (dg_meta g) (dg_neighbors g) c" "no_dangling g" "finite (dom (dg_meta g))"
    and nodes: "source \<in> dom (dg_meta g)" "target \<in> dom (dg_meta g)" and weights: "weights_ok g"
  defines "src \<equiv> to_idx (cs_id_to_idx c) source" and "dst \<equiv> to_idx (cs_id_to_idx c) target"
  shows "(\<exists>ns rs. wpath g [] source target ns rs k) \<longleftrightarrow> costs (csr_dgraph c) [] src dst k"
proof
  note paths = csr_wpath [OF c nodes(1), folded src_def]
  show "costs (csr_dgraph c) [] src dst k" if "\<exists>ns rs. wpath g [] source target ns rs k"
    using that wpath_costs [OF csr_weights_ok [OF c weights]] unfolding paths dst_def by blast
  assume "costs (csr_dgraph c) [] src dst k"
  then obtain vs rs where "wpath (csr_dgraph c) [] src dst vs rs k" by (blast dest: costs_wpath)
  then show "\<exists>ns rs. wpath g [] source target ns rs k" unfolding paths dst_def using nodes(2) by blast
qed

section \<open>Cheapest paths by id\<close>

definition cheapest_ids :: "dgraph \<Rightarrow> int \<Rightarrow> int \<Rightarrow> weighted_path \<Rightarrow> bool" where
  "cheapest_ids g source target p \<longleftrightarrow>
    (if source \<in> dom (dg_meta g) \<and> (\<exists>ns rs k. wpath g [] source target ns rs k \<and> f32_less k (F32_Inf False))
     then (\<exists>rs. wpath g [] source target (wp_nodes p) rs (wp_cost p)) \<and>
       (\<forall>ns rs k. wpath g [] source target ns rs k \<longrightarrow> \<not> f32_less k (wp_cost p))
     else p = no_wpath)"

lemma dijkstra_csr_ok:
  assumes c: "csr_of bytes (dg_meta g) (dg_neighbors g) c" and "no_dangling g" and fin: "finite (dom (dg_meta g))"
    and "weights_ok g"
  shows "\<exists>p. dijkstra_path_csr c source target = Some (Inr p) \<and> cheapest_ids g source target p"
proof -
  let ?src = "to_idx (cs_id_to_idx c) source" and ?dst = "to_idx (cs_id_to_idx c) target" and ?h = "csr_dgraph c"
  have num: "numbers (cs_id_to_idx c) (sorted_list_of_set (dom (dg_meta g)))" using c by (simp add: csr_of_def Let_def)
  note weights = csr_weights_ok [OF c assms(2) fin assms(4)]
  show ?thesis
  proof (cases "source \<in> dom (dg_meta g) \<and> target \<in> dom (dg_meta g)")
    case False
    then have "dijkstra_path_csr c source target = Some (Inr no_wpath)"
      using numbers_iff [OF num] fin by (auto simp: dijkstra_path_csr_def Let_def not_le [symmetric])
    moreover have "\<not> wpath g [] source target ns rs k" if "source \<in> dom (dg_meta g)" for ns rs k
      using False csr_wpath [OF c assms(2) fin that] that by blast
    ultimately show ?thesis by (auto simp: cheapest_ids_def)
  next
    case True
    then have nodes: "source \<in> dom (dg_meta g)" "target \<in> dom (dg_meta g)" by simp_all
    note paths = csr_wpath [OF c assms(2) fin nodes(1), of target]
    have "cs_node_count c = int (card (dom (dg_meta g)))" using c by (simp add: csr_of_def Let_def)
    then obtain p where p: "dijkstra_path_csr c source target = Some (Inr p)" "csr_weigh_answer c ?src ?dst p"
      using dijkstra_path_csr_ok [OF csr_of_shape [OF c] weights, of source ?src target ?dst]
        csr_same_search(1,2) [OF c assms(2) fin nodes] by auto
    note costs = csr_costs [OF c assms(2) fin nodes assms(4)]
    have less: "f32_less k (F32_Inf False) \<longleftrightarrow> cost_mag k < inf_mag" if "costs ?h [] ?src ?dst k" for k
      using less_inf [OF costs_good [OF that]] .
    have reach: "(\<exists>ns rs k. wpath g [] source target ns rs k \<and> f32_less k (F32_Inf False)) \<longleftrightarrow>
        (\<exists>k. costs ?h [] ?src ?dst k \<and> cost_mag k < inf_mag)"
      using costs less by metis
    have "(\<exists>rs. wpath g [] source target (wp_nodes p) rs (wp_cost p)) \<and>
        (\<forall>ns rs k. wpath g [] source target ns rs k \<longrightarrow> \<not> f32_less k (wp_cost p))"
      if cheap: "\<exists>k. costs ?h [] ?src ?dst k \<and> cost_mag k < inf_mag"
    proof -
      obtain vs rs where w: "wpath ?h [] ?src ?dst vs rs (wp_cost p)" "wp_nodes p = node_ids c vs"
        "\<forall>k. costs ?h [] ?src ?dst k \<longrightarrow> \<not> f32_less k (wp_cost p)"
        using p(2) cheap unfolding csr_weigh_answer_def if_P [OF cheap] by blast
      moreover from this have "wpath g [] source target (wp_nodes p) rs (wp_cost p)" using paths nodes(2) by blast
      ultimately show ?thesis using costs by blast
    qed
    moreover have "p = no_wpath" if "\<not> (\<exists>k. costs ?h [] ?src ?dst k \<and> cost_mag k < inf_mag)"
      using p(2) that by (simp add: csr_weigh_answer_def)
    ultimately show ?thesis using p(1) nodes(1) reach by (auto simp: cheapest_ids_def)
  qed
qed

section \<open>Property\<close>

text \<open>
  C20. The weighted search on the compressed graph finds cheapest paths of the graph: built from a graph
  with readable labels, ids from 0 to below the greatest \<^verbatim>\<open>int\<close> and edges that end at nodes, with weights that are neither negative nor NaN, it returns without an access
  out of bounds, for any two ids; when a path from the first to the second costs less than infinity, the
  answer is the nodes of such a path with its accumulated cost, and no path costs less.
\<close>

theorem dijkstra_csr_cheapest:
  assumes "map_of metas = dg_meta g" "distinct (map fst metas)" "map_of adj = dg_adj g" "distinct (map fst adj)"
    "\<forall>n \<in> dom (dg_meta g). 0 \<le> n \<and> n < 2 ^ 31 - 1"
    "\<forall>m \<in> ran (dg_meta g). Option.bind (nm_label m) (read_cstr bytes) \<noteq> None" "no_dangling g" "weights_ok g"
  shows "\<exists>c p. build_csr bytes metas adj = Inr c \<and> dijkstra_path_csr c source target = Some (Inr p) \<and>
    (if source \<in> dom (dg_meta g) \<and> (\<exists>ns rs k. wpath g [] source target ns rs k \<and> f32_less k (F32_Inf False))
     then (\<exists>rs. wpath g [] source target (wp_nodes p) rs (wp_cost p)) \<and>
       (\<forall>ns rs k. wpath g [] source target ns rs k \<longrightarrow> \<not> f32_less k (wp_cost p))
     else p = no_wpath)"
proof -
  obtain c where c: "build_csr bytes metas adj = Inr c" "csr_of bytes (dg_meta g) (dg_neighbors g) c"
    using build_csr_ok [OF assms(1,2,4) _ assms(5,6), of "dg_neighbors g"] assms(3) by (auto simp: dg_neighbors_def)
  have "finite (dom (dg_meta g))" using finite_dom_map_of [of metas] assms(1) by simp
  from dijkstra_csr_ok [OF c(2) assms(7) this assms(8), of source target] c(1) show ?thesis
    unfolding cheapest_ids_def by blast
qed

theorem dijkstra_csr_cheapest_witness:
  "\<exists>c p. build_csr (\<lambda>_. CHR 0x00) [(5, \<lparr>nm_label = Some 0, nm_props = []\<rparr>), (2, \<lparr>nm_label = Some 0, nm_props = []\<rparr>)]
      [(5, [\<lparr>ed_to = 2, ed_rel = ''r'', ed_weight = f32_zero\<rparr>])] = Inr c \<and>
    dijkstra_path_csr c 5 2 = Some (Inr p) \<and> \<not> f32_less f32_zero (wp_cost p)"
proof -
  let ?ms = "[(5::int, \<lparr>nm_label = Some (0::u64), nm_props = []\<rparr>), (2, \<lparr>nm_label = Some 0, nm_props = []\<rparr>)]"
  let ?e = "\<lparr>ed_to = 2, ed_rel = ''r'', ed_weight = f32_zero\<rparr>"
  let ?adj = "[(5::int, [?e])]"
  let ?g = "dg_new\<lparr>dg_meta := map_of ?ms, dg_adj := map_of ?adj\<rparr>" and ?b = "\<lambda>_ :: u64. CHR 0x00"
  have "read_cstr ?b p = Some []" for p by (subst read_cstr.simps) simp
  then have labels: "\<forall>m \<in> ran (dg_meta ?g). Option.bind (nm_label m) (read_cstr ?b) \<noteq> None"
    by (auto simp: ran_def split: if_splits)
  have ok: "no_dangling ?g" "weights_ok ?g"
    by (auto simp: no_dangling_def weights_ok_def dg_neighbors_def split: if_splits)
  have zero: "f32_add f32_zero f32_zero = f32_zero" by (simp add: f32_zero_def f32_pack_def Let_def f32_round_small)
  have "wpath ?g [] 5 (ed_to ?e) ([5] @ [ed_to ?e]) ([] @ [ed_rel ?e]) (f32_add f32_zero (ed_weight ?e))"
    by (rule wpath.step [OF wpath.start]) (simp_all add: dg_neighbors_def)
  then have w: "wpath ?g [] 5 2 [5, 2] [''r''] f32_zero" by (simp add: zero)
  moreover have "f32_less f32_zero (F32_Inf False)" by (simp add: f32_zero_def)
  ultimately have "\<exists>ns rs k. wpath ?g [] 5 2 ns rs k \<and> f32_less k (F32_Inf False)" by blast
  then show ?thesis
    using dijkstra_csr_cheapest [of ?ms ?g ?adj ?b 5 2] labels ok w by auto
qed

end
