(* ===== verification/F64.thy ===== *)
theory F64
  imports Cxx_Float
begin

text \<open>
  The \<^verbatim>\<open>double\<close> values of scores and indexed properties. A finite value is a sign and a
  magnitude in units of \<open>2 ^ -1074\<close>, the least positive binary64 number. The program only compares
  doubles, reads and prints them; comparisons follow IEEE 754, so the two zeros are equal and every
  comparison with NaN is false.
\<close>

datatype f64 = F64_Fin bool nat | F64_Inf bool | F64_NaN

fun f64_nan :: "f64 \<Rightarrow> bool" where
  "f64_nan F64_NaN \<longleftrightarrow> True"
| "f64_nan _ \<longleftrightarrow> False"

text \<open>The position of a value in the order; infinities lie beyond every finite magnitude.\<close>

definition f64_bound :: nat where
  "f64_bound = 2 ^ 2098"

fun f64_rank :: "f64 \<Rightarrow> int" where
  "f64_rank (F64_Fin s m) = (if s then - int m else int m)"
| "f64_rank (F64_Inf s) = (if s then - int f64_bound else int f64_bound)"
| "f64_rank F64_NaN = 0"

text \<open>The finite values of the type have magnitudes below the bound.\<close>

fun f64_wf :: "f64 \<Rightarrow> bool" where
  "f64_wf (F64_Fin s m) \<longleftrightarrow> m < f64_bound"
| "f64_wf _ \<longleftrightarrow> True"

definition f64_less :: "f64 \<Rightarrow> f64 \<Rightarrow> bool" where
  "f64_less a b \<longleftrightarrow> \<not> f64_nan a \<and> \<not> f64_nan b \<and> f64_rank a < f64_rank b"

definition f64_eq :: "f64 \<Rightarrow> f64 \<Rightarrow> bool" where
  "f64_eq a b \<longleftrightarrow> \<not> f64_nan a \<and> \<not> f64_nan b \<and> f64_rank a = f64_rank b"

definition f64_le :: "f64 \<Rightarrow> f64 \<Rightarrow> bool" where
  "f64_le a b \<longleftrightarrow> \<not> f64_nan a \<and> \<not> f64_nan b \<and> f64_rank a \<le> f64_rank b"

lemma f64_compare:
  assumes "\<not> f64_nan a" "\<not> f64_nan b"
  shows "f64_less a b \<longleftrightarrow> f64_rank a < f64_rank b" "f64_eq a b \<longleftrightarrow> f64_rank a = f64_rank b"
    "f64_le a b \<longleftrightarrow> f64_rank a \<le> f64_rank b"
  using assms by (simp_all add: f64_less_def f64_eq_def f64_le_def)

lemma f64_nan_compare [simp]:
  "\<not> f64_less F64_NaN b" "\<not> f64_less a F64_NaN" "\<not> f64_eq F64_NaN b" "\<not> f64_eq a F64_NaN"
  "\<not> f64_le F64_NaN b" "\<not> f64_le a F64_NaN"
  by (simp_all add: f64_less_def f64_eq_def f64_le_def)

end
