(* ===== verification/Skip_List.thy ===== *)
theory Skip_List
  imports F64 "HOL-Library.Monad_Syntax" "HOL-Library.List_Lexorder" "HOL-Library.Char_ord"
begin

text \<open>
  The skip list of \<^verbatim>\<open>src/index/skiplist.cpp\<close> with its nodes in an explicit store. An
  address is a number; \<^const>\<open>None\<close> as a forward pointer is \<^verbatim>\<open>nullptr\<close>. Every
  definition that follows pointers has an option as its result: \<^const>\<open>None\<close> is a read through a
  null or freed pointer or outside a node's forward array, or a loop that does not end. Strings compare
  as \<^verbatim>\<open>std::string\<close> does, by bytes.
\<close>

section \<open>State\<close>

record skip_node =
  sn_score :: f64
  sn_member :: string
  sn_level :: nat
  sn_forward :: "nat option list"

text \<open>
  \<open>sl_next\<close> is an address never used before: the next one that the slab allocator returns. \<open>sl_draws\<close> are
  the outcomes of \<^verbatim>\<open>dist(rng_) < 0.5f\<close> of the seeded generator and \<open>sl_drawn\<close> the number of those used.
\<close>

record skiplist =
  sl_heap :: "nat \<rightharpoonup> skip_node"
  sl_next :: nat
  sl_head :: nat
  sl_level :: nat
  sl_size :: nat
  sl_draws :: "nat \<Rightarrow> bool"
  sl_drawn :: nat
  sl_scores :: "string \<rightharpoonup> f64"

definition skip_max_level :: nat where
  "skip_max_level = 16"

section \<open>Nodes\<close>

definition node_make :: "nat \<Rightarrow> f64 \<Rightarrow> string \<Rightarrow> skip_node" where
  "node_make levels score member =
     \<lparr>sn_score = score, sn_member = member, sn_level = levels, sn_forward = replicate levels None\<rparr>"

text \<open>\<^verbatim>\<open>n->forward[i]\<close>, read and written.\<close>

definition read_fwd :: "(nat \<rightharpoonup> skip_node) \<Rightarrow> nat \<Rightarrow> nat \<Rightarrow> nat option option" where
  "read_fwd h a i =
     do { n \<leftarrow> h a; if i < length (sn_forward n) then Some (sn_forward n ! i) else None }"

definition write_fwd :: "(nat \<rightharpoonup> skip_node) \<Rightarrow> nat \<Rightarrow> nat \<Rightarrow> nat option \<Rightarrow> (nat \<rightharpoonup> skip_node) option" where
  "write_fwd h a i p =
     do { n \<leftarrow> h a;
          if i < length (sn_forward n) then Some (h(a \<mapsto> n\<lparr>sn_forward := (sn_forward n)[i := p]\<rparr>)) else None }"

text \<open>The head has the score -1e18, in units of \<open>2 ^ -1074\<close>.\<close>

definition head_score :: f64 where
  "head_score = F64_Fin True (10 ^ 18 * 2 ^ 1074)"

definition skip_new :: "(nat \<Rightarrow> bool) \<Rightarrow> skiplist" where
  "skip_new draws = \<lparr>sl_heap = [0 \<mapsto> node_make skip_max_level head_score []], sl_next = 1, sl_head = 0,
     sl_level = 1, sl_size = 0, sl_draws = draws, sl_drawn = 0, sl_scores = Map.empty\<rparr>"

section \<open>Search\<close>

definition node_before :: "skip_node \<Rightarrow> f64 \<Rightarrow> string \<Rightarrow> bool" where
  "node_before n score member \<longleftrightarrow>
     f64_less (sn_score n) score \<or> (f64_eq (sn_score n) score \<and> sn_member n < member)"

text \<open>The inner loop at level \<open>i\<close>: along the level while the next node satisfies the test.\<close>

partial_function (option) advance ::
  "(nat \<rightharpoonup> skip_node) \<Rightarrow> nat \<Rightarrow> (skip_node \<Rightarrow> bool) \<Rightarrow> nat \<Rightarrow> nat option" where
  [code]: "advance h i test cur =
     do { next \<leftarrow> read_fwd h cur i;
          case next of
            None \<Rightarrow> Some cur
          | Some a \<Rightarrow> do { n \<leftarrow> h a; if test n then advance h i test a else Some cur } }"

text \<open>The outer loop, from level \<open>i - 1\<close> down to 0, filling the local array \<^verbatim>\<open>update\<close>.\<close>

fun descend ::
  "(nat \<rightharpoonup> skip_node) \<Rightarrow> (skip_node \<Rightarrow> bool) \<Rightarrow> nat \<Rightarrow> nat \<Rightarrow> (nat \<rightharpoonup> nat) \<Rightarrow> (nat \<times> (nat \<rightharpoonup> nat)) option" where
  "descend h test 0 cur update = Some (cur, update)"
| "descend h test (Suc i) cur update =
     do { c \<leftarrow> advance h i test cur; descend h test i c (update(i \<mapsto> c)) }"

text \<open>\<^verbatim>\<open>random_level\<close>: a draw is made before each test of the bound.\<close>

function random_level :: "(nat \<Rightarrow> bool) \<Rightarrow> nat \<Rightarrow> nat \<Rightarrow> nat \<times> nat" where
  "random_level draws k lvl =
     (if draws k \<and> lvl < skip_max_level then random_level draws (k + 1) (lvl + 1) else (lvl, k + 1))"
  by pat_completeness auto
termination by (relation "measure (\<lambda>(_, _, lvl). skip_max_level - lvl)") auto

declare random_level.simps [simp del]

definition score_of :: "skiplist \<Rightarrow> string \<Rightarrow> f64 option" where
  "score_of sl member = sl_scores sl member"

section \<open>Removal\<close>

text \<open>The loop that unlinks the target, level by level, until a level on which it is not linked.\<close>

function unlink_levels ::
  "(nat \<rightharpoonup> skip_node) \<Rightarrow> (nat \<rightharpoonup> nat) \<Rightarrow> nat \<Rightarrow> nat \<Rightarrow> nat \<Rightarrow> (nat \<rightharpoonup> skip_node) option" where
  "unlink_levels h update target level i =
     (if i < level then
        do { u \<leftarrow> update i; f \<leftarrow> read_fwd h u i;
             if f \<noteq> Some target then Some h
             else do { p \<leftarrow> read_fwd h target i; h' \<leftarrow> write_fwd h u i p;
                       unlink_levels h' update target level (i + 1) } }
      else Some h)"
  by pat_completeness auto
termination by (relation "measure (\<lambda>(_, _, _, level, i). level - i)") auto

declare unlink_levels.simps [simp del]

text \<open>\<^verbatim>\<open>while (level_ > 1 && !head_->forward[level_ - 1]) level_--\<close>\<close>

fun shrink_level :: "(nat \<rightharpoonup> skip_node) \<Rightarrow> nat \<Rightarrow> nat \<Rightarrow> nat option" where
  "shrink_level h head 0 = Some 0"
| "shrink_level h head (Suc l) =
     (if 0 < l then do { f \<leftarrow> read_fwd h head l; if f = None then shrink_level h head l else Some (Suc l) }
      else Some (Suc l))"

definition skip_remove :: "skiplist \<Rightarrow> f64 \<Rightarrow> string \<Rightarrow> (bool \<times> skiplist) option" where
  "skip_remove sl score member =
     do { (_, update) \<leftarrow> descend (sl_heap sl) (\<lambda>n. node_before n score member) (sl_level sl) (sl_head sl) Map.empty;
          u \<leftarrow> update 0;
          target \<leftarrow> read_fwd (sl_heap sl) u 0;
          case target of
            None \<Rightarrow> Some (False, sl)
          | Some t \<Rightarrow>
              do { n \<leftarrow> sl_heap sl t;
                   if \<not> f64_eq (sn_score n) score \<or> sn_member n \<noteq> member then Some (False, sl)
                   else
                     do { h \<leftarrow> unlink_levels (sl_heap sl) update t (sl_level sl) 0;
                          let h' = h(t := None);
                          level \<leftarrow> shrink_level h' (sl_head sl) (sl_level sl);
                          Some (True, sl\<lparr>sl_heap := h', sl_level := level,
                            sl_scores := (sl_scores sl)(member := None), sl_size := sl_size sl - 1\<rparr>) } } }"

section \<open>Insertion\<close>

text \<open>The loop that links a new node in front of the successors of \<^verbatim>\<open>update\<close>.\<close>

function link_levels ::
  "(nat \<rightharpoonup> skip_node) \<Rightarrow> (nat \<rightharpoonup> nat) \<Rightarrow> nat \<Rightarrow> nat \<Rightarrow> nat \<Rightarrow> (nat \<rightharpoonup> skip_node) option" where
  "link_levels h update n lvl i =
     (if i < lvl then
        do { u \<leftarrow> update i; f \<leftarrow> read_fwd h u i; h1 \<leftarrow> write_fwd h n i f; h2 \<leftarrow> write_fwd h1 u i (Some n);
             link_levels h2 update n lvl (i + 1) }
      else Some h)"
  by pat_completeness auto
termination by (relation "measure (\<lambda>(_, _, _, lvl, i). lvl - i)") auto

declare link_levels.simps [simp del]

definition raise_update :: "(nat \<rightharpoonup> nat) \<Rightarrow> nat \<Rightarrow> nat \<Rightarrow> nat \<Rightarrow> nat \<rightharpoonup> nat" where
  "raise_update update head level lvl = (\<lambda>i. if level \<le> i \<and> i < lvl then Some head else update i)"

text \<open>The last part of \<^verbatim>\<open>insert\<close>, from the drawing of a level on.\<close>

definition insert_new :: "skiplist \<Rightarrow> (nat \<rightharpoonup> nat) \<Rightarrow> f64 \<Rightarrow> string \<Rightarrow> skiplist option" where
  "insert_new sl update score member =
     (let (lvl, drawn) = random_level (sl_draws sl) (sl_drawn sl) 1;
          update' = raise_update update (sl_head sl) (sl_level sl) lvl;
          n = sl_next sl in
      do { h \<leftarrow> link_levels ((sl_heap sl)(n \<mapsto> node_make lvl score member)) update' n lvl 0;
           Some (sl\<lparr>sl_heap := h, sl_next := n + 1, sl_level := max (sl_level sl) lvl, sl_drawn := drawn,
             sl_scores := (sl_scores sl)(member \<mapsto> score), sl_size := sl_size sl + 1\<rparr>) })"

definition skip_insert :: "skiplist \<Rightarrow> f64 \<Rightarrow> string \<Rightarrow> skiplist option" where
  "skip_insert sl score member =
     do { (_, update) \<leftarrow> descend (sl_heap sl) (\<lambda>n. node_before n score member) (sl_level sl) (sl_head sl) Map.empty;
          u \<leftarrow> update 0;
          next \<leftarrow> read_fwd (sl_heap sl) u 0;
          present \<leftarrow> (case next of
              None \<Rightarrow> Some False
            | Some a \<Rightarrow> do { n \<leftarrow> sl_heap sl a; Some (sn_member n = member \<and> f64_eq (sn_score n) score) });
          if present then Some sl
          else case score_of sl member of
            Some old \<Rightarrow>
              if \<not> f64_eq old score then
                do { (_, sl1) \<leftarrow> skip_remove sl old member;
                     (_, update1) \<leftarrow> descend (sl_heap sl1) (\<lambda>n. node_before n score member) (sl_level sl1) (sl_head sl1) update;
                     insert_new sl1 update1 score member }
              else insert_new sl update score member
          | None \<Rightarrow> insert_new sl update score member }"

section \<open>Ranges\<close>

partial_function (option) collect_while ::
  "(nat \<rightharpoonup> skip_node) \<Rightarrow> f64 \<Rightarrow> nat option \<Rightarrow> (f64 \<times> string) list \<Rightarrow> (f64 \<times> string) list option" where
  [code]: "collect_while h max_score cur result =
     (case cur of
        None \<Rightarrow> Some result
      | Some a \<Rightarrow>
          do { n \<leftarrow> h a;
               if f64_le (sn_score n) max_score then
                 do { f \<leftarrow> read_fwd h a 0; collect_while h max_score f (result @ [(sn_score n, sn_member n)]) }
               else Some result })"

definition range_by_score :: "skiplist \<Rightarrow> f64 \<Rightarrow> f64 \<Rightarrow> (f64 \<times> string) list option" where
  "range_by_score sl min_score max_score =
     do { (cur, _) \<leftarrow> descend (sl_heap sl) (\<lambda>n. f64_less (sn_score n) min_score) (sl_level sl) (sl_head sl) Map.empty;
          f \<leftarrow> read_fwd (sl_heap sl) cur 0;
          collect_while (sl_heap sl) max_score f [] }"

partial_function (option) collect_ranks ::
  "(nat \<rightharpoonup> skip_node) \<Rightarrow> int \<Rightarrow> int \<Rightarrow> nat option \<Rightarrow> int \<Rightarrow> (f64 \<times> string) list \<Rightarrow> (f64 \<times> string) list option" where
  [code]: "collect_ranks h start stop cur idx result =
     (case cur of
        None \<Rightarrow> Some result
      | Some a \<Rightarrow>
          if idx \<le> stop then
            do { n \<leftarrow> h a; f \<leftarrow> read_fwd h a 0;
                 collect_ranks h start stop f (idx + 1)
                   (if start \<le> idx then result @ [(sn_score n, sn_member n)] else result) }
          else Some result)"

text \<open>The counter stays below the number of elements, so it does not overflow an \<^verbatim>\<open>int\<close>.\<close>

definition range_by_rank :: "skiplist \<Rightarrow> int \<Rightarrow> int \<Rightarrow> (f64 \<times> string) list option" where
  "range_by_rank sl start stop =
     do { f \<leftarrow> read_fwd (sl_heap sl) (sl_head sl) 0;
          collect_ranks (sl_heap sl) start stop f 0 [] }"

end
