(* ===== verification/Skip_List_Proofs.thy ===== *)
theory Skip_List_Proofs
  imports Skip_List "HOL-Library.Product_Lexorder"
begin

text \<open>
  The skip list against a sorted list of scored members: every level of the linked structure is the
  same list restricted to the nodes high enough. Each operation returns, follows only pointers to live
  nodes, and keeps that picture.
\<close>

section \<open>Reading the store\<close>

text \<open>What pointer updates leave alone.\<close>

definition node_data :: "(nat \<rightharpoonup> skip_node) \<Rightarrow> nat \<Rightarrow> (f64 \<times> string \<times> nat \<times> nat) option" where
  "node_data h a = map_option (\<lambda>n. (sn_score n, sn_member n, sn_level n, length (sn_forward n))) (h a)"

definition entry_at :: "(nat \<rightharpoonup> skip_node) \<Rightarrow> nat \<Rightarrow> f64 \<times> string" where
  "entry_at h a = (case node_data h a of Some (s, m, l, k) \<Rightarrow> (s, m) | None \<Rightarrow> (F64_NaN, []))"

definition height_at :: "(nat \<rightharpoonup> skip_node) \<Rightarrow> nat \<Rightarrow> nat" where
  "height_at h a = (case node_data h a of Some (s, m, l, k) \<Rightarrow> l | None \<Rightarrow> 0)"

fun zkey :: "f64 \<times> string \<Rightarrow> int \<times> string" where
  "zkey (s, m) = (f64_rank s, m)"

lemma node_data_cong:
  assumes "node_data h' a = node_data h a"
  shows "entry_at h' a = entry_at h a" "height_at h' a = height_at h a"
  using assms by (simp_all add: entry_at_def height_at_def)

lemma dom_node_data: "dom (node_data h) = dom h"
  by (auto simp: node_data_def dom_def)

lemma entry_at_node: "h a = Some n \<Longrightarrow> entry_at h a = (sn_score n, sn_member n)"
  by (simp add: entry_at_def node_data_def)

lemma read_fwd_data: "read_fwd h a i \<noteq> None \<longleftrightarrow> (\<exists>s m l k. node_data h a = Some (s, m, l, k) \<and> i < k)"
  by (auto simp: read_fwd_def node_data_def split: option.splits if_splits bind_splits)

lemma write_fwd_ok:
  assumes "read_fwd h a i = Some q"
  obtains h' where "write_fwd h a i p = Some h'"
    "\<And>b j. read_fwd h' b j = (if b = a \<and> j = i then Some p else read_fwd h b j)"
    "node_data h' = node_data h"
proof -
  obtain n where n: "h a = Some n" "i < length (sn_forward n)"
    using assms by (auto simp: read_fwd_def split: bind_splits if_splits)
  let ?h = "h(a \<mapsto> n\<lparr>sn_forward := (sn_forward n)[i := p]\<rparr>)"
  show thesis
  proof (rule that [of ?h])
    show "write_fwd h a i p = Some ?h" using n by (simp add: write_fwd_def)
    show "read_fwd ?h b j = (if b = a \<and> j = i then Some p else read_fwd h b j)" for b j
      using n by (cases "b = a") (simp_all add: read_fwd_def)
    show "node_data ?h = node_data h"
      using n by (auto simp: node_data_def fun_eq_iff)
  qed
qed

section \<open>Linked levels\<close>

fun path :: "(nat \<rightharpoonup> skip_node) \<Rightarrow> nat \<Rightarrow> nat \<Rightarrow> nat list \<Rightarrow> bool" where
  "path h i a [] \<longleftrightarrow> True"
| "path h i a (y # ys) \<longleftrightarrow> read_fwd h a i = Some (Some y) \<and> path h i y ys"

definition linked :: "(nat \<rightharpoonup> skip_node) \<Rightarrow> nat \<Rightarrow> nat \<Rightarrow> nat list \<Rightarrow> bool" where
  "linked h i a ys \<longleftrightarrow> path h i a ys \<and> read_fwd h (last (a # ys)) i = Some None"

lemma path_append: "path h i a (ys @ zs) \<longleftrightarrow> path h i a ys \<and> path h i (last (a # ys)) zs"
  by (induction ys arbitrary: a) auto

lemma linked_append: "linked h i a (ys @ zs) \<longleftrightarrow> path h i a ys \<and> linked h i (last (a # ys)) zs"
  by (cases zs) (auto simp: linked_def path_append)

lemma linked_Nil: "linked h i a [] \<longleftrightarrow> read_fwd h a i = Some None"
  by (simp add: linked_def)

lemma linked_Cons: "linked h i a (y # ys) \<longleftrightarrow> read_fwd h a i = Some (Some y) \<and> linked h i y ys"
  by (auto simp: linked_def)

lemma path_cong:
  "path h i a ys \<Longrightarrow> (\<And>b. b \<in> set (butlast (a # ys)) \<Longrightarrow> read_fwd h' b i = read_fwd h b i) \<Longrightarrow> path h' i a ys"
  by (induction ys arbitrary: a) (auto split: if_splits)

lemma linked_cong:
  "linked h i a ys \<Longrightarrow> (\<And>b. b \<in> set (a # ys) \<Longrightarrow> read_fwd h' b i = read_fwd h b i) \<Longrightarrow> linked h' i a ys"
  by (induction ys arbitrary: a) (auto simp: linked_Nil linked_Cons)

lemma linked_first: "linked h i a ys \<Longrightarrow> read_fwd h a i = Some (case ys of [] \<Rightarrow> None | y # _ \<Rightarrow> Some y)"
  by (cases ys) (simp_all add: linked_Nil linked_Cons)

lemma linked_read: "linked h i a ys \<Longrightarrow> b \<in> set (a # ys) \<Longrightarrow> read_fwd h b i \<noteq> None"
  by (induction ys arbitrary: a) (auto simp: linked_Nil linked_Cons)

lemma last_not_butlast: "distinct (a # ys) \<Longrightarrow> last (a # ys) \<notin> set (butlast (a # ys))"
  by (metis append_butlast_last_id distinct_append distinct_butlast disjoint_insert(1) list.distinct(1) list.simps(15) not_distinct_conv_prefix)

lemma linked_insert:
  assumes "linked h i a (ys @ zs)" "distinct (a # ys @ zs)" "n \<notin> set (a # ys @ zs)" "read_fwd h n i \<noteq> None"
  obtains f h1 h2 where "read_fwd h (last (a # ys)) i = Some f" "write_fwd h n i f = Some h1"
    "write_fwd h1 (last (a # ys)) i (Some n) = Some h2" "linked h2 i a (ys @ n # zs)"
    "\<And>b j. j \<noteq> i \<Longrightarrow> read_fwd h2 b j = read_fwd h b j" "node_data h2 = node_data h"
proof -
  let ?u = "last (a # ys)"
  have l: "path h i a ys" "linked h i ?u zs"
    using assms(1) by (auto simp: linked_append)
  have u: "?u \<in> set (a # ys)" by (rule last_in_set) simp
  then have un: "?u \<noteq> n" "?u \<notin> set zs"
    using assms(2,3) by auto
  let ?f = "case zs of [] \<Rightarrow> None | z # _ \<Rightarrow> Some z"
  have f: "read_fwd h ?u i = Some ?f" using linked_first [OF l(2)] .
  obtain q where q: "read_fwd h n i = Some q" using assms(4) by blast
  obtain h1 where h1: "write_fwd h n i ?f = Some h1"
    "\<And>b j. read_fwd h1 b j = (if b = n \<and> j = i then Some ?f else read_fwd h b j)" "node_data h1 = node_data h"
    using write_fwd_ok [OF q] by blast
  have f1: "read_fwd h1 ?u i = Some ?f" using h1(2) un f by simp
  obtain h2 where h2: "write_fwd h1 ?u i (Some n) = Some h2"
    "\<And>b j. read_fwd h2 b j = (if b = ?u \<and> j = i then Some (Some n) else read_fwd h1 b j)" "node_data h2 = node_data h1"
    using write_fwd_ok [OF f1] by blast
  have r: "read_fwd h2 b j = (if b = ?u \<and> j = i then Some (Some n) else if b = n \<and> j = i then Some ?f else read_fwd h b j)" for b j
    using h1(2) h2(2) by simp
  have "path h2 i a ys"
  proof (rule path_cong [OF l(1)])
    fix b assume b: "b \<in> set (butlast (a # ys))"
    then have "b \<noteq> ?u" using last_not_butlast [of a ys] assms(2) by auto
    moreover have "b \<noteq> n" using in_set_butlastD [OF b] assms(3) by auto
    ultimately show "read_fwd h2 b i = read_fwd h b i" using r by simp
  qed
  moreover have "linked h2 i n zs"
  proof (cases zs)
    case Nil
    then show ?thesis using r un by (simp add: linked_Nil)
  next
    case (Cons z zs')
    have "linked h2 i z zs'"
    proof (rule linked_cong)
      show "linked h i z zs'" using l(2) Cons by (simp add: linked_Cons)
      fix b assume "b \<in> set (z # zs')"
      then have "b \<noteq> ?u" "b \<noteq> n" using un assms(3) Cons by auto
      then show "read_fwd h2 b i = read_fwd h b i" using r by simp
    qed
    then show ?thesis using r un Cons by (simp add: linked_Cons)
  qed
  ultimately have "linked h2 i a (ys @ n # zs)"
    using r by (simp add: linked_append linked_Cons)
  with that [OF f h1(1) h2(1)] r h1(3) h2(3) show thesis by simp
qed

lemma linked_delete:
  assumes "linked h i a (ys @ t # zs)" "distinct (a # ys @ t # zs)"
  obtains p h1 where "read_fwd h (last (a # ys)) i = Some (Some t)" "read_fwd h t i = Some p"
    "write_fwd h (last (a # ys)) i p = Some h1" "linked h1 i a (ys @ zs)"
    "\<And>b j. j \<noteq> i \<Longrightarrow> read_fwd h1 b j = read_fwd h b j" "node_data h1 = node_data h"
proof -
  let ?u = "last (a # ys)"
  have l: "path h i a ys" "read_fwd h ?u i = Some (Some t)" "linked h i t zs"
    using assms(1) by (auto simp: linked_append linked_Cons)
  have u: "?u \<in> set (a # ys)" by (rule last_in_set) simp
  then have un: "?u \<noteq> t" "?u \<notin> set zs"
    using assms(2) by auto
  let ?p = "case zs of [] \<Rightarrow> None | z # _ \<Rightarrow> Some z"
  have p: "read_fwd h t i = Some ?p" using linked_first [OF l(3)] .
  obtain h1 where h1: "write_fwd h ?u i ?p = Some h1"
    "\<And>b j. read_fwd h1 b j = (if b = ?u \<and> j = i then Some ?p else read_fwd h b j)" "node_data h1 = node_data h"
    using write_fwd_ok [OF l(2)] by blast
  have "path h1 i a ys"
  proof (rule path_cong [OF l(1)])
    fix b assume "b \<in> set (butlast (a # ys))"
    then have "b \<noteq> ?u" using last_not_butlast [of a ys] assms(2) by auto
    then show "read_fwd h1 b i = read_fwd h b i" using h1(2) by simp
  qed
  moreover have "linked h1 i ?u zs"
  proof (cases zs)
    case Nil
    then show ?thesis using h1(2) by (simp add: linked_Nil)
  next
    case (Cons z zs')
    have "linked h1 i z zs'"
    proof (rule linked_cong)
      show "linked h i z zs'" using l(3) Cons by (simp add: linked_Cons)
      fix b assume "b \<in> set (z # zs')"
      then have "b \<noteq> ?u" using un Cons by auto
      then show "read_fwd h1 b i = read_fwd h b i" using h1(2) by simp
    qed
    then show ?thesis using h1(2) Cons by (simp add: linked_Cons)
  qed
  ultimately have "linked h1 i a (ys @ zs)"
    by (simp add: linked_append)
  with that [OF l(2) p h1(1)] h1(2,3) show thesis by simp
qed

section \<open>Shape of the store\<close>

abbreviation level_of :: "(nat \<rightharpoonup> skip_node) \<Rightarrow> nat \<Rightarrow> nat list \<Rightarrow> nat list" where
  "level_of h i xs \<equiv> filter (\<lambda>a. i < height_at h a) xs"

definition shape :: "(nat \<rightharpoonup> skip_node) \<Rightarrow> nat \<Rightarrow> nat \<Rightarrow> nat list \<Rightarrow> bool" where
  "shape h head L xs \<longleftrightarrow> distinct (head # xs) \<and> dom h = set (head # xs) \<and> 1 \<le> L \<and> L \<le> skip_max_level \<and>
     (\<forall>a \<in> set xs. \<exists>s m l. node_data h a = Some (s, m, l, l) \<and> 1 \<le> l \<and> l \<le> L \<and> \<not> f64_nan s) \<and>
     (\<exists>s m. node_data h head = Some (s, m, skip_max_level, skip_max_level)) \<and>
     (\<forall>i < skip_max_level. linked h i head (level_of h i xs))"

lemma shapeD:
  assumes "shape h head L xs"
  shows "distinct (head # xs)" "dom h = set (head # xs)" "1 \<le> L" "L \<le> skip_max_level"
    and "a \<in> set xs \<Longrightarrow> 1 \<le> height_at h a \<and> height_at h a \<le> L \<and> \<not> f64_nan (fst (entry_at h a))"
    and "i < skip_max_level \<Longrightarrow> linked h i head (level_of h i xs)"
    and "a \<in> set (head # xs) \<Longrightarrow> \<exists>n. h a = Some n"
    and "a \<in> set xs \<Longrightarrow> i < height_at h a \<Longrightarrow> read_fwd h a i \<noteq> None"
    and "i < skip_max_level \<Longrightarrow> read_fwd h head i \<noteq> None"
proof -
  show "distinct (head # xs)" "dom h = set (head # xs)" "1 \<le> L" "L \<le> skip_max_level"
    using assms by (simp_all add: shape_def)
  then show "\<exists>n. h a = Some n" if "a \<in> set (head # xs)"
    using that by (metis domD)
  show "linked h i head (level_of h i xs)" if "i < skip_max_level"
    using assms that by (simp add: shape_def)
  have data: "\<exists>s m l. node_data h a = Some (s, m, l, l) \<and> 1 \<le> l \<and> l \<le> L \<and> \<not> f64_nan s" if "a \<in> set xs"
    using assms that by (simp add: shape_def)
  show "1 \<le> height_at h a \<and> height_at h a \<le> L \<and> \<not> f64_nan (fst (entry_at h a))" if "a \<in> set xs"
    using data [OF that] by (elim exE conjE) (simp add: height_at_def entry_at_def)
  show "read_fwd h a i \<noteq> None" if "a \<in> set xs" "i < height_at h a"
    using data [OF that(1)] that(2) unfolding read_fwd_data by (elim exE conjE) (simp add: height_at_def)
  have "\<exists>s m. node_data h head = Some (s, m, skip_max_level, skip_max_level)"
    using assms by (simp add: shape_def)
  then show "read_fwd h head i \<noteq> None" if "i < skip_max_level"
    using that unfolding read_fwd_data by (elim exE) simp
qed

lemma first_in: "(case ys of [] \<Rightarrow> None | y # _ \<Rightarrow> Some y) = Some b \<Longrightarrow> b \<in> set ys"
  by (cases ys) auto

text \<open>A test that holds of a prefix of the list.\<close>

definition on_prefix :: "(nat \<Rightarrow> bool) \<Rightarrow> nat list \<Rightarrow> bool" where
  "on_prefix P xs \<longleftrightarrow> sorted_wrt (\<lambda>a b. P b \<longrightarrow> P a) xs"

lemma on_prefix_split: "on_prefix P xs \<Longrightarrow> xs = filter P xs @ filter (\<lambda>a. \<not> P a) xs"
proof (induction xs)
  case (Cons x xs)
  then have "on_prefix P xs" by (simp add: on_prefix_def)
  with Cons.IH have IH: "xs = filter P xs @ filter (\<lambda>a. \<not> P a) xs" .
  show ?case
  proof (cases "P x")
    case True
    with IH show ?thesis by simp
  next
    case False
    then have "filter P xs = []"
      using Cons.prems by (auto simp: on_prefix_def filter_empty_conv)
    with False show ?thesis
      by (simp add: filter_empty_conv)
  qed
qed simp

lemma on_prefix_filter: "on_prefix P xs \<Longrightarrow> on_prefix P (filter Q xs)"
  by (simp add: on_prefix_def sorted_wrt_filter)

section \<open>Search\<close>

lemma advance_along:
  assumes "path h i a us" "\<And>u. u \<in> set us \<Longrightarrow> h u \<noteq> None \<and> test (the (h u))"
    "read_fwd h (last (a # us)) i = Some nxt"
    "\<And>b. nxt = Some b \<Longrightarrow> h b \<noteq> None \<and> \<not> test (the (h b))"
  shows "advance h i test a = Some (last (a # us))"
  using assms(1-3)
proof (induction us arbitrary: a)
  case Nil
  then show ?case
    using assms(4) by (subst advance.simps) (auto split: option.splits)
next
  case (Cons u us)
  then have "advance h i test u = Some (last (u # us))" by simp
  moreover have "read_fwd h a i = Some (Some u)" "\<exists>n. h u = Some n \<and> test n"
    using Cons.prems(1) Cons.prems(2) [of u] by auto
  ultimately show ?case
    by (subst advance.simps) auto
qed

definition holds_at :: "(nat \<rightharpoonup> skip_node) \<Rightarrow> (skip_node \<Rightarrow> bool) \<Rightarrow> nat \<Rightarrow> bool" where
  "holds_at h test a \<longleftrightarrow> test (the (h a))"

text \<open>The last node of a level, or the head, for which the test holds.\<close>

definition pred_at :: "(nat \<rightharpoonup> skip_node) \<Rightarrow> nat \<Rightarrow> (skip_node \<Rightarrow> bool) \<Rightarrow> nat list \<Rightarrow> nat \<Rightarrow> nat" where
  "pred_at h head test xs i = last (head # filter (holds_at h test) (level_of h i xs))"

lemma pred_at_cases:
  "pred_at h head test xs i = head \<or>
     (pred_at h head test xs i \<in> set xs \<and> holds_at h test (pred_at h head test xs i) \<and>
      i < height_at h (pred_at h head test xs i))"
proof -
  let ?ys = "filter (holds_at h test) (level_of h i xs)"
  show ?thesis
  proof (cases "?ys = []")
    case False
    then have "last (head # ?ys) \<in> set ?ys" by (metis last_ConsR last_in_set)
    then show ?thesis by (simp add: pred_at_def)
  qed (simp add: pred_at_def)
qed

lemma advance_ok:
  assumes "shape h head L xs" "on_prefix (holds_at h test) xs" "i < skip_max_level"
    "cur = head \<or> (cur \<in> set xs \<and> holds_at h test cur \<and> i < height_at h cur)"
  shows "advance h i test cur = Some (pred_at h head test xs i)"
proof -
  let ?P = "holds_at h test" and ?ys = "level_of h i xs"
  let ?B = "filter ?P ?ys" and ?C = "filter (\<lambda>a. \<not> ?P a) ?ys"
  have ys: "?ys = ?B @ ?C"
    by (rule on_prefix_split [OF on_prefix_filter [OF assms(2)]])
  have "linked h i head (?B @ ?C)"
    using shapeD(6) [OF assms(1,3)] ys by simp
  moreover obtain us vs where uv: "head # ?B = us @ cur # vs" "set vs \<subseteq> set ?B"
  proof (cases "cur = head")
    case True
    then show thesis by (intro that [of "[]" ?B]) simp_all
  next
    case False
    then have "cur \<in> set ?B" using assms(4) by auto
    then obtain us vs where "?B = us @ cur # vs" by (auto dest: split_list)
    then show thesis by (intro that [of "head # us" vs]) auto
  qed
  moreover have "path h i cur (vs @ []) \<and> linked h i (last (cur # vs)) ?C"
    if "linked h i head (?B @ ?C)"
  proof (cases us)
    case Nil
    with uv(1) that show ?thesis by (simp add: linked_append)
  next
    case (Cons u us')
    then have "u = head" "?B = us' @ cur # vs" using uv(1) by simp_all
    with that show ?thesis
      by (simp only: append_assoc append_Cons linked_append path.simps linked_Cons last.simps)
        (simp add: linked_append)
  qed
  ultimately have p: "path h i cur vs" and l: "linked h i (last (cur # vs)) ?C" by simp_all
  have "last (cur # vs) = pred_at h head test xs i"
    using uv(1) by (simp add: pred_at_def)
  moreover have "advance h i test cur = Some (last (cur # vs))"
  proof (rule advance_along [OF p _ linked_first [OF l]])
    show "h u \<noteq> None \<and> test (the (h u))" if "u \<in> set vs" for u
      using that uv(2) shapeD(2) [OF assms(1)] by (auto simp: holds_at_def)
    fix b assume b: "(case ?C of [] \<Rightarrow> None | y # _ \<Rightarrow> Some y) = Some b"
    then have "b \<in> set ?C" by (rule first_in)
    then show "h b \<noteq> None \<and> \<not> test (the (h b))"
      using shapeD(2) [OF assms(1)] by (auto simp: holds_at_def)
  qed
  ultimately show ?thesis by simp
qed

lemma descend_ok:
  assumes "shape h head L xs" "on_prefix (holds_at h test) xs" "k \<le> skip_max_level"
    "cur = head \<or> (cur \<in> set xs \<and> holds_at h test cur \<and> k \<le> height_at h cur)"
  shows "descend h test k cur update =
    Some (if k = 0 then cur else pred_at h head test xs 0,
      \<lambda>i. if i < k then Some (pred_at h head test xs i) else update i)"
  using assms(3,4)
proof (induction k arbitrary: cur update)
  case (Suc k)
  let ?p = "pred_at h head test xs"
  have a: "advance h k test cur = Some (?p k)"
    by (rule advance_ok [OF assms(1,2)]) (use Suc.prems in auto)
  have "?p k = head \<or> (?p k \<in> set xs \<and> holds_at h test (?p k) \<and> k \<le> height_at h (?p k))"
    using pred_at_cases [of h head test xs k] by auto
  then have "descend h test k (?p k) (update(k \<mapsto> ?p k)) =
      Some (if k = 0 then ?p k else ?p 0, \<lambda>i. if i < k then Some (?p i) else (update(k \<mapsto> ?p k)) i)"
    using Suc.IH Suc.prems(1) by simp
  with a show ?case
    by (auto simp: fun_eq_iff less_Suc_eq)
qed simp

section \<open>Linking a node\<close>

lemma link_levels_ok:
  assumes "\<And>j. i \<le> j \<Longrightarrow> j < lvl \<Longrightarrow> linked h j head (B j @ C j) \<and> distinct (head # B j @ C j) \<and>
      n \<notin> set (head # B j @ C j) \<and> read_fwd h n j \<noteq> None \<and> update j = Some (last (head # B j))"
  shows "\<exists>h'. link_levels h update n lvl i = Some h' \<and> node_data h' = node_data h \<and>
    (\<forall>j. i \<le> j \<longrightarrow> j < lvl \<longrightarrow> linked h' j head (B j @ n # C j)) \<and>
    (\<forall>b j. j < i \<or> lvl \<le> j \<longrightarrow> read_fwd h' b j = read_fwd h b j)"
  using assms
proof (induction "lvl - i" arbitrary: i h)
  case 0
  then show ?case by (subst link_levels.simps) auto
next
  case (Suc d)
  then have i: "i < lvl" by simp
  note now = Suc.prems [OF le_refl i]
  obtain f h1 h2 where w: "read_fwd h (last (head # B i)) i = Some f" "write_fwd h n i f = Some h1"
    "write_fwd h1 (last (head # B i)) i (Some n) = Some h2" "linked h2 i head (B i @ n # C i)"
    "\<And>b j. j \<noteq> i \<Longrightarrow> read_fwd h2 b j = read_fwd h b j" "node_data h2 = node_data h"
    using linked_insert [of h i head "B i" "C i" n] now by blast
  have "linked h2 j head (B j @ C j) \<and> distinct (head # B j @ C j) \<and> n \<notin> set (head # B j @ C j) \<and>
      read_fwd h2 n j \<noteq> None \<and> update j = Some (last (head # B j))" if "i + 1 \<le> j" "j < lvl" for j
  proof -
    have p: "linked h j head (B j @ C j)" "distinct (head # B j @ C j)" "n \<notin> set (head # B j @ C j)"
      "read_fwd h n j \<noteq> None" "update j = Some (last (head # B j))"
      using Suc.prems [of j] that by simp_all
    have "linked h2 j head (B j @ C j)"
      using linked_cong [OF p(1)] w(5) that(1) by simp
    then show ?thesis using p(2-5) w(5) that(1) by simp
  qed
  moreover have "d = lvl - (i + 1)" using Suc.hyps(2) by simp
  ultimately obtain h' where h': "link_levels h2 update n lvl (i + 1) = Some h'" "node_data h' = node_data h2"
    "\<forall>j. i + 1 \<le> j \<longrightarrow> j < lvl \<longrightarrow> linked h' j head (B j @ n # C j)"
    "\<forall>b j. j < i + 1 \<or> lvl \<le> j \<longrightarrow> read_fwd h' b j = read_fwd h2 b j"
    using Suc.hyps(1) by blast
  have "link_levels h update n lvl i = Some h'"
    using i now w(1-3) h'(1) by (subst link_levels.simps) simp
  moreover have "linked h' j head (B j @ n # C j)" if "i \<le> j" "j < lvl" for j
  proof (cases "j = i")
    case True
    then show ?thesis using linked_cong [OF w(4), of h'] h'(4) by simp
  next
    case False
    then show ?thesis using h'(3) that by simp
  qed
  moreover have "read_fwd h' b j = read_fwd h b j" if "j < i \<or> lvl \<le> j" for b j
    using that h'(4) w(5) i by auto
  ultimately show ?case
    using h'(2) w(6) by (intro exI [of _ h']) simp
qed

lemma shape_insert:
  assumes "shape h head L xs" "n \<notin> dom h" "1 \<le> lvl" "lvl \<le> skip_max_level" "\<not> f64_nan s" "xs = B @ C"
    and update: "\<And>j. j < lvl \<Longrightarrow> update j = Some (last (head # level_of h j B))"
  obtains h' where "link_levels (h(n \<mapsto> node_make lvl s m)) update n lvl 0 = Some h'"
    "shape h' head (max L lvl) (B @ n # C)" "entry_at h' n = (s, m)"
    "\<And>a. a \<in> set xs \<Longrightarrow> entry_at h' a = entry_at h a"
proof -
  let ?h = "h(n \<mapsto> node_make lvl s m)"
  have n: "n \<notin> set (head # xs)"
    using assms(2) shapeD(2) [OF assms(1)] by simp
  have read: "read_fwd ?h b j = read_fwd h b j" if "b \<noteq> n" for b j
    using that by (simp add: read_fwd_def)
  have data: "node_data ?h b = (if b = n then Some (s, m, lvl, lvl) else node_data h b)" for b
    by (simp add: node_data_def node_make_def)
  have height: "height_at ?h b = (if b = n then lvl else height_at h b)" for b
    by (simp add: height_at_def data)
  have linked: "linked ?h j head (level_of h j B @ level_of h j C)" if "j < skip_max_level" for j
  proof (rule linked_cong)
    show "linked h j head (level_of h j B @ level_of h j C)"
      using shapeD(6) [OF assms(1) that] assms(6) by simp
    show "read_fwd ?h b j = read_fwd h b j" if "b \<in> set (head # level_of h j B @ level_of h j C)" for b
      using that n assms(6) by (intro read) auto
  qed
  have "linked ?h j head (level_of h j B @ level_of h j C) \<and>
      distinct (head # level_of h j B @ level_of h j C) \<and> n \<notin> set (head # level_of h j B @ level_of h j C) \<and>
      read_fwd ?h n j \<noteq> None \<and> update j = Some (last (head # level_of h j B))" if "0 \<le> j" "j < lvl" for j
    using linked [of j] shapeD(1) [OF assms(1)] n update [OF that(2)] that(2) assms(4,6)
    by (auto simp: read_fwd_def node_make_def)
  from link_levels_ok [of 0 lvl ?h head "\<lambda>j. level_of h j B" "\<lambda>j. level_of h j C" n update, OF this]
  obtain h' where h': "link_levels ?h update n lvl 0 = Some h'" "node_data h' = node_data ?h"
    "\<And>j. j < lvl \<Longrightarrow> linked h' j head (level_of h j B @ n # level_of h j C)"
    "\<And>b j. lvl \<le> j \<Longrightarrow> read_fwd h' b j = read_fwd ?h b j"
    by auto
  have ha: "height_at h' = height_at ?h" "entry_at h' = entry_at ?h"
    using node_data_cong [of h' _ ?h] h'(2) by (auto simp: fun_eq_iff)
  have ls: "level_of h' j (B @ n # C) = level_of h j B @ (if j < lvl then [n] else []) @ level_of h j C" for j
  proof -
    have "level_of h' j ys = level_of h j ys" if "n \<notin> set ys" for ys
      using that by (intro filter_cong refl) (auto simp: ha height)
    then show ?thesis using n assms(6) by (auto simp: ha height)
  qed
  have doms: "dom h' = dom ?h"
    using dom_node_data [of h'] dom_node_data [of ?h] h'(2) by simp
  have "shape h' head (max L lvl) (B @ n # C)"
    unfolding shape_def
  proof (intro conjI ballI allI impI)
    show "distinct (head # B @ n # C)"
      using shapeD(1) [OF assms(1)] n assms(6) by auto
    show "dom h' = set (head # B @ n # C)"
      using doms shapeD(2) [OF assms(1)] assms(6) by auto
    show "1 \<le> max L lvl" "max L lvl \<le> skip_max_level"
      using assms(3,4) shapeD(4) [OF assms(1)] by auto
    show "\<exists>s m. node_data h' head = Some (s, m, skip_max_level, skip_max_level)"
      using assms(1) n by (simp add: h'(2) data shape_def)
  next
    fix a assume a: "a \<in> set (B @ n # C)"
    show "\<exists>s m l. node_data h' a = Some (s, m, l, l) \<and> 1 \<le> l \<and> l \<le> max L lvl \<and> \<not> f64_nan s"
    proof (cases "a = n")
      case True
      then show ?thesis using assms(3,5) by (simp add: h'(2) data)
    next
      case False
      then have "a \<in> set xs" using a assms(6) by simp
      then have "\<exists>s m l. node_data h a = Some (s, m, l, l) \<and> 1 \<le> l \<and> l \<le> L \<and> \<not> f64_nan s"
        using assms(1) by (simp add: shape_def)
      with False show ?thesis by (auto simp: h'(2) data)
    qed
  next
    fix j assume j: "j < skip_max_level"
    show "linked h' j head (level_of h' j (B @ n # C))"
    proof (cases "j < lvl")
      case True
      then show ?thesis using h'(3) ls by simp
    next
      case False
      then show ?thesis using linked_cong [OF linked [OF j], of h'] h'(4) ls by simp
    qed
  qed
  moreover have "entry_at h' n = (s, m)"
    by (simp add: ha entry_at_def data)
  moreover have "entry_at h' a = entry_at h a" if "a \<in> set xs" for a
    using that n by (auto simp: ha entry_at_def data)
  ultimately show thesis using that h'(1) by blast
qed

section \<open>Unlinking a node\<close>

lemma unlink_levels_ok:
  assumes "\<And>j. i \<le> j \<Longrightarrow> j < l \<Longrightarrow> linked h j head (B j @ t # C j) \<and> distinct (head # B j @ t # C j)"
    "\<And>j. j < level \<Longrightarrow> update j = Some (last (head # B j))" "i \<le> l" "l \<le> level"
    "l < level \<Longrightarrow> \<exists>f. read_fwd h (last (head # B l)) l = Some f \<and> f \<noteq> Some t"
  shows "\<exists>h'. unlink_levels h update t level i = Some h' \<and> node_data h' = node_data h \<and>
    (\<forall>j. i \<le> j \<longrightarrow> j < l \<longrightarrow> linked h' j head (B j @ C j)) \<and>
    (\<forall>b j. j < i \<or> l \<le> j \<longrightarrow> read_fwd h' b j = read_fwd h b j)"
  using assms
proof (induction "l - i" arbitrary: i h)
  case 0
  then have "i = l" by simp
  then show ?case
    using 0 by (subst unlink_levels.simps) auto
next
  case (Suc d)
  then have i: "i < l" by simp
  obtain p h1 where w: "read_fwd h (last (head # B i)) i = Some (Some t)" "read_fwd h t i = Some p"
    "write_fwd h (last (head # B i)) i p = Some h1" "linked h1 i head (B i @ C i)"
    "\<And>b j. j \<noteq> i \<Longrightarrow> read_fwd h1 b j = read_fwd h b j" "node_data h1 = node_data h"
    using linked_delete [of h i head "B i" t "C i"] Suc.prems(1) [OF le_refl i] by blast
  have next_ok: "linked h1 j head (B j @ t # C j) \<and> distinct (head # B j @ t # C j)" if "i + 1 \<le> j" "j < l" for j
  proof -
    have "linked h j head (B j @ t # C j)" "distinct (head # B j @ t # C j)"
      using Suc.prems(1) [of j] that by simp_all
    then show ?thesis using linked_cong [of h j head "B j @ t # C j" h1] w(5) that(1) by simp
  qed
  have last_ok: "\<exists>f. read_fwd h1 (last (head # B l)) l = Some f \<and> f \<noteq> Some t" if "l < level"
    using Suc.prems(5) [OF that] w(5) [of l] i by simp
  have d: "d = l - (i + 1)" "i + 1 \<le> l" using Suc.hyps(2) i by simp_all
  obtain h' where h': "unlink_levels h1 update t level (i + 1) = Some h'" "node_data h' = node_data h1"
    "\<forall>j. i + 1 \<le> j \<longrightarrow> j < l \<longrightarrow> linked h' j head (B j @ C j)"
    "\<forall>b j. j < i + 1 \<or> l \<le> j \<longrightarrow> read_fwd h' b j = read_fwd h1 b j"
    using Suc.hyps(1) [OF d(1) next_ok Suc.prems(2) d(2) Suc.prems(4) last_ok] by blast
  have "unlink_levels h update t level i = Some h'"
    using i Suc.prems(2,4) w(1-3) h'(1) by (subst unlink_levels.simps) simp
  moreover have "linked h' j head (B j @ C j)" if "i \<le> j" "j < l" for j
  proof (cases "j = i")
    case True
    then show ?thesis using linked_cong [OF w(4), of h'] h'(4) by simp
  next
    case False
    then show ?thesis using h'(3) that by simp
  qed
  moreover have "read_fwd h' b j = read_fwd h b j" if "j < i \<or> l \<le> j" for b j
    using that h'(4) w(5) i by auto
  ultimately show ?case
    using h'(2) w(6) by (intro exI [of _ h']) simp
qed

lemma shrink_level_ok:
  assumes "\<And>i. i < skip_max_level \<Longrightarrow> linked h i head (level_of h i xs)" "1 \<le> L" "L \<le> skip_max_level"
    "\<And>a. a \<in> set xs \<Longrightarrow> height_at h a \<le> L"
  shows "\<exists>L'. shrink_level h head L = Some L' \<and> 1 \<le> L' \<and> L' \<le> skip_max_level \<and> (\<forall>a \<in> set xs. height_at h a \<le> L')"
  using assms(2-)
proof (induction L)
  case (Suc l)
  show ?case
  proof (cases "0 < l")
    case True
    have lk: "linked h l head (level_of h l xs)"
      using assms(1) Suc.prems(2) by simp
    show ?thesis
    proof (cases "level_of h l xs")
      case Nil
      then have "read_fwd h head l = Some None" using lk by (simp add: linked_Nil)
      moreover have "\<And>a. a \<in> set xs \<Longrightarrow> height_at h a \<le> l"
        using Nil by (auto simp: filter_empty_conv not_less)
      ultimately show ?thesis
        using True Suc.IH Suc.prems(2) by simp
    next
      case (Cons a as)
      then have "read_fwd h head l = Some (Some a)" using lk by (simp add: linked_Cons)
      then show ?thesis using True Suc.prems by simp
    qed
  qed (use Suc.prems in simp)
qed simp

lemma shape_delete:
  assumes "shape h head L (B @ t # C)"
    and update: "\<And>j. j < L \<Longrightarrow> update j = Some (last (head # level_of h j B))"
  obtains h1 L' where "unlink_levels h update t L 0 = Some h1" "shrink_level (h1(t := None)) head L = Some L'"
    "shape (h1(t := None)) head L' (B @ C)"
    "\<And>a. a \<in> set (B @ C) \<Longrightarrow> entry_at (h1(t := None)) a = entry_at h a"
proof -
  let ?l = "height_at h t"
  have d: "distinct (head # B @ t # C)" by (rule shapeD(1) [OF assms(1)])
  have L: "1 \<le> L" "L \<le> skip_max_level" by (rule shapeD(3,4) [OF assms(1)])+
  have tl: "1 \<le> ?l" "?l \<le> L" using shapeD(5) [OF assms(1), of t] by auto
  have linked: "linked h j head (level_of h j B @ (if j < ?l then [t] else []) @ level_of h j C)"
    if "j < skip_max_level" for j
    using shapeD(6) [OF assms(1) that] by (simp split: if_splits)
  have low: "linked h j head (level_of h j B @ t # level_of h j C) \<and> distinct (head # level_of h j B @ t # level_of h j C)"
    if "0 \<le> j" "j < ?l" for j
    using linked [of j] that(2) tl L d by auto
  have stop: "\<exists>f. read_fwd h (last (head # level_of h ?l B)) ?l = Some f \<and> f \<noteq> Some t" if "?l < L"
  proof -
    have "linked h ?l (last (head # level_of h ?l B)) (level_of h ?l C)"
      using linked [of ?l] that L by (simp add: linked_append)
    then have "read_fwd h (last (head # level_of h ?l B)) ?l =
        Some (case level_of h ?l C of [] \<Rightarrow> None | y # _ \<Rightarrow> Some y)"
      by (rule linked_first)
    moreover have "(case level_of h ?l C of [] \<Rightarrow> None | y # _ \<Rightarrow> Some y) \<noteq> Some t"
      using first_in [of "level_of h ?l C" t] d by auto
    ultimately show ?thesis by blast
  qed
  obtain h1 where h1: "unlink_levels h update t L 0 = Some h1" "node_data h1 = node_data h"
    "\<And>j. j < ?l \<Longrightarrow> linked h1 j head (level_of h j B @ level_of h j C)"
    "\<And>b j. ?l \<le> j \<Longrightarrow> read_fwd h1 b j = read_fwd h b j"
    using unlink_levels_ok [of 0 ?l h head "\<lambda>j. level_of h j B" t "\<lambda>j. level_of h j C" L update, OF low update _ tl(2) stop]
    by auto
  let ?h = "h1(t := None)"
  have data: "node_data ?h a = (if a = t then None else node_data h a)" for a
    using fun_cong [OF h1(2), of a] by (simp add: node_data_def)
  have read: "read_fwd ?h b j = read_fwd h1 b j" if "b \<noteq> t" for b j
    using that by (simp add: read_fwd_def)
  have height: "height_at ?h a = height_at h a" "entry_at ?h a = entry_at h a" if "a \<noteq> t" for a
    using node_data_cong [of ?h a h] data [of a] that by simp_all
  have ls: "level_of ?h j (B @ C) = level_of h j B @ level_of h j C" for j
  proof -
    have "level_of ?h j ys = level_of h j ys" if "t \<notin> set ys" for ys
      using that by (intro filter_cong refl) (metis height(1))
    then show ?thesis using d by auto
  qed
  have linked': "linked ?h j head (level_of ?h j (B @ C))" if j: "j < skip_max_level" for j
    unfolding ls
  proof (rule linked_cong)
    show "linked h1 j head (level_of h j B @ level_of h j C)"
    proof (cases "j < ?l")
      case True
      then show ?thesis by (rule h1(3))
    next
      case False
      then have "linked h j head (level_of h j B @ level_of h j C)" using linked [OF j] by simp
      then show ?thesis using linked_cong [of h j head _ h1] h1(4) False by simp
    qed
    show "read_fwd ?h b j = read_fwd h1 b j" if "b \<in> set (head # level_of h j B @ level_of h j C)" for b
      using that d by (intro read) auto
  qed
  have le: "height_at ?h a \<le> L" if "a \<in> set (B @ C)" for a
  proof -
    have "a \<noteq> t" "a \<in> set (B @ t # C)" using that d by auto
    then show ?thesis using shapeD(5) [OF assms(1), of a] height [of a] by simp
  qed
  obtain L' where L': "shrink_level ?h head L = Some L'" "1 \<le> L'" "L' \<le> skip_max_level"
    "\<forall>a \<in> set (B @ C). height_at ?h a \<le> L'"
    using shrink_level_ok [OF linked' L le] by blast
  have "shape ?h head L' (B @ C)"
    unfolding shape_def
  proof (intro conjI ballI allI impI)
    show "distinct (head # B @ C)" using d by auto
    show "dom ?h = set (head # B @ C)"
    proof -
      have "dom ?h = dom h - {t}" using dom_node_data [of h1] dom_node_data [of h] h1(2) by auto
      then show ?thesis using shapeD(2) [OF assms(1)] d by auto
    qed
    show "1 \<le> L'" "L' \<le> skip_max_level" by (rule L'(2,3))+
    show "\<exists>s m. node_data ?h head = Some (s, m, skip_max_level, skip_max_level)"
      using assms(1) d by (simp add: data shape_def)
  next
    fix a assume a: "a \<in> set (B @ C)"
    then have "a \<noteq> t" using d by auto
    moreover have "\<exists>s m l. node_data h a = Some (s, m, l, l) \<and> 1 \<le> l \<and> l \<le> L \<and> \<not> f64_nan s"
      using assms(1) a by (auto simp: shape_def)
    moreover have "height_at ?h a \<le> L'" using L'(4) a by blast
    ultimately show "\<exists>s m l. node_data ?h a = Some (s, m, l, l) \<and> 1 \<le> l \<and> l \<le> L' \<and> \<not> f64_nan s"
      by (auto simp: data height_at_def)
  qed (rule linked')
  moreover have "entry_at ?h a = entry_at h a" if "a \<in> set (B @ C)" for a
  proof -
    have "a \<noteq> t" using that d by auto
    then show ?thesis by (rule height(2))
  qed
  ultimately show thesis using that h1(1) L'(1) by blast
qed

section \<open>The sorted set\<close>

text \<open>
  What a skip list stands for: its scored members in the order of score and member, one score for each
  member, none NaN.
\<close>

type_synonym zset = "(f64 \<times> string) list"

definition zset_ok :: "zset \<Rightarrow> bool" where
  "zset_ok zs \<longleftrightarrow> sorted_wrt (<) (map zkey zs) \<and> distinct (map snd zs) \<and> (\<forall>z \<in> set zs. \<not> f64_nan (fst z))"

definition zset_has :: "f64 \<Rightarrow> string \<Rightarrow> zset \<Rightarrow> bool" where
  "zset_has s m zs \<longleftrightarrow> (\<exists>z \<in> set zs. zkey z = zkey (s, m))"

definition zset_remove :: "f64 \<Rightarrow> string \<Rightarrow> zset \<Rightarrow> zset" where
  "zset_remove s m zs = filter (\<lambda>z. zkey z \<noteq> zkey (s, m)) zs"

definition zset_place :: "f64 \<Rightarrow> string \<Rightarrow> zset \<Rightarrow> zset" where
  "zset_place s m zs = filter (\<lambda>z. zkey z < zkey (s, m)) zs @ (s, m) # filter (\<lambda>z. \<not> zkey z < zkey (s, m)) zs"

definition zset_insert :: "f64 \<Rightarrow> string \<Rightarrow> zset \<Rightarrow> zset" where
  "zset_insert s m zs = (if zset_has s m zs then zs else zset_place s m (filter (\<lambda>z. snd z \<noteq> m) zs))"

definition skip_rep :: "skiplist \<Rightarrow> zset \<Rightarrow> bool" where
  "skip_rep sl zs \<longleftrightarrow> (\<exists>xs. shape (sl_heap sl) (sl_head sl) (sl_level sl) xs \<and> map (entry_at (sl_heap sl)) xs = zs) \<and>
     (\<forall>a \<in> dom (sl_heap sl). a < sl_next sl) \<and> zset_ok zs \<and>
     (\<forall>m. sl_scores sl m = map_of (map prod.swap zs) m) \<and> sl_size sl = length zs"

lemma zkey_pair: "zkey z = (f64_rank (fst z), snd z)"
  by (cases z) simp

lemma zset_strict:
  assumes "zset_ok (us @ z # vs)"
  shows "x \<in> set us \<Longrightarrow> zkey x < zkey z" "x \<in> set vs \<Longrightarrow> zkey z < zkey x"
  using assms by (auto simp: zset_ok_def sorted_wrt_append)

lemma zset_ok_filter: "zset_ok zs \<Longrightarrow> zset_ok (filter P zs)"
  unfolding zset_ok_def
  by (auto simp: sorted_wrt_map sorted_wrt_filter distinct_map inj_on_def)

lemma zset_place_mset: "mset (zset_place s m zs) = add_mset (s, m) (mset zs)"
  using multiset_partition [of "mset zs" "\<lambda>z. zkey z < zkey (s, m)"]
  by (simp add: zset_place_def)

lemma zset_place_distinct:
  "distinct (map snd (zset_place s m zs)) \<longleftrightarrow> m \<notin> snd ` set zs \<and> distinct (map snd zs)"
proof -
  have "mset (map snd (zset_place s m zs)) = mset (m # map snd zs)"
    by (simp add: zset_place_mset)
  then show ?thesis
    using mset_eq_imp_distinct_iff [of "map snd (zset_place s m zs)" "m # map snd zs"] by auto
qed

lemma zset_place_ok:
  assumes "zset_ok zs" "m \<notin> snd ` set zs" "\<not> f64_nan s"
  shows "zset_ok (zset_place s m zs)"
proof -
  let ?k = "zkey (s, m)"
  have ne: "zkey z \<noteq> ?k" if "z \<in> set zs" for z
  proof -
    have "snd z \<noteq> m" using that assms(2) by auto
    then show ?thesis by (cases z) simp
  qed
  have "sorted_wrt (<) (map zkey (filter P zs))" for P
    using zset_ok_filter [OF assms(1)] by (simp add: zset_ok_def)
  moreover have "zkey x < zkey y" if "x \<in> set zs" "y \<in> set zs" "zkey x < ?k" "\<not> zkey y < ?k" for x y
    using that by (meson less_le_trans linorder_not_less)
  moreover have "?k < zkey y" if "y \<in> set zs" "\<not> zkey y < ?k" for y
    using that ne [of y] by auto
  ultimately have "sorted_wrt (<) (map zkey (zset_place s m zs))"
    by (auto simp: zset_place_def sorted_wrt_append)
  moreover have "distinct (map snd (zset_place s m zs))"
    using assms(1,2) zset_place_mset [of s m zs]
    by (simp add: zset_ok_def zset_place_distinct)
  ultimately show ?thesis
    using assms(1,3) by (auto simp: zset_ok_def zset_place_def)
qed

lemma zset_place_scores:
  assumes "zset_ok zs" "m \<notin> snd ` set zs"
  shows "map_of (map prod.swap (zset_place s m zs)) = (map_of (map prod.swap zs))(m \<mapsto> s)"
proof -
  have "mset (map prod.swap (zset_place s m zs)) = mset ((m, s) # map prod.swap zs)"
    by (simp add: zset_place_mset)
  moreover have "distinct (map fst (map prod.swap (zset_place s m zs)))"
    using assms zset_place_distinct [of s m zs] by (simp add: zset_ok_def comp_def)
  ultimately have "map_of (map prod.swap (zset_place s m zs)) = map_of ((m, s) # map prod.swap zs)"
    by (intro map_of_mset_eq)
  then show ?thesis by simp
qed

section \<open>Operations\<close>

lemma skip_repD:
  assumes "skip_rep sl zs"
  obtains xs where "shape (sl_heap sl) (sl_head sl) (sl_level sl) xs" "map (entry_at (sl_heap sl)) xs = zs"
    "\<forall>a \<in> dom (sl_heap sl). a < sl_next sl" "zset_ok zs"
    "sl_scores sl = map_of (map prod.swap zs)" "sl_size sl = length zs"
  using assms unfolding skip_rep_def by (auto simp: fun_eq_iff)

lemma skip_repI:
  assumes "shape (sl_heap sl) (sl_head sl) (sl_level sl) xs" "map (entry_at (sl_heap sl)) xs = zs"
    "\<forall>a \<in> dom (sl_heap sl). a < sl_next sl" "zset_ok zs"
    "sl_scores sl = map_of (map prod.swap zs)" "sl_size sl = length zs"
  shows "skip_rep sl zs"
  using assms unfolding skip_rep_def by auto

text \<open>Where a search by a test on a prefix of the entries ends.\<close>

lemma search_ok:
  assumes sh: "shape h head L xs" and zs: "map (entry_at h) xs = zs"
    and test: "\<And>a. a \<in> set xs \<Longrightarrow> holds_at h test a \<longleftrightarrow> P (entry_at h a)"
    and pre: "sorted_wrt (\<lambda>x y. P y \<longrightarrow> P x) zs"
  obtains B C where "xs = B @ C" "map (entry_at h) B = filter P zs" "map (entry_at h) C = filter (\<lambda>z. \<not> P z) zs"
    "descend h test L head update = Some (last (head # B), \<lambda>i. if i < L then Some (last (head # level_of h i B)) else update i)"
    "linked h 0 (last (head # B)) C" "level_of h 0 B = B"
proof -
  let ?B = "filter (holds_at h test) xs" and ?C = "filter (\<lambda>a. \<not> holds_at h test a) xs"
  have on: "on_prefix (holds_at h test) xs"
    unfolding on_prefix_def
  proof (rule sorted_wrt_mono_rel)
    show "sorted_wrt (\<lambda>a b. P (entry_at h b) \<longrightarrow> P (entry_at h a)) xs"
      using pre unfolding zs [symmetric] by (simp add: sorted_wrt_map)
    show "holds_at h test b \<longrightarrow> holds_at h test a"
      if "a \<in> set xs" "b \<in> set xs" "P (entry_at h b) \<longrightarrow> P (entry_at h a)" for a b
      using that test by simp
  qed
  have xs: "xs = ?B @ ?C" by (rule on_prefix_split [OF on])
  have high: "level_of h 0 ys = ys" if "set ys \<subseteq> set xs" for ys
    using that shapeD(5) [OF sh] by (intro filter_True) fastforce
  have pred: "pred_at h head test xs i = last (head # level_of h i ?B)" for i
    by (simp add: pred_at_def conj_commute)
  have B0: "level_of h 0 ?B = ?B" by (rule high) auto
  have "descend h test L head update = Some (pred_at h head test xs 0,
      \<lambda>i. if i < L then Some (pred_at h head test xs i) else update i)"
    using descend_ok [OF sh on, of L head update] shapeD(3,4) [OF sh] by simp
  moreover have "linked h 0 head (?B @ ?C)"
    using shapeD(6) [OF sh, of 0] high [of xs] xs by (simp add: skip_max_level_def)
  then have "linked h 0 (last (head # ?B)) ?C"
    by (simp only: linked_append)
  moreover have "map (entry_at h) ?B = filter P zs" "map (entry_at h) ?C = filter (\<lambda>z. \<not> P z) zs"
    unfolding zs [symmetric] filter_map comp_def using test by (auto intro!: arg_cong [where f = "map _"] filter_cong)
  ultimately show thesis
    using that [OF xs] B0 unfolding pred B0 by blast
qed

lemma before_key:
  assumes "h a = Some n" "\<not> f64_nan (fst (entry_at h a))" "\<not> f64_nan s"
  shows "holds_at h (\<lambda>n. node_before n s m) a \<longleftrightarrow> zkey (entry_at h a) < zkey (s, m)"
  using assms by (auto simp: holds_at_def node_before_def entry_at_node f64_compare)

lemma key_prefix: "zset_ok zs \<Longrightarrow> sorted_wrt (\<lambda>x y. zkey y < k \<longrightarrow> zkey x < k) zs"
  by (rule sorted_wrt_mono_rel [of _ "\<lambda>x y. zkey x < zkey y"])
    (auto simp: zset_ok_def sorted_wrt_map dest: order_less_trans)

lemma insert_search:
  assumes "shape h head L xs" "map (entry_at h) xs = zs" "zset_ok zs" "\<not> f64_nan s"
  obtains B C where "xs = B @ C" "map (entry_at h) B = filter (\<lambda>z. zkey z < zkey (s, m)) zs"
    "map (entry_at h) C = filter (\<lambda>z. \<not> zkey z < zkey (s, m)) zs"
    "descend h (\<lambda>n. node_before n s m) L head update =
       Some (last (head # B), \<lambda>i. if i < L then Some (last (head # level_of h i B)) else update i)"
    "linked h 0 (last (head # B)) C" "level_of h 0 B = B"
proof (rule search_ok [OF assms(1,2) _ key_prefix [OF assms(3)]])
  fix a assume a: "a \<in> set xs"
  then obtain n where "h a = Some n" using shapeD(7) [OF assms(1), of a] by auto
  then show "holds_at h (\<lambda>n. node_before n s m) a \<longleftrightarrow> zkey (entry_at h a) < zkey (s, m)"
    using before_key shapeD(5) [OF assms(1) a] assms(4) by blast
qed (rule that)

text \<open>The first entry not below a key decides whether the key occurs.\<close>

lemma zset_first:
  assumes "zset_ok zs" "filter (\<lambda>z. \<not> zkey z < k) zs = z # zs'"
  shows "(\<exists>y \<in> set zs. zkey y = k) \<longleftrightarrow> zkey z = k"
proof
  assume "\<exists>y \<in> set zs. zkey y = k"
  then obtain y where y: "y \<in> set zs" "zkey y = k" by blast
  then have "y \<in> set (filter (\<lambda>z. \<not> zkey z < k) zs)" by simp
  then have "y \<in> set (z # zs')" by (simp only: assms(2))
  moreover have "zset_ok (z # zs')"
    using zset_ok_filter [OF assms(1), of "\<lambda>z. \<not> zkey z < k"] assms(2) by simp
  then have "\<forall>x \<in> set zs'. zkey z < zkey x" by (simp add: zset_ok_def)
  moreover have "\<not> zkey z < k" using assms(2) by (metis filter_eq_ConsD)
  ultimately show "zkey z = k" using y by auto
next
  assume "zkey z = k"
  moreover have "z \<in> set zs" using assms(2) by (metis filter_eq_ConsD in_set_conv_decomp)
  ultimately show "\<exists>y \<in> set zs. zkey y = k" by blast
qed

lemma entry_key:
  assumes "h t = Some n" "\<not> f64_nan (sn_score n)" "\<not> f64_nan s"
  shows "zkey (entry_at h t) = zkey (s, m) \<longleftrightarrow> f64_eq (sn_score n) s \<and> sn_member n = m"
  using assms by (simp add: entry_at_node f64_compare)

lemma skip_remove_ok:
  assumes rep: "skip_rep sl zs" and s: "\<not> f64_nan s"
  shows "\<exists>sl'. skip_remove sl s m = Some (zset_has s m zs, sl') \<and> skip_rep sl' (zset_remove s m zs) \<and>
    sl_draws sl' = sl_draws sl"
proof -
  let ?h = "sl_heap sl" and ?head = "sl_head sl" and ?L = "sl_level sl" and ?k = "zkey (s, m)"
  obtain xs where xs: "shape ?h ?head ?L xs" "map (entry_at ?h) xs = zs" "\<forall>a \<in> dom ?h. a < sl_next sl"
    "zset_ok zs" "sl_scores sl = map_of (map prod.swap zs)" "sl_size sl = length zs"
    by (rule skip_repD [OF rep])
  obtain B C where bc: "xs = B @ C" "map (entry_at ?h) B = filter (\<lambda>z. zkey z < ?k) zs"
    "map (entry_at ?h) C = filter (\<lambda>z. \<not> zkey z < ?k) zs"
    "descend ?h (\<lambda>n. node_before n s m) ?L ?head Map.empty =
       Some (last (?head # B), \<lambda>i. if i < ?L then Some (last (?head # level_of ?h i B)) else None)"
    "linked ?h 0 (last (?head # B)) C" "level_of ?h 0 B = B"
    by (rule insert_search [OF xs(1,2,4) s, of m Map.empty]) simp
  let ?upd = "\<lambda>i. if i < ?L then Some (last (?head # level_of ?h i B)) else None"
  have L: "0 < ?L" using shapeD(3) [OF xs(1)] by simp
  have start: "?upd 0 = Some (last (?head # B))" using L bc(6) by simp
  show ?thesis
  proof (cases C)
    case Nil
    then have "read_fwd ?h (last (?head # B)) 0 = Some None"
      using bc(5) by (simp add: linked_Nil)
    then have "skip_remove sl s m = Some (False, sl)"
      unfolding skip_remove_def bc(4) using start by simp
    moreover have "\<forall>z \<in> set zs. zkey z < ?k"
    proof -
      have "filter (\<lambda>z. \<not> zkey z < ?k) zs = []" using bc(3) Nil by (metis list.simps(8))
      then show ?thesis unfolding filter_empty_conv by blast
    qed
    then have "\<not> zset_has s m zs" "zset_remove s m zs = zs"
      by (auto simp: zset_has_def zset_remove_def filter_id_conv)
    ultimately show ?thesis using rep by simp
  next
    case (Cons t C')
    have rd: "read_fwd ?h (last (?head # B)) 0 = Some (Some t)"
      using bc(5) Cons by (simp add: linked_Cons)
    have t: "t \<in> set xs" using bc(1) Cons by simp
    then obtain n where n: "?h t = Some n" using shapeD(7) [OF xs(1), of t] by auto
    have et: "entry_at ?h t = (sn_score n, sn_member n)"
      by (rule entry_at_node) (rule n)
    have nn: "\<not> f64_nan (sn_score n)"
      using shapeD(5) [OF xs(1) t] et by simp
    have first: "filter (\<lambda>z. \<not> zkey z < ?k) zs = entry_at ?h t # map (entry_at ?h) C'"
      using bc(3) Cons by simp
    have has: "zset_has s m zs \<longleftrightarrow> f64_eq (sn_score n) s \<and> sn_member n = m"
      using zset_first [OF xs(4) first] entry_key [of ?h t n s, OF n nn s] by (simp add: zset_has_def)
    show ?thesis
    proof (cases "zset_has s m zs")
      case False
      then have "skip_remove sl s m = Some (False, sl)"
        unfolding skip_remove_def bc(4) using start rd n has by auto
      moreover have "zset_remove s m zs = zs"
        using False by (simp add: zset_has_def zset_remove_def filter_id_conv)
      ultimately show ?thesis using False rep by simp
    next
      case True
      have split: "zs = map (entry_at ?h) B @ entry_at ?h t # map (entry_at ?h) C'"
        using xs(2) bc(1) Cons by auto
      have kt: "zkey (entry_at ?h t) = ?k"
        using True has entry_key [of ?h t n s, OF n nn s] by blast
      have rem: "zset_remove s m zs = map (entry_at ?h) (B @ C')"
      proof -
        have "zkey x \<noteq> ?k" if "x \<in> set (map (entry_at ?h) (B @ C'))" for x
          using that zset_strict [OF xs(4) [unfolded split], of x] kt by auto
        then show ?thesis
          using kt by (subst split) (auto simp: zset_remove_def filter_id_conv)
      qed
      have mt: "entry_at ?h t = (sn_score n, m)"
        using True has et by simp
      have scores: "(sl_scores sl)(m := None) = map_of (map prod.swap (zset_remove s m zs))"
      proof -
        have "m \<notin> snd ` set (map (entry_at ?h) (B @ C'))"
          using xs(4) mt unfolding zset_ok_def split by auto
        then have "map_of (map prod.swap (map (entry_at ?h) B)) m = None" "map_of (map prod.swap (map (entry_at ?h) C')) m = None"
          by (force simp: map_of_eq_None_iff)+
        then show ?thesis
          unfolding xs(5) rem by (subst split) (auto simp: mt fun_eq_iff map_add_def split: option.splits)
      qed
      have upd: "?upd j = Some (last (?head # level_of ?h j B))" if "j < ?L" for j
        using that by simp
      obtain h1 L' where h1: "unlink_levels ?h ?upd t ?L 0 = Some h1" "shrink_level (h1(t := None)) ?head ?L = Some L'"
        "shape (h1(t := None)) ?head L' (B @ C')"
        "\<And>a. a \<in> set (B @ C') \<Longrightarrow> entry_at (h1(t := None)) a = entry_at ?h a"
        using shape_delete [of ?h ?head ?L B t C' ?upd] xs(1) upd bc(1) Cons by auto
      let ?sl = "sl\<lparr>sl_heap := h1(t := None), sl_level := L', sl_scores := (sl_scores sl)(m := None),
        sl_size := sl_size sl - 1\<rparr>"
      have "skip_remove sl s m = Some (True, ?sl)"
        unfolding skip_remove_def bc(4) using start rd n has True h1(1,2) by simp
      moreover have "skip_rep ?sl (zset_remove s m zs)"
      proof (rule skip_repI)
        show "shape (sl_heap ?sl) (sl_head ?sl) (sl_level ?sl) (B @ C')" using h1(3) by simp
        show "map (entry_at (sl_heap ?sl)) (B @ C') = zset_remove s m zs"
          unfolding rem using h1(4) by (intro map_cong refl) simp
        show "\<forall>a \<in> dom (sl_heap ?sl). a < sl_next ?sl"
          using xs(3) shapeD(2) [OF h1(3)] shapeD(2) [OF xs(1)] bc(1) Cons by auto
        show "zset_ok (zset_remove s m zs)"
          unfolding zset_remove_def by (rule zset_ok_filter [OF xs(4)])
        show "sl_scores ?sl = map_of (map prod.swap (zset_remove s m zs))" using scores by simp
        show "sl_size ?sl = length (zset_remove s m zs)"
          unfolding rem using xs(6) split by simp
      qed
      ultimately show ?thesis using True by simp
    qed
  qed
qed

section \<open>Insertion\<close>

lemma random_level_bounds: "lvl \<le> skip_max_level \<Longrightarrow> lvl \<le> fst (random_level draws k lvl) \<and> fst (random_level draws k lvl) \<le> skip_max_level"
proof (induction draws k lvl rule: random_level.induct)
  case (1 draws k lvl)
  show ?case
  proof (cases "draws k \<and> lvl < skip_max_level")
    case True
    then have "random_level draws k lvl = random_level draws (k + 1) (lvl + 1)"
      by (subst random_level.simps) simp
    with 1 True show ?thesis by simp
  next
    case False
    have "random_level draws k lvl = (lvl, k + 1)"
      by (subst random_level.simps) (simp only: False if_False)
    with 1 show ?thesis by simp
  qed
qed

lemma insert_new_ok:
  assumes "shape (sl_heap sl) (sl_head sl) (sl_level sl) (B @ C)" "\<forall>a \<in> dom (sl_heap sl). a < sl_next sl" "zset_ok zs"
    "sl_scores sl = map_of (map prod.swap zs)" "sl_size sl = length zs" "\<not> f64_nan s" "m \<notin> snd ` set zs"
    "map (entry_at (sl_heap sl)) B = filter (\<lambda>z. zkey z < zkey (s, m)) zs"
    "map (entry_at (sl_heap sl)) C = filter (\<lambda>z. \<not> zkey z < zkey (s, m)) zs"
    "\<And>i. i < sl_level sl \<Longrightarrow> update i = Some (last (sl_head sl # level_of (sl_heap sl) i B))"
  shows "\<exists>sl'. insert_new sl update s m = Some sl' \<and> skip_rep sl' (zset_place s m zs) \<and> sl_draws sl' = sl_draws sl"
proof -
  let ?h = "sl_heap sl" and ?head = "sl_head sl" and ?L = "sl_level sl" and ?n = "sl_next sl"
  obtain lvl drawn where r: "random_level (sl_draws sl) (sl_drawn sl) 1 = (lvl, drawn)" by fastforce
  have lvl: "1 \<le> lvl" "lvl \<le> skip_max_level"
    using random_level_bounds [of 1 "sl_draws sl" "sl_drawn sl"] r by (simp_all add: skip_max_level_def)
  have n: "?n \<notin> dom ?h" using assms(2) by blast
  have upd: "raise_update update ?head ?L lvl j = Some (last (?head # level_of ?h j B))" if "j < lvl" for j
  proof (cases "?L \<le> j")
    case True
    have "level_of ?h j B = []"
      using shapeD(5) [OF assms(1)] True by (force simp: filter_empty_conv)
    with True that show ?thesis by (simp add: raise_update_def)
  next
    case False
    then show ?thesis using assms(10) by (simp add: raise_update_def)
  qed
  obtain h' where h': "link_levels (?h(?n \<mapsto> node_make lvl s m)) (raise_update update ?head ?L lvl) ?n lvl 0 = Some h'"
    "shape h' ?head (max ?L lvl) (B @ ?n # C)" "entry_at h' ?n = (s, m)"
    "\<And>a. a \<in> set (B @ C) \<Longrightarrow> entry_at h' a = entry_at ?h a"
    using shape_insert [OF assms(1) n lvl assms(6) refl upd] by blast
  let ?sl = "sl\<lparr>sl_heap := h', sl_next := ?n + 1, sl_level := max ?L lvl, sl_drawn := drawn,
    sl_scores := (sl_scores sl)(m \<mapsto> s), sl_size := sl_size sl + 1\<rparr>"
  have "insert_new sl update s m = Some ?sl"
    using h'(1) by (simp add: insert_new_def r Let_def del: One_nat_def)
  moreover have "skip_rep ?sl (zset_place s m zs)"
  proof (rule skip_repI)
    show "shape (sl_heap ?sl) (sl_head ?sl) (sl_level ?sl) (B @ ?n # C)" using h'(2) by simp
    have "map (entry_at h') B = map (entry_at ?h) B" "map (entry_at h') C = map (entry_at ?h) C"
      using h'(4) by simp_all
    then show "map (entry_at (sl_heap ?sl)) (B @ ?n # C) = zset_place s m zs"
      using h'(3) assms(8,9) by (simp add: zset_place_def)
    show "\<forall>a \<in> dom (sl_heap ?sl). a < sl_next ?sl"
      using shapeD(2) [OF h'(2)] shapeD(2) [OF assms(1)] assms(2) by (auto simp: less_Suc_eq)
    show "zset_ok (zset_place s m zs)" by (rule zset_place_ok [OF assms(3,7,6)])
    show "sl_scores ?sl = map_of (map prod.swap (zset_place s m zs))"
      using zset_place_scores [OF assms(3,7)] assms(4) by simp
    show "sl_size ?sl = length (zset_place s m zs)"
      using assms(5) arg_cong [OF zset_place_mset, of size s m zs] by simp
  qed
  ultimately show ?thesis by simp
qed

lemma skip_insert_ok:
  assumes rep: "skip_rep sl zs" and s: "\<not> f64_nan s"
  shows "\<exists>sl'. skip_insert sl s m = Some sl' \<and> skip_rep sl' (zset_insert s m zs) \<and> sl_draws sl' = sl_draws sl"
proof -
  let ?h = "sl_heap sl" and ?head = "sl_head sl" and ?L = "sl_level sl" and ?k = "zkey (s, m)"
  obtain xs where xs: "shape ?h ?head ?L xs" "map (entry_at ?h) xs = zs" "\<forall>a \<in> dom ?h. a < sl_next sl"
    "zset_ok zs" "sl_scores sl = map_of (map prod.swap zs)" "sl_size sl = length zs"
    by (rule skip_repD [OF rep])
  obtain B C where bc: "xs = B @ C" "map (entry_at ?h) B = filter (\<lambda>z. zkey z < ?k) zs"
    "map (entry_at ?h) C = filter (\<lambda>z. \<not> zkey z < ?k) zs"
    "descend ?h (\<lambda>n. node_before n s m) ?L ?head Map.empty =
       Some (last (?head # B), \<lambda>i. if i < ?L then Some (last (?head # level_of ?h i B)) else None)"
    "linked ?h 0 (last (?head # B)) C" "level_of ?h 0 B = B"
    by (rule insert_search [OF xs(1,2,4) s, of m Map.empty]) simp
  let ?upd = "\<lambda>i. if i < ?L then Some (last (?head # level_of ?h i B)) else None"
  have L: "0 < ?L" using shapeD(3) [OF xs(1)] by simp
  have start: "?upd 0 = Some (last (?head # B))" using L bc(6) by simp
  define present where "present = (case C of [] \<Rightarrow> Some False
      | a # _ \<Rightarrow> do { n \<leftarrow> ?h a; Some (sn_member n = m \<and> f64_eq (sn_score n) s) })"
  have pres: "present = Some (zset_has s m zs)"
  proof (cases C)
    case Nil
    have "filter (\<lambda>z. \<not> zkey z < ?k) zs = []" using bc(3) Nil by (metis list.simps(8))
    then have "\<forall>z \<in> set zs. zkey z < ?k" unfolding filter_empty_conv by blast
    then show ?thesis by (auto simp: present_def Nil zset_has_def)
  next
    case (Cons t C')
    have t: "t \<in> set xs" using bc(1) Cons by simp
    then obtain n where n: "?h t = Some n" using shapeD(7) [OF xs(1), of t] by auto
    have et: "entry_at ?h t = (sn_score n, sn_member n)" by (rule entry_at_node) (rule n)
    have nn: "\<not> f64_nan (sn_score n)" using shapeD(5) [OF xs(1) t] et by simp
    have first: "filter (\<lambda>z. \<not> zkey z < ?k) zs = entry_at ?h t # map (entry_at ?h) C'"
      using bc(3) Cons by simp
    show ?thesis
      using zset_first [OF xs(4) first] entry_key [of ?h t n s m, OF n nn s] n
      by (auto simp: present_def Cons zset_has_def)
  qed
  have rd: "read_fwd ?h (last (?head # B)) 0 = Some (case C of [] \<Rightarrow> None | y # _ \<Rightarrow> Some y)"
    by (rule linked_first [OF bc(5)])
  have present: "(case (case C of [] \<Rightarrow> None | y # _ \<Rightarrow> Some y) of None \<Rightarrow> Some False
      | Some a \<Rightarrow> do { n \<leftarrow> ?h a; Some (sn_member n = m \<and> f64_eq (sn_score n) s) }) = Some (zset_has s m zs)"
    unfolding pres [symmetric] present_def by (cases C) simp_all
  have unf: "skip_insert sl s m = (if zset_has s m zs then Some sl
      else case score_of sl m of
        Some old \<Rightarrow>
          if \<not> f64_eq old s then
            do { (_, sl1) \<leftarrow> skip_remove sl old m;
                 (_, update1) \<leftarrow> descend (sl_heap sl1) (\<lambda>n. node_before n s m) (sl_level sl1) (sl_head sl1) ?upd;
                 insert_new sl1 update1 s m }
          else insert_new sl ?upd s m
      | None \<Rightarrow> insert_new sl ?upd s m)"
    unfolding skip_insert_def bc(4) using start rd present by simp
  show ?thesis
  proof (cases "zset_has s m zs")
    case True
    then show ?thesis using rep unf by (simp add: zset_insert_def)
  next
    case False
    show ?thesis
    proof (cases "score_of sl m")
      case None
      then have m: "m \<notin> snd ` set zs"
        using xs(5) by (auto simp: score_of_def map_of_eq_None_iff image_comp)
      then have z: "zset_insert s m zs = zset_place s m zs"
        using False by (auto simp: zset_insert_def filter_id_conv intro!: arg_cong [where f = "zset_place s m"])
      show ?thesis
        unfolding unf z using False None
          insert_new_ok [OF xs(1) [unfolded bc(1)] xs(3-6) s m bc(2,3), of ?upd] by simp
    next
      case (Some old)
      then have om: "(old, m) \<in> set zs"
        using xs(5) by (auto simp: score_of_def dest: map_of_SomeD)
      have on: "\<not> f64_nan old" using om xs(4) by (auto simp: zset_ok_def)
      have neq: "\<not> f64_eq old s"
        using False om on s by (auto simp: zset_has_def f64_compare)
      have d: "inj_on snd (set zs)" using xs(4) by (simp add: zset_ok_def distinct_map)
      have rm: "zset_remove old m zs = filter (\<lambda>z. snd z \<noteq> m) zs"
      proof -
        have "zkey z = zkey (old, m) \<longleftrightarrow> snd z = m" if "z \<in> set zs" for z
        proof
          assume "snd z = m"
          then have "z = (old, m)" using inj_onD [OF d _ that om] by simp
          then show "zkey z = zkey (old, m)" by simp
        qed (simp add: zkey_pair)
        then show ?thesis unfolding zset_remove_def by (intro filter_cong refl) simp
      qed
      have has: "zset_has old m zs" using om by (force simp: zset_has_def)
      obtain sl1 where sl1: "skip_remove sl old m = Some (True, sl1)" "skip_rep sl1 (filter (\<lambda>z. snd z \<noteq> m) zs)"
        "sl_draws sl1 = sl_draws sl"
        using skip_remove_ok [OF rep on, of m] has rm by auto
      let ?zs = "filter (\<lambda>z. snd z \<noteq> m) zs"
      obtain xs1 where xs1: "shape (sl_heap sl1) (sl_head sl1) (sl_level sl1) xs1" "map (entry_at (sl_heap sl1)) xs1 = ?zs"
        "\<forall>a \<in> dom (sl_heap sl1). a < sl_next sl1" "zset_ok ?zs" "sl_scores sl1 = map_of (map prod.swap ?zs)" "sl_size sl1 = length ?zs"
        by (rule skip_repD [OF sl1(2)])
      obtain B1 C1 where b1: "xs1 = B1 @ C1" "map (entry_at (sl_heap sl1)) B1 = filter (\<lambda>z. zkey z < ?k) ?zs"
        "map (entry_at (sl_heap sl1)) C1 = filter (\<lambda>z. \<not> zkey z < ?k) ?zs"
        "descend (sl_heap sl1) (\<lambda>n. node_before n s m) (sl_level sl1) (sl_head sl1) ?upd =
           Some (last (sl_head sl1 # B1), \<lambda>i. if i < sl_level sl1 then Some (last (sl_head sl1 # level_of (sl_heap sl1) i B1)) else ?upd i)"
        "linked (sl_heap sl1) 0 (last (sl_head sl1 # B1)) C1" "level_of (sl_heap sl1) 0 B1 = B1"
        by (rule insert_search [OF xs1(1,2,4) s])
      have m: "m \<notin> snd ` set ?zs" by auto
      have "\<exists>sl'. insert_new sl1 (\<lambda>i. if i < sl_level sl1 then Some (last (sl_head sl1 # level_of (sl_heap sl1) i B1)) else ?upd i) s m = Some sl' \<and>
          skip_rep sl' (zset_place s m ?zs) \<and> sl_draws sl' = sl_draws sl1"
        by (rule insert_new_ok [OF xs1(1) [unfolded b1(1)] xs1(3-6) s m b1(2,3)]) simp
      then show ?thesis
        unfolding unf using False Some neq sl1(1,3) b1(4) by (simp add: zset_insert_def)
    qed
  qed
qed

section \<open>Ranges\<close>

lemma linked_tail: "linked h 0 a (y # ys) \<Longrightarrow> read_fwd h y 0 = Some (case ys of [] \<Rightarrow> None | z # _ \<Rightarrow> Some z) \<and> linked h 0 y ys"
  using linked_first [of h 0 y ys] by (simp add: linked_Cons)

lemma collect_while_ok:
  assumes "linked h 0 a ys" "\<And>y. y \<in> set ys \<Longrightarrow> h y \<noteq> None"
  shows "collect_while h mx (case ys of [] \<Rightarrow> None | y # _ \<Rightarrow> Some y) result =
    Some (result @ takeWhile (\<lambda>z. f64_le (fst z) mx) (map (entry_at h) ys))"
  using assms
proof (induction ys arbitrary: a result)
  case Nil
  then show ?case by (subst collect_while.simps) simp
next
  case (Cons y ys)
  obtain n where n: "h y = Some n" using Cons.prems(2) [of y] by auto
  have e: "entry_at h y = (sn_score n, sn_member n)" by (rule entry_at_node) (rule n)
  note t = linked_tail [OF Cons.prems(1)]
  show ?case
  proof (cases "f64_le (sn_score n) mx")
    case True
    have "collect_while h mx (case ys of [] \<Rightarrow> None | y # _ \<Rightarrow> Some y) (result @ [entry_at h y]) =
        Some ((result @ [entry_at h y]) @ takeWhile (\<lambda>z. f64_le (fst z) mx) (map (entry_at h) ys))"
      using Cons.IH [of y "result @ [entry_at h y]"] t Cons.prems(2) by (simp only: list.set_intros simp_thms)
    then show ?thesis
      using n t e True by (subst collect_while.simps) simp
  next
    case False
    then show ?thesis using n e by (subst collect_while.simps) simp
  qed
qed

lemma range_by_score_ok:
  assumes "skip_rep sl zs"
  shows "range_by_score sl mn mx = Some (filter (\<lambda>z. \<not> f64_less (fst z) mn \<and> f64_le (fst z) mx) zs)"
proof -
  let ?h = "sl_heap sl" and ?P = "\<lambda>z :: f64 \<times> string. f64_less (fst z) mn"
  obtain xs where xs: "shape ?h (sl_head sl) (sl_level sl) xs" "map (entry_at ?h) xs = zs" "zset_ok zs"
    by (rule skip_repD [OF assms])
  have up: "f64_rank (fst x) \<le> f64_rank (fst y)" if "zkey x < zkey y" for x y
    using that by (auto simp: zkey_pair)
  have sorted: "sorted_wrt (\<lambda>x y. zkey x < zkey y) zs"
    using xs(3) by (simp add: zset_ok_def sorted_wrt_map)
  have nn: "\<not> f64_nan (fst z)" if "z \<in> set zs" for z
    using xs(3) that by (simp add: zset_ok_def)
  have pre: "sorted_wrt (\<lambda>x y. ?P y \<longrightarrow> ?P x) zs"
  proof (rule sorted_wrt_mono_rel [OF _ sorted])
    fix x y assume "x \<in> set zs" "y \<in> set zs" "zkey x < zkey y"
    then show "?P y \<longrightarrow> ?P x" using up [of x y] nn by (auto simp: f64_less_def)
  qed
  obtain B C where bc: "xs = B @ C" "map (entry_at ?h) C = filter (\<lambda>z. \<not> ?P z) zs"
    "descend ?h (\<lambda>n. f64_less (sn_score n) mn) (sl_level sl) (sl_head sl) Map.empty =
      Some (last (sl_head sl # B), \<lambda>i. if i < sl_level sl then Some (last (sl_head sl # level_of ?h i B)) else None)"
    "linked ?h 0 (last (sl_head sl # B)) C"
  proof (rule search_ok [OF xs(1,2) _ pre])
    fix a assume "a \<in> set xs"
    then obtain n where n: "?h a = Some n" using shapeD(7) [OF xs(1), of a] by auto
    have "entry_at ?h a = (sn_score n, sn_member n)" by (rule entry_at_node) (rule n)
    then show "holds_at ?h (\<lambda>n. f64_less (sn_score n) mn) a \<longleftrightarrow> ?P (entry_at ?h a)"
      using n by (simp add: holds_at_def)
  qed (rule that)
  have live: "?h y \<noteq> None" if "y \<in> set C" for y
    using shapeD(7) [OF xs(1), of y] that bc(1) by auto
  have "range_by_score sl mn mx = Some (takeWhile (\<lambda>z. f64_le (fst z) mx) (filter (\<lambda>z. \<not> ?P z) zs))"
    using collect_while_ok [OF bc(4) live, of mx "[]"] linked_first [OF bc(4)] bc(2)
    by (simp add: range_by_score_def bc(3))
  also have "takeWhile (\<lambda>z. f64_le (fst z) mx) (filter (\<lambda>z. \<not> ?P z) zs) = filter (\<lambda>z. \<not> ?P z \<and> f64_le (fst z) mx) zs"
  proof -
    have "takeWhile (\<lambda>z. f64_le (fst z) mx) ys = filter (\<lambda>z. f64_le (fst z) mx) ys"
      if "sorted_wrt (\<lambda>x y. zkey x < zkey y) ys" "set ys \<subseteq> set zs" for ys
      using that
    proof (induction ys)
      case (Cons y ys)
      have "f64_le (fst y) mx" if "z \<in> set ys" "f64_le (fst z) mx" for z
      proof -
        have "f64_rank (fst y) \<le> f64_rank (fst z)" using up [of y z] Cons.prems(1) that(1) by simp
        then show ?thesis using that(2) nn [of y] Cons.prems(2) by (simp add: f64_le_def)
      qed
      then have "\<not> f64_le (fst y) mx \<Longrightarrow> filter (\<lambda>z. f64_le (fst z) mx) ys = []"
        unfolding filter_empty_conv by blast
      with Cons show ?case by (cases "f64_le (fst y) mx") simp_all
    qed simp
    from this [OF sorted_wrt_filter [OF sorted]]
    show ?thesis by (auto simp: conj_commute)
  qed
  finally show ?thesis .
qed

lemma collect_ranks_ok:
  assumes "linked h 0 a ys" "\<And>y. y \<in> set ys \<Longrightarrow> h y \<noteq> None"
  shows "collect_ranks h start stop (case ys of [] \<Rightarrow> None | y # _ \<Rightarrow> Some y) idx result =
    Some (result @ drop (nat (start - idx)) (take (nat (stop + 1 - idx)) (map (entry_at h) ys)))"
  using assms
proof (induction ys arbitrary: a idx result)
  case Nil
  then show ?case by (subst collect_ranks.simps) simp
next
  case (Cons y ys)
  obtain n where n: "h y = Some n" using Cons.prems(2) [of y] by auto
  have e: "entry_at h y = (sn_score n, sn_member n)" by (rule entry_at_node) (rule n)
  note t = linked_tail [OF Cons.prems(1)]
  show ?case
  proof (cases "idx \<le> stop")
    case True
    have tk: "nat (stop + 1 - idx) = Suc (nat (stop + 1 - (idx + 1)))" using True by linarith
    have ih: "collect_ranks h start stop (case ys of [] \<Rightarrow> None | y # _ \<Rightarrow> Some y) (idx + 1) r =
        Some (r @ drop (nat (start - (idx + 1))) (take (nat (stop + 1 - (idx + 1))) (map (entry_at h) ys)))" for r
      using Cons.IH [of y "idx + 1" r] t Cons.prems(2) by (simp only: list.set_intros simp_thms)
    have step: "collect_ranks h start stop (case y # ys of [] \<Rightarrow> None | y # _ \<Rightarrow> Some y) idx result =
        collect_ranks h start stop (case ys of [] \<Rightarrow> None | y # _ \<Rightarrow> Some y) (idx + 1)
          (if start \<le> idx then result @ [entry_at h y] else result)"
      using n t e True by (subst collect_ranks.simps) simp
    show ?thesis
    proof (cases "start \<le> idx")
      case True
      then have "nat (start - idx) = 0" "nat (start - (idx + 1)) = 0" by simp_all
      then show ?thesis unfolding step ih tk using True by simp
    next
      case False
      then have "nat (start - idx) = Suc (nat (start - (idx + 1)))" by linarith
      then show ?thesis unfolding step ih tk using False by simp
    qed
  next
    case False
    then show ?thesis by (subst collect_ranks.simps) simp
  qed
qed

lemma range_by_rank_ok:
  assumes "skip_rep sl zs"
  shows "range_by_rank sl start stop = Some (drop (nat start) (take (nat (stop + 1)) zs))"
proof -
  obtain xs where xs: "shape (sl_heap sl) (sl_head sl) (sl_level sl) xs" "map (entry_at (sl_heap sl)) xs = zs"
    by (rule skip_repD [OF assms])
  have "level_of (sl_heap sl) 0 xs = xs"
    using shapeD(5) [OF xs(1)] by (intro filter_True) fastforce
  then have l: "linked (sl_heap sl) 0 (sl_head sl) xs"
    using shapeD(6) [OF xs(1), of 0] by (simp add: skip_max_level_def)
  have live: "sl_heap sl y \<noteq> None" if "y \<in> set xs" for y
    using shapeD(7) [OF xs(1), of y] that by auto
  show ?thesis
    using collect_ranks_ok [OF l live, of start stop 0 "[]"] linked_first [OF l] xs(2)
    by (simp add: range_by_rank_def)
qed

lemma score_of_ok: "skip_rep sl zs \<Longrightarrow> score_of sl m = map_of (map prod.swap zs) m"
  by (simp add: skip_rep_def score_of_def)

lemma skip_new_ok: "skip_rep (skip_new draws) []"
proof (rule skip_repI)
  let ?sl = "skip_new draws"
  show "shape (sl_heap ?sl) (sl_head ?sl) (sl_level ?sl) []"
    by (simp add: shape_def skip_new_def skip_max_level_def node_data_def node_make_def linked_Nil read_fwd_def)
qed (simp_all add: skip_new_def zset_ok_def fun_eq_iff)

section \<open>The interface of a sorted set\<close>

datatype zset_op = ZInsert f64 string | ZRemove f64 string | ZScore string | ZByScore f64 f64 | ZByRank int int

datatype zset_reply = ZUnit | ZBool bool | ZScored "f64 option" | ZEntries zset

fun skip_step :: "skiplist \<Rightarrow> zset_op \<Rightarrow> (zset_reply \<times> skiplist) option" where
  "skip_step sl (ZInsert s m) = map_option (\<lambda>sl'. (ZUnit, sl')) (skip_insert sl s m)"
| "skip_step sl (ZRemove s m) = map_option (\<lambda>(b, sl'). (ZBool b, sl')) (skip_remove sl s m)"
| "skip_step sl (ZScore m) = Some (ZScored (score_of sl m), sl)"
| "skip_step sl (ZByScore mn mx) = map_option (\<lambda>zs. (ZEntries zs, sl)) (range_by_score sl mn mx)"
| "skip_step sl (ZByRank start stop) = map_option (\<lambda>zs. (ZEntries zs, sl)) (range_by_rank sl start stop)"

fun zset_step :: "zset \<Rightarrow> zset_op \<Rightarrow> zset_reply \<times> zset" where
  "zset_step zs (ZInsert s m) = (ZUnit, zset_insert s m zs)"
| "zset_step zs (ZRemove s m) = (ZBool (zset_has s m zs), zset_remove s m zs)"
| "zset_step zs (ZScore m) = (ZScored (map_of (map prod.swap zs) m), zs)"
| "zset_step zs (ZByScore mn mx) = (ZEntries (filter (\<lambda>z. \<not> f64_less (fst z) mn \<and> f64_le (fst z) mx) zs), zs)"
| "zset_step zs (ZByRank start stop) = (ZEntries (drop (nat start) (take (nat (stop + 1)) zs)), zs)"

fun zset_valid :: "zset_op \<Rightarrow> bool" where
  "zset_valid (ZInsert s m) \<longleftrightarrow> \<not> f64_nan s"
| "zset_valid (ZRemove s m) \<longleftrightarrow> \<not> f64_nan s"
| "zset_valid _ \<longleftrightarrow> True"

interpretation skip: answering skip_step zset_step skip_rep zset_valid
proof
  fix sl zs x
  assume rep: "skip_rep sl zs" and v: "zset_valid x"
  show "\<exists>s'. skip_step sl x = Some (fst (zset_step zs x), s') \<and> skip_rep s' (snd (zset_step zs x))"
  proof (cases x)
    case (ZInsert s m)
    then show ?thesis using skip_insert_ok [OF rep, of s m] v by auto
  next
    case (ZRemove s m)
    then show ?thesis using skip_remove_ok [OF rep, of s m] v by auto
  qed (use rep in \<open>simp_all add: score_of_ok range_by_score_ok range_by_rank_ok\<close>)
qed

lemma skip_range_filter:
  assumes "skip_rep sl zs" "\<not> f64_nan mn"
  shows "range_by_score sl mn mx = Some (filter (\<lambda>z. f64_le mn (fst z) \<and> f64_le (fst z) mx) zs)"
proof -
  have "\<not> f64_less (fst z) mn \<longleftrightarrow> f64_le mn (fst z)" if "z \<in> set zs" for z
    using assms that by (auto simp: skip_rep_def zset_ok_def f64_compare)
  then show ?thesis
    using range_by_score_ok [OF assms(1)] by (auto intro!: filter_cong)
qed

section \<open>Properties\<close>

text \<open>
  C5. Any sequence of insertions, removals and queries on a new skip list, whatever levels the
  generator draws, returns without following a dead pointer, and answers as a list of members sorted
  by score and name, one score for each member.
\<close>

theorem skip_list_refines_zset:
  assumes "\<forall>x \<in> set ops. zset_valid x"
  shows "\<exists>sl. run_ops skip_step (skip_new draws) ops = Some (fst (run_spec zset_step [] ops), sl) \<and>
    skip_rep sl (snd (run_spec zset_step [] ops)) \<and> zset_ok (snd (run_spec zset_step [] ops))"
  using skip.runs_answer [OF skip_new_ok assms, of draws] by (auto simp: skip_rep_def)

theorem skip_list_refines_zset_witness:
  "\<exists>sl. run_ops skip_step (skip_new even) [ZInsert (F64_Fin False 1) ''b'', ZInsert (F64_Fin False 0) ''b'', ZByRank 0 5] =
     Some ([ZUnit, ZUnit, ZEntries [(F64_Fin False 0, ''b'')]], sl)"
proof -
  let ?ops = "[ZInsert (F64_Fin False 1) ''b'', ZInsert (F64_Fin False 0) ''b'', ZByRank 0 5]"
  have "fst (run_spec zset_step [] ?ops) = [ZUnit, ZUnit, ZEntries [(F64_Fin False 0, ''b'')]]"
    by (simp add: zset_insert_def zset_place_def zset_has_def)
  with skip_list_refines_zset [of ?ops even] show ?thesis by auto
qed

text \<open>
  A range by score lists exactly the members whose score lies within the bounds, in order.
\<close>

theorem skip_range_exact:
  assumes "skip_rep sl zs" "\<not> f64_nan mn"
  shows "range_by_score sl mn mx = Some (filter (\<lambda>z. f64_le mn (fst z) \<and> f64_le (fst z) mx) zs)"
  by (rule skip_range_filter [OF assms])

theorem skip_range_exact_witness:
  "range_by_score (skip_new even) (F64_Fin True 3) (F64_Inf False) = Some []"
  using skip_range_exact [OF skip_new_ok, of "F64_Fin True 3" even "F64_Inf False"] by simp

end
