(* ===== verification/Sorted_Set.thy ===== *)
theory Sorted_Set
  imports Skip_List_Proofs
begin

text \<open>
  The sorted sets of \<^verbatim>\<open>src/sorted_set/sorted_set_engine.cpp\<close> (class
  \<^verbatim>\<open>SortedSetEngine\<close>): a map from keys to skip lists, and its refinement of a map from keys
  to sorted lists of scored members. Every new skip list seeds its generator alike, so that \<open>draws\<close>, the
  outcomes of the seeded generator, is the same for all.
\<close>

section \<open>Operations\<close>

type_synonym zset_engine = "string \<rightharpoonup> skiplist"

definition get_or_create :: "(nat \<Rightarrow> bool) \<Rightarrow> zset_engine \<Rightarrow> string \<Rightarrow> skiplist" where
  "get_or_create draws Z key = (case Z key of Some sl \<Rightarrow> sl | None \<Rightarrow> skip_new draws)"

definition zadd :: "(nat \<Rightarrow> bool) \<Rightarrow> zset_engine \<Rightarrow> string \<Rightarrow> f64 \<Rightarrow> string \<Rightarrow> (int \<times> zset_engine) option" where
  "zadd draws Z key score member =
     (let sl = get_or_create draws Z key; is_new = score_of sl member = None in
      do { sl' \<leftarrow> skip_insert sl score member; Some (if is_new then 1 else 0, Z(key \<mapsto> sl')) })"

definition zrem :: "zset_engine \<Rightarrow> string \<Rightarrow> string \<Rightarrow> (bool \<times> zset_engine) option" where
  "zrem Z key member =
     (case Z key of
        None \<Rightarrow> Some (False, Z)
      | Some sl \<Rightarrow>
          (case score_of sl member of
             None \<Rightarrow> Some (False, Z)
           | Some sc \<Rightarrow> do { (removed, sl') \<leftarrow> skip_remove sl sc member; Some (removed, Z(key \<mapsto> sl')) }))"

definition zscore :: "zset_engine \<Rightarrow> string \<Rightarrow> string \<Rightarrow> f64 option" where
  "zscore Z key member = (case Z key of None \<Rightarrow> None | Some sl \<Rightarrow> score_of sl member)"

definition zrange :: "zset_engine \<Rightarrow> string \<Rightarrow> int \<Rightarrow> int \<Rightarrow> (f64 \<times> string) list option" where
  "zrange Z key start stop = (case Z key of None \<Rightarrow> Some [] | Some sl \<Rightarrow> range_by_rank sl start stop)"

definition zrangebyscore :: "zset_engine \<Rightarrow> string \<Rightarrow> f64 \<Rightarrow> f64 \<Rightarrow> (f64 \<times> string) list option" where
  "zrangebyscore Z key mn mx = (case Z key of None \<Rightarrow> Some [] | Some sl \<Rightarrow> range_by_score sl mn mx)"

definition zcard :: "zset_engine \<Rightarrow> string \<Rightarrow> int" where
  "zcard Z key = (case Z key of None \<Rightarrow> 0 | Some sl \<Rightarrow> int (sl_size sl))"

fun position :: "string \<Rightarrow> (f64 \<times> string) list \<Rightarrow> int \<Rightarrow> int" where
  "position member [] i = -1"
| "position member (z # zs) i = (if snd z = member then i else position member zs (i + 1))"

definition zrank :: "zset_engine \<Rightarrow> string \<Rightarrow> string \<Rightarrow> int option" where
  "zrank Z key member =
     (case Z key of
        None \<Rightarrow> Some (-1)
      | Some sl \<Rightarrow>
          if score_of sl member = None then Some (-1)
          else do { results \<leftarrow> range_by_rank sl 0 (int (sl_size sl)); Some (position member results 0) })"

section \<open>The abstract sets\<close>

text \<open>A key without a skip list has the empty set.\<close>

definition zsets_rep :: "zset_engine \<Rightarrow> (string \<Rightarrow> zset) \<Rightarrow> bool" where
  "zsets_rep Z A \<longleftrightarrow> (\<forall>key. case Z key of None \<Rightarrow> A key = [] | Some sl \<Rightarrow> skip_rep sl (A key))"

lemma zsets_repD:
  assumes "zsets_rep Z A"
  shows "Z key = None \<Longrightarrow> A key = []" "Z key = Some sl \<Longrightarrow> skip_rep sl (A key)"
  using assms unfolding zsets_rep_def by (auto dest: spec [of _ key])

lemma zsets_rep_upd: "zsets_rep Z A \<Longrightarrow> skip_rep sl zs \<Longrightarrow> zsets_rep (Z(key \<mapsto> sl)) (A(key := zs))"
  unfolding zsets_rep_def by (metis fun_upd_apply option.simps(5))

lemma zsets_rep_new: "zsets_rep Map.empty (\<lambda>_. [])"
  by (simp add: zsets_rep_def)

lemma zsets_created: "zsets_rep Z A \<Longrightarrow> skip_rep (get_or_create draws Z key) (A key)"
  using zsets_repD [of Z A key] skip_new_ok
  by (cases "Z key") (auto simp: get_or_create_def)

lemma zset_ok_of: "zsets_rep Z A \<Longrightarrow> zset_ok (A key)"
  using zsets_repD [of Z A key] by (cases "Z key") (auto simp: skip_rep_def zset_ok_def)

datatype zs_op =
    ZAdd string f64 string
  | ZRem string string
  | ZScoreOf string string
  | ZRange string int int
  | ZRangeByScore string f64 f64
  | ZCard string
  | ZRank string string

datatype zs_reply = ZInt int | ZScoreReply "f64 option" | ZList zset

fun zs_step :: "(nat \<Rightarrow> bool) \<Rightarrow> zset_engine \<Rightarrow> zs_op \<Rightarrow> (zs_reply \<times> zset_engine) option" where
  "zs_step draws Z (ZAdd k s m) = map_option (map_prod ZInt id) (zadd draws Z k s m)"
| "zs_step draws Z (ZRem k m) = map_option (map_prod (\<lambda>b. ZInt (if b then 1 else 0)) id) (zrem Z k m)"
| "zs_step draws Z (ZScoreOf k m) = Some (ZScoreReply (zscore Z k m), Z)"
| "zs_step draws Z (ZRange k i j) = map_option (\<lambda>r. (ZList r, Z)) (zrange Z k i j)"
| "zs_step draws Z (ZRangeByScore k mn mx) = map_option (\<lambda>r. (ZList r, Z)) (zrangebyscore Z k mn mx)"
| "zs_step draws Z (ZCard k) = Some (ZInt (zcard Z k), Z)"
| "zs_step draws Z (ZRank k m) = map_option (\<lambda>r. (ZInt r, Z)) (zrank Z k m)"

definition zset_score :: "zset \<Rightarrow> string \<Rightarrow> f64 option" where
  "zset_score zs m = map_of (map prod.swap zs) m"

text \<open>The rank of a member is the number of members before it, -1 if it is none.\<close>

definition zset_rank :: "zset \<Rightarrow> string \<Rightarrow> int" where
  "zset_rank zs m = (if m \<in> snd ` set zs then int (length (takeWhile (\<lambda>z. snd z \<noteq> m) zs)) else -1)"

definition zset_drop :: "string \<Rightarrow> zset \<Rightarrow> zset" where
  "zset_drop m zs = filter (\<lambda>z. snd z \<noteq> m) zs"

fun zs_spec :: "(string \<Rightarrow> zset) \<Rightarrow> zs_op \<Rightarrow> zs_reply \<times> (string \<Rightarrow> zset)" where
  "zs_spec A (ZAdd k s m) = (ZInt (if zset_score (A k) m = None then 1 else 0), A(k := zset_insert s m (A k)))"
| "zs_spec A (ZRem k m) = (ZInt (if zset_score (A k) m = None then 0 else 1), A(k := zset_drop m (A k)))"
| "zs_spec A (ZScoreOf k m) = (ZScoreReply (zset_score (A k) m), A)"
| "zs_spec A (ZRange k i j) = (ZList (drop (nat i) (take (nat (j + 1)) (A k))), A)"
| "zs_spec A (ZRangeByScore k mn mx) = (ZList (filter (\<lambda>z. \<not> f64_less (fst z) mn \<and> f64_le (fst z) mx) (A k)), A)"
| "zs_spec A (ZCard k) = (ZInt (int (length (A k))), A)"
| "zs_spec A (ZRank k m) = (ZInt (zset_rank (A k) m), A)"

fun zs_valid :: "zs_op \<Rightarrow> bool" where
  "zs_valid (ZAdd k s m) \<longleftrightarrow> \<not> f64_nan s"
| "zs_valid _ \<longleftrightarrow> True"

section \<open>Refinement\<close>

lemma zset_score_None: "zset_score zs m = None \<longleftrightarrow> m \<notin> snd ` set zs"
  by (simp add: zset_score_def map_of_eq_None_iff image_comp)

lemma zset_score_Some: "zset_score zs m = Some s \<Longrightarrow> (s, m) \<in> set zs"
  by (auto simp: zset_score_def dest: map_of_SomeD)

lemma zset_remove_member:
  assumes "zset_ok zs" "(s, m) \<in> set zs"
  shows "zset_remove s m zs = zset_drop m zs" "zset_has s m zs"
proof -
  have d: "inj_on snd (set zs)" using assms(1) by (simp add: zset_ok_def distinct_map)
  have "zkey z = zkey (s, m) \<longleftrightarrow> snd z = m" if "z \<in> set zs" for z
  proof
    assume "snd z = m"
    then have "z = (s, m)" using inj_onD [OF d _ that assms(2)] by simp
    then show "zkey z = zkey (s, m)" by simp
  qed (simp add: zkey_pair)
  then show "zset_remove s m zs = zset_drop m zs"
    unfolding zset_remove_def zset_drop_def by (intro filter_cong refl) simp
  show "zset_has s m zs" using assms(2) unfolding zset_has_def by blast
qed

lemma position_ok: "position m zs i = (if m \<in> snd ` set zs then i + int (length (takeWhile (\<lambda>z. snd z \<noteq> m) zs)) else -1)"
  by (induction zs arbitrary: i) auto

lemma zadd_ok:
  assumes "zsets_rep Z A" "\<not> f64_nan s"
  shows "\<exists>Z'. zadd draws Z k s m = Some (if zset_score (A k) m = None then 1 else 0, Z') \<and>
    zsets_rep Z' (A(k := zset_insert s m (A k)))"
proof -
  note rep = zsets_created [OF assms(1), of draws k]
  obtain sl' where "skip_insert (get_or_create draws Z k) s m = Some sl'" "skip_rep sl' (zset_insert s m (A k))"
    using skip_insert_ok [OF rep assms(2)] by blast
  then show ?thesis
    using score_of_ok [OF rep, of m] zsets_rep_upd [OF assms(1)]
    by (simp add: zadd_def Let_def zset_score_def)
qed

lemma zrem_ok:
  assumes "zsets_rep Z A"
  shows "\<exists>Z'. zrem Z k m = Some (zset_score (A k) m \<noteq> None, Z') \<and> zsets_rep Z' (A(k := zset_drop m (A k)))"
proof (cases "Z k")
  case None
  then have "A k = []" by (rule zsets_repD(1) [OF assms])
  then show ?thesis
    using assms None by (simp add: zrem_def zset_score_def zset_drop_def) (metis fun_upd_triv)
next
  case (Some sl)
  note rep = zsets_repD(2) [OF assms Some]
  have sc: "score_of sl m = zset_score (A k) m" using score_of_ok [OF rep] by (simp add: zset_score_def)
  show ?thesis
  proof (cases "zset_score (A k) m")
    case None
    then have "zset_drop m (A k) = A k"
      by (auto simp: zset_score_None zset_drop_def filter_id_conv)
    then show ?thesis
      using assms Some sc None by (simp add: zrem_def)
  next
    case (Some s)
    have ok: "zset_ok (A k)" using rep by (simp add: skip_rep_def)
    have sm: "(s, m) \<in> set (A k)" by (rule zset_score_Some [OF Some])
    then have "\<not> f64_nan s" using ok by (auto simp: zset_ok_def)
    then obtain sl' where "skip_remove sl s m = Some (True, sl')" "skip_rep sl' (zset_drop m (A k))"
      using skip_remove_ok [OF rep, of s m] zset_remove_member [OF ok sm] by auto
    then show ?thesis
      using \<open>Z k = Some sl\<close> sc Some zsets_rep_upd [OF assms] by (simp add: zrem_def)
  qed
qed

lemma zrank_ok:
  assumes "zsets_rep Z A"
  shows "zrank Z k m = Some (zset_rank (A k) m)"
proof (cases "Z k")
  case None
  then show ?thesis using zsets_repD(1) [OF assms] by (simp add: zrank_def zset_rank_def)
next
  case (Some sl)
  note rep = zsets_repD(2) [OF assms Some]
  have "range_by_rank sl 0 (int (sl_size sl)) = Some (A k)"
    using range_by_rank_ok [OF rep, of 0 "int (sl_size sl)"] rep by (simp add: skip_rep_def)
  then show ?thesis
    using Some score_of_ok [OF rep, of m] zset_score_None [of "A k" m]
    by (simp add: zrank_def zset_rank_def position_ok zset_score_def)
qed

interpretation zsets: answering "zs_step draws" zs_spec zsets_rep zs_valid for draws
proof
  fix Z A x
  assume rep: "zsets_rep Z A" and v: "zs_valid x"
  have ranges: "zrange Z k i j = Some (drop (nat i) (take (nat (j + 1)) (A k)))"
    "zrangebyscore Z k mn mx = Some (filter (\<lambda>z. \<not> f64_less (fst z) mn \<and> f64_le (fst z) mx) (A k))"
    "zcard Z k = int (length (A k))" "zscore Z k m = zset_score (A k) m" for k i j mn mx m
  proof -
    show "zrange Z k i j = Some (drop (nat i) (take (nat (j + 1)) (A k)))"
      using zsets_repD [OF rep, of k] by (cases "Z k") (simp_all add: zrange_def range_by_rank_ok)
    show "zrangebyscore Z k mn mx = Some (filter (\<lambda>z. \<not> f64_less (fst z) mn \<and> f64_le (fst z) mx) (A k))"
      using zsets_repD [OF rep, of k] by (cases "Z k") (simp_all add: zrangebyscore_def range_by_score_ok)
    show "zcard Z k = int (length (A k))"
      using zsets_repD [OF rep, of k] by (cases "Z k") (simp_all add: zcard_def skip_rep_def)
    show "zscore Z k m = zset_score (A k) m"
      using zsets_repD [OF rep, of k] by (cases "Z k") (simp_all add: zscore_def zset_score_def score_of_ok)
  qed
  show "\<exists>Z'. zs_step draws Z x = Some (fst (zs_spec A x), Z') \<and> zsets_rep Z' (snd (zs_spec A x))"
  proof (cases x)
    case (ZAdd k s m)
    then have "\<not> f64_nan s" using v by simp
    from zadd_ok [OF rep this, of draws k m] obtain Z' where
      "zadd draws Z k s m = Some (if zset_score (A k) m = None then 1 else 0, Z')" "zsets_rep Z' (A(k := zset_insert s m (A k)))"
      by blast
    then show ?thesis unfolding ZAdd by simp
  next
    case (ZRem k m)
    from zrem_ok [OF rep, of k m] obtain Z' where
      "zrem Z k m = Some (zset_score (A k) m \<noteq> None, Z')" "zsets_rep Z' (A(k := zset_drop m (A k)))"
      by blast
    then show ?thesis unfolding ZRem by (simp del: not_None_eq)
  qed (use rep in \<open>simp_all add: ranges zrank_ok\<close>)
qed

section \<open>Properties\<close>

text \<open>
  C13. Any sequence of commands on the sorted sets without NaN scores returns and answers as a map from
  keys to sorted lists does: a member has one score, ranks count the members before it.
\<close>

theorem sorted_sets_refine:
  assumes "\<forall>x \<in> set ops. zs_valid x"
  shows "\<exists>Z. run_ops (zs_step draws) Map.empty ops = Some (fst (run_spec zs_spec (\<lambda>_. []) ops), Z) \<and>
    zsets_rep Z (snd (run_spec zs_spec (\<lambda>_. []) ops))"
  by (rule zsets.runs_answer [OF zsets_rep_new assms])

theorem sorted_sets_refine_witness:
  "\<exists>Z. run_ops (zs_step even) Map.empty
      [ZAdd ''k'' (F64_Fin False 2) ''a'', ZAdd ''k'' (F64_Fin False 1) ''b'', ZRank ''k'' ''a'', ZRem ''k'' ''b'', ZRank ''k'' ''a''] =
    Some ([ZInt 1, ZInt 1, ZInt 1, ZInt 1, ZInt 0], Z)"
proof -
  let ?ops = "[ZAdd ''k'' (F64_Fin False 2) ''a'', ZAdd ''k'' (F64_Fin False 1) ''b'', ZRank ''k'' ''a'', ZRem ''k'' ''b'', ZRank ''k'' ''a'']"
  have "fst (run_spec zs_spec (\<lambda>_. []) ?ops) = [ZInt 1, ZInt 1, ZInt 1, ZInt 1, ZInt 0]"
    by (simp add: zset_insert_def zset_place_def zset_has_def zset_rank_def zset_score_def zset_drop_def image_iff)
  with sorted_sets_refine [of ?ops even] show ?thesis by auto
qed

end
