(* ===== verification/Cxx_Text.thy ===== *)
theory Cxx_Text
  imports Prelude
begin

text \<open>
  The part of the C++ library that the program uses to read and print numbers in byte strings:
  \<^verbatim>\<open>std::to_string\<close> on integers, \<^verbatim>\<open>std::atoi\<close> (the C library's saturating
  \<^verbatim>\<open>strtol\<close>, cut to 32 bits), the conversion of an integer to \<^verbatim>\<open>int\<close>, and
  \<^verbatim>\<open>substr\<close>. A byte string is a list of characters.
\<close>

section \<open>Fixed-width integers\<close>

definition to_i32 :: "int \<Rightarrow> int" where
  "to_i32 i = sint (word_of_int i :: 32 word)"

definition to_i64 :: "int \<Rightarrow> int" where
  "to_i64 i = sint (word_of_int i :: 64 word)"

lemma to_i32_id [narrow]: "- (2 ^ 31) \<le> i \<Longrightarrow> i < 2 ^ 31 \<Longrightarrow> to_i32 i = i"
  by (simp add: to_i32_def signed_of_int signed_take_bit_int_eq_self)

lemma to_i32_nat [narrow]: "n < 2 ^ 31 \<Longrightarrow> to_i32 (int n) = int n"
  by (simp add: to_i32_id)

text \<open>An \<^verbatim>\<open>int\<close> converted to \<^verbatim>\<open>size_t\<close>.\<close>

definition to_u64 :: "int \<Rightarrow> nat" where
  "to_u64 i = nat (i mod 2 ^ 64)"

lemma to_u64_nonneg [narrow]: "0 \<le> i \<Longrightarrow> i < 2 ^ 64 \<Longrightarrow> to_u64 i = nat i"
  by (simp add: to_u64_def)

section \<open>Decimal numbers\<close>

definition digit_char :: "nat \<Rightarrow> char" where
  "digit_char d = char_of (48 + d)"

definition is_digit :: "char \<Rightarrow> bool" where
  "is_digit c \<longleftrightarrow> 48 \<le> (of_char c :: nat) \<and> (of_char c :: nat) \<le> 57"

definition digit_val :: "char \<Rightarrow> nat" where
  "digit_val c = of_char c - 48"

fun nat_dec :: "nat \<Rightarrow> string" where
  "nat_dec n = (if n < 10 then [digit_char n] else nat_dec (n div 10) @ [digit_char (n mod 10)])"

declare nat_dec.simps [simp del]

definition int_dec :: "int \<Rightarrow> string" where
  "int_dec i = (if i < 0 then CHR ''-'' # nat_dec (nat (- i)) else nat_dec (nat i))"

lemma of_char_digit: "d < 10 \<Longrightarrow> (of_char (digit_char d) :: nat) = 48 + d"
  by (simp add: digit_char_def)

lemma digit_char_simps [simp]:
  "d < 10 \<Longrightarrow> is_digit (digit_char d)" "d < 10 \<Longrightarrow> digit_val (digit_char d) = d"
  by (simp_all add: is_digit_def digit_val_def of_char_digit)

lemma nat_dec_digits: "\<forall>c \<in> set (nat_dec n). is_digit c"
  by (induction n rule: nat_dec.induct) (subst nat_dec.simps, auto)

lemma nat_dec_ne [simp]: "nat_dec n \<noteq> []"
  by (subst nat_dec.simps) simp

lemma length_nat_dec: "length (nat_dec n) \<le> Suc n"
proof (induction n rule: less_induct)
  case (less n)
  show ?case
    using less [of "n div 10"] by (subst nat_dec.simps) auto
qed

section \<open>Reading numbers\<close>

text \<open>\<^verbatim>\<open>isspace\<close> in the C locale.\<close>

definition is_space :: "char \<Rightarrow> bool" where
  "is_space c \<longleftrightarrow> c = CHR '' '' \<or> (9 \<le> (of_char c :: nat) \<and> (of_char c :: nat) \<le> 13)"

fun dec_prefix :: "nat \<Rightarrow> string \<Rightarrow> nat" where
  "dec_prefix acc [] = acc"
| "dec_prefix acc (c # cs) =
     (if is_digit c then dec_prefix (acc * 10 + digit_val c) cs else acc)"

text \<open>The value that \<^verbatim>\<open>strtol\<close> reads: white space, a sign, digits.\<close>

definition signed_dec :: "string \<Rightarrow> int" where
  "signed_dec s =
     (case dropWhile is_space s of
        [] \<Rightarrow> 0
      | c # cs \<Rightarrow>
          if c = CHR ''-'' then - int (dec_prefix 0 cs)
          else if c = CHR ''+'' then int (dec_prefix 0 cs)
          else int (dec_prefix 0 (c # cs)))"

definition strtol :: "string \<Rightarrow> int" where
  "strtol s = max (- (2 ^ 63)) (min (2 ^ 63 - 1) (signed_dec s))"

definition atoi :: "string \<Rightarrow> int" where
  "atoi s = to_i32 (strtol s)"

lemma dec_prefix_append:
  "\<forall>c \<in> set ds. is_digit c \<Longrightarrow> dec_prefix acc (ds @ rest) = dec_prefix (dec_prefix acc ds) rest"
  by (induction ds arbitrary: acc) auto

lemma dec_prefix_nat_dec: "dec_prefix 0 (nat_dec n) = n"
proof (induction n rule: less_induct)
  case (less n)
  show ?case
  proof (cases "n < 10")
    case True
    then show ?thesis by (subst nat_dec.simps) simp
  next
    case False
    then show ?thesis
      using less [of "n div 10"] dec_prefix_append [OF nat_dec_digits, of 0 "n div 10" "[digit_char (n mod 10)]"]
      by (subst nat_dec.simps) simp
  qed
qed

lemma dec_prefix_read:
  assumes "rest = [] \<or> \<not> is_digit (hd rest)"
  shows "dec_prefix 0 (nat_dec n @ rest) = n"
proof -
  have "dec_prefix n rest = n"
    using assms by (cases rest) auto
  then show ?thesis
    by (simp add: dec_prefix_append [OF nat_dec_digits] dec_prefix_nat_dec)
qed

lemma is_digit_not:
  "is_digit c \<Longrightarrow> \<not> is_space c" "is_digit c \<Longrightarrow> c \<noteq> CHR ''-''" "is_digit c \<Longrightarrow> c \<noteq> CHR ''+''"
  "is_digit c \<Longrightarrow> c \<noteq> CHR 0x0D"
  by (auto simp: is_digit_def is_space_def)

lemma signed_dec_read:
  assumes "rest = [] \<or> \<not> is_digit (hd rest)"
  shows "signed_dec (nat_dec n @ rest) = int n" "signed_dec (CHR ''-'' # nat_dec n @ rest) = - int n"
proof -
  obtain c cs where c: "nat_dec n = c # cs" "is_digit c"
    using nat_dec_digits [of n] by (cases "nat_dec n") auto
  show "signed_dec (nat_dec n @ rest) = int n"
    using dec_prefix_read [OF assms, of n] is_digit_not [OF c(2)] by (simp add: signed_dec_def c(1))
  show "signed_dec (CHR ''-'' # nat_dec n @ rest) = - int n"
    using dec_prefix_read [OF assms, of n] by (simp add: signed_dec_def is_space_def)
qed

lemma atoi_read:
  assumes "rest = [] \<or> \<not> is_digit (hd rest)" "n < 2 ^ 31"
  shows "atoi (nat_dec n @ rest) = int n" "atoi (CHR ''-'' # nat_dec n @ rest) = - int n"
proof -
  have n: "int n < 2 ^ 31" "0 \<le> int n"
    using assms(2) by simp_all
  have "max (- (2 ^ 63)) (min (2 ^ 63 - 1) (int n)) = int n"
    "max (- (2 ^ 63)) (min (2 ^ 63 - 1) (- int n)) = - int n"
    using n by simp_all
  then show "atoi (nat_dec n @ rest) = int n" "atoi (CHR ''-'' # nat_dec n @ rest) = - int n"
    using n by (simp_all add: atoi_def strtol_def signed_dec_read [OF assms(1)] to_i32_id)
qed

section \<open>Substrings\<close>

text \<open>
  \<^verbatim>\<open>s.substr(pos, n)\<close> for \<open>pos \<le> s.size()\<close>, the only way the program calls it: at most \<open>n\<close> bytes
  from \<open>pos\<close>. (It throws for a larger \<open>pos\<close>.)
\<close>

definition substr :: "string \<Rightarrow> nat \<Rightarrow> nat \<Rightarrow> string" where
  "substr s pos n = take n (drop pos s)"

text \<open>\<^verbatim>\<open>s.find(c, start)\<close>: the first index from \<open>start\<close> on that holds \<open>c\<close>.\<close>

fun index_of :: "char \<Rightarrow> string \<Rightarrow> nat option" where
  "index_of c [] = None"
| "index_of c (d # ds) = (if d = c then Some 0 else map_option Suc (index_of c ds))"

definition find_char :: "string \<Rightarrow> char \<Rightarrow> nat \<Rightarrow> nat option" where
  "find_char s c start = map_option ((+) start) (index_of c (drop start s))"

lemma index_of_Some:
  "index_of c s = Some i \<longleftrightarrow> i < length s \<and> s ! i = c \<and> c \<notin> set (take i s)"
proof (induction s arbitrary: i)
  case (Cons d s)
  then show ?case by (cases i) auto
qed simp

lemma index_of_None: "index_of c s = None \<longleftrightarrow> c \<notin> set s"
  by (induction s) auto

end
