(* ===== verification/Cxx_Numbers.thy ===== *)
theory Cxx_Numbers
  imports Cxx_Text F32 F64
begin

text \<open>
  The conversions of the C++ library between text and numbers that the command handlers use:
  \<^verbatim>\<open>stoi\<close>, \<^verbatim>\<open>stoll\<close>, \<^verbatim>\<open>stof\<close>,
  \<^verbatim>\<open>stod\<close> with the exceptions they throw, \<^verbatim>\<open>to_string\<close> on floating
  values, and \<^verbatim>\<open>toupper\<close>. Decimal text is rounded once, to nearest even, as the C
  library does. The sign of a NaN is not kept, and \<^verbatim>\<open>what()\<close> is the name of the
  throwing function, as in libstdc++.
\<close>

section \<open>Exceptions\<close>

datatype cxx_exn = InvalidArgument string | OutOfRange string

fun exn_what :: "cxx_exn \<Rightarrow> string" where
  "exn_what (InvalidArgument w) = w"
| "exn_what (OutOfRange w) = w"

section \<open>Integers\<close>

definition drop_sign :: "string \<Rightarrow> string" where
  "drop_sign s = (case s of [] \<Rightarrow> [] | c # cs \<Rightarrow> if c = CHR ''-'' \<or> c = CHR ''+'' then cs else s)"

definition has_sign :: "string \<Rightarrow> bool" where
  "has_sign s \<longleftrightarrow> (case s of [] \<Rightarrow> False | c # cs \<Rightarrow> c = CHR ''-'')"

text \<open>Whether \<^verbatim>\<open>strtol\<close> converts anything.\<close>

definition starts_number :: "string \<Rightarrow> bool" where
  "starts_number s = (case drop_sign (dropWhile is_space s) of [] \<Rightarrow> False | c # cs \<Rightarrow> is_digit c)"

definition sto_int :: "string \<Rightarrow> int \<Rightarrow> string \<Rightarrow> cxx_exn + int" where
  "sto_int fname bound s =
     (if \<not> starts_number s then Inl (InvalidArgument fname)
      else if signed_dec s < - bound \<or> bound \<le> signed_dec s then Inl (OutOfRange fname)
      else Inr (signed_dec s))"

definition stoi :: "string \<Rightarrow> cxx_exn + int" where
  "stoi s = sto_int ''stoi'' (2 ^ 31) s"

definition stoll :: "string \<Rightarrow> cxx_exn + int" where
  "stoll s = sto_int ''stoll'' (2 ^ 63) s"

section \<open>Rounding a quotient\<close>

text \<open>\<open>n / d\<close> rounded to \<open>p\<close> significant bits, but to no finer than a unit.\<close>

definition round_ratio :: "nat \<Rightarrow> nat \<Rightarrow> nat \<Rightarrow> nat" where
  "round_ratio p n d = (let e = floorlog 2 (n div d) - p in half_even n (d * 2 ^ e) * 2 ^ e)"

text \<open>
  The outcome of a conversion to a format of \<open>p\<close> bits with units of \<open>2 ^ -u\<close> and magnitudes below
  \<open>2 ^ hi\<close> units: too large, or inexact and still below the normal range after rounding to \<open>p\<close> bits,
  is a range error.
\<close>

datatype conversion = In_Range nat | Range_Error

definition convert :: "nat \<Rightarrow> nat \<Rightarrow> nat \<Rightarrow> nat \<Rightarrow> nat \<Rightarrow> conversion" where
  "convert p u hi n d =
     (let scaled = n * 2 ^ u; r = round_ratio p scaled d in
      if 2 ^ hi \<le> r then Range_Error
      else if r * d \<noteq> scaled \<and> half_even (2 * scaled) d < 2 ^ p then Range_Error
      else In_Range r)"

section \<open>The grammar of floating values\<close>

definition lower_char :: "char \<Rightarrow> char" where
  "lower_char c = (if 65 \<le> (of_char c :: nat) \<and> (of_char c :: nat) \<le> 90 then char_of (of_char c + 32 :: nat) else c)"

definition upper_char :: "char \<Rightarrow> char" where
  "upper_char c = (if 97 \<le> (of_char c :: nat) \<and> (of_char c :: nat) \<le> 122 then char_of (of_char c - 32 :: nat) else c)"

definition is_xdigit :: "char \<Rightarrow> bool" where
  "is_xdigit c \<longleftrightarrow> is_digit c \<or> (97 \<le> (of_char (lower_char c) :: nat) \<and> (of_char (lower_char c) :: nat) \<le> 102)"

definition xdigit_val :: "char \<Rightarrow> nat" where
  "xdigit_val c = (if is_digit c then digit_val c else of_char (lower_char c) - 87)"

definition digits_value :: "nat \<Rightarrow> string \<Rightarrow> nat" where
  "digits_value base ds = foldl (\<lambda>acc c. acc * base + xdigit_val c) 0 ds"

text \<open>Digits, a point and digits: their number, the count of those after the point, and the rest.\<close>

definition split_mantissa :: "(char \<Rightarrow> bool) \<Rightarrow> string \<Rightarrow> string \<times> nat \<times> string" where
  "split_mantissa digit s =
     (let ds = takeWhile digit s; rest = dropWhile digit s in
      case rest of
        [] \<Rightarrow> (ds, 0, rest)
      | c # cs \<Rightarrow>
          if c = CHR ''.'' then (ds @ takeWhile digit cs, length (takeWhile digit cs), dropWhile digit cs)
          else (ds, 0, rest))"

text \<open>An exponent, if the letter is followed by one; otherwise 0.\<close>

definition read_exponent :: "char \<Rightarrow> string \<Rightarrow> int" where
  "read_exponent letter s =
     (case s of
        [] \<Rightarrow> 0
      | c # cs \<Rightarrow>
          if lower_char c = letter \<and> takeWhile is_digit (drop_sign cs) \<noteq> []
          then (if has_sign cs then -1 else 1) * int (digits_value 10 (takeWhile is_digit (drop_sign cs)))
          else 0)"

datatype parsed_float = No_Float | Parsed_NaN | Parsed_Inf | Parsed_Ratio nat nat

definition power_ratio :: "nat \<Rightarrow> nat \<Rightarrow> int \<Rightarrow> parsed_float" where
  "power_ratio m base e = (if 0 \<le> e then Parsed_Ratio (m * base ^ nat e) 1 else Parsed_Ratio m (base ^ nat (- e)))"

definition parse_decimal :: "string \<Rightarrow> parsed_float" where
  "parse_decimal s =
     (case split_mantissa is_digit s of (ds, k, rest) \<Rightarrow>
        if ds = [] then No_Float
        else power_ratio (digits_value 10 ds) 10 (read_exponent (CHR ''e'') rest - int k))"

text \<open>After \<^verbatim>\<open>0x\<close>; without a hexadecimal digit only the zero was read.\<close>

definition parse_hex :: "string \<Rightarrow> parsed_float" where
  "parse_hex s =
     (case split_mantissa is_xdigit s of (ds, k, rest) \<Rightarrow>
        if ds = [] then Parsed_Ratio 0 1
        else power_ratio (digits_value 16 ds) 2 (read_exponent (CHR ''p'') rest - 4 * int k))"

text \<open>The text after white space and a sign.\<close>

definition parse_float :: "string \<Rightarrow> parsed_float" where
  "parse_float s =
     (let low = map lower_char s in
      if take 3 low = ''inf'' then Parsed_Inf
      else if take 3 low = ''nan'' then Parsed_NaN
      else if take 2 low = ''0x'' then parse_hex (drop 2 s)
      else parse_decimal s)"

definition stod :: "string \<Rightarrow> cxx_exn + f64" where
  "stod s =
     (let t = dropWhile is_space s; neg = has_sign t in
      case parse_float (drop_sign t) of
        No_Float \<Rightarrow> Inl (InvalidArgument ''stod'')
      | Parsed_NaN \<Rightarrow> Inr F64_NaN
      | Parsed_Inf \<Rightarrow> Inr (F64_Inf neg)
      | Parsed_Ratio n d \<Rightarrow>
          (case convert 53 1074 2098 n d of
             Range_Error \<Rightarrow> Inl (OutOfRange ''stod'')
           | In_Range m \<Rightarrow> Inr (F64_Fin neg m)))"

definition stof :: "string \<Rightarrow> cxx_exn + f32" where
  "stof s =
     (let t = dropWhile is_space s; neg = has_sign t in
      case parse_float (drop_sign t) of
        No_Float \<Rightarrow> Inl (InvalidArgument ''stof'')
      | Parsed_NaN \<Rightarrow> Inr F32_NaN
      | Parsed_Inf \<Rightarrow> Inr (F32_Inf neg)
      | Parsed_Ratio n d \<Rightarrow>
          (case convert 24 149 277 n d of
             Range_Error \<Rightarrow> Inl (OutOfRange ''stof'')
           | In_Range m \<Rightarrow> Inr (F32_Fin neg m)))"

section \<open>Printing\<close>

text \<open>\<^verbatim>\<open>to_string\<close> prints with \<^verbatim>\<open>%f\<close>: six decimals, rounded from the exact value.\<close>

definition fixed6 :: "bool \<Rightarrow> nat \<Rightarrow> nat \<Rightarrow> string" where
  "fixed6 neg m u =
     (let n = half_even (m * 10 ^ 6) (2 ^ u); frac = nat_dec (n mod 10 ^ 6) in
      (if neg then ''-'' else []) @ nat_dec (n div 10 ^ 6) @ ''.'' @ replicate (6 - length frac) (CHR ''0'') @ frac)"

fun f64_text :: "f64 \<Rightarrow> string" where
  "f64_text (F64_Fin s m) = fixed6 s m 1074"
| "f64_text (F64_Inf s) = (if s then ''-inf'' else ''inf'')"
| "f64_text F64_NaN = ''nan''"

fun f32_text :: "f32 \<Rightarrow> string" where
  "f32_text (F32_Fin s m) = fixed6 s m 149"
| "f32_text (F32_Inf s) = (if s then ''-inf'' else ''inf'')"
| "f32_text F32_NaN = ''nan''"

section \<open>Reading back integers\<close>

lemma starts_number_int_dec: "starts_number (int_dec i)"
proof -
  obtain c cs where "nat_dec (nat \<bar>i\<bar>) = c # cs" "is_digit c"
    using nat_dec_digits [of "nat \<bar>i\<bar>"] by (cases "nat_dec (nat \<bar>i\<bar>)") auto
  then show ?thesis
    using is_digit_not [of c]
    by (cases "i < 0") (auto simp: starts_number_def drop_sign_def int_dec_def is_space_def)
qed

lemma signed_dec_int_dec: "signed_dec (int_dec i) = i"
  using signed_dec_read [of "[]"] by (simp add: int_dec_def)

lemma stoi_int_dec: "- (2 ^ 31) \<le> i \<Longrightarrow> i < 2 ^ 31 \<Longrightarrow> stoi (int_dec i) = Inr i"
  by (simp add: stoi_def sto_int_def starts_number_int_dec signed_dec_int_dec)

lemma int_dec_inj: "int_dec i = int_dec j \<longleftrightarrow> i = j"
  using signed_dec_int_dec by metis

end
