(* ===== verification/Property_Index.thy ===== *)
theory Property_Index
  imports Sorted_Set Cxx_Numbers
begin

text \<open>
  The index over numeric properties of \<^verbatim>\<open>src/index/property_index.cpp\<close> (class
  \<^verbatim>\<open>PropertyIndex\<close>): a skip list of node numbers for every pair of a label and a property,
  and for every node the history of its entries, and the proof that a range query finds exactly the
  nodes whose current value lies in the range.
\<close>

section \<open>State and operations\<close>

record prop_index =
  pi_indices :: "string \<rightharpoonup> skiplist"
  pi_entries :: "int \<rightharpoonup> (string \<times> f64) list"

definition pi_new :: prop_index where
  "pi_new = \<lparr>pi_indices = Map.empty, pi_entries = Map.empty\<rparr>"

definition make_key :: "string \<Rightarrow> string \<Rightarrow> string" where
  "make_key label prop = label @ ''.'' @ prop"

text \<open>\<^verbatim>\<open>node_entries_[node_id]\<close>, empty for a node without history.\<close>

definition entries_of :: "prop_index \<Rightarrow> int \<Rightarrow> (string \<times> f64) list" where
  "entries_of P nid = (case pi_entries P nid of None \<Rightarrow> [] | Some es \<Rightarrow> es)"

definition pi_add :: "(nat \<Rightarrow> bool) \<Rightarrow> prop_index \<Rightarrow> string \<Rightarrow> string \<Rightarrow> f64 \<Rightarrow> int \<Rightarrow> prop_index option" where
  "pi_add draws P label prop val nid =
     (let key = make_key label prop;
          sl = (case pi_indices P key of None \<Rightarrow> skip_new draws | Some sl \<Rightarrow> sl) in
      do { sl' \<leftarrow> skip_insert sl val (int_dec nid);
           Some \<lparr>pi_indices = (pi_indices P)(key \<mapsto> sl'),
                 pi_entries = (pi_entries P)(nid \<mapsto> entries_of P nid @ [(key, val)])\<rparr> })"

definition pi_remove :: "prop_index \<Rightarrow> string \<Rightarrow> string \<Rightarrow> f64 \<Rightarrow> int \<Rightarrow> prop_index option" where
  "pi_remove P label prop val nid =
     (let key = make_key label prop in
      do { indices \<leftarrow> (case pi_indices P key of
             None \<Rightarrow> Some (pi_indices P)
           | Some sl \<Rightarrow> do { (_, sl') \<leftarrow> skip_remove sl val (int_dec nid); Some ((pi_indices P)(key \<mapsto> sl')) });
           Some \<lparr>pi_indices = indices,
                 pi_entries = (pi_entries P)(nid \<mapsto>
                   filter (\<lambda>e. \<not> (fst e = key \<and> f64_eq (snd e) val)) (entries_of P nid))\<rparr> })"

text \<open>The loop of \<^verbatim>\<open>remove_node\<close> over the history of the node.\<close>

fun drop_entries :: "string \<Rightarrow> (string \<times> f64) list \<Rightarrow> (string \<rightharpoonup> skiplist) \<Rightarrow> (string \<rightharpoonup> skiplist) option" where
  "drop_entries member [] indices = Some indices"
| "drop_entries member ((key, val) # es) indices =
     (case indices key of
        None \<Rightarrow> drop_entries member es indices
      | Some sl \<Rightarrow>
          do { (_, sl') \<leftarrow> skip_remove sl val member; drop_entries member es (indices(key \<mapsto> sl')) })"

definition pi_remove_node :: "prop_index \<Rightarrow> int \<Rightarrow> prop_index option" where
  "pi_remove_node P nid =
     (case pi_entries P nid of
        None \<Rightarrow> Some P
      | Some es \<Rightarrow>
          do { indices \<leftarrow> drop_entries (int_dec nid) es (pi_indices P);
               Some \<lparr>pi_indices = indices, pi_entries = (pi_entries P)(nid := None)\<rparr> })"

text \<open>The loop that reads the members back as numbers; \<^verbatim>\<open>stoi\<close> may throw.\<close>

fun read_ids :: "(f64 \<times> string) list \<Rightarrow> int list \<Rightarrow> cxx_exn + int list" where
  "read_ids [] ids = Inr ids"
| "read_ids ((score, member) # rs) ids =
     (case stoi member of Inl x \<Rightarrow> Inl x | Inr i \<Rightarrow> read_ids rs (ids @ [i]))"

definition pi_range :: "prop_index \<Rightarrow> string \<Rightarrow> string \<Rightarrow> f64 \<Rightarrow> f64 \<Rightarrow> (cxx_exn + int list) option" where
  "pi_range P label prop mn mx =
     (case pi_indices P (make_key label prop) of
        None \<Rightarrow> Some (Inr [])
      | Some sl \<Rightarrow> do { results \<leftarrow> range_by_score sl mn mx; Some (read_ids results []) })"

definition pi_exact :: "prop_index \<Rightarrow> string \<Rightarrow> string \<Rightarrow> f64 \<Rightarrow> (cxx_exn + int list) option" where
  "pi_exact P label prop val = pi_range P label prop val val"

section \<open>The values a node has\<close>

text \<open>Abstractly every key maps nodes to their current values; adding a value replaces the old one.\<close>

type_synonym prop_values = "string \<Rightarrow> int \<rightharpoonup> f64"

datatype pi_op =
    PAdd string string f64 int
  | PRemove string string f64 int
  | PRemoveNode int

fun pi_step :: "(nat \<Rightarrow> bool) \<Rightarrow> prop_index \<Rightarrow> pi_op \<Rightarrow> (unit \<times> prop_index) option" where
  "pi_step draws P (PAdd l p v n) = map_option (Pair ()) (pi_add draws P l p v n)"
| "pi_step draws P (PRemove l p v n) = map_option (Pair ()) (pi_remove P l p v n)"
| "pi_step draws P (PRemoveNode n) = map_option (Pair ()) (pi_remove_node P n)"

fun same_value :: "f64 option \<Rightarrow> f64 \<Rightarrow> bool" where
  "same_value None v \<longleftrightarrow> False"
| "same_value (Some w) v \<longleftrightarrow> f64_eq w v"

definition put_value :: "prop_values \<Rightarrow> string \<Rightarrow> int \<Rightarrow> f64 option \<Rightarrow> prop_values" where
  "put_value V key nid x = V(key := (V key)(nid := x))"

fun pi_spec :: "prop_values \<Rightarrow> pi_op \<Rightarrow> unit \<times> prop_values" where
  "pi_spec V (PAdd l p v n) = ((), put_value V (make_key l p) n (Some v))"
| "pi_spec V (PRemove l p v n) =
     ((), if same_value (V (make_key l p) n) v then put_value V (make_key l p) n None else V)"
| "pi_spec V (PRemoveNode n) = ((), \<lambda>key. (V key)(n := None))"

definition int32 :: "int \<Rightarrow> bool" where
  "int32 i \<longleftrightarrow> - (2 ^ 31) \<le> i \<and> i < 2 ^ 31"

fun pi_valid :: "pi_op \<Rightarrow> bool" where
  "pi_valid (PAdd l p v n) \<longleftrightarrow> \<not> f64_nan v \<and> int32 n"
| "pi_valid (PRemove l p v n) \<longleftrightarrow> \<not> f64_nan v"
| "pi_valid (PRemoveNode n) \<longleftrightarrow> True"


section \<open>Scores of the abstract lists\<close>

lemma zset_score_mem: "zset_ok zs \<Longrightarrow> zset_score zs m = Some s \<longleftrightarrow> (s, m) \<in> set zs"
  unfolding zset_score_def zset_ok_def
  by (subst map_of_eq_Some_iff) (auto simp: comp_def)

lemma f64_eq_refl: "\<not> f64_nan v \<Longrightarrow> f64_eq v v"
  by (simp add: f64_eq_def)

lemma f64_eq_sym: "f64_eq v w \<longleftrightarrow> f64_eq w v"
  by (auto simp: f64_eq_def)

lemma f64_eq_trans: "f64_eq u v \<Longrightarrow> f64_eq v w \<Longrightarrow> f64_eq u w"
  by (simp add: f64_eq_def)

lemma zset_has_score:
  assumes "zset_ok zs" "\<not> f64_nan s"
  shows "zset_has s m zs \<longleftrightarrow> same_value (zset_score zs m) s"
proof
  assume "zset_has s m zs"
  then obtain w where w: "(w, m) \<in> set zs" "f64_rank w = f64_rank s"
    by (auto simp: zset_has_def)
  then show "same_value (zset_score zs m) s"
    using assms zset_score_mem [OF assms(1), of m w] by (auto simp: f64_eq_def zset_ok_def)
next
  assume "same_value (zset_score zs m) s"
  then obtain w where "zset_score zs m = Some w" "f64_eq w s"
    by (cases "zset_score zs m") auto
  then show "zset_has s m zs"
    using zset_score_mem [OF assms(1)] by (force simp: zset_has_def f64_eq_def)
qed

lemma zset_filter_score:
  assumes "zset_ok zs"
  shows "zset_score (filter P zs) m =
    (case zset_score zs m of None \<Rightarrow> None | Some s \<Rightarrow> if P (s, m) then Some s else None)"
proof -
  have "zset_score (filter P zs) m = Some s \<longleftrightarrow> zset_score zs m = Some s \<and> P (s, m)" for s
    using zset_score_mem [OF assms] zset_score_mem [OF zset_ok_filter [OF assms]] by simp
  then have "zset_score (filter P zs) m = x \<longleftrightarrow>
      (case zset_score zs m of None \<Rightarrow> None | Some s \<Rightarrow> if P (s, m) then Some s else None) = x" if "x \<noteq> None" for x
    using that by (cases x) (auto split: option.splits)
  then show ?thesis by (metis (no_types, lifting))
qed

lemma zset_insert_scores:
  assumes "zset_ok zs" "\<not> f64_nan s"
  shows "rel_option f64_eq (zset_score (zset_insert s m zs) m) (Some s)"
    "m' \<noteq> m \<Longrightarrow> zset_score (zset_insert s m zs) m' = zset_score zs m'"
proof -
  let ?fs = "filter (\<lambda>z. snd z \<noteq> m) zs"
  have p: "zset_score (zset_place s m ?fs) = (zset_score ?fs)(m \<mapsto> s)"
    unfolding zset_score_def by (rule zset_place_scores [OF zset_ok_filter [OF assms(1)]]) auto
  show "rel_option f64_eq (zset_score (zset_insert s m zs) m) (Some s)"
  proof (cases "zset_has s m zs")
    case True
    then show ?thesis
      using zset_has_score [OF assms, of m] by (cases "zset_score zs m") (auto simp: zset_insert_def)
  next
    case False
    then show ?thesis using p assms(2) by (simp add: zset_insert_def f64_eq_refl)
  qed
  show "zset_score (zset_insert s m zs) m' = zset_score zs m'" if "m' \<noteq> m"
    using p that zset_filter_score [OF assms(1), of "\<lambda>z. snd z \<noteq> m" m']
    by (auto simp: zset_insert_def split: option.splits)
qed

lemma zset_remove_scores:
  assumes "zset_ok zs" "\<not> f64_nan s"
  shows "zset_score (zset_remove s m zs) m' =
    (if m' = m \<and> same_value (zset_score zs m) s then None else zset_score zs m')"
proof (cases "zset_score zs m'")
  case None
  then show ?thesis
    using zset_filter_score [OF assms(1), of _ m'] by (simp add: zset_remove_def)
next
  case (Some w)
  then have "\<not> f64_nan w" using assms(1) zset_score_mem [OF assms(1)] by (auto simp: zset_ok_def)
  then show ?thesis
    using zset_filter_score [OF assms(1), of _ m'] Some assms(2)
    by (auto simp: zset_remove_def zkey_pair f64_eq_def)
qed

lemma zset_insert_set: "set (zset_insert s m zs) \<subseteq> insert (s, m) (set zs)"
  by (auto simp: zset_insert_def zset_place_def)

lemma zset_remove_set: "set (zset_remove s m zs) \<subseteq> set zs"
  by (auto simp: zset_remove_def)

section \<open>The representation\<close>

text \<open>
  The skip lists hold the current values under the decimal names of the nodes, and the history of a
  node holds at least its current values.
\<close>

definition holds_values :: "(string \<Rightarrow> zset) \<Rightarrow> prop_values \<Rightarrow> bool" where
  "holds_values A V \<longleftrightarrow> (\<forall>key. (\<forall>z \<in> set (A key). \<exists>n. int32 n \<and> snd z = int_dec n) \<and>
     (\<forall>n. rel_option f64_eq (zset_score (A key) (int_dec n)) (V key n)))"

definition history :: "prop_index \<Rightarrow> prop_values \<Rightarrow> bool" where
  "history P V \<longleftrightarrow> (\<forall>n. (\<forall>e \<in> set (entries_of P n). \<not> f64_nan (snd e)) \<and>
     (\<forall>key v. V key n = Some v \<longrightarrow> (\<exists>w. (key, w) \<in> set (entries_of P n) \<and> f64_eq v w)))"

definition pi_rep :: "prop_index \<Rightarrow> prop_values \<Rightarrow> bool" where
  "pi_rep P V \<longleftrightarrow> (\<exists>A. zsets_rep (pi_indices P) A \<and> holds_values A V) \<and> history P V"

lemma holds_valuesD:
  assumes "holds_values A V"
  shows "z \<in> set (A key) \<Longrightarrow> \<exists>n. int32 n \<and> snd z = int_dec n"
    "rel_option f64_eq (zset_score (A key) (int_dec n)) (V key n)"
  using assms by (simp_all add: holds_values_def)

lemma holds_values_upd:
  assumes "holds_values A V" "\<And>z. z \<in> set zs \<Longrightarrow> \<exists>n. int32 n \<and> snd z = int_dec n"
    "\<And>n. rel_option f64_eq (zset_score zs (int_dec n)) (W n)"
  shows "holds_values (A(key := zs)) (V(key := W))"
  using assms by (simp add: holds_values_def)

lemma history_values:
  assumes "history P V"
  shows "e \<in> set (entries_of P n) \<Longrightarrow> \<not> f64_nan (snd e)"
    "V key n = Some v \<Longrightarrow> \<exists>w. (key, w) \<in> set (entries_of P n) \<and> f64_eq v w"
  using assms unfolding history_def by blast+

lemma pi_new_ok: "pi_rep pi_new (\<lambda>_ _. None)"
  unfolding pi_rep_def pi_new_def history_def entries_of_def holds_values_def
  using zsets_rep_new by (auto intro!: exI [of _ "\<lambda>_. []"] simp: zset_score_def)

lemma pi_add_ok:
  assumes rep: "pi_rep P V" and v: "\<not> f64_nan v" and n: "int32 n"
  shows "\<exists>P'. pi_add draws P l p v n = Some P' \<and> pi_rep P' (put_value V (make_key l p) n (Some v))"
proof -
  let ?key = "make_key l p" and ?m = "int_dec n"
  obtain A where A: "zsets_rep (pi_indices P) A" "holds_values A V" and h: "history P V"
    using rep by (auto simp: pi_rep_def)
  have ok: "zset_ok (A ?key)" by (rule zset_ok_of [OF A(1)])
  obtain sl where sl: "skip_insert (get_or_create draws (pi_indices P) ?key) v ?m = Some sl"
    "skip_rep sl (zset_insert v ?m (A ?key))"
    using skip_insert_ok [OF zsets_created [OF A(1)] v] by blast
  let ?P = "\<lparr>pi_indices = (pi_indices P)(?key \<mapsto> sl), pi_entries = (pi_entries P)(n \<mapsto> entries_of P n @ [(?key, v)])\<rparr>"
  have "holds_values (A(?key := zset_insert v ?m (A ?key))) (put_value V ?key n (Some v))"
    unfolding put_value_def
  proof (rule holds_values_upd [OF A(2)])
    fix z assume "z \<in> set (zset_insert v ?m (A ?key))"
    then have "z = (v, ?m) \<or> z \<in> set (A ?key)" using zset_insert_set [of v ?m "A ?key"] by blast
    then show "\<exists>n. int32 n \<and> snd z = int_dec n" using n holds_valuesD(1) [OF A(2), of z ?key] by auto
  next
    fix k
    show "rel_option f64_eq (zset_score (zset_insert v ?m (A ?key)) (int_dec k)) (((V ?key)(n \<mapsto> v)) k)"
      using zset_insert_scores(1) [OF ok v, of ?m] zset_insert_scores(2) [OF ok v, of "int_dec k" ?m]
        holds_valuesD(2) [OF A(2), of ?key k]
      by (cases "k = n") (simp_all add: int_dec_inj)
  qed
  moreover have "history ?P (put_value V ?key n (Some v))"
    using h v f64_eq_refl [OF v] unfolding history_def put_value_def
    by (auto simp: entries_of_def split: option.splits)
  ultimately show ?thesis
    using sl zsets_rep_upd [OF A(1) sl(2)] by (auto simp: pi_add_def pi_rep_def Let_def get_or_create_def)
qed


lemma holds_values_remove:
  assumes A: "holds_values A V" and ok: "zset_ok (A key)" and v: "\<not> f64_nan v"
  shows "holds_values (A(key := zset_remove v (int_dec n) (A key)))
    (if same_value (V key n) v then put_value V key n None else V)"
proof -
  let ?m = "int_dec n" and ?W = "if same_value (V key n) v then (V key)(n := None) else V key"
  have same: "same_value (zset_score (A key) ?m) v \<longleftrightarrow> same_value (V key n) v"
    using holds_valuesD(2) [OF A, of key n] f64_eq_trans f64_eq_sym
    by (cases "zset_score (A key) ?m"; cases "V key n") (auto, blast+)
  have "holds_values (A(key := zset_remove v ?m (A key))) (V(key := ?W))"
  proof (rule holds_values_upd [OF A])
    fix z assume "z \<in> set (zset_remove v ?m (A key))"
    then show "\<exists>n. int32 n \<and> snd z = int_dec n"
      using zset_remove_set [of v ?m "A key"] holds_valuesD(1) [OF A] by blast
  next
    fix k
    show "rel_option f64_eq (zset_score (zset_remove v ?m (A key)) (int_dec k)) (?W k)"
      using zset_remove_scores [OF ok v, of ?m "int_dec k"] holds_valuesD(2) [OF A, of key k] same
      by (auto simp: int_dec_inj)
  qed
  then show ?thesis by (auto simp: put_value_def split: if_splits)
qed

text \<open>One removal from the skip list of a key, whether it exists or not.\<close>

lemma remove_from_index:
  assumes "zsets_rep Z A" "\<not> f64_nan v"
  shows "\<exists>Z'. (case Z key of None \<Rightarrow> Some Z
      | Some sl \<Rightarrow> do { (_, sl') \<leftarrow> skip_remove sl v m; Some (Z(key \<mapsto> sl')) }) = Some Z' \<and>
    zsets_rep Z' (A(key := zset_remove v m (A key)))"
proof (cases "Z key")
  case None
  then have "A key = []" by (rule zsets_repD(1) [OF assms(1)])
  then have "A(key := zset_remove v m (A key)) = A" by (auto simp: zset_remove_def)
  then show ?thesis using None assms(1) by simp
next
  case (Some sl)
  obtain b sl' where "skip_remove sl v m = Some (b, sl')" "skip_rep sl' (zset_remove v m (A key))"
    using skip_remove_ok [OF zsets_repD(2) [OF assms(1) Some] assms(2)] by blast
  then show ?thesis using Some zsets_rep_upd [OF assms(1)] by simp
qed

lemma pi_remove_ok:
  assumes rep: "pi_rep P V" and v: "\<not> f64_nan v"
  shows "\<exists>P'. pi_remove P l p v n = Some P' \<and>
    pi_rep P' (if same_value (V (make_key l p) n) v then put_value V (make_key l p) n None else V)"
proof -
  let ?key = "make_key l p"
  let ?V = "if same_value (V ?key n) v then put_value V ?key n None else V"
  obtain A where A: "zsets_rep (pi_indices P) A" "holds_values A V" and h: "history P V"
    using rep by (auto simp: pi_rep_def)
  obtain Z where Z: "(case pi_indices P ?key of None \<Rightarrow> Some (pi_indices P)
      | Some sl \<Rightarrow> do { (_, sl') \<leftarrow> skip_remove sl v (int_dec n); Some ((pi_indices P)(?key \<mapsto> sl')) }) = Some Z"
    "zsets_rep Z (A(?key := zset_remove v (int_dec n) (A ?key)))"
    using remove_from_index [OF A(1) v] by blast
  let ?es = "filter (\<lambda>e. \<not> (fst e = ?key \<and> f64_eq (snd e) v)) (entries_of P n)"
  let ?P = "\<lparr>pi_indices = Z, pi_entries = (pi_entries P)(n \<mapsto> ?es)\<rparr>"
  have e: "entries_of ?P k = (if k = n then ?es else entries_of P k)" for k
    by (simp add: entries_of_def)
  have "history ?P ?V"
    unfolding history_def e
  proof (intro allI conjI impI)
    fix k
    show "\<forall>e \<in> set (if k = n then ?es else entries_of P k). \<not> f64_nan (snd e)"
      using history_values(1) [OF h, of _ k] by (simp add: Ball_def del: split_paired_All)
    fix key w assume w: "?V key k = Some w"
    then have "V key k = Some w" "\<not> (k = n \<and> key = ?key \<and> f64_eq w v)"
      by (auto simp: put_value_def split: if_splits)
    moreover from this(1) obtain u where "(key, u) \<in> set (entries_of P k)" "f64_eq w u"
      using history_values(2) [OF h] by blast
    ultimately show "\<exists>u. (key, u) \<in> set (if k = n then ?es else entries_of P k) \<and> f64_eq w u"
      using f64_eq_trans by (intro exI [of _ u]) auto
  qed
  moreover have "holds_values (A(?key := zset_remove v (int_dec n) (A ?key))) ?V"
    by (rule holds_values_remove [OF A(2) zset_ok_of [OF A(1)] v])
  ultimately have "pi_rep ?P ?V" using Z(2) unfolding pi_rep_def by auto
  then show ?thesis using Z(1) by (simp add: pi_remove_def Let_def)
qed


lemma drop_entries_Cons:
  "drop_entries m ((key, v) # es) Z = Option.bind
     (case Z key of None \<Rightarrow> Some Z | Some sl \<Rightarrow> do { (_, sl') \<leftarrow> skip_remove sl v m; Some (Z(key \<mapsto> sl')) })
     (drop_entries m es)"
  by (auto split: option.splits Option.bind_splits)

text \<open>The abstract effect of the loop: the values of the history are taken away one after the other.\<close>

fun drop_values :: "int \<Rightarrow> (string \<times> f64) list \<Rightarrow> prop_values \<Rightarrow> prop_values" where
  "drop_values n [] V = V"
| "drop_values n ((key, v) # es) V =
     drop_values n es (if same_value (V key n) v then put_value V key n None else V)"

lemma drop_entries_ok:
  assumes "zsets_rep Z A" "holds_values A V" "\<forall>e \<in> set es. \<not> f64_nan (snd e)"
  shows "\<exists>Z' A'. drop_entries (int_dec n) es Z = Some Z' \<and> zsets_rep Z' A' \<and> holds_values A' (drop_values n es V)"
  using assms
proof (induction es arbitrary: Z A V)
  case (Cons e es)
  obtain key v where e: "e = (key, v)" by (cases e)
  then have v: "\<not> f64_nan v" using Cons.prems(3) by simp
  let ?A = "A(key := zset_remove v (int_dec n) (A key))"
  let ?V = "if same_value (V key n) v then put_value V key n None else V"
  obtain Z1 where Z1: "(case Z key of None \<Rightarrow> Some Z
      | Some sl \<Rightarrow> do { (_, sl') \<leftarrow> skip_remove sl v (int_dec n); Some (Z(key \<mapsto> sl')) }) = Some Z1" "zsets_rep Z1 ?A"
    using remove_from_index [OF Cons.prems(1) v] by blast
  have "holds_values ?A ?V"
    by (rule holds_values_remove [OF Cons.prems(2) zset_ok_of [OF Cons.prems(1)] v])
  from Cons.IH [OF Z1(2) this] Cons.prems(3) obtain Z' A' where
    "drop_entries (int_dec n) es Z1 = Some Z'" "zsets_rep Z' A'" "holds_values A' (drop_values n es ?V)" by auto
  then show ?case unfolding e drop_entries_Cons Z1(1) by auto
qed auto

lemma drop_values_all:
  assumes "\<And>key v. V key n = Some v \<Longrightarrow> \<exists>w. (key, w) \<in> set es \<and> f64_eq v w"
  shows "drop_values n es V = (\<lambda>key. (V key)(n := None))"
  using assms
proof (induction es arbitrary: V)
  case Nil
  then have "V key n = None" for key by (cases "V key n") auto
  then show ?case by (simp add: fun_upd_idem)
next
  case (Cons e es)
  obtain key v where e: "e = (key, v)" by (cases e)
  let ?V = "if same_value (V key n) v then put_value V key n None else V"
  have rest: "\<exists>w. (k, w) \<in> set es \<and> f64_eq u w" if "?V k n = Some u" for k u
  proof -
    from that have u: "V k n = Some u" "\<not> (k = key \<and> f64_eq u v)"
      by (auto simp: put_value_def split: if_splits)
    from Cons.prems [OF u(1)] u(2) show ?thesis by (auto simp: e)
  qed
  have "(\<lambda>k. (?V k)(n := None)) = (\<lambda>k. (V k)(n := None))"
    by (auto simp: put_value_def fun_eq_iff)
  moreover have "drop_values n es ?V = (\<lambda>k. (?V k)(n := None))" by (rule Cons.IH [OF rest])
  ultimately show ?case by (simp only: e drop_values.simps)
qed

lemma pi_remove_node_ok:
  assumes rep: "pi_rep P V"
  shows "\<exists>P'. pi_remove_node P n = Some P' \<and> pi_rep P' (\<lambda>key. (V key)(n := None))"
proof -
  obtain A where A: "zsets_rep (pi_indices P) A" "holds_values A V" and h: "history P V"
    using rep by (auto simp: pi_rep_def)
  let ?V = "\<lambda>key. (V key)(n := None)"
  have d: "drop_values n (entries_of P n) V = ?V"
    by (rule drop_values_all) (rule history_values(2) [OF h])
  show ?thesis
  proof (cases "pi_entries P n")
    case None
    then have "?V = V" using d by (simp add: entries_of_def)
    then show ?thesis using None rep by (simp add: pi_remove_node_def)
  next
    case (Some es)
    then have es: "entries_of P n = es" by (simp add: entries_of_def)
    obtain Z' A' where Z: "drop_entries (int_dec n) es (pi_indices P) = Some Z'" "zsets_rep Z' A'" "holds_values A' ?V"
      using drop_entries_ok [OF A, of es n] history_values(1) [OF h, of _ n] d es by auto
    let ?P = "\<lparr>pi_indices = Z', pi_entries = (pi_entries P)(n := None)\<rparr>"
    have e: "entries_of ?P k = (if k = n then [] else entries_of P k)" for k by (simp add: entries_of_def)
    have "history ?P ?V"
      using h unfolding history_def e by simp
    then show ?thesis using Some Z by (auto simp: pi_remove_node_def pi_rep_def)
  qed
qed

interpretation pindex: answering "pi_step draws" pi_spec pi_rep pi_valid for draws
proof
  fix P V x
  assume rep: "pi_rep P V" and v: "pi_valid x"
  show "\<exists>P'. pi_step draws P x = Some (fst (pi_spec V x), P') \<and> pi_rep P' (snd (pi_spec V x))"
  proof (cases x)
    case (PAdd l p w n)
    then have "\<not> f64_nan w" "int32 n" using v by simp_all
    from pi_add_ok [OF rep this, of draws l p] obtain P' where
      "pi_add draws P l p w n = Some P'" "pi_rep P' (put_value V (make_key l p) n (Some w))" by blast
    then show ?thesis unfolding PAdd by simp
  next
    case (PRemove l p w n)
    then have "\<not> f64_nan w" using v by simp
    from pi_remove_ok [OF rep this, of l p n] show ?thesis unfolding PRemove by auto
  next
    case (PRemoveNode n)
    from pi_remove_node_ok [OF rep, of n] show ?thesis unfolding PRemoveNode by auto
  qed
qed

section \<open>Queries\<close>

lemma read_ids_ok: "\<forall>z \<in> set zs. \<exists>n. int32 n \<and> snd z = int_dec n \<Longrightarrow>
    read_ids zs ids = Inr (ids @ map (\<lambda>z. signed_dec (snd z)) zs)"
  by (induction zs arbitrary: ids) (auto simp: stoi_int_dec signed_dec_int_dec int32_def)

definition in_range :: "f64 \<Rightarrow> f64 \<Rightarrow> f64 \<Rightarrow> bool" where
  "in_range mn mx v \<longleftrightarrow> f64_le mn v \<and> f64_le v mx"

lemma in_range_cong: "f64_eq v w \<Longrightarrow> in_range mn mx v \<longleftrightarrow> in_range mn mx w"
  by (auto simp: in_range_def f64_eq_def f64_le_def)

lemma pi_range_ok:
  assumes "pi_rep P V" "\<not> f64_nan mn"
  shows "\<exists>ids. pi_range P l p mn mx = Some (Inr ids) \<and> distinct ids \<and>
    (\<forall>n. n \<in> set ids \<longleftrightarrow> (\<exists>v. V (make_key l p) n = Some v \<and> in_range mn mx v))"
proof -
  let ?key = "make_key l p"
  obtain A where A: "zsets_rep (pi_indices P) A" "holds_values A V"
    using assms(1) by (auto simp: pi_rep_def)
  have ok: "zset_ok (A ?key)" by (rule zset_ok_of [OF A(1)])
  let ?rs = "filter (\<lambda>z. in_range mn mx (fst z)) (A ?key)"
  have f: "?rs = filter (\<lambda>z. f64_le mn (fst z) \<and> f64_le (fst z) mx) (A ?key)" by (simp add: in_range_def)
  let ?ids = "map (\<lambda>z. signed_dec (snd z)) ?rs"
  have named: "\<exists>n. int32 n \<and> snd z = int_dec n" if "z \<in> set (A ?key)" for z
    by (rule holds_valuesD(1) [OF A(2) that])
  have ids: "read_ids ?rs [] = Inr ?ids" using read_ids_ok [of ?rs "[]"] named by auto
  have r: "pi_range P l p mn mx = Some (Inr ?ids)"
  proof (cases "pi_indices P ?key")
    case None
    then show ?thesis using zsets_repD(1) [OF A(1)] by (simp add: pi_range_def)
  next
    case (Some sl)
    show ?thesis
      using skip_range_filter [OF zsets_repD(2) [OF A(1) Some] assms(2), of mx] ids Some
      by (simp add: pi_range_def f [symmetric])
  qed
  have "inj_on (\<lambda>z. signed_dec (snd z)) (set (A ?key))"
  proof (rule inj_onI)
    fix y z assume yz: "y \<in> set (A ?key)" "z \<in> set (A ?key)" "signed_dec (snd y) = signed_dec (snd z)"
    then have "snd y = snd z" using named by (metis signed_dec_int_dec)
    then show "y = z" using yz ok inj_onD [of snd "set (A ?key)"] by (auto simp: zset_ok_def distinct_map)
  qed
  moreover have "distinct (A ?key)" using ok by (simp add: zset_ok_def distinct_map)
  ultimately have d: "distinct ?ids" by (simp add: distinct_map inj_on_subset [of _ "set (A ?key)"])
  have "n \<in> set ?ids \<longleftrightarrow> (\<exists>v. V ?key n = Some v \<and> in_range mn mx v)" for n
  proof -
    have "n \<in> set ?ids \<longleftrightarrow> (\<exists>s. (s, int_dec n) \<in> set (A ?key) \<and> in_range mn mx s)"
    proof
      assume "n \<in> set ?ids"
      then obtain z where z: "z \<in> set (A ?key)" "in_range mn mx (fst z)" "n = signed_dec (snd z)" by auto
      then have "snd z = int_dec n" using named [of z] signed_dec_int_dec by auto
      then show "\<exists>s. (s, int_dec n) \<in> set (A ?key) \<and> in_range mn mx s"
        using z(1,2) by (intro exI [of _ "fst z"]) (metis prod.collapse)
    next
      assume "\<exists>s. (s, int_dec n) \<in> set (A ?key) \<and> in_range mn mx s"
      then show "n \<in> set ?ids" by (force simp: signed_dec_int_dec)
    qed
    also have "\<dots> \<longleftrightarrow> (\<exists>s. zset_score (A ?key) (int_dec n) = Some s \<and> in_range mn mx s)"
      by (simp add: zset_score_mem [OF ok])
    also have "\<dots> \<longleftrightarrow> (\<exists>v. V ?key n = Some v \<and> in_range mn mx v)"
      using holds_valuesD(2) [OF A(2), of ?key n] in_range_cong
      by (cases "zset_score (A ?key) (int_dec n)"; cases "V ?key n") auto
    finally show ?thesis .
  qed
  with r d show ?thesis by blast
qed

section \<open>Properties\<close>

text \<open>
  C17. After any sequence of additions and removals of numeric properties, none of them NaN, a range
  query whose lower bound is no NaN returns, throws nothing, and lists each node once whose current value
  under the key of the label and the property lies in the range, and no other; removing a node removes all
  its values.
\<close>

theorem property_range_exact:
  assumes "\<forall>x \<in> set ops. pi_valid x" "\<not> f64_nan mn"
  shows "\<exists>P ids. run_ops (pi_step draws) pi_new ops = Some (fst (run_spec pi_spec (\<lambda>_ _. None) ops), P) \<and>
    pi_range P label prop mn mx = Some (Inr ids) \<and> distinct ids \<and>
    (\<forall>n. n \<in> set ids \<longleftrightarrow>
      (\<exists>v. snd (run_spec pi_spec (\<lambda>_ _. None) ops) (make_key label prop) n = Some v \<and> in_range mn mx v))"
  using pindex.runs_answer [OF pi_new_ok assms(1), of draws] pi_range_ok [OF _ assms(2)] by blast

theorem property_range_exact_witness:
  "\<exists>P. run_ops (pi_step even) pi_new [PAdd ''Person'' ''age'' (F64_Fin False 30) 7, PAdd ''Person'' ''age'' (F64_Fin False 31) 7] =
     Some ([(), ()], P) \<and> pi_range P ''Person'' ''age'' (F64_Fin False 31) (F64_Fin False 40) = Some (Inr [7])"
proof -
  let ?ops = "[PAdd ''Person'' ''age'' (F64_Fin False 30) 7, PAdd ''Person'' ''age'' (F64_Fin False 31) 7]"
  obtain P ids where *: "run_ops (pi_step even) pi_new ?ops = Some (fst (run_spec pi_spec (\<lambda>_ _. None) ?ops), P)"
    "pi_range P ''Person'' ''age'' (F64_Fin False 31) (F64_Fin False 40) = Some (Inr ids)" "distinct ids"
    "\<forall>n. n \<in> set ids \<longleftrightarrow> (\<exists>v. snd (run_spec pi_spec (\<lambda>_ _. None) ?ops) (make_key ''Person'' ''age'') n = Some v \<and>
      in_range (F64_Fin False 31) (F64_Fin False 40) v)"
    using property_range_exact [of ?ops "F64_Fin False 31" even "''Person''" "''age''" "F64_Fin False 40"]
    by (auto simp: int32_def)
  from *(4) have "set ids = {7}" by (auto simp: put_value_def in_range_def f64_le_def split: if_splits)
  then have "\<forall>n \<in> set ids. n = 7" "ids \<noteq> []" by auto
  with *(3) have "ids = [7]" by (cases ids; cases "tl ids") auto
  with *(1,2) show ?thesis by auto
qed

end
