(* ===== verification/Graph_Engine.thy ===== *)
theory Graph_Engine
  imports Property_Index CSR_Proofs
begin

text \<open>
  The graph engine of \<^verbatim>\<open>src/graph/graph_engine.hpp\<close> and
  \<^verbatim>\<open>src/graph/graph_engine.cpp\<close> (class \<^verbatim>\<open>GraphEngine\<close>): the mutable
  graph with interned labels, its compressed copy, the property index and the arena of the path search,
  and the proof that it keeps a labelled multigraph. Where the code iterates over a hash map, the order
  of the keys is an argument.
\<close>

section \<open>State and operations\<close>

record graph_engine =
  ge_graph :: dgraph
  ge_csr :: csr_graph
  ge_arena :: arena
  ge_pool :: string_pool
  ge_index :: prop_index

definition pool_capacity :: u64 where
  "pool_capacity = 4 * 1024 * 1024"

definition ge_new :: graph_engine where
  "ge_new = \<lparr>ge_graph = dg_new, ge_csr = csr_empty, ge_arena = arena_new pool_capacity,
     ge_pool = pool_new pool_capacity, ge_index = pi_new\<rparr>"

definition ge_add_node :: "graph_engine \<Rightarrow> int \<Rightarrow> string \<Rightarrow> string \<Rightarrow> graph_engine" where
  "ge_add_node E nid label props =
     (let (interned, pool) = intern (ge_pool E) label in
      E\<lparr>ge_pool := pool, ge_graph := dg_add_node (ge_graph E) nid interned props\<rparr>)"

text \<open>What the engine passes on to its graph.\<close>

definition ge_has_node :: "graph_engine \<Rightarrow> int \<Rightarrow> bool" where
  "ge_has_node E nid = dg_has_node (ge_graph E) nid"

definition ge_node_meta :: "graph_engine \<Rightarrow> int \<Rightarrow> node_meta option" where
  "ge_node_meta E nid = dg_node_meta (ge_graph E) nid"

definition ge_has_edge :: "graph_engine \<Rightarrow> int \<Rightarrow> int \<Rightarrow> bool" where
  "ge_has_edge E from to = dg_has_edge (ge_graph E) from to"

definition ge_neighbors :: "graph_engine \<Rightarrow> int \<Rightarrow> edge list" where
  "ge_neighbors E nid = dg_neighbors (ge_graph E) nid"

definition ge_reverse_neighbors :: "graph_engine \<Rightarrow> int \<Rightarrow> edge list" where
  "ge_reverse_neighbors E nid = dg_reverse_neighbors (ge_graph E) nid"

definition ge_node_count :: "graph_engine \<Rightarrow> int" where
  "ge_node_count E = int (dg_node_count (ge_graph E))"

definition ge_edge_count :: "graph_engine \<Rightarrow> int" where
  "ge_edge_count E = dg_edge_count (ge_graph E)"

lemmas ge_passes_on [simp] = ge_has_node_def ge_node_meta_def ge_has_edge_def ge_neighbors_def
  ge_reverse_neighbors_def ge_node_count_def ge_edge_count_def

text \<open>
  The label is copied into a \<^verbatim>\<open>std::string\<close> for the call of the index, which does not use it;
  copying a null label is undefined, \<^const>\<open>None\<close>.
\<close>

definition label_text :: "graph_engine \<Rightarrow> node_meta \<Rightarrow> string option" where
  "label_text E m = Option.bind (nm_label m) (read_cstr (sp_bytes (ge_pool E)))"

definition ge_remove_node :: "graph_engine \<Rightarrow> int \<Rightarrow> graph_engine option" where
  "ge_remove_node E nid =
     do { index \<leftarrow> (case dg_node_meta (ge_graph E) nid of
            None \<Rightarrow> Some (ge_index E)
          | Some m \<Rightarrow> do { _ \<leftarrow> label_text E m; pi_remove_node (ge_index E) nid });
          Some (E\<lparr>ge_index := index, ge_graph := dg_remove_node (ge_graph E) nid\<rparr>) }"

definition ge_add_edge :: "graph_engine \<Rightarrow> int \<Rightarrow> int \<Rightarrow> string \<Rightarrow> f32 \<Rightarrow> graph_engine" where
  "ge_add_edge E from to rel weight = E\<lparr>ge_graph := dg_add_edge (ge_graph E) from to rel weight\<rparr>"

definition ge_remove_edge :: "graph_engine \<Rightarrow> int \<Rightarrow> int \<Rightarrow> string \<Rightarrow> graph_engine" where
  "ge_remove_edge E from to rel = E\<lparr>ge_graph := dg_remove_edge (ge_graph E) from to rel\<rparr>"

text \<open>The loop over the node map compares pointers; \<open>ids\<close> are its keys.\<close>

definition has_label :: "dgraph \<Rightarrow> u64 option \<Rightarrow> int \<Rightarrow> bool" where
  "has_label g target nid = (case dg_meta g nid of None \<Rightarrow> False | Some m \<Rightarrow> nm_label m = target)"

definition nodes_by_label :: "graph_engine \<Rightarrow> int list \<Rightarrow> string \<Rightarrow> int list \<times> graph_engine" where
  "nodes_by_label E ids label =
     (let (target, pool) = intern (ge_pool E) label in
      (filter (has_label (ge_graph E) target) ids, E\<lparr>ge_pool := pool\<rparr>))"

definition listing :: "('k \<rightharpoonup> 'v) \<Rightarrow> 'k list \<Rightarrow> ('k \<times> 'v) list" where
  "listing m ks = concat (map (\<lambda>k. case m k of None \<Rightarrow> [] | Some v \<Rightarrow> [(k, v)]) ks)"

definition ge_compact :: "graph_engine \<Rightarrow> int list \<Rightarrow> int list \<Rightarrow> csr_error + graph_engine" where
  "ge_compact E ids aids =
     and_then (build_csr (sp_bytes (ge_pool E)) (listing (dg_meta (ge_graph E)) ids) (listing (dg_adj (ge_graph E)) aids))
       (\<lambda>c. Inr (E\<lparr>ge_csr := c, ge_graph := dg_clear_dirty (ge_graph E)\<rparr>))"

definition ge_csr_view :: "graph_engine \<Rightarrow> int list \<Rightarrow> int list \<Rightarrow> csr_error + (csr_graph \<times> graph_engine)" where
  "ge_csr_view E ids aids =
     (if dg_dirty (ge_graph E) then and_then (ge_compact E ids aids) (\<lambda>E'. Inr (ge_csr E', E')) else Inr (ge_csr E, E))"

definition range_query :: "graph_engine \<Rightarrow> string \<Rightarrow> string \<Rightarrow> f64 \<Rightarrow> f64 \<Rightarrow> (cxx_exn + int list) option" where
  "range_query E label prop mn mx = pi_range (ge_index E) label prop mn mx"

definition exact_query :: "graph_engine \<Rightarrow> string \<Rightarrow> string \<Rightarrow> f64 \<Rightarrow> (cxx_exn + int list) option" where
  "exact_query E label prop val = pi_exact (ge_index E) label prop val"

definition index_property :: "(nat \<Rightarrow> bool) \<Rightarrow> graph_engine \<Rightarrow> string \<Rightarrow> string \<Rightarrow> f64 \<Rightarrow> int \<Rightarrow> graph_engine option" where
  "index_property draws E label prop val nid =
     do { index \<leftarrow> pi_add draws (ge_index E) label prop val nid; Some (E\<lparr>ge_index := index\<rparr>) }"

definition reset_query_arena :: "graph_engine \<Rightarrow> graph_engine" where
  "reset_query_arena E = E\<lparr>ge_arena := arena_reset (ge_arena E)\<rparr>"

fun all_nodes_loop :: "graph_engine \<Rightarrow> (int \<times> node_meta) list \<Rightarrow> (int \<times> string \<times> string) list \<Rightarrow> (int \<times> string \<times> string) list option" where
  "all_nodes_loop E [] result = Some result"
| "all_nodes_loop E ((nid, m) # ms) result =
     do { label \<leftarrow> label_text E m; all_nodes_loop E ms (result @ [(nid, label, nm_props m)]) }"

definition all_nodes :: "graph_engine \<Rightarrow> int list \<Rightarrow> (int \<times> string \<times> string) list option" where
  "all_nodes E ids = all_nodes_loop E (listing (dg_meta (ge_graph E)) ids) []"

definition all_edges :: "graph_engine \<Rightarrow> int list \<Rightarrow> (int \<times> int \<times> string \<times> f32) list" where
  "all_edges E aids =
     concat (map (\<lambda>(from, es). map (\<lambda>e. (from, ed_to e, ed_rel e, ed_weight e)) es) (listing (dg_adj (ge_graph E)) aids))"

section \<open>The labelled graph\<close>

text \<open>
  Abstractly a node has a label and properties as text, edges are a log, indexed values are a map.
  \<open>ag_spent\<close> bounds the bytes of the string pool that the labels seen so far can take: each its
  length, a terminator and up to 16 bytes of alignment.
\<close>

record labelled_graph =
  ag_nodes :: "int \<rightharpoonup> string \<times> string"
  ag_edges :: "log_edge list"
  ag_values :: prop_values
  ag_spent :: nat

definition ag_new :: labelled_graph where
  "ag_new = \<lparr>ag_nodes = Map.empty, ag_edges = [], ag_values = (\<lambda>_ _. None), ag_spent = 0\<rparr>"

datatype ge_op =
    EAddNode int string string
  | ERemoveNode int
  | EAddEdge int int string f32
  | ERemoveEdge int int string
  | EByLabel "int list" string
  | EIndex string string f64 int

fun ge_step :: "(nat \<Rightarrow> bool) \<Rightarrow> graph_engine \<Rightarrow> ge_op \<Rightarrow> (int list \<times> graph_engine) option" where
  "ge_step draws E (EAddNode n l p) = Some ([], ge_add_node E n l p)"
| "ge_step draws E (ERemoveNode n) = map_option (Pair []) (ge_remove_node E n)"
| "ge_step draws E (EAddEdge f t r w) = Some ([], ge_add_edge E f t r w)"
| "ge_step draws E (ERemoveEdge f t r) = Some ([], ge_remove_edge E f t r)"
| "ge_step draws E (EByLabel ids l) = Some (nodes_by_label E ids l)"
| "ge_step draws E (EIndex l p v n) = map_option (Pair []) (index_property draws E l p v n)"

definition label_cost :: "string \<Rightarrow> nat" where
  "label_cost l = length l + 17"

fun ge_spec :: "labelled_graph \<Rightarrow> ge_op \<Rightarrow> int list \<times> labelled_graph" where
  "ge_spec S (EAddNode n l p) = ([], S\<lparr>ag_nodes := (ag_nodes S)(n \<mapsto> (l, p)), ag_spent := ag_spent S + label_cost l\<rparr>)"
| "ge_spec S (ERemoveNode n) = ([], S\<lparr>ag_nodes := (ag_nodes S)(n := None),
     ag_edges := filter (\<lambda>(f, t, _). f \<noteq> n \<and> t \<noteq> n) (ag_edges S),
     ag_values := (if ag_nodes S n = None then ag_values S else (\<lambda>key. (ag_values S key)(n := None)))\<rparr>)"
| "ge_spec S (EAddEdge f t r w) = ([], S\<lparr>ag_edges := ag_edges S @ [(f, t, r, w)]\<rparr>)"
| "ge_spec S (ERemoveEdge f t r) =
     ([], S\<lparr>ag_edges := filter (\<lambda>(f', t', r', _). \<not> (f' = f \<and> t' = t \<and> r' = r)) (ag_edges S)\<rparr>)"
| "ge_spec S (EByLabel ids l) =
     (filter (\<lambda>n. \<exists>p. ag_nodes S n = Some (l, p)) ids, S\<lparr>ag_spent := ag_spent S + label_cost l\<rparr>)"
| "ge_spec S (EIndex l p v n) = ([], S\<lparr>ag_values := put_value (ag_values S) (make_key l p) n (Some v)\<rparr>)"

text \<open>Labels fit the pool, indexed values are no NaN and node numbers are of type \<^verbatim>\<open>int\<close>.\<close>

fun ge_guard :: "labelled_graph \<Rightarrow> ge_op \<Rightarrow> bool" where
  "ge_guard S (EAddNode n l p) \<longleftrightarrow> ag_spent S + label_cost l \<le> unat pool_capacity"
| "ge_guard S (EByLabel ids l) \<longleftrightarrow> ag_spent S + label_cost l \<le> unat pool_capacity"
| "ge_guard S (EIndex l p v n) \<longleftrightarrow> \<not> f64_nan v \<and> int32 n"
| "ge_guard S _ \<longleftrightarrow> True"

section \<open>Representation\<close>

definition labels_held :: "graph_engine \<Rightarrow> labelled_graph \<Rightarrow> bool" where
  "labels_held E S \<longleftrightarrow> (\<forall>n. rel_option (\<lambda>m (l, p). nm_props m = p \<and> (\<exists>q. nm_label m = Some q \<and> (l, q) \<in> set (sp_table (ge_pool E))))
     (dg_meta (ge_graph E) n) (ag_nodes S n))"

definition pool_held :: "string_pool \<Rightarrow> nat \<Rightarrow> bool" where
  "pool_held sp spent \<longleftrightarrow> sp_inv sp \<and> ar_cap (sp_arena sp) = pool_capacity \<and> unat (ar_used (sp_arena sp)) \<le> spent"

definition ge_rep :: "graph_engine \<Rightarrow> labelled_graph \<Rightarrow> bool" where
  "ge_rep E S \<longleftrightarrow> represents (ge_graph E) (dg_meta (ge_graph E), ag_edges S) \<and> labels_held E S \<and>
     pool_held (ge_pool E) (ag_spent S) \<and> pi_rep (ge_index E) (ag_values S)"

lemma ge_new_ok: "ge_rep ge_new ag_new"
proof -
  have "unat (arena.ar_cap (arena_new pool_capacity)) < 2 ^ 62" by (simp add: arena_new_def pool_capacity_def)
  then have "sp_inv (pool_new pool_capacity)" by (intro pool_new_ok) (simp add: arena_new_def)
  then show ?thesis
    using dg_new_ok pi_new_ok
    by (simp add: ge_rep_def ge_new_def ag_new_def labels_held_def pool_held_def pool_new_def arena_new_def dg_new_def)
qed


text \<open>As long as the budget lasts, interning succeeds and keeps what was interned before.\<close>

lemma intern_used: "sp_inv sp \<Longrightarrow> length s < 2 ^ 61 \<Longrightarrow>
    unat (ar_used (sp_arena (snd (intern sp s)))) \<le> unat (ar_used (sp_arena sp)) + label_cost s"
proof -
  assume inv: "sp_inv sp" and len: "length s < 2 ^ 61"
  let ?a = "sp_arena sp" and ?sz = "of_nat (length s) + 1 :: u64"
  have sz: "unat ?sz = length s + 1"
    using unat_offset [of "length s" "length s" 1] len by (simp add: add.commute)
  have a: "arena_ok ?a" using inv by (simp add: sp_inv_def)
  have k: "(2::u64) ^ 4 = 16" by simp
  obtain q a' where al: "arena_alloc ?a ?sz 16 = (q, a')" by (cases "arena_alloc ?a ?sz 16")
  have off: "unat (align_up (ar_used ?a) 16) < unat (ar_used ?a) + 16"
    using align_up_ok(3) [of 4 "ar_used ?a"] a by (simp add: arena_ok_def word_le_nat_alt k)
  have "unat (ar_used a') \<le> unat (ar_used ?a) + label_cost s"
  proof (cases q)
    case None
    then show ?thesis using al by (auto simp: arena_alloc_def Let_def split: if_splits)
  next
    case (Some p)
    then have "p = align_up (ar_used ?a) 16" using al by (auto simp: arena_alloc_def Let_def split: if_splits)
    then show ?thesis
      using arena_alloc_ok [OF a, of ?sz 4, unfolded k al sz] len off Some by (simp add: label_cost_def)
  qed
  then show ?thesis
    using al by (simp add: intern_def label_cost_def split: option.splits)
qed

lemma intern_held:
  assumes "pool_held sp w" "w + label_cost l \<le> unat pool_capacity"
  shows "\<exists>q sp'. intern sp l = (Some q, sp') \<and> pool_held sp' (w + label_cost l) \<and> (l, q) \<in> set (sp_table sp') \<and>
    set (sp_table sp) \<subseteq> set (sp_table sp')"
proof -
  have inv: "sp_inv sp" "ar_cap (sp_arena sp) = pool_capacity" "unat (ar_used (sp_arena sp)) \<le> w"
    using assms(1) by (simp_all add: pool_held_def)
  have len: "length l < 2 ^ 61" using assms(2) by (simp add: label_cost_def pool_capacity_def)
  obtain r sp' where i: "intern sp l = (r, sp')" "sp_inv sp'" "set (sp_table sp) \<subseteq> set (sp_table sp')"
    "\<And>p. r = Some p \<Longrightarrow> (l, p) \<in> set (sp_table sp')" "ar_cap (sp_arena sp') = ar_cap (sp_arena sp)"
    "r = None \<Longrightarrow> unat (ar_cap (sp_arena sp)) < unat (ar_used (sp_arena sp)) + length l + 17"
    by (rule intern_ok [OF inv(1) len]) (rule that)
  obtain q where "r = Some q" using i(6) inv assms(2) by (cases r) (auto simp: label_cost_def)
  moreover have "pool_held sp' (w + label_cost l)"
    using intern_used [OF inv(1) len] i(1,2,5) inv(2,3) by (simp add: pool_held_def)
  ultimately show ?thesis using i(1,3,4) by auto
qed

lemma labels_heldD:
  assumes "labels_held E S"
  shows "ag_nodes S n = Some (l, p) \<Longrightarrow> \<exists>m q. dg_meta (ge_graph E) n = Some m \<and> nm_props m = p \<and> nm_label m = Some q \<and>
      (l, q) \<in> set (sp_table (ge_pool E))"
    "ag_nodes S n = None \<longleftrightarrow> dg_meta (ge_graph E) n = None"
  using assms unfolding labels_held_def by (auto simp: option_rel_Some2 dest: spec [of _ n])


text \<open>The operations on the graph, seen through the laws of the mutable graph.\<close>

lemma represents_step:
  "represents g (dg_meta g, es) \<Longrightarrow> represents (graph_step g x) (dg_meta (graph_step g x), snd (log_step (dg_meta g, es) x))"
  using graph.follows [of g "(dg_meta g, es)" x] by (cases x) (auto simp: represents_def)

lemma graph_step_meta:
  "represents g (dg_meta g, es) \<Longrightarrow> dg_meta (graph_step g x) = fst (log_step (dg_meta g, es) x)"
  using graph.follows [of g "(dg_meta g, es)" x] by (simp add: represents_def)

lemma labels_held_grow:
  assumes "labels_held E S" "set (sp_table (ge_pool E)) \<subseteq> set (sp_table sp)"
  shows "labels_held (E\<lparr>ge_pool := sp\<rparr>) S"
  unfolding labels_held_def
proof
  fix n
  show "rel_option (\<lambda>m (l, p). nm_props m = p \<and> (\<exists>q. nm_label m = Some q \<and> (l, q) \<in> set (sp_table (ge_pool (E\<lparr>ge_pool := sp\<rparr>)))))
      (dg_meta (ge_graph (E\<lparr>ge_pool := sp\<rparr>)) n) (ag_nodes S n)"
    using spec [OF assms(1) [unfolded labels_held_def], of n] assms(2)
    by (cases "dg_meta (ge_graph E) n"; cases "ag_nodes S n") (auto split: prod.splits)
qed

lemma add_node_held:
  assumes rep: "ge_rep E S" and ok: "ag_spent S + label_cost l \<le> unat pool_capacity"
  shows "ge_rep (ge_add_node E n l p) (snd (ge_spec S (EAddNode n l p)))"
proof -
  have r: "represents (ge_graph E) (dg_meta (ge_graph E), ag_edges S)" and lh: "labels_held E S"
    and ph: "pool_held (ge_pool E) (ag_spent S)" and ph': "pi_rep (ge_index E) (ag_values S)"
    using rep by (simp_all add: ge_rep_def)
  obtain q sp where q: "intern (ge_pool E) l = (Some q, sp)" "pool_held sp (ag_spent S + label_cost l)"
    "(l, q) \<in> set (sp_table sp)" "set (sp_table (ge_pool E)) \<subseteq> set (sp_table sp)"
    using intern_held [OF ph ok] by blast
  let ?g = "dg_add_node (ge_graph E) n (Some q) p"
  have "represents ?g (dg_meta ?g, ag_edges S)"
    using represents_step [OF r, of "GAddNode n (Some q) p"] by simp
  moreover have "dg_meta ?g = (dg_meta (ge_graph E))(n \<mapsto> \<lparr>nm_label = Some q, nm_props = p\<rparr>)"
    by (simp add: dg_add_node_def)
  moreover have "labels_held (E\<lparr>ge_pool := sp\<rparr>) S" by (rule labels_held_grow [OF lh q(4)])
  ultimately show ?thesis
    using q(1-3) ph' by (auto simp: ge_rep_def ge_add_node_def labels_held_def)
qed

lemma remove_node_held:
  assumes rep: "ge_rep E S"
  shows "\<exists>E'. ge_remove_node E n = Some E' \<and> ge_rep E' (snd (ge_spec S (ERemoveNode n)))"
proof -
  let ?g = "dg_remove_node (ge_graph E) n"
  have r: "represents (ge_graph E) (dg_meta (ge_graph E), ag_edges S)" and lh: "labels_held E S"
    and ph: "pool_held (ge_pool E) (ag_spent S)" and vals: "pi_rep (ge_index E) (ag_values S)"
    using rep by (simp_all add: ge_rep_def)
  have g: "represents ?g (dg_meta ?g, filter (\<lambda>(f, t, _). f \<noteq> n \<and> t \<noteq> n) (ag_edges S))"
    using represents_step [OF r, of "GRemoveNode n"] by simp
  have meta: "dg_meta ?g = (dg_meta (ge_graph E))(n := None)"
    using graph_step_meta [OF r, of "GRemoveNode n"] by simp
  show ?thesis
  proof (cases "ag_nodes S n")
    case None
    then have "dg_meta (ge_graph E) n = None" using labels_heldD(2) [OF lh] by simp
    then show ?thesis
      using g meta lh ph vals None by (auto simp: ge_remove_node_def dg_node_meta_def ge_rep_def labels_held_def)
  next
    case (Some lp)
    obtain l p where lp: "lp = (l, p)" by (cases lp)
    obtain m q where m: "dg_meta (ge_graph E) n = Some m" "nm_label m = Some q" "(l, q) \<in> set (sp_table (ge_pool E))"
      using labels_heldD(1) [OF lh] Some lp by blast
    have "stored (ge_pool E) l q" using ph m(3) by (auto simp: pool_held_def sp_inv_def)
    then have "label_text E m \<noteq> None" using m(2) read_cstr_stored by (simp add: label_text_def)
    moreover obtain P where "pi_remove_node (ge_index E) n = Some P" "pi_rep P (\<lambda>key. (ag_values S key)(n := None))"
      using pi_remove_node_ok [OF vals] by blast
    ultimately show ?thesis
      using g meta lh ph m(1) Some by (auto simp: ge_remove_node_def dg_node_meta_def ge_rep_def labels_held_def)
  qed
qed

lemma by_label_held:
  assumes rep: "ge_rep E S" and ok: "ag_spent S + label_cost l \<le> unat pool_capacity"
  shows "fst (nodes_by_label E ids l) = fst (ge_spec S (EByLabel ids l))"
    "ge_rep (snd (nodes_by_label E ids l)) (snd (ge_spec S (EByLabel ids l)))"
proof -
  have r: "represents (ge_graph E) (dg_meta (ge_graph E), ag_edges S)" and lh: "labels_held E S"
    and ph: "pool_held (ge_pool E) (ag_spent S)" and vals: "pi_rep (ge_index E) (ag_values S)"
    using rep by (simp_all add: ge_rep_def)
  obtain q sp where q: "intern (ge_pool E) l = (Some q, sp)" "pool_held sp (ag_spent S + label_cost l)"
    "(l, q) \<in> set (sp_table sp)" "set (sp_table (ge_pool E)) \<subseteq> set (sp_table sp)"
    using intern_held [OF ph ok] by blast
  have d: "distinct (map fst (sp_table sp))" "distinct (map snd (sp_table sp))"
    using q(2) by (auto simp: pool_held_def sp_inv_def)
  have same: "l' = l \<longleftrightarrow> q' = q" if "(l', q') \<in> set (sp_table (ge_pool E))" for l' q'
    using that q(3,4) eq_key_imp_eq_value [OF d(1)] inj_onD [of snd "set (sp_table sp)" "(l', q')" "(l, q)"] d(2)
    by (auto simp: distinct_map)
  have "has_label (ge_graph E) (Some q) n \<longleftrightarrow> (\<exists>p. ag_nodes S n = Some (l, p))" for n
  proof (cases "ag_nodes S n")
    case None
    then show ?thesis using labels_heldD(2) [OF lh, of n] by (simp add: has_label_def)
  next
    case (Some lp)
    obtain l' p where lp: "lp = (l', p)" by (cases lp)
    then obtain m q' where "dg_meta (ge_graph E) n = Some m" "nm_label m = Some q'" "(l', q') \<in> set (sp_table (ge_pool E))"
      using labels_heldD(1) [OF lh] Some by blast
    then show ?thesis using same Some lp by (auto simp: has_label_def)
  qed
  then have "has_label (ge_graph E) (Some q) = (\<lambda>n. \<exists>p. ag_nodes S n = Some (l, p))" by (intro ext)
  then show "fst (nodes_by_label E ids l) = fst (ge_spec S (EByLabel ids l))"
    using q(1) by (simp add: nodes_by_label_def)
  show "ge_rep (snd (nodes_by_label E ids l)) (snd (ge_spec S (EByLabel ids l)))"
    using q(1,2) r vals labels_held_grow [OF lh q(4)] by (simp add: nodes_by_label_def ge_rep_def labels_held_def)
qed


lemma edge_ops_held:
  assumes rep: "ge_rep E S"
  shows "ge_rep (ge_add_edge E f t r w) (snd (ge_spec S (EAddEdge f t r w)))"
    "ge_rep (ge_remove_edge E f t r) (snd (ge_spec S (ERemoveEdge f t r)))"
proof -
  have rp: "represents (ge_graph E) (dg_meta (ge_graph E), ag_edges S)" using rep by (simp add: ge_rep_def)
  show "ge_rep (ge_add_edge E f t r w) (snd (ge_spec S (EAddEdge f t r w)))"
    using rep represents_step [OF rp, of "GAddEdge f t r w"] graph_step_meta [OF rp, of "GAddEdge f t r w"]
    by (simp add: ge_rep_def ge_add_edge_def labels_held_def)
  show "ge_rep (ge_remove_edge E f t r) (snd (ge_spec S (ERemoveEdge f t r)))"
    using rep represents_step [OF rp, of "GRemoveEdge f t r"] graph_step_meta [OF rp, of "GRemoveEdge f t r"]
    by (simp add: ge_rep_def ge_remove_edge_def labels_held_def)
qed

lemma index_held:
  assumes "ge_rep E S" "\<not> f64_nan v" "int32 n"
  shows "\<exists>E'. index_property draws E l p v n = Some E' \<and> ge_rep E' (snd (ge_spec S (EIndex l p v n)))"
  using pi_add_ok [of "ge_index E" "ag_values S" v n draws l p] assms
  by (auto simp: index_property_def ge_rep_def labels_held_def)

interpretation engine: guarded "ge_step draws" ge_spec ge_rep ge_guard for draws
proof
  fix E S x
  assume rep: "ge_rep E S" and g: "ge_guard S x"
  show "\<exists>E'. ge_step draws E x = Some (fst (ge_spec S x), E') \<and> ge_rep E' (snd (ge_spec S x))"
  proof (cases x)
    case (EAddNode n l p)
    then show ?thesis using add_node_held [OF rep, of l n p] g by simp
  next
    case (ERemoveNode n)
    then show ?thesis using remove_node_held [OF rep, of n] by auto
  next
    case (EAddEdge f t r w)
    then show ?thesis using edge_ops_held(1) [OF rep] by simp
  next
    case (ERemoveEdge f t r)
    then show ?thesis using edge_ops_held(2) [OF rep] by simp
  next
    case (EByLabel ids l)
    then show ?thesis using by_label_held [OF rep, of l ids] g by (cases "nodes_by_label E ids l") simp
  next
    case (EIndex l p v n)
    then show ?thesis using index_held [OF rep, of v n draws l p] g by auto
  qed
qed

section \<open>Properties\<close>

text \<open>
  C16. The engine keeps a labelled graph: after any operations whose labels fit the string pool and whose indexed values are no NaN, the
  adjacency lists are those of the log of edges, a node's properties are those last given, and a search
  by label, which compares pointers, returns exactly the nodes whose label is that text.
\<close>

theorem engine_keeps_labelled_graph:
  assumes "admissible ge_spec ge_guard ag_new ops"
  shows "\<exists>E. run_ops (ge_step draws) ge_new ops = Some (fst (run_spec ge_spec ag_new ops), E) \<and>
    ge_rep E (snd (run_spec ge_spec ag_new ops))"
  by (rule engine.runs_guarded [OF ge_new_ok assms])

theorem engine_keeps_labelled_graph_witness:
  "\<exists>E. run_ops (ge_step even) ge_new [EAddNode 1 ''A'' ''{}'', EAddNode 2 ''B'' ''{}'', EAddNode 3 ''A'' ''{}'', EByLabel [3, 2, 1] ''A''] =
     Some ([[], [], [], [3, 1]], E)"
proof -
  let ?ops = "[EAddNode 1 ''A'' ''{}'', EAddNode 2 ''B'' ''{}'', EAddNode 3 ''A'' ''{}'', EByLabel [3, 2, 1] ''A'']"
  have "admissible ge_spec ge_guard ag_new ?ops" by (simp add: ag_new_def label_cost_def pool_capacity_def)
  moreover have "fst (run_spec ge_spec ag_new ?ops) = [[], [], [], [3, 1]]" by (simp add: ag_new_def)
  ultimately show ?thesis using engine_keeps_labelled_graph [of ?ops even] by auto
qed

end
