(* ===== verification/CSR_View.thy ===== *)
theory CSR_View
  imports Graph_Engine CSR_Dijkstra
begin

text \<open>
  The compressed view that the graph engine caches: a view is rebuilt when the dirty flag of the graph is
  set, and every operation that changes the graph sets it, so that a search on the view is a search of
  the current graph.
\<close>

section \<open>Engines that are reached\<close>

text \<open>Any admissible operations on the graph, and views taken in between in any order of the hash maps.\<close>

definition orders :: "graph_engine \<Rightarrow> int list \<Rightarrow> int list \<Rightarrow> bool" where
  "orders E ids aids \<longleftrightarrow> distinct ids \<and> set ids = dom (dg_meta (ge_graph E)) \<and>
     distinct aids \<and> set aids = dom (dg_adj (ge_graph E))"

fun ids_below :: "ge_op \<Rightarrow> bool" where
  "ids_below (EAddNode n l p) \<longleftrightarrow> 0 \<le> n \<and> n < 2 ^ 31 - 1"
| "ids_below _ \<longleftrightarrow> True"

inductive engine_reached :: "(nat \<Rightarrow> bool) \<Rightarrow> graph_engine \<Rightarrow> labelled_graph \<Rightarrow> bool" for draws where
  new: "engine_reached draws ge_new ag_new"
| operation: "engine_reached draws E S \<Longrightarrow> ge_guard S x \<Longrightarrow> ids_below x \<Longrightarrow> ge_step draws E x = Some (r, E') \<Longrightarrow>
    engine_reached draws E' (snd (ge_spec S x))"
| view: "engine_reached draws E S \<Longrightarrow> orders E ids aids \<Longrightarrow> ge_csr_view E ids aids = Inr (c, E') \<Longrightarrow> engine_reached draws E' S"

section \<open>The cache\<close>

text \<open>The cached copy is one of the current graph, or the empty one of an engine without nodes.\<close>

definition csr_current :: "dgraph \<Rightarrow> csr_graph \<Rightarrow> bool" where
  "csr_current g c \<longleftrightarrow> (\<exists>bytes. csr_of bytes (dg_meta g) (dg_neighbors g) c) \<or> (c = csr_empty \<and> dom (dg_meta g) = {})"

definition view_inv :: "graph_engine \<Rightarrow> labelled_graph \<Rightarrow> bool" where
  "view_inv E S \<longleftrightarrow> ge_rep E S \<and> (\<forall>n \<in> dom (dg_meta (ge_graph E)). 0 \<le> n \<and> n < 2 ^ 31 - 1) \<and>
     (dg_dirty (ge_graph E) \<or> csr_current (ge_graph E) (ge_csr E))"

lemma listing_ok:
  assumes "distinct ks" "set ks = dom m"
  shows "map_of (listing m ks) = m" "map fst (listing m ks) = ks"
proof -
  have l: "listing m xs = map (\<lambda>k. (k, the (m k))) xs" if "set xs \<subseteq> dom m" for xs
    using that by (induction xs) (auto simp: listing_def)
  show "map fst (listing m ks) = ks" using assms(2) by (simp add: l comp_def)
  show "map_of (listing m ks) = m"
    using assms(2) by (auto simp: l map_of_map_restrict fun_eq_iff restrict_map_def domIff)
qed

lemma labels_readable:
  assumes "ge_rep E S"
  shows "\<forall>m \<in> ran (dg_meta (ge_graph E)). Option.bind (nm_label m) (read_cstr (sp_bytes (ge_pool E))) \<noteq> None"
proof
  fix m assume "m \<in> ran (dg_meta (ge_graph E))"
  then obtain n where m: "dg_meta (ge_graph E) n = Some m" by (auto simp: ran_def)
  have lh: "labels_held E S" and ph: "pool_held (ge_pool E) (ag_spent S)" using assms by (simp_all add: ge_rep_def)
  have "ag_nodes S n \<noteq> None" using labels_heldD(2) [OF lh, of n] m by simp
  then obtain l p where "ag_nodes S n = Some (l, p)" by auto
  then obtain q where q: "nm_label m = Some q" "(l, q) \<in> set (sp_table (ge_pool E))"
    using labels_heldD(1) [OF lh] m by fastforce
  then have "stored (ge_pool E) l q" using ph by (auto simp: pool_held_def sp_inv_def)
  then show "Option.bind (nm_label m) (read_cstr (sp_bytes (ge_pool E))) \<noteq> None"
    using q(1) read_cstr_stored by simp
qed

lemma clear_dirty_simps [simp]:
  "dg_meta (dg_clear_dirty g) = dg_meta g" "dg_adj (dg_clear_dirty g) = dg_adj g" "dg_radj (dg_clear_dirty g) = dg_radj g"
  "dg_max_id (dg_clear_dirty g) = dg_max_id g" "dg_neighbors (dg_clear_dirty g) = dg_neighbors g"
  "dg_reverse_neighbors (dg_clear_dirty g) = dg_reverse_neighbors g"
  by (simp_all add: dg_clear_dirty_def dg_neighbors_def dg_reverse_neighbors_def fun_eq_iff)

lemma view_ok:
  assumes inv: "view_inv E S" and ord: "orders E ids aids"
  shows "\<exists>c E'. ge_csr_view E ids aids = Inr (c, E') \<and> csr_current (ge_graph E) c \<and> view_inv E' S \<and>
    dg_meta (ge_graph E') = dg_meta (ge_graph E) \<and> dg_adj (ge_graph E') = dg_adj (ge_graph E)"
proof (cases "dg_dirty (ge_graph E)")
  case False
  then show ?thesis using inv by (auto simp: ge_csr_view_def view_inv_def)
next
  case True
  let ?g = "ge_graph E" and ?b = "sp_bytes (ge_pool E)"
  have rep: "ge_rep E S" using inv by (simp add: view_inv_def)
  obtain c where c: "build_csr ?b (listing (dg_meta ?g) ids) (listing (dg_adj ?g) aids) = Inr c"
    "csr_of ?b (dg_meta ?g) (dg_neighbors ?g) c"
  proof -
    have o: "distinct ids" "set ids = dom (dg_meta ?g)" "distinct aids" "set aids = dom (dg_adj ?g)"
      using ord by (simp_all add: orders_def)
    have below: "\<forall>n \<in> dom (dg_meta ?g). 0 \<le> n \<and> n < 2 ^ 31 - 1" using inv unfolding view_inv_def by blast
    have "dg_neighbors ?g u = (case map_of (listing (dg_adj ?g) aids) u of None \<Rightarrow> [] | Some es \<Rightarrow> es)" for u
      unfolding listing_ok(1) [OF o(3,4)] by (simp add: dg_neighbors_def split: option.splits)
    moreover have "distinct (map fst (listing (dg_meta ?g) ids))" "distinct (map fst (listing (dg_adj ?g) aids))"
      unfolding listing_ok(2) [OF o(1,2)] listing_ok(2) [OF o(3,4)] by (rule o(1), rule o(3))
    ultimately show thesis
      using build_csr_ok [OF listing_ok(1) [OF o(1,2)] _ _ _ below labels_readable [OF rep]] that by blast
  qed
  let ?E = "E\<lparr>ge_csr := c, ge_graph := dg_clear_dirty ?g\<rparr>"
  have "ge_rep ?E S" using rep by (simp add: ge_rep_def represents_def labels_held_def)
  then have "view_inv ?E S"
    using inv c(2) by (auto simp: view_inv_def csr_current_def)
  moreover have "ge_csr_view E ids aids = Inr (c, ?E)"
    using True c(1) by (simp add: ge_csr_view_def ge_compact_def)
  ultimately show ?thesis using c(2) by (auto simp: csr_current_def)
qed

lemma dirty_steps [simp]:
  "dg_dirty (dg_add_node g n l p)" "dg_dirty (dg_remove_node g n)" "dg_dirty (dg_add_edge g f t r w)"
  "dg_dirty (dg_remove_edge g f t r)"
  by (simp_all add: dg_add_node_def dg_remove_node_def dg_add_edge_def dg_remove_edge_def Let_def split: prod.splits)

lemma step_ok:
  assumes inv: "view_inv E S" and ok: "ge_guard S x" "ids_below x" and step: "ge_step draws E x = Some (r, E')"
  shows "view_inv E' (snd (ge_spec S x))"
proof -
  have rep: "ge_rep E S" using inv by (simp add: view_inv_def)
  then have rep': "ge_rep E' (snd (ge_spec S x))" using engine.guarded_step [OF rep ok(1), of draws] step by auto
  have r: "represents (ge_graph E) (dg_meta (ge_graph E), ag_edges S)" using rep by (simp add: ge_rep_def)
  have ids: "0 \<le> n" "n < 2 ^ 31 - 1" if "dg_meta (ge_graph E) n = Some m" for n m
    using inv that unfolding view_inv_def by blast+
  show ?thesis
  proof (cases x)
    case (EAddNode n l p)
    then show ?thesis using rep' step ids ok(2)
      by (auto simp: view_inv_def ge_add_node_def dg_add_node_def case_prod_unfold Let_def split: if_splits)
  next
    case (ERemoveNode n)
    then show ?thesis using rep' step ids graph_step_meta [OF r, of "GRemoveNode n"]
      by (auto simp: view_inv_def ge_remove_node_def split: option.splits bind_splits if_splits)
  next
    case (EAddEdge f t rl w)
    then show ?thesis using rep' step ids graph_step_meta [OF r, of "GAddEdge f t rl w"]
      by (auto simp: view_inv_def ge_add_edge_def)
  next
    case (ERemoveEdge f t rl)
    then show ?thesis using rep' step ids graph_step_meta [OF r, of "GRemoveEdge f t rl"]
      by (auto simp: view_inv_def ge_remove_edge_def)
  next
    case (EByLabel ks l)
    then show ?thesis using rep' step inv by (auto simp: view_inv_def nodes_by_label_def case_prod_unfold Let_def)
  next
    case (EIndex l p v n)
    then show ?thesis using rep' step inv by (auto simp: view_inv_def index_property_def split: bind_splits)
  qed
qed

lemma new_ok: "view_inv ge_new ag_new"
  using ge_new_ok by (simp add: view_inv_def csr_current_def ge_new_def dg_new_def)

lemma reached_ok: "engine_reached draws E S \<Longrightarrow> view_inv E S"
proof (induction rule: engine_reached.induct)
  case new
  show ?case by (rule new_ok)
next
  case (operation E S x r E')
  then show ?case using step_ok by blast
next
  case (view E S ids aids c E')
  then show ?case using view_ok by fastforce
qed

lemma search_current:
  assumes "csr_current g c" "no_dangling g" "finite (dom (dg_meta g))"
  shows "\<exists>p. bfs_path_csr c source target = Some (Inr p) \<and> shortest_ids g source target (pr_nodes p)"
proof (cases "c = csr_empty \<and> dom (dg_meta g) = {}")
  case True
  then have "bfs_path_csr c source target = Some (Inr no_path)"
    by (simp add: bfs_path_csr_def csr_empty_def to_idx_def)
  then show ?thesis using True by (auto simp: shortest_ids_def no_path_def)
next
  case False
  then obtain bytes where "csr_of bytes (dg_meta g) (dg_neighbors g) c" using assms(1) by (auto simp: csr_current_def)
  then show ?thesis by (rule bfs_csr_ok) (use assms in auto)
qed

lemma search_cheapest:
  assumes "csr_current g c" "no_dangling g" "finite (dom (dg_meta g))" "weights_ok g"
  shows "\<exists>p. dijkstra_path_csr c source target = Some (Inr p) \<and> cheapest_ids g source target p"
proof (cases "c = csr_empty \<and> dom (dg_meta g) = {}")
  case True
  then have "dijkstra_path_csr c source target = Some (Inr no_wpath)"
    by (simp add: dijkstra_path_csr_def csr_empty_def to_idx_def)
  then show ?thesis using True by (auto simp: cheapest_ids_def)
next
  case False
  then obtain bytes where "csr_of bytes (dg_meta g) (dg_neighbors g) c" using assms(1) by (auto simp: csr_current_def)
  then show ?thesis by (rule dijkstra_csr_ok) (use assms in auto)
qed

section \<open>Property\<close>

text \<open>
  C21. A view of the engine is never outdated: after any operations whose labels fit the string
  pool, whose indexed values are no NaN and whose ids are from 0 to below the greatest \<^verbatim>\<open>int\<close>, with views
  taken in between, taking a view succeeds and leaves the graph alone. If every edge of the current graph ends at a
  node, the breadth first search on the view answers with shortest paths of the current graph and, if the
  weights are also neither negative nor NaN, the weighted search with cheapest ones, whether the view was
  rebuilt or cached. (Edges that end at no node leave default slots in the view, as in any compressed copy.)
\<close>

theorem csr_view_current:
  assumes "engine_reached draws E S" "orders E ids aids"
  shows "\<exists>c E'. ge_csr_view E ids aids = Inr (c, E') \<and> engine_reached draws E' S \<and>
    dg_meta (ge_graph E') = dg_meta (ge_graph E) \<and> dg_adj (ge_graph E') = dg_adj (ge_graph E) \<and>
    (no_dangling (ge_graph E) \<longrightarrow>
      (\<exists>p. bfs_path_csr c source target = Some (Inr p) \<and> shortest_ids (ge_graph E) source target (pr_nodes p)) \<and>
      (weights_ok (ge_graph E) \<longrightarrow>
        (\<exists>p. dijkstra_path_csr c source target = Some (Inr p) \<and> cheapest_ids (ge_graph E) source target p)))"
proof -
  note inv = reached_ok [OF assms(1)]
  have "finite (dom (dg_meta (ge_graph E)))" using inv by (simp add: view_inv_def ge_rep_def represents_def)
  with view_ok [OF inv assms(2)] engine_reached.view [OF assms] search_current search_cheapest
  show ?thesis by blast
qed

theorem csr_view_current_witness:
  "\<exists>E S c E' p. engine_reached even E S \<and> ge_csr_view E [1] [1] = Inr (c, E') \<and> bfs_path_csr c 1 1 = Some (Inr p) \<and>
     hd (pr_nodes p) = 1"
proof -
  let ?E = "ge_add_node ge_new 1 ''A'' ''{}''"
  have r: "engine_reached even ?E (snd (ge_spec ag_new (EAddNode 1 ''A'' ''{}'')))"
    by (rule engine_reached.operation [OF engine_reached.new, where r = "[]"])
      (simp_all add: ag_new_def label_cost_def pool_capacity_def)
  have g: "dom (dg_meta (ge_graph ?E)) = {1}" "dg_adj (ge_graph ?E) = [1 \<mapsto> []]"
    by (simp_all add: ge_add_node_def ge_new_def dg_new_def dg_add_node_def ensure_def case_prod_unfold Let_def)
  then have o: "orders ?E [1] [1]" and nd: "no_dangling (ge_graph ?E)"
    by (simp_all add: orders_def no_dangling_def dg_neighbors_def)
  obtain c E' p where "ge_csr_view ?E [1] [1] = Inr (c, E')" "bfs_path_csr c 1 1 = Some (Inr p)"
    "shortest_ids (ge_graph ?E) 1 1 (pr_nodes p)"
    using csr_view_current [OF r o, of 1 1] nd by blast
  moreover from this(3) have "hd (pr_nodes p) = 1"
    using g by (auto simp: shortest_ids_def reachable_def split: if_splits)
  ultimately show ?thesis using r by blast
qed

end
