(* ===== verification/Robin_Hood.thy ===== *)
theory Robin_Hood
  imports Prelude Cxx_Float "HOL-Library.Monad_Syntax"
begin

text \<open>
  The open-addressing hash map of \<^verbatim>\<open>src/kv/hashmap.hpp\<close> and \<^verbatim>\<open>src/kv/hashmap.cpp\<close>
  (class \<^verbatim>\<open>RobinHoodMap\<close>), as the code has it: an array of entries that carry their hash
  and their distance from the home slot (\<^verbatim>\<open>dib\<close>), a power-of-two capacity, a 32-bit mask,
  insertion that swaps with richer entries, deletion by backward shift, and doubling at a load of
  three quarters.

  The \<^verbatim>\<open>while (true)\<close> loops are \<^theory_text>\<open>partial_function\<close>s in the option type: \<open>None\<close>
  is a loop that does not return. That they do return on every well-formed table is proved in
  theory \<^verbatim>\<open>Robin_Hood_Proofs\<close>.
\<close>

section \<open>State\<close>

record rh_entry =
  e_hash :: u32
  e_dib :: u32
  e_key :: string
  e_val :: string

record rh_map =
  rh_entries :: "rh_entry list"
  rh_size :: nat
  rh_capacity :: nat
  rh_mask :: u32

definition EMPTY :: u32 where
  "EMPTY = 0xFFFFFFFF"

definition e_empty :: "rh_entry \<Rightarrow> bool" where
  "e_empty e \<longleftrightarrow> e_hash e = EMPTY"

text \<open>A value-initialised \<^verbatim>\<open>Entry{}\<close>.\<close>

definition entry_init :: rh_entry where
  "entry_init = \<lparr>e_hash = 0, e_dib = 0, e_key = '''', e_val = ''''\<rparr>"

section \<open>Helpers\<close>

text \<open>The FNV-1a hash, kept away from the marker of an empty slot.\<close>

definition fnv_step :: "u32 \<Rightarrow> char \<Rightarrow> u32" where
  "fnv_step h c = (h XOR of_nat (of_char c)) * 16777619"

definition rh_hash :: "string \<Rightarrow> u32" where
  "rh_hash key = (let h = foldl fnv_step 2166136261 key in if h = EMPTY then h - 1 else h)"

definition next_pow2 :: "u64 \<Rightarrow> u64" where
  "next_pow2 n =
     (let n = n - 1;
          n = n OR drop_bit 1 n; n = n OR drop_bit 2 n; n = n OR drop_bit 4 n;
          n = n OR drop_bit 8 n; n = n OR drop_bit 16 n
      in n + 1)"

definition rh_clear_all :: "rh_entry list \<Rightarrow> rh_entry list" where
  "rh_clear_all es = map (\<lambda>e. e\<lparr>e_hash := EMPTY\<rparr>) es"

text \<open>\<^verbatim>\<open>mask_ = capacity_ - 1\<close>: a 64-bit subtraction, truncated to 32 bits.\<close>

definition mask_of :: "nat \<Rightarrow> u32" where
  "mask_of cap = ucast (of_nat cap - 1 :: u64)"

definition rh_new :: "u64 \<Rightarrow> rh_map" where
  "rh_new initial =
     (let cap = unat (next_pow2 initial)
      in \<lparr>rh_entries = rh_clear_all (replicate cap entry_init), rh_size = 0,
          rh_capacity = cap, rh_mask = mask_of cap\<rparr>)"

text \<open>
  \<^verbatim>\<open>size_ + 1 > capacity_ * MAX_LOAD\<close>: the left side is converted to \<^verbatim>\<open>float\<close>, so it
  is rounded to 24 bits. The capacity is a power of two, so the right side is exact.
\<close>

definition load_exceeded :: "nat \<Rightarrow> nat \<Rightarrow> bool" where
  "load_exceeded n cap \<longleftrightarrow> 3 * cap < 4 * f32_round (n + 1)"

section \<open>Insertion\<close>

text \<open>
  The loop of \<^verbatim>\<open>set\<close>. The hash compared with a slot's is that of the key being set, and
  the key is that of the entry in hand, which a swap has changed, as in the source.
\<close>

partial_function (option) rh_set_loop ::
  "u32 \<Rightarrow> u32 \<Rightarrow> rh_entry list \<Rightarrow> u32 \<Rightarrow> rh_entry \<Rightarrow> (bool \<times> rh_entry list) option" where [code]:
  "rh_set_loop msk h es idx incoming =
     (let slot = es ! unat idx in
      if e_empty slot then Some (True, es[unat idx := incoming])
      else if e_hash slot = h \<and> e_key slot = e_key incoming
      then Some (False, es[unat idx := slot\<lparr>e_val := e_val incoming\<rparr>])
      else
        (let (es', inc') = (if e_dib slot < e_dib incoming
                            then (es[unat idx := incoming], slot) else (es, incoming))
         in rh_set_loop msk h es' ((idx + 1) AND msk) (inc'\<lparr>e_dib := e_dib inc' + 1\<rparr>)))"

text \<open>The inline insertion of \<^verbatim>\<open>grow\<close>: no test for an equal key.\<close>

partial_function (option) rh_reinsert_loop ::
  "u32 \<Rightarrow> rh_entry list \<Rightarrow> u32 \<Rightarrow> rh_entry \<Rightarrow> rh_entry list option" where [code]:
  "rh_reinsert_loop msk es idx incoming =
     (let slot = es ! unat idx in
      if e_empty slot then Some (es[unat idx := incoming])
      else
        (let (es', inc') = (if e_dib slot < e_dib incoming
                            then (es[unat idx := incoming], slot) else (es, incoming))
         in rh_reinsert_loop msk es' ((idx + 1) AND msk) (inc'\<lparr>e_dib := e_dib inc' + 1\<rparr>)))"

fun rh_reinsert_all ::
  "u32 \<Rightarrow> rh_entry list \<Rightarrow> rh_entry list \<Rightarrow> nat \<Rightarrow> (rh_entry list \<times> nat) option" where
  "rh_reinsert_all msk [] es n = Some (es, n)"
| "rh_reinsert_all msk (e # old) es n =
     (if e_empty e then rh_reinsert_all msk old es n
      else do {
        es' \<leftarrow> rh_reinsert_loop msk es (e_hash e AND msk) (e\<lparr>e_dib := 0\<rparr>);
        rh_reinsert_all msk old es' (n + 1)
      })"

definition rh_grow :: "rh_map \<Rightarrow> rh_map option" where
  "rh_grow m =
     (let cap = rh_capacity m * 2; msk = mask_of cap
      in do {
        (es, n) \<leftarrow> rh_reinsert_all msk (rh_entries m)
                    (rh_clear_all (replicate cap entry_init)) 0;
        Some \<lparr>rh_entries = es, rh_size = n, rh_capacity = cap, rh_mask = msk\<rparr>
      })"

definition rh_set :: "rh_map \<Rightarrow> string \<Rightarrow> string \<Rightarrow> (bool \<times> rh_map) option" where
  "rh_set m key val = do {
     m \<leftarrow> (if load_exceeded (rh_size m) (rh_capacity m) then rh_grow m else Some m);
     let h = rh_hash key;
     (inserted, es) \<leftarrow> rh_set_loop (rh_mask m) h (rh_entries m) (h AND rh_mask m)
                         \<lparr>e_hash = h, e_dib = 0, e_key = key, e_val = val\<rparr>;
     Some (inserted, m\<lparr>rh_entries := es,
                       rh_size := (if inserted then rh_size m + 1 else rh_size m)\<rparr>)
   }"

section \<open>Lookup\<close>

text \<open>
  \<^verbatim>\<open>get\<close> returns a pointer to the value in the slot, which its callers only read; the model
  returns the value.
\<close>

partial_function (option) rh_get_loop ::
  "u32 \<Rightarrow> u32 \<Rightarrow> string \<Rightarrow> rh_entry list \<Rightarrow> u32 \<Rightarrow> u32 \<Rightarrow> string option option" where [code]:
  "rh_get_loop msk h key es idx dib =
     (let slot = es ! unat idx in
      if e_empty slot then Some None
      else if e_dib slot < dib then Some None
      else if e_hash slot = h \<and> e_key slot = key then Some (Some (e_val slot))
      else rh_get_loop msk h key es ((idx + 1) AND msk) (dib + 1))"

definition rh_get :: "rh_map \<Rightarrow> string \<Rightarrow> string option option" where
  "rh_get m key =
     (let h = rh_hash key in rh_get_loop (rh_mask m) h key (rh_entries m) (h AND rh_mask m) 0)"

section \<open>Deletion\<close>

text \<open>
  Backward shift. The source moves \<^verbatim>\<open>entries_[next]\<close> into \<^verbatim>\<open>entries_[idx]\<close> and then
  overwrites \<^verbatim>\<open>entries_[next]\<close> in the following turn, so what a move leaves behind is never
  read; the model copies.
\<close>

partial_function (option) rh_erase_at ::
  "u32 \<Rightarrow> rh_entry list \<Rightarrow> u32 \<Rightarrow> rh_entry list option" where [code]:
  "rh_erase_at msk es idx =
     (let next = (idx + 1) AND msk; nx = es ! unat next in
      if e_empty nx \<or> e_dib nx = 0 then Some (es[unat idx := entry_init\<lparr>e_hash := EMPTY\<rparr>])
      else rh_erase_at msk (es[unat idx := nx\<lparr>e_dib := e_dib nx - 1\<rparr>]) next)"

partial_function (option) rh_del_loop ::
  "u32 \<Rightarrow> u32 \<Rightarrow> string \<Rightarrow> rh_entry list \<Rightarrow> u32 \<Rightarrow> u32 \<Rightarrow> (bool \<times> rh_entry list) option" where [code]:
  "rh_del_loop msk h key es idx dib =
     (let slot = es ! unat idx in
      if e_empty slot then Some (False, es)
      else if e_dib slot < dib then Some (False, es)
      else if e_hash slot = h \<and> e_key slot = key
      then map_option (Pair True) (rh_erase_at msk es idx)
      else rh_del_loop msk h key es ((idx + 1) AND msk) (dib + 1))"

definition rh_del :: "rh_map \<Rightarrow> string \<Rightarrow> (bool \<times> rh_map) option" where
  "rh_del m key =
     (let h = rh_hash key
      in do {
        (found, es) \<leftarrow> rh_del_loop (rh_mask m) h key (rh_entries m) (h AND rh_mask m) 0;
        Some (found, m\<lparr>rh_entries := es,
                       rh_size := (if found then rh_size m - 1 else rh_size m)\<rparr>)
      })"

end
