(* ===== verification/Robin_Hood_Proofs.thy ===== *)
theory Robin_Hood_Proofs
  imports Robin_Hood
begin

text \<open>
  Correctness of the Robin Hood hash map: the table invariant, its preservation by every
  operation, the return of every loop, and the refinement to a finite map from keys to values.
\<close>

section \<open>The table invariant\<close>

text \<open>\<open>probe_dist\<close> is one more than the distance from home, and \<open>0\<close> for an empty slot.\<close>

definition probe_dist :: "rh_entry \<Rightarrow> nat" where
  "probe_dist e = (if e_empty e then 0 else Suc (unat (e_dib e)))"

definition placed :: "nat \<Rightarrow> nat \<Rightarrow> rh_entry \<Rightarrow> bool" where
  "placed k i e \<longleftrightarrow> e_hash e = rh_hash (e_key e) \<and> unat (e_dib e) < 2 ^ k \<and>
     (unat (e_hash e) + unat (e_dib e)) mod 2 ^ k = i"

definition slots_ok :: "nat \<Rightarrow> rh_entry list \<Rightarrow> bool" where
  "slots_ok k es \<longleftrightarrow> length es = 2 ^ k \<and>
     (\<forall>i < 2 ^ k. \<not> e_empty (es ! i) \<longrightarrow> placed k i (es ! i))"

text \<open>The Robin Hood order: along the probe sequence the distance grows by at most one a step.\<close>

definition ordered :: "nat \<Rightarrow> rh_entry list \<Rightarrow> bool" where
  "ordered k es \<longleftrightarrow> (\<forall>i < 2 ^ k. probe_dist (es ! (Suc i mod 2 ^ k)) \<le> Suc (probe_dist (es ! i)))"

definition kvs :: "rh_entry list \<Rightarrow> (string \<times> string) list" where
  "kvs es = map (\<lambda>e. (e_key e, e_val e)) (filter (\<lambda>e. \<not> e_empty e) es)"

definition table_ok :: "nat \<Rightarrow> rh_entry list \<Rightarrow> bool" where
  "table_ok k es \<longleftrightarrow> k \<le> 31 \<and> slots_ok k es \<and> ordered k es \<and> distinct (map fst (kvs es))"

section \<open>Contents as a multiset\<close>

definition kv1 :: "rh_entry \<Rightarrow> (string \<times> string) multiset" where
  "kv1 e = (if e_empty e then {#} else {#(e_key e, e_val e)#})"

definition rest :: "nat \<Rightarrow> rh_entry list \<Rightarrow> (string \<times> string) multiset" where
  "rest i es = mset (kvs (take i es @ drop (Suc i) es))"

lemma kvs_append [simp]: "kvs (xs @ ys) = kvs xs @ kvs ys"
  by (simp add: kvs_def)

lemma mset_kvs_Cons: "mset (kvs (e # es)) = kv1 e + mset (kvs es)"
  by (simp add: kvs_def kv1_def)

lemma mset_kvs_split:
  assumes "i < length es"
  shows "mset (kvs es) = kv1 (es ! i) + rest i es"
proof -
  have "mset (kvs es) = mset (kvs (take i es @ es ! i # drop (Suc i) es))"
    using assms by (simp add: id_take_nth_drop [symmetric])
  also have "\<dots> = mset (kvs (take i es)) + mset (kvs (es ! i # drop (Suc i) es))"
    by simp
  finally show ?thesis
    by (simp only: mset_kvs_Cons rest_def kvs_append mset_append) simp
qed

lemma rest_update [simp]: "rest i (es[i := x]) = rest i es"
  by (simp add: rest_def)

lemma mset_kvs_update:
  assumes "i < length es"
  shows "mset (kvs (es[i := x])) = kv1 x + rest i es"
  using mset_kvs_split [of i "es[i := x]"] assms by simp

lemma length_kvs: "length (kvs es) = length (filter (\<lambda>e. \<not> e_empty e) es)"
  by (simp add: kvs_def)

lemma kvs_memI: "e \<in> set es \<Longrightarrow> \<not> e_empty e \<Longrightarrow> (e_key e, e_val e) \<in> set (kvs es)"
  by (auto simp: kvs_def)

lemma kvs_memE:
  assumes "(key, v) \<in> set (kvs es)"
  obtains i where "i < length es" "\<not> e_empty (es ! i)" "e_key (es ! i) = key" "e_val (es ! i) = v"
  using assms by (auto simp: kvs_def in_set_conv_nth)

section \<open>Facts on distances\<close>

lemma dist_eq_0 [simp]: "probe_dist e = 0 \<longleftrightarrow> e_empty e"
  by (simp add: probe_dist_def)

lemma dist_empty [simp]: "e_empty e \<Longrightarrow> probe_dist e = 0"
  by simp

lemma ordered_steps:
  assumes "ordered k es" "i < 2 ^ k"
  shows "probe_dist (es ! ((i + u) mod 2 ^ k)) \<le> probe_dist (es ! i) + u"
proof (induction u)
  case 0
  then show ?case using assms by simp
next
  case (Suc u)
  have "probe_dist (es ! (Suc ((i + u) mod 2 ^ k) mod 2 ^ k)) \<le> Suc (probe_dist (es ! ((i + u) mod 2 ^ k)))"
    using assms(1) by (simp add: ordered_def)
  then show ?case
    using Suc by (simp add: mod_Suc_eq)
qed

lemma ordered_update:
  assumes "ordered k es" "length es = 2 ^ k" "i < 2 ^ k"
    and pre: "\<And>p. p < 2 ^ k \<Longrightarrow> Suc p mod 2 ^ k = i \<Longrightarrow> probe_dist x \<le> Suc (probe_dist (es ! p))"
    and post: "probe_dist (es ! (Suc i mod 2 ^ k)) \<le> Suc (probe_dist x)"
  shows "ordered k (es[i := x])"
  unfolding ordered_def
proof (intro allI impI)
  fix p :: nat assume p: "p < 2 ^ k"
  have "Suc p mod 2 ^ k < 2 ^ k" by simp
  then show "probe_dist (es[i := x] ! (Suc p mod 2 ^ k)) \<le> Suc (probe_dist (es[i := x] ! p))"
    using assms(1) p pre [OF p] post assms(2,3)
    by (auto simp: ordered_def nth_list_update)
qed

lemma dist_le_capacity:
  assumes "slots_ok k es" "i < 2 ^ k"
  shows "probe_dist (es ! i) \<le> 2 ^ k"
  using assms by (auto simp: slots_ok_def placed_def probe_dist_def Suc_le_eq)

text \<open>With an empty slot anywhere, no distance reaches the capacity.\<close>

lemma dist_less_capacity:
  assumes "ordered k es" "j < 2 ^ k" "e_empty (es ! j)" "i < 2 ^ k"
  shows "probe_dist (es ! i) < 2 ^ k"
proof -
  obtain u where "u < 2 ^ k" "(j + u) mod 2 ^ k = i"
    using circular_reach [of j "2 ^ k" i] assms by auto
  with ordered_steps [OF assms(1,2), of u] dist_empty [OF assms(3)] show ?thesis
    by simp
qed

lemma Suc_mod_inj:
  assumes "p < n" "q < n" "Suc p mod n = Suc q mod (n::nat)"
  shows "p = q"
  using assms by (auto simp: mod_Suc split: if_splits)

lemma mask_of_pow2: "k \<le> 32 \<Longrightarrow> mask_of (2 ^ k) = of_nat (2 ^ k - 1)"
proof -
  assume "k \<le> 32"
  then have "(2::nat) ^ k \<le> 2 ^ 32"
    by (rule power_increasing) simp
  then have "take_bit 64 (2 ^ k - 1 :: nat) = 2 ^ k - 1"
    by (intro take_bit_nat_eq_self) auto
  moreover have "(of_nat (2 ^ k) - 1 :: u64) = of_nat (2 ^ k - 1)"
    by (simp add: of_nat_diff)
  ultimately show ?thesis
    unfolding mask_of_def by (simp only: unsigned_of_nat) simp
qed

lemma unat_next: "k \<le> 31 \<Longrightarrow> unat ((idx + 1) AND mask_of (2 ^ k)) = Suc (unat idx) mod 2 ^ k"
  using unat_Suc_and_mask_mod [of k idx] by (simp add: mask_of_pow2)

lemma unat_home: "k \<le> 31 \<Longrightarrow> unat (h AND mask_of (2 ^ k)) = unat h mod 2 ^ k"
  using unat_and_mask_mod [of k h] by (simp add: mask_of_pow2)

lemma unat_Suc_dib:
  assumes "unat (d :: u32) < 2 ^ k" "k \<le> 31"
  shows "unat (d + 1) = Suc (unat d)"
proof -
  have "(2::nat) ^ k \<le> 2 ^ 31"
    using assms(2) by (rule power_increasing) simp
  then have "Suc (unat d) < 2 ^ 32"
    using assms(1) by simp
  then show ?thesis
    by (simp add: unat_word_ariths)
qed

lemma rh_hash_nonempty: "rh_hash key \<noteq> EMPTY"
  by (simp add: rh_hash_def EMPTY_def Let_def)

section \<open>The entry in hand\<close>

text \<open>
  \<open>carried\<close>: the entry in hand belongs at probe distance \<^verbatim>\<open>dib\<close>, which is the current
  index, and the slot before the index is at least as far from home as the entry was there.
\<close>

definition carried :: "nat \<Rightarrow> rh_entry list \<Rightarrow> nat \<Rightarrow> rh_entry \<Rightarrow> bool" where
  "carried k es i inc \<longleftrightarrow> \<not> e_empty inc \<and> e_hash inc = rh_hash (e_key inc) \<and> i < 2 ^ k \<and>
     (unat (e_hash inc) + unat (e_dib inc)) mod 2 ^ k = i \<and>
     (\<forall>p < 2 ^ k. Suc p mod 2 ^ k = i \<longrightarrow> unat (e_dib inc) \<le> probe_dist (es ! p))"

definition fresh :: "rh_entry \<Rightarrow> rh_entry list \<Rightarrow> bool" where
  "fresh inc es \<longleftrightarrow> distinct (map fst ((e_key inc, e_val inc) # kvs es))"

lemma carried_dib:
  assumes "table_ok k es" "carried k es i inc" "j < 2 ^ k" "e_empty (es ! j)"
  shows "unat (e_dib inc) < 2 ^ k"
proof -
  let ?p = "(i + (2 ^ k - 1)) mod 2 ^ k"
  have "Suc (i + (2 ^ k - 1)) = i + 2 ^ k" by simp
  then have "Suc ?p mod 2 ^ k = i"
    using assms(2) by (simp add: mod_Suc_eq carried_def)
  moreover have "?p < 2 ^ k" by simp
  ultimately have "unat (e_dib inc) \<le> probe_dist (es ! ?p)"
    using assms(2) by (simp add: carried_def)
  also have "\<dots> < 2 ^ k"
    using assms \<open>?p < 2 ^ k\<close> by (intro dist_less_capacity [of k es j]) (auto simp: table_ok_def)
  finally show ?thesis .
qed

lemma fresh_mset:
  assumes "fresh inc es" "mset (kvs es') + kv1 inc' = mset (kvs es) + kv1 inc"
    "\<not> e_empty inc" "\<not> e_empty inc'"
  shows "fresh inc' es'" "distinct (map fst (kvs es'))"
proof -
  have "mset ((e_key inc', e_val inc') # kvs es') = mset ((e_key inc, e_val inc) # kvs es)"
    using assms(2-4) by (simp add: kv1_def)
  from distinct_keys_mset [OF this] assms(1) show "fresh inc' es'"
    by (simp only: fresh_def)
  then show "distinct (map fst (kvs es'))"
    by (simp add: fresh_def)
qed

text \<open>Putting the entry in hand into an empty or a richer slot keeps the table in order.\<close>

lemma place_slots:
  assumes ok: "table_ok k es" and c: "carried k es i inc" and j: "j < 2 ^ k" "e_empty (es ! j)"
    and poor: "probe_dist (es ! i) \<le> unat (e_dib inc)"
  shows "slots_ok k (es[i := inc])" "ordered k (es[i := inc])"
proof -
  have len: "length es = 2 ^ k" and i: "i < 2 ^ k" and o: "ordered k es"
    using ok c by (auto simp: table_ok_def slots_ok_def carried_def)
  have "placed k i inc"
    using c carried_dib [OF ok c j] by (auto simp: placed_def carried_def)
  then show "slots_ok k (es[i := inc])"
    using ok i by (auto simp: table_ok_def slots_ok_def nth_list_update)
  have d: "probe_dist inc = Suc (unat (e_dib inc))"
    using c by (simp add: probe_dist_def carried_def)
  show "ordered k (es[i := inc])"
  proof (rule ordered_update [OF o len i])
    fix p assume "p < 2 ^ k" "Suc p mod 2 ^ k = i"
    then show "probe_dist inc \<le> Suc (probe_dist (es ! p))"
      using c d by (auto simp: carried_def)
  next
    have "probe_dist (es ! (Suc i mod 2 ^ k)) \<le> Suc (probe_dist (es ! i))"
      using o i by (simp add: ordered_def)
    then show "probe_dist (es ! (Suc i mod 2 ^ k)) \<le> Suc (probe_dist inc)"
      using poor d by linarith
  qed
qed

lemma place_empty:
  assumes "table_ok k es" "carried k es i inc" "fresh inc es" "e_empty (es ! i)"
  shows "table_ok k (es[i := inc])" "mset (kvs (es[i := inc])) = mset (kvs es) + kv1 inc"
proof -
  have i: "i < length es" "i < 2 ^ k"
    using assms by (auto simp: table_ok_def slots_ok_def carried_def)
  show m: "mset (kvs (es[i := inc])) = mset (kvs es) + kv1 inc"
    using mset_kvs_update [OF i(1), of inc] mset_kvs_split [OF i(1)] assms(4)
    by (simp add: kv1_def)
  have "distinct (map fst (kvs (es[i := inc])))"
    using assms(2,3) m distinct_keys_mset [of "kvs (es[i := inc])" "(e_key inc, e_val inc) # kvs es"]
    by (simp add: fresh_def kv1_def carried_def)
  then show "table_ok k (es[i := inc])"
    using place_slots [OF assms(1,2) i(2) assms(4)] assms(1,4) by (simp add: table_ok_def)
qed

section \<open>Insertion of a new key\<close>

lemma e_empty_dib [simp]: "e_empty (e\<lparr>e_dib := d\<rparr>) = e_empty e"
  by (simp add: e_empty_def)

lemma kv1_dib [simp]: "kv1 (e\<lparr>e_dib := d\<rparr>) = kv1 e"
  by (simp add: kv1_def)

text \<open>One turn of the loop over an occupied slot, whether it swaps or not.\<close>

definition insert_turn :: "rh_entry list \<Rightarrow> nat \<Rightarrow> rh_entry \<Rightarrow> rh_entry list \<times> rh_entry" where
  "insert_turn es i inc =
     (if e_dib (es ! i) < e_dib inc then (es[i := inc], es ! i) else (es, inc))"

lemma carried_next:
  assumes "\<not> e_empty e" "e_hash e = rh_hash (e_key e)" "unat (e_dib e) < 2 ^ k" "k \<le> 31" "i < 2 ^ k"
    and "(unat (e_hash e) + unat (e_dib e)) mod 2 ^ k = i"
    and "Suc (unat (e_dib e)) \<le> probe_dist (es ! i)"
  shows "carried k es (Suc i mod 2 ^ k) (e\<lparr>e_dib := e_dib e + 1\<rparr>)"
proof -
  have d: "unat (e_dib e + 1) = Suc (unat (e_dib e))"
    using assms(3,4) by (rule unat_Suc_dib)
  have "p = i" if "p < 2 ^ k" "Suc p mod 2 ^ k = Suc i mod 2 ^ k" for p
    using that assms(5) by (intro Suc_mod_inj [of p "2 ^ k"]) auto
  moreover have "(unat (e_hash e) + Suc (unat (e_dib e))) mod 2 ^ k = Suc i mod 2 ^ k"
    using assms(6) by (metis add_Suc_right mod_Suc_eq)
  ultimately show ?thesis
    using assms d by (auto simp: carried_def)
qed

lemma insert_turn_ok:
  assumes ok: "table_ok k es" and c: "carried k es i inc" and f: "fresh inc es"
    and j: "j < 2 ^ k" "e_empty (es ! j)" and occ: "\<not> e_empty (es ! i)"
    and turn: "insert_turn es i inc = (es', inc')"
  shows "table_ok k es'" "carried k es' (Suc i mod 2 ^ k) (inc'\<lparr>e_dib := e_dib inc' + 1\<rparr>)"
    "mset (kvs es') + kv1 inc' = mset (kvs es) + kv1 inc" "\<not> e_empty inc'"
    "e_empty (es' ! j)"
proof -
  have k: "k \<le> 31" and i: "i < 2 ^ k" "i < length es" and sl: "placed k i (es ! i)"
    using ok c occ by (auto simp: table_ok_def slots_ok_def carried_def)
  have ne: "\<not> e_empty inc" and hi: "e_hash inc = rh_hash (e_key inc)"
    and pos: "(unat (e_hash inc) + unat (e_dib inc)) mod 2 ^ k = i"
    using c by (auto simp: carried_def)
  have ij: "i \<noteq> j" using j occ by auto
  have ds: "probe_dist (es ! i) = Suc (unat (e_dib (es ! i)))"
    using occ by (simp add: probe_dist_def)
  have di: "unat (e_dib inc) < 2 ^ k"
    using ok c j by (rule carried_dib)
  show m: "mset (kvs es') + kv1 inc' = mset (kvs es) + kv1 inc"
    using turn mset_kvs_update [OF i(2), of inc] mset_kvs_split [OF i(2)]
    by (auto simp: insert_turn_def split: if_splits)
  show ne': "\<not> e_empty inc'"
    using turn occ ne by (auto simp: insert_turn_def split: if_splits)
  show "e_empty (es' ! j)"
    using turn j ij by (auto simp: insert_turn_def split: if_splits)
  show "table_ok k es'"
  proof (cases "e_dib (es ! i) < e_dib inc")
    case True
    then have "probe_dist (es ! i) \<le> unat (e_dib inc)"
      using ds by (simp add: word_less_nat_alt)
    from place_slots [OF ok c j this] fresh_mset(2) [OF f m ne ne'] show ?thesis
      using True turn k by (simp add: insert_turn_def table_ok_def)
  next
    case False
    then show ?thesis using turn ok by (simp add: insert_turn_def)
  qed
  show "carried k es' (Suc i mod 2 ^ k) (inc'\<lparr>e_dib := e_dib inc' + 1\<rparr>)"
  proof (cases "e_dib (es ! i) < e_dib inc")
    case True
    then have "inc' = es ! i" "es' ! i = inc"
      using turn i by (auto simp: insert_turn_def)
    then show ?thesis
      using sl occ k i ne True
      by (intro carried_next) (auto simp: placed_def probe_dist_def word_less_nat_alt)
  next
    case False
    then have "inc' = inc" "es' = es"
      using turn by (auto simp: insert_turn_def)
    then show ?thesis
      using ne hi pos di k i ds False by (intro carried_next) (auto simp: word_less_nat_alt)
  qed
qed

lemma rh_set_loop_unfold:
  "rh_set_loop msk h es idx inc =
     (if e_empty (es ! unat idx) then Some (True, es[unat idx := inc])
      else if e_hash (es ! unat idx) = h \<and> e_key (es ! unat idx) = e_key inc
      then Some (False, es[unat idx := (es ! unat idx)\<lparr>e_val := e_val inc\<rparr>])
      else case insert_turn es (unat idx) inc of (es', inc') \<Rightarrow>
        rh_set_loop msk h es' ((idx + 1) AND msk) (inc'\<lparr>e_dib := e_dib inc' + 1\<rparr>))"
  by (subst rh_set_loop.simps) (simp add: insert_turn_def Let_def)

lemma rh_reinsert_loop_unfold:
  "rh_reinsert_loop msk es idx inc =
     (if e_empty (es ! unat idx) then Some (es[unat idx := inc])
      else case insert_turn es (unat idx) inc of (es', inc') \<Rightarrow>
        rh_reinsert_loop msk es' ((idx + 1) AND msk) (inc'\<lparr>e_dib := e_dib inc' + 1\<rparr>))"
  by (subst rh_reinsert_loop.simps) (simp add: insert_turn_def Let_def)

lemma fresh_no_match:
  assumes "fresh inc es" "i < length es" "\<not> e_empty (es ! i)"
  shows "e_key (es ! i) \<noteq> e_key inc"
  using assms kvs_memI [of "es ! i" es] by (force simp: fresh_def)

text \<open>
  Inserting a key that the table does not hold: the loops return after at most as many turns as
  there are slots to the next empty one, and add exactly the entry in hand.
\<close>

lemma insert_loops_new:
  assumes "table_ok k es" "carried k es (unat idx) inc" "fresh inc es"
    and "e_empty (es ! ((unat idx + t) mod 2 ^ k))"
  shows "\<exists>es'. rh_set_loop (mask_of (2 ^ k)) h es idx inc = Some (True, es') \<and>
    rh_reinsert_loop (mask_of (2 ^ k)) es idx inc = Some es' \<and>
    table_ok k es' \<and> mset (kvs es') = mset (kvs es) + kv1 inc"
  using assms
proof (induction t arbitrary: es idx inc)
  case 0
  then have "e_empty (es ! unat idx)"
    by (simp add: carried_def)
  with place_empty [OF 0(1-3)] show ?case
    by (simp add: rh_set_loop_unfold rh_reinsert_loop_unfold)
next
  case (Suc t)
  let ?i = "unat idx" and ?next = "(idx + 1) AND mask_of (2 ^ k)"
  have k: "k \<le> 31" and i: "?i < length es" "?i < 2 ^ k"
    using Suc.prems by (auto simp: table_ok_def slots_ok_def carried_def)
  show ?case
  proof (cases "e_empty (es ! ?i)")
    case True
    with place_empty [OF Suc.prems(1-3)] show ?thesis
      by (simp add: rh_set_loop_unfold rh_reinsert_loop_unfold)
  next
    case False
    obtain es' inc' where turn: "insert_turn es ?i inc = (es', inc')"
      by fastforce
    let ?inc = "inc'\<lparr>e_dib := e_dib inc' + 1\<rparr>"
    note step = insert_turn_ok [OF Suc.prems(1-3) _ Suc.prems(4) False turn, simplified]
    have n: "unat ?next = Suc ?i mod 2 ^ k"
      using k by (rule unat_next)
    have "fresh ?inc es'"
      using fresh_mset(1) [OF Suc.prems(3), of es' ?inc] step(3,4) Suc.prems(2)
      by (simp add: carried_def)
    moreover have "e_empty (es' ! ((unat ?next + t) mod 2 ^ k))"
      using step(5) n by (simp add: mod_Suc_shift)
    ultimately obtain fin where fin:
      "rh_set_loop (mask_of (2 ^ k)) h es' ?next ?inc = Some (True, fin)"
      "rh_reinsert_loop (mask_of (2 ^ k)) es' ?next ?inc = Some fin"
      "table_ok k fin" "mset (kvs fin) = mset (kvs es') + kv1 ?inc"
      using Suc.IH [of es' ?next ?inc] step(1,2) n by auto
    then show ?thesis
      using False turn fresh_no_match [OF Suc.prems(3) i(1) False] step(3)
      by (simp add: rh_set_loop_unfold [of _ _ es] rh_reinsert_loop_unfold [of _ es])
  qed
qed

section \<open>Probing for a key that is present\<close>

text \<open>
  \<open>ahead\<close>: an entry of the key lies \<open>u\<close> slots ahead of the index, where it has probe distance
  \<open>d + u\<close>. Up to there every slot is occupied by an entry at least as far from home as the
  probe, so neither a lookup stops nor an insertion swaps before reaching it.
\<close>

definition ahead :: "nat \<Rightarrow> rh_entry list \<Rightarrow> string \<Rightarrow> string \<Rightarrow> nat \<Rightarrow> nat \<Rightarrow> nat \<Rightarrow> bool" where
  "ahead k es key v i d u \<longleftrightarrow> i < 2 ^ k \<and> d + u < 2 ^ k \<and>
     (let e = es ! ((i + u) mod 2 ^ k) in
      \<not> e_empty e \<and> e_key e = key \<and> e_val e = v \<and> probe_dist e = Suc (d + u))"

lemma ahead_occupied:
  assumes "table_ok k es" "ahead k es key v i d u"
  shows "\<not> e_empty (es ! i)" "d \<le> unat (e_dib (es ! i))"
proof -
  have "Suc (d + u) \<le> probe_dist (es ! i) + u"
    using ordered_steps [of k es i u] assms by (simp add: table_ok_def ahead_def Let_def)
  then have "Suc d \<le> probe_dist (es ! i)" by simp
  then show "\<not> e_empty (es ! i)" "d \<le> unat (e_dib (es ! i))"
    by (auto simp: probe_dist_def split: if_splits)
qed

lemma ahead_next:
  assumes "ahead k es key v i d u" "e_key (es ! i) \<noteq> key"
  shows "0 < u" "ahead k es key v (Suc i mod 2 ^ k) (Suc d) (u - 1)"
proof -
  show u: "0 < u"
    using assms by (cases u) (auto simp: ahead_def Let_def)
  then obtain w where "u = Suc w" by (cases u) auto
  then show "ahead k es key v (Suc i mod 2 ^ k) (Suc d) (u - 1)"
    using assms(1) by (auto simp: ahead_def Let_def mod_Suc_shift)
qed

lemma ahead_start:
  assumes "table_ok k es" "(key, v) \<in> set (kvs es)"
  shows "\<exists>u. ahead k es key v (unat (rh_hash key) mod 2 ^ k) 0 u"
proof -
  obtain i where i: "i < length es" "\<not> e_empty (es ! i)" "e_key (es ! i) = key" "e_val (es ! i) = v"
    using assms(2) by (rule kvs_memE)
  then have "placed k i (es ! i)"
    using assms(1) by (auto simp: table_ok_def slots_ok_def)
  then have "ahead k es key v (unat (rh_hash key) mod 2 ^ k) 0 (unat (e_dib (es ! i)))"
    using i by (auto simp: ahead_def placed_def Let_def mod_add_left_eq probe_dist_def)
  then show ?thesis ..
qed

lemma present_unique:
  assumes "table_ok k es" "(key, v) \<in> set (kvs es)" "i < length es" "\<not> e_empty (es ! i)"
    "e_key (es ! i) = key"
  shows "e_val (es ! i) = v"
  using assms kvs_memI [of "es ! i" es]
  by (auto simp: table_ok_def dest: eq_key_imp_eq_value)

lemma ahead_mem:
  assumes "table_ok k es" "ahead k es key v i d u"
  shows "(key, v) \<in> set (kvs es)"
  using assms kvs_memI [of "es ! ((i + u) mod 2 ^ k)" es]
  by (auto simp: ahead_def table_ok_def slots_ok_def Let_def)

section \<open>Overwriting a value\<close>

lemma update_val_ok:
  assumes ok: "table_ok k es" and i: "i < length es" "\<not> e_empty (es ! i)"
  shows "table_ok k (es[i := (es ! i)\<lparr>e_val := v\<rparr>])"
    "mset (kvs (es[i := (es ! i)\<lparr>e_val := v\<rparr>])) + {#(e_key (es ! i), e_val (es ! i))#} =
       mset (kvs es) + {#(e_key (es ! i), v)#}"
proof -
  let ?e = "(es ! i)\<lparr>e_val := v\<rparr>" and ?es = "es[i := (es ! i)\<lparr>e_val := v\<rparr>]"
  have d: "probe_dist ?e = probe_dist (es ! i)" "\<not> e_empty ?e"
    using i by (auto simp: probe_dist_def e_empty_def)
  have len: "length es = 2 ^ k" and o: "ordered k es" and i': "i < 2 ^ k"
    using ok i by (auto simp: table_ok_def slots_ok_def)
  have "ordered k ?es"
    using o len i' d by (auto simp: ordered_def nth_list_update)
  moreover have "slots_ok k ?es"
    using ok i d by (auto simp: table_ok_def slots_ok_def placed_def nth_list_update)
  moreover have "kvs es = kvs (take i es) @ (e_key (es ! i), e_val (es ! i)) # kvs (drop (Suc i) es)"
    "kvs ?es = kvs (take i es) @ (e_key (es ! i), v) # kvs (drop (Suc i) es)"
    using i d id_take_nth_drop [OF i(1)] kvs_append [of "take i es" "es ! i # drop (Suc i) es"]
    by (simp_all add: upd_conv_take_nth_drop kvs_def)
  ultimately show "table_ok k ?es"
    "mset (kvs ?es) + {#(e_key (es ! i), e_val (es ! i))#} = mset (kvs es) + {#(e_key (es ! i), v)#}"
    using ok by (auto simp: table_ok_def)
qed

lemma set_loop_present:
  assumes "table_ok k es" "ahead k es (e_key inc) v0 (unat idx) (unat (e_dib inc)) u"
    "h = rh_hash (e_key inc)"
  shows "\<exists>es'. rh_set_loop (mask_of (2 ^ k)) h es idx inc = Some (False, es') \<and> table_ok k es' \<and>
    mset (kvs es') + {#(e_key inc, v0)#} = mset (kvs es) + {#(e_key inc, e_val inc)#}"
  using assms
proof (induction u arbitrary: idx inc rule: less_induct)
  case (less u)
  let ?i = "unat idx" and ?next = "(idx + 1) AND mask_of (2 ^ k)"
    and ?inc = "inc\<lparr>e_dib := e_dib inc + 1\<rparr>"
  note ah = less.prems(2)
  have k: "k \<le> 31" and i: "?i < length es" and d: "unat (e_dib inc) < 2 ^ k"
    using less.prems by (auto simp: table_ok_def slots_ok_def ahead_def)
  have occ: "\<not> e_empty (es ! ?i)" and "unat (e_dib inc) \<le> unat (e_dib (es ! ?i))"
    using ahead_occupied [OF less.prems(1,2)] by auto
  then have turn: "insert_turn es ?i inc = (es, inc)"
    by (auto simp: insert_turn_def word_less_nat_alt)
  have hash: "e_hash (es ! ?i) = rh_hash (e_key (es ! ?i))"
    using less.prems(1) i occ by (auto simp: table_ok_def slots_ok_def placed_def)
  show ?case
  proof (cases "e_key (es ! ?i) = e_key inc")
    case True
    have "e_val (es ! ?i) = v0"
      using present_unique [OF less.prems(1) ahead_mem [OF less.prems(1) ah] i occ True] .
    then show ?thesis
      using True occ hash less.prems(3) update_val_ok [OF less.prems(1) i occ]
      by (simp add: rh_set_loop_unfold)
  next
    case False
    have "u - 1 < u" "ahead k es (e_key ?inc) v0 (unat ?next) (unat (e_dib ?inc)) (u - 1)"
      using ahead_next [OF ah False] k d by (simp_all add: unat_next unat_Suc_dib)
    from less.IH [OF this(1) less.prems(1) this(2)] less.prems(3) show ?thesis
      using False occ turn by (simp add: rh_set_loop_unfold [of _ _ es idx inc])
  qed
qed

section \<open>Lookup\<close>

lemma get_loop_present:
  assumes "table_ok k es" "ahead k es key v (unat idx) (unat dib) u"
  shows "rh_get_loop (mask_of (2 ^ k)) (rh_hash key) key es idx dib = Some (Some v)"
  using assms
proof (induction u arbitrary: idx dib rule: less_induct)
  case (less u)
  let ?i = "unat idx" and ?next = "(idx + 1) AND mask_of (2 ^ k)"
  note ah = less.prems(2)
  have k: "k \<le> 31" and i: "?i < length es" and d: "unat dib < 2 ^ k"
    using less.prems by (auto simp: table_ok_def slots_ok_def ahead_def)
  have occ: "\<not> e_empty (es ! ?i)" and "\<not> e_dib (es ! ?i) < dib"
    using ahead_occupied [OF less.prems] by (auto simp: word_less_nat_alt)
  have hash: "e_hash (es ! ?i) = rh_hash (e_key (es ! ?i))"
    using less.prems(1) i occ by (auto simp: table_ok_def slots_ok_def placed_def)
  show ?case
  proof (cases "e_key (es ! ?i) = key")
    case True
    have "e_val (es ! ?i) = v"
      using present_unique [OF less.prems(1) ahead_mem [OF less.prems(1) ah] i occ True] .
    then show ?thesis
      using True occ hash \<open>\<not> e_dib (es ! ?i) < dib\<close>
      by (subst rh_get_loop.simps) (simp add: Let_def)
  next
    case False
    have "u - 1 < u" "ahead k es key v (unat ?next) (unat (dib + 1)) (u - 1)"
      using ahead_next [OF ah False] k d by (simp_all add: unat_next unat_Suc_dib)
    from less.IH [OF this(1) less.prems(1) this(2)] show ?thesis
      using False occ \<open>\<not> e_dib (es ! ?i) < dib\<close>
      by (subst rh_get_loop.simps) (simp add: Let_def)
  qed
qed

lemma get_loop_absent:
  assumes "\<And>e. e \<in> set es \<Longrightarrow> \<not> e_empty e \<Longrightarrow> e_key e \<noteq> key" "length es = 2 ^ k" "k \<le> 31"
    and "unat idx < 2 ^ k" "e_empty (es ! ((unat idx + t) mod 2 ^ k))"
  shows "rh_get_loop (mask_of (2 ^ k)) h key es idx dib = Some None"
  using assms(4,5)
proof (induction t arbitrary: idx dib)
  case 0
  then show ?case by (subst rh_get_loop.simps) simp
next
  case (Suc t)
  have i: "unat idx < length es"
    using Suc.prems(1) assms(2) by simp
  have "rh_get_loop (mask_of (2 ^ k)) h key es ((idx + 1) AND mask_of (2 ^ k)) (dib + 1) = Some None"
    using Suc.IH [of "(idx + 1) AND mask_of (2 ^ k)" "dib + 1"] Suc.prems(2) assms(3)
    by (simp add: unat_next mod_Suc_shift)
  then show ?case
    using assms(1) [OF nth_mem [OF i]] by (subst rh_get_loop.simps) (simp add: Let_def)
qed

section \<open>Deletion by backward shift\<close>

text \<open>
  During the shift the slot at the index is stale: its entry has been taken out, or already
  moved one slot back. The table minus that slot is what is left; each turn keeps it.
\<close>

definition holed :: "nat \<Rightarrow> rh_entry list \<Rightarrow> nat \<Rightarrow> bool" where
  "holed k es i \<longleftrightarrow> k \<le> 31 \<and> length es = 2 ^ k \<and> ordered k es \<and> i < 2 ^ k \<and> \<not> e_empty (es ! i) \<and>
     (\<forall>p < 2 ^ k. p \<noteq> i \<longrightarrow> \<not> e_empty (es ! p) \<longrightarrow> placed k p (es ! p))"

lemma unat_pred: "d \<noteq> 0 \<Longrightarrow> unat (d - 1 :: u32) = unat d - 1"
  by (simp add: unat_sub word_le_nat_alt unat_gt_0 Suc_leI)

lemma erase_last:
  assumes "holed k es i" "e_empty (es ! (Suc i mod 2 ^ k)) \<or> e_dib (es ! (Suc i mod 2 ^ k)) = 0"
    and "e_empty x"
  shows "slots_ok k (es[i := x])" "ordered k (es[i := x])" "mset (kvs (es[i := x])) = rest i es"
proof -
  have len: "length es = 2 ^ k" and i: "i < 2 ^ k" and o: "ordered k es"
    using assms(1) by (auto simp: holed_def)
  show "slots_ok k (es[i := x])"
    using assms by (auto simp: holed_def slots_ok_def nth_list_update)
  show "ordered k (es[i := x])"
    using assms(2,3) by (intro ordered_update [OF o len i]) (auto simp: probe_dist_def)
  show "mset (kvs (es[i := x])) = rest i es"
    using mset_kvs_update [of i es x] assms(3) len i by (simp add: kv1_def)
qed

lemma erase_shift:
  assumes h: "holed k es i" and j: "j < 2 ^ k" "e_empty (es ! j)"
    and nx: "nx = es ! (Suc i mod 2 ^ k)" "\<not> e_empty nx" "e_dib nx \<noteq> 0"
    and es': "es' = es[i := nx\<lparr>e_dib := e_dib nx - 1\<rparr>]"
  shows "holed k es' (Suc i mod 2 ^ k)" "e_empty (es' ! j)" "rest (Suc i mod 2 ^ k) es' = rest i es"
proof -
  let ?x = "nx\<lparr>e_dib := e_dib nx - 1\<rparr>" and ?n = "Suc i mod 2 ^ k"
  have k: "k \<le> 31" and len: "length es = 2 ^ k" and i: "i < 2 ^ k" and o: "ordered k es"
    and ne: "\<not> e_empty (es ! i)"
    using h by (auto simp: holed_def)
  have ij: "i \<noteq> j" using ne j by auto
  have ni: "?n \<noteq> i" "?n < 2 ^ k"
    using i ij j(1) by (auto simp: mod_Suc)
  have pl: "placed k ?n nx"
    using h ni nx by (auto simp: holed_def)
  have x: "\<not> e_empty ?x" "probe_dist ?x = unat (e_dib nx)" "unat (e_dib nx) = Suc (unat (e_dib ?x))"
    using nx by (auto simp: probe_dist_def unat_pred unat_gt_0)
  have dnx: "probe_dist nx = Suc (unat (e_dib nx))"
    using nx by (simp add: probe_dist_def)
  have steps: "probe_dist nx \<le> Suc (probe_dist (es ! i))"
    using o i nx by (simp add: ordered_def)
  have o': "ordered k es'"
    unfolding es'
  proof (rule ordered_update [OF o len i])
    fix p :: nat assume "p < 2 ^ k" "Suc p mod 2 ^ k = i"
    then have "probe_dist (es ! i) \<le> Suc (probe_dist (es ! p))"
      using o by (auto simp: ordered_def)
    then show "probe_dist ?x \<le> Suc (probe_dist (es ! p))"
      using steps dnx x by linarith
  next
    show "probe_dist (es ! ?n) \<le> Suc (probe_dist ?x)"
      using nx dnx x by simp
  qed
  have posn: "(unat (e_hash nx) + unat (e_dib nx)) mod 2 ^ k = Suc i mod 2 ^ k"
    using pl unfolding placed_def by blast
  have "(unat (e_hash nx) + unat (e_dib ?x)) mod 2 ^ k = i"
  proof (rule Suc_mod_inj [of _ "2 ^ k"])
    show "Suc ((unat (e_hash nx) + unat (e_dib ?x)) mod 2 ^ k) mod 2 ^ k = Suc i mod 2 ^ k"
      using posn x(3) by (simp add: mod_Suc_eq)
  qed (use i in auto)
  then have "placed k i ?x"
    using pl x(3) by (simp add: placed_def)
  then show "holed k es' ?n"
    using h o' ni nx k len i by (auto simp: es' holed_def nth_list_update)
  show "e_empty (es' ! j)"
    using j ij by (simp add: es')
  have "kv1 (es' ! ?n) + rest ?n es' = kv1 ?x + rest i es"
    using mset_kvs_split [of ?n es'] mset_kvs_update [of i es ?x] len i ni by (simp add: es')
  then show "rest ?n es' = rest i es"
    using ni nx by (simp add: es')
qed

lemma erase_at_ok:
  assumes "holed k es (unat idx)" "e_empty (es ! ((unat idx + t) mod 2 ^ k))"
  shows "\<exists>es'. rh_erase_at (mask_of (2 ^ k)) es idx = Some es' \<and> slots_ok k es' \<and> ordered k es' \<and>
    mset (kvs es') = rest (unat idx) es"
  using assms
proof (induction t arbitrary: es idx)
  case 0
  then show ?case by (auto simp: holed_def)
next
  case (Suc t)
  let ?i = "unat idx" and ?next = "(idx + 1) AND mask_of (2 ^ k)"
  let ?nx = "es ! unat ?next"
  have n: "unat ?next = Suc ?i mod 2 ^ k"
    using Suc.prems(1) by (simp add: holed_def unat_next)
  show ?case
  proof (cases "e_empty ?nx \<or> e_dib ?nx = 0")
    case True
    have "e_empty (entry_init\<lparr>e_hash := EMPTY\<rparr>)"
      by (simp add: e_empty_def)
    from erase_last [OF Suc.prems(1) _ this] True n show ?thesis
      by (subst rh_erase_at.simps) (simp add: Let_def)
  next
    case False
    let ?es = "es[?i := ?nx\<lparr>e_dib := e_dib ?nx - 1\<rparr>]"
    note shift = erase_shift [OF Suc.prems(1) _ Suc.prems(2) _ _ _ refl, of ?nx, simplified n]
    have "holed k ?es (unat ?next)" "e_empty (?es ! ((unat ?next + t) mod 2 ^ k))"
      "rest (unat ?next) ?es = rest ?i es"
      using shift False n by (simp_all add: mod_Suc_shift)
    with Suc.IH [OF this(1,2)] False show ?thesis
      by (subst rh_erase_at.simps) (simp add: Let_def)
  qed
qed

section \<open>The map invariant and the abstract map\<close>

definition rh_inv :: "rh_map \<Rightarrow> bool" where
  "rh_inv m \<longleftrightarrow> (\<exists>k. table_ok k (rh_entries m) \<and> rh_capacity m = 2 ^ k \<and> rh_mask m = mask_of (2 ^ k) \<and>
     rh_size m = length (kvs (rh_entries m)) \<and> rh_size m < 2 ^ k)"

definition rh_abs :: "rh_map \<Rightarrow> string \<rightharpoonup> string" where
  "rh_abs m = map_of (kvs (rh_entries m))"

lemma empty_slot_exists:
  assumes "length es = 2 ^ k" "length (kvs es) < 2 ^ k" "i < 2 ^ k"
  shows "\<exists>t. e_empty (es ! ((i + t) mod 2 ^ k))"
proof -
  have "\<exists>e \<in> set es. e_empty e"
  proof (rule ccontr)
    assume "\<not> (\<exists>e \<in> set es. e_empty e)"
    then have "length (kvs es) = length es"
      by (simp add: length_kvs)
    with assms show False by simp
  qed
  then obtain j where "j < 2 ^ k" "e_empty (es ! j)"
    using assms(1) by (auto simp: in_set_conv_nth)
  then show ?thesis
    using circular_reach [OF assms(3), of j] by auto
qed

lemma carried_start:
  assumes "\<not> e_empty e" "e_hash e = rh_hash (e_key e)" "k \<le> 31"
  shows "carried k es (unat (e_hash e AND mask_of (2 ^ k))) (e\<lparr>e_dib := 0\<rparr>)"
  using assms by (auto simp: carried_def unat_home)

section \<open>Growing\<close>

lemma kvs_blank: "kvs (rh_clear_all (replicate n entry_init)) = []"
  by (simp add: kvs_def rh_clear_all_def e_empty_def)

lemma table_ok_blank:
  assumes "k \<le> 31"
  shows "table_ok k (rh_clear_all (replicate (2 ^ k) entry_init))"
  using assms kvs_blank [of "2 ^ k"]
  by (auto simp: table_ok_def slots_ok_def ordered_def rh_clear_all_def e_empty_def probe_dist_def)

lemma reinsert_all_ok:
  assumes "table_ok k es" "distinct (map fst (kvs old @ kvs es))"
    and "\<And>e. e \<in> set old \<Longrightarrow> \<not> e_empty e \<Longrightarrow> e_hash e = rh_hash (e_key e)"
    and "length (kvs es) + length (kvs old) < 2 ^ k"
  shows "\<exists>es'. rh_reinsert_all (mask_of (2 ^ k)) old es n = Some (es', n + length (kvs old)) \<and>
    table_ok k es' \<and> mset (kvs es') = mset (kvs old) + mset (kvs es)"
  using assms
proof (induction old arbitrary: es n)
  case Nil
  then show ?case by (simp add: kvs_def)
next
  case (Cons e old)
  show ?case
  proof (cases "e_empty e")
    case True
    then have "kvs (e # old) = kvs old" by (simp add: kvs_def)
    with Cons True show ?thesis by simp
  next
    case False
    let ?inc = "e\<lparr>e_dib := 0\<rparr>" and ?idx = "e_hash e AND mask_of (2 ^ k)"
    have kv: "kvs (e # old) = (e_key e, e_val e) # kvs old"
      using False by (simp add: kvs_def)
    have k: "k \<le> 31" "length es = 2 ^ k"
      using Cons.prems(1) by (auto simp: table_ok_def slots_ok_def)
    have c: "carried k es (unat ?idx) ?inc"
      using False Cons.prems(3) k by (intro carried_start) auto
    moreover have "fresh ?inc es"
      using Cons.prems(2) kv by (auto simp: fresh_def)
    moreover obtain t where "e_empty (es ! ((unat ?idx + t) mod 2 ^ k))"
      using empty_slot_exists [of es k "unat ?idx"] k Cons.prems(4) by (auto simp: unat_home)
    ultimately obtain es1 where es1: "rh_reinsert_loop (mask_of (2 ^ k)) es ?idx ?inc = Some es1"
      "table_ok k es1" "mset (kvs es1) = mset (kvs es) + kv1 ?inc"
      using insert_loops_new [OF Cons.prems(1)] by blast
    then have m: "mset (kvs es1) = mset ((e_key e, e_val e) # kvs es)"
      using False by (simp add: kv1_def)
    then have "mset (kvs old @ kvs es1) = mset (kvs (e # old) @ kvs es)"
      using kv by simp
    from distinct_keys_mset [OF this] have "distinct (map fst (kvs old @ kvs es1))"
      using Cons.prems(2) by simp
    moreover have "length (kvs es1) = Suc (length (kvs es))"
      using arg_cong [OF m, of size] by simp
    ultimately obtain es' where
      "rh_reinsert_all (mask_of (2 ^ k)) old es1 (n + 1) = Some (es', n + 1 + length (kvs old))"
      "table_ok k es'" "mset (kvs es') = mset (kvs old) + mset (kvs es1)"
      using Cons.IH [OF es1(2), of "n + 1"] Cons.prems(3,4) kv by auto
    then show ?thesis
      using False es1(1) kv m by simp
  qed
qed

lemma rh_grow_ok:
  assumes "rh_inv m" "rh_capacity m \<le> 2 ^ 30"
  shows "\<exists>m'. rh_grow m = Some m' \<and> rh_inv m' \<and> rh_abs m' = rh_abs m \<and> rh_size m' = rh_size m \<and>
    rh_capacity m' = 2 * rh_capacity m"
proof -
  obtain k where k: "table_ok k (rh_entries m)" "rh_capacity m = 2 ^ k"
    "rh_size m = length (kvs (rh_entries m))" "rh_size m < 2 ^ k"
    using assms(1) by (auto simp: rh_inv_def)
  have "Suc k \<le> 31"
    using assms(2) k(2) power_le_imp_le_exp [of "2::nat" k 30] by simp
  let ?blank = "rh_clear_all (replicate (2 ^ Suc k) entry_init)"
  have "e_hash e = rh_hash (e_key e)" if "e \<in> set (rh_entries m)" "\<not> e_empty e" for e
    using that k(1) by (auto simp: table_ok_def slots_ok_def placed_def in_set_conv_nth)
  then obtain es where es: "rh_reinsert_all (mask_of (2 ^ Suc k)) (rh_entries m) ?blank 0 = Some (es, rh_size m)"
    "table_ok (Suc k) es" "mset (kvs es) = mset (kvs (rh_entries m))"
    using reinsert_all_ok [OF table_ok_blank [OF \<open>Suc k \<le> 31\<close>], of "rh_entries m" 0] k
      kvs_blank [of "2 ^ Suc k"] by (auto simp: table_ok_def)
  have "length (kvs es) = length (kvs (rh_entries m))"
    using es(3) by (rule mset_eq_length)
  then show ?thesis
    using es k map_of_mset_eq [OF es(3)]
    by (auto simp: rh_grow_def Let_def rh_inv_def rh_abs_def table_ok_def mult.commute intro!: exI [of _ "Suc k"])
qed

section \<open>The three operations\<close>

lemma load_room:
  assumes "\<not> load_exceeded n (2 ^ k)"
  shows "n + 1 < 2 ^ k"
proof (rule ccontr)
  assume "\<not> n + 1 < 2 ^ k"
  then have "2 ^ k \<le> f32_round (n + 1)"
    by (intro f32_round_ge_power2) simp
  then have "3 * 2 ^ k < 4 * f32_round (n + 1)"
    using zero_less_power [of "2::nat" k] by linarith
  with assms show False by (simp add: load_exceeded_def)
qed

lemma f32_round_le_power2: "n \<le> 2 ^ k \<Longrightarrow> f32_round n \<le> 2 ^ k"
  using f32_round_mono [of n "2 ^ k"] by (simp add: f32_round_power2)

text \<open>Below \<open>2 ^ 30\<close> entries a table is never grown past \<open>2 ^ 31\<close> slots.\<close>

lemma load_exceeded_small:
  assumes "load_exceeded n (2 ^ k)" "n < 2 ^ 30" "k \<le> 31"
  shows "k \<le> 30"
proof (rule ccontr)
  assume "\<not> k \<le> 30"
  then have "k = 31" using assms(3) by simp
  have "f32_round (n + 1) \<le> 2 ^ 30"
    using assms(2) by (intro f32_round_le_power2) simp
  with assms(1) \<open>k = 31\<close> show False by (simp add: load_exceeded_def)
qed

lemma insert_result:
  assumes "mset (kvs es') = mset (kvs es) + {#(key, v)#}" "distinct (map fst (kvs es'))"
  shows "map_of (kvs es') = (map_of (kvs es))(key \<mapsto> v)"
  using map_of_mset_eq [of "kvs es'" "(key, v) # kvs es"] assms by simp

lemma rh_abs_None: "rh_abs m key = None \<longleftrightarrow> key \<notin> fst ` set (kvs (rh_entries m))"
  by (simp add: rh_abs_def map_of_eq_None_iff)

text \<open>Setting a key in a table that has room for one more entry.\<close>

lemma set_without_grow:
  assumes ok: "table_ok k es" and room: "length (kvs es) + 1 < 2 ^ k"
  shows "\<exists>es'. rh_set_loop (mask_of (2 ^ k)) (rh_hash key) es (rh_hash key AND mask_of (2 ^ k))
      \<lparr>e_hash = rh_hash key, e_dib = 0, e_key = key, e_val = val\<rparr>
      = Some (map_of (kvs es) key = None, es') \<and>
    table_ok k es' \<and> map_of (kvs es') = (map_of (kvs es))(key \<mapsto> val) \<and>
    length (kvs es') = (if map_of (kvs es) key = None then length (kvs es) + 1 else length (kvs es))"
proof -
  let ?inc = "\<lparr>e_hash = rh_hash key, e_dib = 0, e_key = key, e_val = val\<rparr>"
    and ?idx = "rh_hash key AND mask_of (2 ^ k)"
  have k: "k \<le> 31" "length es = 2 ^ k" and d: "distinct (map fst (kvs es))"
    using ok by (auto simp: table_ok_def slots_ok_def)
  have ne: "\<not> e_empty ?inc"
    by (simp add: e_empty_def rh_hash_nonempty)
  have idx: "unat ?idx = unat (rh_hash key) mod 2 ^ k"
    using k(1) by (rule unat_home)
  show ?thesis
  proof (cases "map_of (kvs es) key")
    case None
    have "carried k es (unat ?idx) ?inc"
      using carried_start [OF ne _ k(1), of es] by simp
    moreover have "fresh ?inc es"
      using None d by (simp add: fresh_def map_of_eq_None_iff)
    moreover obtain t where "e_empty (es ! ((unat ?idx + t) mod 2 ^ k))"
      using empty_slot_exists [OF k(2), of "unat ?idx"] room idx by auto
    ultimately obtain es' where es': "rh_set_loop (mask_of (2 ^ k)) (rh_hash key) es ?idx ?inc = Some (True, es')"
      "table_ok k es'" "mset (kvs es') = mset (kvs es) + kv1 ?inc"
      using insert_loops_new [OF ok] by blast
    then have m: "mset (kvs es') = mset (kvs es) + {#(key, val)#}"
      using ne by (simp add: kv1_def)
    moreover have "length (kvs es') = length (kvs es) + 1"
      using arg_cong [OF m, of size] by simp
    ultimately show ?thesis
      using es' None insert_result [OF m] by (simp add: table_ok_def)
  next
    case (Some v0)
    then have mem: "(key, v0) \<in> set (kvs es)"
      by (rule map_of_SomeD)
    obtain u where "ahead k es key v0 (unat ?idx) 0 u"
      using ahead_start [OF ok mem] idx by auto
    then obtain es' where es': "rh_set_loop (mask_of (2 ^ k)) (rh_hash key) es ?idx ?inc = Some (False, es')"
      "table_ok k es'" "mset (kvs es') + {#(key, v0)#} = mset (kvs es) + {#(key, val)#}"
      using set_loop_present [OF ok, of ?inc v0 ?idx u "rh_hash key"] by auto
    moreover have "length (kvs es') = length (kvs es)"
      using arg_cong [OF es'(3), of size] by simp
    ultimately show ?thesis
      using Some replace_result [OF es'(3) mem] d by (simp add: table_ok_def)
  qed
qed

lemma rh_set_ok:
  assumes "rh_inv m" "rh_size m < 2 ^ 30"
  shows "\<exists>m'. rh_set m key val = Some (rh_abs m key = None, m') \<and> rh_inv m' \<and>
    rh_abs m' = (rh_abs m)(key \<mapsto> val) \<and>
    rh_size m' = (if rh_abs m key = None then rh_size m + 1 else rh_size m)"
proof -
  let ?grown = "if load_exceeded (rh_size m) (rh_capacity m) then rh_grow m else Some m"
  obtain m1 where m1: "?grown = Some m1" "rh_inv m1" "rh_abs m1 = rh_abs m" "rh_size m1 = rh_size m"
    "rh_size m1 + 1 < rh_capacity m1"
  proof (cases "load_exceeded (rh_size m) (rh_capacity m)")
    case True
    obtain k where k: "rh_capacity m = 2 ^ k" "k \<le> 31" "rh_size m < 2 ^ k"
      using assms(1) by (auto simp: rh_inv_def table_ok_def)
    then have "k \<le> 30"
      using load_exceeded_small [of "rh_size m" k] True assms(2) by simp
    then have "rh_capacity m \<le> 2 ^ 30"
      unfolding k(1) by (rule power_increasing) simp
    from rh_grow_ok [OF assms(1) this] k show ?thesis
      using True that by force
  next
    case False
    then show ?thesis
      using that [of m] assms(1) load_room by (auto simp: rh_inv_def)
  qed
  then obtain k where k: "table_ok k (rh_entries m1)" "rh_capacity m1 = 2 ^ k"
    "rh_mask m1 = mask_of (2 ^ k)" "rh_size m1 = length (kvs (rh_entries m1))"
    by (auto simp: rh_inv_def)
  then obtain es' where es': "rh_set_loop (rh_mask m1) (rh_hash key) (rh_entries m1) (rh_hash key AND rh_mask m1)
      \<lparr>e_hash = rh_hash key, e_dib = 0, e_key = key, e_val = val\<rparr> = Some (rh_abs m1 key = None, es')"
    "table_ok k es'" "map_of (kvs es') = (rh_abs m1)(key \<mapsto> val)"
    "length (kvs es') = (if rh_abs m1 key = None then rh_size m1 + 1 else rh_size m1)"
    using set_without_grow [OF k(1), of key val] m1(5) by (auto simp: rh_abs_def)
  let ?m = "m1\<lparr>rh_entries := es', rh_size := (if rh_abs m key = None then rh_size m1 + 1 else rh_size m1)\<rparr>"
  have "rh_set m key val = Some (rh_abs m key = None, ?m)"
    using m1(1,3) es'(1) by (simp add: rh_set_def Let_def)
  moreover have "rh_inv ?m" "rh_abs ?m = (rh_abs m)(key \<mapsto> val)"
    using es' k m1 by (auto simp: rh_inv_def rh_abs_def)
  ultimately show ?thesis
    using m1(4) by auto
qed

lemma rh_get_ok:
  assumes "rh_inv m"
  shows "rh_get m key = Some (rh_abs m key)"
proof -
  obtain k where k: "table_ok k (rh_entries m)" "rh_mask m = mask_of (2 ^ k)"
    "length (kvs (rh_entries m)) < 2 ^ k"
    using assms by (auto simp: rh_inv_def)
  let ?idx = "rh_hash key AND mask_of (2 ^ k)"
  have b: "k \<le> 31" "length (rh_entries m) = 2 ^ k"
    using k(1) by (auto simp: table_ok_def slots_ok_def)
  have idx: "unat ?idx = unat (rh_hash key) mod 2 ^ k"
    using b(1) by (rule unat_home)
  show ?thesis
  proof (cases "rh_abs m key")
    case None
    then have "e_key e \<noteq> key" if "e \<in> set (rh_entries m)" "\<not> e_empty e" for e
      using kvs_memI [OF that] by (force simp: rh_abs_None)
    moreover obtain t where "e_empty (rh_entries m ! ((unat ?idx + t) mod 2 ^ k))"
      using empty_slot_exists [OF b(2) k(3), of "unat ?idx"] idx by auto
    ultimately show ?thesis
      using get_loop_absent [of "rh_entries m" key k ?idx t] b None k(2) idx
      by (simp add: rh_get_def Let_def)
  next
    case (Some v)
    then have "(key, v) \<in> set (kvs (rh_entries m))"
      by (simp add: rh_abs_def map_of_SomeD)
    then obtain u where "ahead k (rh_entries m) key v (unat ?idx) (unat (0 :: u32)) u"
      using ahead_start [OF k(1)] idx by auto
    from get_loop_present [OF k(1) this] show ?thesis
      using Some k(2) by (simp add: rh_get_def Let_def)
  qed
qed

lemma del_loop_absent:
  assumes "\<And>e. e \<in> set es \<Longrightarrow> \<not> e_empty e \<Longrightarrow> e_key e \<noteq> key" "length es = 2 ^ k" "k \<le> 31"
    and "unat idx < 2 ^ k" "e_empty (es ! ((unat idx + t) mod 2 ^ k))"
  shows "rh_del_loop (mask_of (2 ^ k)) h key es idx dib = Some (False, es)"
  using assms(4,5)
proof (induction t arbitrary: idx dib)
  case 0
  then show ?case by (subst rh_del_loop.simps) simp
next
  case (Suc t)
  have i: "unat idx < length es"
    using Suc.prems(1) assms(2) by simp
  have "rh_del_loop (mask_of (2 ^ k)) h key es ((idx + 1) AND mask_of (2 ^ k)) (dib + 1) = Some (False, es)"
    using Suc.IH [of "(idx + 1) AND mask_of (2 ^ k)" "dib + 1"] Suc.prems(2) assms(3)
    by (simp add: unat_next mod_Suc_shift)
  then show ?case
    using assms(1) [OF nth_mem [OF i]] by (subst rh_del_loop.simps) (simp add: Let_def)
qed

lemma del_loop_present:
  assumes "table_ok k es" "ahead k es key v (unat idx) (unat dib) u"
  shows "\<exists>i. unat i < 2 ^ k \<and> \<not> e_empty (es ! unat i) \<and> e_key (es ! unat i) = key \<and>
    rh_del_loop (mask_of (2 ^ k)) (rh_hash key) key es idx dib =
      map_option (Pair True) (rh_erase_at (mask_of (2 ^ k)) es i)"
  using assms
proof (induction u arbitrary: idx dib rule: less_induct)
  case (less u)
  let ?i = "unat idx" and ?next = "(idx + 1) AND mask_of (2 ^ k)"
  note ah = less.prems(2)
  have k: "k \<le> 31" and i: "?i < 2 ^ k" "?i < length es" and d: "unat dib < 2 ^ k"
    using less.prems by (auto simp: table_ok_def slots_ok_def ahead_def)
  have occ: "\<not> e_empty (es ! ?i)" and nd: "\<not> e_dib (es ! ?i) < dib"
    using ahead_occupied [OF less.prems] by (auto simp: word_less_nat_alt)
  have hash: "e_hash (es ! ?i) = rh_hash (e_key (es ! ?i))"
    using less.prems(1) i occ by (auto simp: table_ok_def slots_ok_def placed_def)
  show ?case
  proof (cases "e_key (es ! ?i) = key")
    case True
    with occ nd hash i show ?thesis
      by (intro exI [of _ idx]) (subst rh_del_loop.simps, simp add: Let_def)
  next
    case False
    have "u - 1 < u" "ahead k es key v (unat ?next) (unat (dib + 1)) (u - 1)"
      using ahead_next [OF ah False] k d by (simp_all add: unat_next unat_Suc_dib)
    from less.IH [OF this(1) less.prems(1) this(2)] False occ nd show ?thesis
      by (subst rh_del_loop.simps) (simp add: Let_def)
  qed
qed

lemma rh_del_ok:
  assumes "rh_inv m"
  shows "\<exists>m'. rh_del m key = Some (rh_abs m key \<noteq> None, m') \<and> rh_inv m' \<and>
    rh_abs m' = (rh_abs m)(key := None) \<and> rh_size m' \<le> rh_size m"
proof -
  obtain k where k: "table_ok k (rh_entries m)" "rh_capacity m = 2 ^ k" "rh_mask m = mask_of (2 ^ k)"
    "rh_size m = length (kvs (rh_entries m))" "rh_size m < 2 ^ k"
    using assms by (auto simp: rh_inv_def)
  let ?idx = "rh_hash key AND mask_of (2 ^ k)" and ?es = "rh_entries m"
  have b: "k \<le> 31" "length ?es = 2 ^ k" and d: "distinct (map fst (kvs ?es))"
    using k(1) by (auto simp: table_ok_def slots_ok_def)
  have idx: "unat ?idx = unat (rh_hash key) mod 2 ^ k"
    using b(1) by (rule unat_home)
  have room: "\<exists>t. e_empty (?es ! ((i + t) mod 2 ^ k))" if "i < 2 ^ k" for i
    using empty_slot_exists [OF b(2) _ that] k(4,5) by simp
  show ?thesis
  proof (cases "rh_abs m key")
    case None
    then have "e_key e \<noteq> key" if "e \<in> set ?es" "\<not> e_empty e" for e
      using kvs_memI [OF that] by (force simp: rh_abs_None)
    moreover obtain t where "e_empty (?es ! ((unat ?idx + t) mod 2 ^ k))"
      using room [of "unat ?idx"] idx by auto
    ultimately have "rh_del m key = Some (False, m)"
      using del_loop_absent [of ?es key k ?idx t] b None k(3) idx by (simp add: rh_del_def Let_def)
    then show ?thesis
      using assms None by (auto simp: fun_eq_iff)
  next
    case (Some v)
    then have "(key, v) \<in> set (kvs ?es)"
      by (simp add: rh_abs_def map_of_SomeD)
    then obtain u where "ahead k ?es key v (unat ?idx) (unat (0 :: u32)) u"
      using ahead_start [OF k(1)] idx by auto
    then obtain i where i: "unat i < 2 ^ k" "\<not> e_empty (?es ! unat i)" "e_key (?es ! unat i) = key"
      "rh_del_loop (mask_of (2 ^ k)) (rh_hash key) key ?es ?idx 0 =
        map_option (Pair True) (rh_erase_at (mask_of (2 ^ k)) ?es i)"
      using del_loop_present [OF k(1)] by blast
    have "holed k ?es (unat i)"
      using k(1) i b by (auto simp: holed_def table_ok_def slots_ok_def)
    with room [OF i(1)] obtain es' where es': "rh_erase_at (mask_of (2 ^ k)) ?es i = Some es'"
      "slots_ok k es'" "ordered k es'" "mset (kvs es') = rest (unat i) ?es"
      using erase_at_ok by blast
    then have m: "mset (kvs ?es) = {#(key, e_val (?es ! unat i))#} + mset (kvs es')"
      using mset_kvs_split [of "unat i" ?es] i b by (simp add: kv1_def)
    have "length (kvs ?es) = Suc (length (kvs es'))"
      using arg_cong [OF m, of size] by simp
    then show ?thesis
      using remove_result [OF m d] es' k Some i(4) b
      by (auto simp: rh_del_def Let_def rh_inv_def rh_abs_def table_ok_def intro!: exI [of _ k])
  qed
qed

end
