(* ===== verification/Store_Interfaces.thy ===== *)
theory Store_Interfaces
  imports Prelude
begin

text \<open>
  The contract between a key-value store and its client, as a locale: what the operations return
  and what they do to the abstract map. The Robin Hood map provides it (theory
  \<^verbatim>\<open>Robin_Hood_Map\<close>); the key-value engine is its client.
\<close>

section \<open>Operations of a store\<close>

datatype ('k, 'v) store_op = StoreSet 'k 'v | StoreGet 'k | StoreDel 'k

datatype 'v store_res = Flag bool | Found "'v option"

fun store_step ::
  "('m \<Rightarrow> 'k \<Rightarrow> 'v \<Rightarrow> (bool \<times> 'm) option) \<Rightarrow> ('m \<Rightarrow> 'k \<Rightarrow> 'v option option) \<Rightarrow>
   ('m \<Rightarrow> 'k \<Rightarrow> (bool \<times> 'm) option) \<Rightarrow> 'm \<Rightarrow> ('k, 'v) store_op \<Rightarrow> ('v store_res \<times> 'm) option" where
  "store_step st gt dl m (StoreSet k v) = map_option (map_prod Flag id) (st m k v)"
| "store_step st gt dl m (StoreGet k) = map_option (\<lambda>r. (Found r, m)) (gt m k)"
| "store_step st gt dl m (StoreDel k) = map_option (map_prod Flag id) (dl m k)"

text \<open>The abstract machine: a partial function.\<close>

fun store_spec :: "('k \<rightharpoonup> 'v) \<Rightarrow> ('k, 'v) store_op \<Rightarrow> 'v store_res \<times> ('k \<rightharpoonup> 'v)" where
  "store_spec a (StoreSet k v) = (Flag (a k = None), a(k \<mapsto> v))"
| "store_spec a (StoreGet k) = (Found (a k), a)"
| "store_spec a (StoreDel k) = (Flag (a k \<noteq> None), a(k := None))"

text \<open>Deleting every key of a list, the loop of a client that evicts.\<close>

fun del_each :: "('m \<Rightarrow> 'k \<Rightarrow> (bool \<times> 'm) option) \<Rightarrow> 'm \<Rightarrow> 'k list \<Rightarrow> 'm option" where
  "del_each dl m [] = Some m"
| "del_each dl m (k # ks) = (case dl m k of None \<Rightarrow> None | Some (_, m') \<Rightarrow> del_each dl m' ks)"

section \<open>The contract\<close>

locale map_store =
  fixes set_op :: "'m \<Rightarrow> 'k \<Rightarrow> 'v \<Rightarrow> (bool \<times> 'm) option"
    and get_op :: "'m \<Rightarrow> 'k \<Rightarrow> 'v option option"
    and del_op :: "'m \<Rightarrow> 'k \<Rightarrow> (bool \<times> 'm) option"
    and lookup :: "'m \<Rightarrow> 'k \<rightharpoonup> 'v"
    and invar :: "'m \<Rightarrow> bool"
    and size_of :: "'m \<Rightarrow> nat"
    and limit :: nat
  assumes set_law: "invar m \<Longrightarrow> size_of m < limit \<Longrightarrow>
      \<exists>m'. set_op m k v = Some (lookup m k = None, m') \<and> invar m' \<and> lookup m' = (lookup m)(k \<mapsto> v)
           \<and> size_of m' = (if lookup m k = None then size_of m + 1 else size_of m)"
    and get_law: "invar m \<Longrightarrow> get_op m k = Some (lookup m k)"
    and del_law: "invar m \<Longrightarrow>
      \<exists>m'. del_op m k = Some (lookup m k \<noteq> None, m') \<and> invar m' \<and> lookup m' = (lookup m)(k := None)
           \<and> size_of m' \<le> size_of m"
begin

lemma set_some:
  assumes "invar m" "size_of m < limit"
  obtains m' where "set_op m k v = Some (lookup m k = None, m')" "invar m'"
    "lookup m' = (lookup m)(k \<mapsto> v)" "size_of m' \<le> size_of m + 1"
  using set_law [OF assms, of k v] by auto

lemma del_some:
  assumes "invar m"
  obtains m' where "del_op m k = Some (lookup m k \<noteq> None, m')" "invar m'"
    "lookup m' = (lookup m)(k := None)" "size_of m' \<le> size_of m"
  using del_law [OF assms, of k] by auto

lemma del_each_law:
  assumes "invar m"
  shows "\<exists>m'. del_each del_op m ks = Some m' \<and> invar m' \<and>
    lookup m' = (\<lambda>k. if k \<in> set ks then None else lookup m k) \<and> size_of m' \<le> size_of m"
  using assms
proof (induction ks arbitrary: m)
  case (Cons k ks)
  obtain m1 where m1: "del_op m k = Some (lookup m k \<noteq> None, m1)" "invar m1"
    "lookup m1 = (lookup m)(k := None)" "size_of m1 \<le> size_of m"
    using Cons.prems by (rule del_some)
  obtain m2 where "del_each del_op m1 ks = Some m2" "invar m2"
    "lookup m2 = (\<lambda>k. if k \<in> set ks then None else lookup m1 k)" "size_of m2 \<le> size_of m1"
    using Cons.IH [OF m1(2)] by blast
  with m1 show ?case by (auto simp: fun_eq_iff)
qed simp

end

text \<open>Every store refines the partial function, for whole runs of operations.\<close>

sublocale map_store \<subseteq> store: refinement "store_step set_op get_op del_op" store_spec "\<lambda>_. True" lookup invar size_of limit
proof unfold_locales
  fix m :: 'm and x :: "('k, 'v) store_op"
  assume m: "invar m" "size_of m < limit"
  show "\<exists>r s'. store_step set_op get_op del_op m x = Some (r, s') \<and>
    store_spec (lookup m) x = (r, lookup s') \<and> invar s' \<and> size_of s' \<le> size_of m + 1"
  proof (cases x)
    case (StoreSet k v)
    with set_law [OF m, of k v] show ?thesis by auto
  next
    case (StoreGet k)
    with get_law [OF m(1), of k] m show ?thesis by auto
  next
    case (StoreDel k)
    with del_law [OF m(1), of k] show ?thesis by force
  qed
qed

section \<open>Expiry\<close>

text \<open>
  The contract of a component that keeps deadlines by key: the keys that are due at a time are
  those whose deadline has been reached.
\<close>

definition due :: "millis \<Rightarrow> ('k \<rightharpoonup> millis) \<Rightarrow> 'k set" where
  "due now a = {k. \<exists>d. a k = Some d \<and> d \<le> now}"

datatype 'k expiry_op = ExpSet millis 'k millis | ExpRemove 'k | ExpGet 'k | ExpEvict millis

datatype 'k expiry_res = Done | Deadline millis | Evicted "'k set"

fun expiry_step ::
  "(millis \<Rightarrow> 't \<Rightarrow> 'k \<Rightarrow> millis \<Rightarrow> 't option) \<Rightarrow> ('t \<Rightarrow> 'k \<Rightarrow> 't) \<Rightarrow> ('t \<Rightarrow> 'k \<Rightarrow> millis) \<Rightarrow>
   (millis \<Rightarrow> 't \<Rightarrow> ('k list \<times> 't) option) \<Rightarrow> 't \<Rightarrow> 'k expiry_op \<Rightarrow> ('k expiry_res \<times> 't) option" where
  "expiry_step st rm gt ev t (ExpSet now k ttl) = map_option (Pair Done) (st now t k ttl)"
| "expiry_step st rm gt ev t (ExpRemove k) = Some (Done, rm t k)"
| "expiry_step st rm gt ev t (ExpGet k) = Some (Deadline (gt t k), t)"
| "expiry_step st rm gt ev t (ExpEvict now) = map_option (map_prod (Evicted \<circ> set) id) (ev now t)"

fun expiry_spec :: "('k \<rightharpoonup> millis) \<Rightarrow> 'k expiry_op \<Rightarrow> 'k expiry_res \<times> ('k \<rightharpoonup> millis)" where
  "expiry_spec a (ExpSet now k ttl) = (Done, a(k \<mapsto> now + ttl))"
| "expiry_spec a (ExpRemove k) = (Done, a(k := None))"
| "expiry_spec a (ExpGet k) = (Deadline (case a k of None \<Rightarrow> -1 | Some d \<Rightarrow> d), a)"
| "expiry_spec a (ExpEvict now) = (Evicted (due now a), a |` (- due now a))"

text \<open>A deadline is the sum of the clock and a time to live; it must be a number of 64 bits.\<close>

fun expiry_valid :: "'k expiry_op \<Rightarrow> bool" where
  "expiry_valid (ExpSet now k ttl) \<longleftrightarrow> int64 (now + ttl)"
| "expiry_valid _ \<longleftrightarrow> True"

locale expiry_store =
  fixes set_exp :: "millis \<Rightarrow> 't \<Rightarrow> 'k \<Rightarrow> millis \<Rightarrow> 't option"
    and remove_exp :: "'t \<Rightarrow> 'k \<Rightarrow> 't"
    and get_exp :: "'t \<Rightarrow> 'k \<Rightarrow> millis"
    and evict :: "millis \<Rightarrow> 't \<Rightarrow> ('k list \<times> 't) option"
    and deadlines :: "'t \<Rightarrow> 'k \<rightharpoonup> millis"
    and invar :: "'t \<Rightarrow> bool"
  assumes set_exp_law: "invar t \<Longrightarrow> int64 (now + ttl) \<Longrightarrow>
        \<exists>t'. set_exp now t k ttl = Some t' \<and> invar t' \<and> deadlines t' = (deadlines t)(k \<mapsto> now + ttl)"
    and remove_exp_inv: "invar t \<Longrightarrow> invar (remove_exp t k)"
    and remove_exp_law: "invar t \<Longrightarrow> deadlines (remove_exp t k) = (deadlines t)(k := None)"
    and get_exp_law: "invar t \<Longrightarrow> get_exp t k = (case deadlines t k of None \<Rightarrow> -1 | Some d \<Rightarrow> d)"
    and evict_law: "invar t \<Longrightarrow> \<exists>ks t'. evict now t = Some (ks, t') \<and> invar t' \<and>
        deadlines t' = deadlines t |` (- due now (deadlines t)) \<and> distinct ks \<and>
        set ks = due now (deadlines t) \<and> sorted (map (\<lambda>k. the (deadlines t k)) ks)"
begin

lemma set_exp_some:
  assumes "invar t" "int64 (now + ttl)"
  obtains t' where "set_exp now t k ttl = Some t'" "invar t'" "deadlines t' = (deadlines t)(k \<mapsto> now + ttl)"
  using set_exp_law [OF assms, of k] by blast

lemma evict_some:
  assumes "invar t"
  obtains ks t' where "evict now t = Some (ks, t')" "invar t'" "set ks = due now (deadlines t)"
    "deadlines t' = deadlines t |` (- due now (deadlines t))"
  using evict_law [OF assms, of now] by blast

text \<open>The engine's lazy test: a non-negative deadline that has been reached.\<close>

lemma lazy_due:
  assumes "invar t"
  shows "0 \<le> get_exp t k \<and> get_exp t k \<le> now \<longleftrightarrow>
    (\<exists>d. deadlines t k = Some d \<and> 0 \<le> d \<and> d \<le> now)"
  using get_exp_law [OF assms, of k] by (auto split: option.splits)

end

sublocale expiry_store \<subseteq> runs: refinement "expiry_step set_exp remove_exp get_exp evict"
  expiry_spec expiry_valid deadlines invar "\<lambda>_. 0" bound for bound
proof unfold_locales
  fix t :: 't and x :: "'k expiry_op"
  assume t: "invar t" and x: "expiry_valid x"
  show "\<exists>r s'. expiry_step set_exp remove_exp get_exp evict t x = Some (r, s') \<and>
    expiry_spec (deadlines t) x = (r, deadlines s') \<and> invar s' \<and> (0::nat) \<le> 0 + 1"
  proof (cases x)
    case (ExpEvict now)
    obtain ks t' where "evict now t = Some (ks, t')" "invar t'" "set ks = due now (deadlines t)"
      "deadlines t' = deadlines t |` (- due now (deadlines t))"
      using t by (rule evict_some)
    with ExpEvict show ?thesis by simp
  next
    case (ExpSet now k ttl)
    then show ?thesis using set_exp_law [OF t, of now ttl k] x by auto
  qed (use t in \<open>simp_all add: remove_exp_inv remove_exp_law get_exp_law\<close>)
qed

end
