(* ===== verification/Robin_Hood_Map.thy ===== *)
theory Robin_Hood_Map
  imports Robin_Hood_Proofs Store_Interfaces
begin

text \<open>
  The hash map as a store: the initial capacity, the initial table, the interpretation of the
  store contract on the code's operations, and the properties of the component.
\<close>

section \<open>Rounding the capacity up to a power of two\<close>

definition smeared :: "u64 \<Rightarrow> u64 \<Rightarrow> nat \<Rightarrow> bool" where
  "smeared w x m \<longleftrightarrow> (\<forall>i. bit w i \<longleftrightarrow> (\<exists>j < m. bit x (i + j)))"

lemma smeared_start: "smeared x x 1"
  by (simp add: smeared_def)

lemma smeared_double:
  assumes "smeared w x m"
  shows "smeared (w OR drop_bit m w) x (2 * m)"
  unfolding smeared_def
proof
  fix i
  have "(\<exists>j < 2 * m. bit x (i + j)) \<longleftrightarrow> (\<exists>j < m. bit x (i + j)) \<or> (\<exists>j < m. bit x (m + i + j))"
    (is "?l \<longleftrightarrow> ?r")
  proof
    assume ?l
    then obtain j where j: "j < 2 * m" "bit x (i + j)" by blast
    show ?r
    proof (cases "j < m")
      case False
      then have "j - m < m" "bit x (m + i + (j - m))"
        using j by (auto simp: ac_simps)
      then show ?thesis by blast
    qed (use j in blast)
  next
    assume ?r
    then show ?l
    proof
      assume "\<exists>j < m. bit x (m + i + j)"
      then obtain j where "j < m" "bit x (i + (m + j))" by (auto simp: ac_simps)
      then show ?l by (intro exI [of _ "m + j"]) simp
    next
      assume "\<exists>j < m. bit x (i + j)"
      then obtain j where "j < m" "bit x (i + j)" by blast
      then show ?l by (intro exI [of _ j]) simp
    qed
  qed
  then show "bit (w OR drop_bit m w) i \<longleftrightarrow> (\<exists>j < 2 * m. bit x (i + j))"
    using assms by (simp add: smeared_def bit_or_iff bit_drop_bit_eq)
qed

lemma word_bit_nat: "bit (x :: u64) i \<longleftrightarrow> bit (unat x) i"
  by (auto simp: bit_unsigned_iff bit_imp_le_length)

lemma smeared_mask:
  assumes "smeared w x 32" "2 ^ t \<le> unat x" "unat x < 2 ^ Suc t" "t < 32"
  shows "w = mask (Suc t)"
proof (rule bit_word_eqI)
  fix i assume "i < LENGTH(64)"
  have top: "bit x t"
    using assms(2,3) div_nat_eqI [of "2 ^ t" 1 "unat x"] by (simp add: word_bit_nat bit_iff_odd)
  have above: "\<not> bit x n" if "t < n" for n
  proof -
    have "(2::nat) ^ Suc t \<le> 2 ^ n" using that by (intro power_increasing) auto
    then show ?thesis
      using assms(3) by (simp add: word_bit_nat bit_iff_odd)
  qed
  have "(\<exists>j < 32. bit x (i + j)) \<longleftrightarrow> i \<le> t"
  proof
    assume "i \<le> t"
    then show "\<exists>j < 32. bit x (i + j)"
      using top assms(4) by (intro exI [of _ "t - i"]) auto
  next
    assume "\<exists>j < 32. bit x (i + j)"
    then obtain j where "bit x (i + j)" by blast
    then have "\<not> t < i + j" using above by blast
    then show "i \<le> t" by simp
  qed
  then show "bit w i \<longleftrightarrow> bit (mask (Suc t) :: u64) i"
    using assms(1) \<open>i < LENGTH(64)\<close> by (auto simp: smeared_def bit_mask_iff less_Suc_eq_le)
qed

lemma next_pow2_cases:
  assumes "0 < unat n" "unat n \<le> 2 ^ 32"
  shows "\<exists>k \<le> 32. unat (next_pow2 n) = 2 ^ k \<and> unat n \<le> 2 ^ k \<and> (2 ^ k < 2 * unat n)"
proof -
  let ?x = "n - 1"
  define w where "w = next_pow2 n - 1"
  have "n \<noteq> 0" using assms(1) by auto
  then have ux: "unat ?x = unat n - 1"
    by (simp add: unat_sub word_le_nat_alt unat_gt_0 Suc_leI)
  have sm: "smeared w ?x 32"
    using smeared_double [OF smeared_double [OF smeared_double [OF smeared_double
      [OF smeared_double [OF smeared_start [of ?x]]]]]]
    by (simp add: w_def next_pow2_def Let_def)
  have np: "next_pow2 n = w + 1" by (simp add: w_def)
  show ?thesis
  proof (cases "unat n = 1")
    case True
    then have "unat ?x = 0" using ux by simp
    then have "?x = 0" by (simp only: unat_eq_0)
    then have "w = 0" using sm by (intro bit_word_eqI) (simp add: smeared_def)
    then show ?thesis using np True by (intro exI [of _ 0]) simp
  next
    case False
    then have "1 \<le> unat ?x" using ux assms(1) by simp
    then obtain t where t: "2 ^ t \<le> unat ?x" "unat ?x < 2 ^ (t + 1)"
      using ex_power_ivl1 [of 2 "unat ?x"] by auto
    have "(2::nat) ^ t < 2 ^ 32"
      using t(1) ux assms by simp
    then have "t < 32" by (simp only: power_strict_increasing_iff)
    have "w = mask (Suc t)"
      using smeared_mask [OF sm t(1) _ \<open>t < 32\<close>] t(2) by simp
    then have "next_pow2 n = 2 ^ Suc t"
      using np by (simp add: mask_eq_decr_exp)
    moreover have "(2::nat) ^ Suc t < 2 ^ LENGTH(64)"
      using \<open>t < 32\<close> by (intro power_strict_increasing) simp_all
    then have "take_bit LENGTH(64) (2 ^ Suc t) = (2 ^ Suc t :: nat)"
      by (rule take_bit_nat_eq_self)
    then have "unat (of_nat (2 ^ Suc t) :: u64) = 2 ^ Suc t"
      by (simp only: unsigned_of_nat of_nat_id)
    then have "unat (2 ^ Suc t :: u64) = 2 ^ Suc t"
      by (simp only: of_nat_power of_nat_numeral)
    ultimately show ?thesis
      using t ux assms \<open>t < 32\<close> False by (intro exI [of _ "Suc t"]) auto
  qed
qed

section \<open>The initial table\<close>

lemma rh_new_ok:
  assumes "0 < unat n" "unat n \<le> 2 ^ 31"
  shows "rh_inv (rh_new n)" "rh_abs (rh_new n) = Map.empty" "rh_size (rh_new n) = 0"
proof -
  obtain k where k: "unat (next_pow2 n) = 2 ^ k" "2 ^ k < 2 * unat n"
    using next_pow2_cases [of n] assms by auto
  then have "(2::nat) ^ k < 2 ^ 32" using assms(2) by simp
  then have "k < 32" by (simp only: power_strict_increasing_iff)
  then have "k \<le> 31" by simp
  then show "rh_inv (rh_new n)" "rh_abs (rh_new n) = Map.empty" "rh_size (rh_new n) = 0"
    using table_ok_blank [of k] k
    by (auto simp: rh_inv_def rh_abs_def rh_new_def Let_def kvs_blank)
qed

lemma rh_size_card:
  assumes "rh_inv m"
  shows "rh_size m = card (dom (rh_abs m))"
proof -
  have d: "distinct (map fst (kvs (rh_entries m)))" and s: "rh_size m = length (kvs (rh_entries m))"
    using assms by (auto simp: rh_inv_def table_ok_def)
  have "card (dom (rh_abs m)) = card (set (map fst (kvs (rh_entries m))))"
    by (simp add: rh_abs_def dom_map_of_conv_image_fst)
  also have "\<dots> = length (kvs (rh_entries m))"
    using distinct_card [OF d] by simp
  finally show ?thesis using s by simp
qed

section \<open>The map provides the store contract\<close>

interpretation rh: map_store rh_set rh_get rh_del rh_abs rh_inv rh_size "2 ^ 30"
  by unfold_locales (use rh_set_ok rh_get_ok rh_del_ok in blast)+

section \<open>Properties\<close>

text \<open>
  C2. From the initial map of sixteen slots, any run of at most \<open>2 ^ 30\<close> operations
  \<^verbatim>\<open>set\<close>, \<^verbatim>\<open>get\<close> and \<^verbatim>\<open>del\<close> returns (no probe loop runs for ever), answers
  every operation as a finite map from keys to values does, growth and backward shifts included,
  and ends in a well-formed table that stands for the map the operations describe.
\<close>

theorem rh_refines_map:
  assumes "length ops \<le> 2 ^ 30"
  shows "\<exists>rs m. run_ops (store_step rh_set rh_get rh_del) (rh_new 16) ops = Some (rs, m) \<and>
    run_spec store_spec Map.empty ops = (rs, rh_abs m) \<and> rh_inv m"
proof -
  have n: "0 < unat (16 :: u64)" "unat (16 :: u64) \<le> 2 ^ 31" by simp_all
  show ?thesis
    using rh.store.run_refines [OF rh_new_ok(1) [OF n], of ops] assms rh_new_ok [OF n] by auto
qed

theorem rh_refines_map_witness:
  "\<exists>rs m. run_ops (store_step rh_set rh_get rh_del) (rh_new 16)
      [StoreSet ''k'' ''v'', StoreGet ''k'', StoreDel ''k'', StoreGet ''k''] = Some (rs, m) \<and>
    run_spec store_spec Map.empty
      [StoreSet ''k'' ''v'', StoreGet ''k'', StoreDel ''k'', StoreGet ''k''] = (rs, rh_abs m) \<and> rh_inv m"
  by (rule rh_refines_map) simp

text \<open>
  On a well-formed table of fewer than \<open>2 ^ 30\<close> entries \<^verbatim>\<open>set\<close> returns, reports
  whether the key was new, maps the key to the value, leaves every other key alone, keeps the
  Robin Hood order and counts one entry more exactly for a new key, whether or not it had to
  double the table first.
\<close>

theorem rh_set_correct:
  assumes "rh_inv m" "rh_size m < 2 ^ 30"
  shows "\<exists>m'. rh_set m key val = Some (rh_abs m key = None, m') \<and> rh_inv m' \<and>
    rh_abs m' = (rh_abs m)(key \<mapsto> val) \<and>
    rh_size m' = (if rh_abs m key = None then rh_size m + 1 else rh_size m)"
  using assms by (rule rh_set_ok)

theorem rh_set_correct_witness:
  "rh_inv (rh_new 2) \<and> rh_size (rh_new 2) < 2 ^ 30 \<and>
   (\<exists>m'. rh_set (rh_new 2) ''key'' ''val'' = Some (rh_abs (rh_new 2) ''key'' = None, m') \<and> rh_inv m' \<and>
    rh_abs m' = (rh_abs (rh_new 2))(''key'' \<mapsto> ''val'') \<and>
    rh_size m' = (if rh_abs (rh_new 2) ''key'' = None then rh_size (rh_new 2) + 1 else rh_size (rh_new 2)))"
proof -
  have i: "rh_inv (rh_new 2)" "rh_size (rh_new 2) < 2 ^ 30"
    using rh_new_ok [of 2] by simp_all
  from i rh_set_correct [OF i, of "''key''" "''val''"] show ?thesis by blast
qed

text \<open>
  \<^verbatim>\<open>del\<close> on a well-formed table returns, reports whether the key was there, and removes
  that key and no other; the backward shift leaves a well-formed table with no tombstone.
\<close>

theorem rh_del_correct:
  assumes "rh_inv m"
  shows "\<exists>m'. rh_del m key = Some (rh_abs m key \<noteq> None, m') \<and> rh_inv m' \<and>
    rh_abs m' = (rh_abs m)(key := None) \<and> rh_size m' = card (dom (rh_abs m'))"
proof -
  obtain m' where m': "rh_del m key = Some (rh_abs m key \<noteq> None, m')" "rh_inv m'"
    "rh_abs m' = (rh_abs m)(key := None)"
    using rh_del_ok [OF assms, of key] by blast
  then show ?thesis
    using rh_size_card [OF m'(2)] by blast
qed

theorem rh_del_correct_witness:
  "rh_inv (rh_new 2) \<and>
   (\<exists>m'. rh_del (rh_new 2) ''key'' = Some (rh_abs (rh_new 2) ''key'' \<noteq> None, m') \<and> rh_inv m' \<and>
    rh_abs m' = (rh_abs (rh_new 2))(''key'' := None) \<and> rh_size m' = card (dom (rh_abs m')))"
proof -
  have i: "rh_inv (rh_new 2)"
    using rh_new_ok [of 2] by simp
  from i rh_del_correct [OF i, of "''key''"] show ?thesis by blast
qed

text \<open>
  For \<open>1 \<le> n \<le> 2 ^ 32\<close> the bit smearing of \<^verbatim>\<open>next_pow2\<close> returns the least power of two
  that is at least \<open>n\<close>.
\<close>

theorem next_pow2_least:
  assumes "1 \<le> unat n" "unat n \<le> 2 ^ 32"
  shows "\<exists>k. unat (next_pow2 n) = 2 ^ k \<and> unat n \<le> 2 ^ k \<and> (\<forall>l. unat n \<le> 2 ^ l \<longrightarrow> k \<le> l)"
proof -
  obtain k where k: "unat (next_pow2 n) = 2 ^ k" "unat n \<le> 2 ^ k" "2 ^ k < 2 * unat n"
    using next_pow2_cases [of n] assms by auto
  have "k \<le> l" if "unat n \<le> 2 ^ l" for l
  proof -
    have "(2::nat) ^ k < 2 ^ Suc l" using k(3) that by simp
    then have "k < Suc l" by (simp only: power_strict_increasing_iff)
    then show ?thesis by simp
  qed
  with k show ?thesis by blast
qed

theorem next_pow2_least_witness:
  "\<exists>k. unat (next_pow2 100) = 2 ^ k \<and> unat (100 :: u64) \<le> 2 ^ k \<and>
     (\<forall>l. unat (100 :: u64) \<le> 2 ^ l \<longrightarrow> k \<le> l)"
  by (rule next_pow2_least) simp_all

text \<open>
  A capacity of zero is not rounded up: \<^verbatim>\<open>RobinHoodMap(0)\<close> has no slot and a full mask, and
  doubling zero stays zero, so its first \<^verbatim>\<open>set\<close> would read outside the array.
\<close>

lemma rh_new_zero: "rh_capacity (rh_new 0) = 0" "rh_mask (rh_new 0) = 0xFFFFFFFF" "rh_entries (rh_new 0) = []"
  by code_simp+

end
