(* ===== verification/TTL.thy ===== *)
theory TTL
  imports Prelude "HOL-Library.Monad_Syntax"
begin

text \<open>
  The expiry manager of \<^verbatim>\<open>src/kv/ttl.hpp\<close> and \<^verbatim>\<open>src/kv/ttl.cpp\<close> (class
  \<^verbatim>\<open>TTLManager\<close>): a binary min-heap of deadlines with a position index by key.

  The clock is an argument: an operation that reads \<^verbatim>\<open>now_ms()\<close> takes the reading. Times are
  \<open>int\<close>; where a sum or a difference of times leaves \<^verbatim>\<open>int64_t\<close> the C++ is undefined and
  the result is \<^const>\<open>None\<close>. \<^verbatim>\<open>index_\<close> is only looked up, written and erased by key, so it is
  a map.
\<close>

section \<open>State\<close>

record ttl_entry =
  t_expires_at :: millis
  t_key :: string
  t_heap_idx :: nat

record ttl_mgr =
  t_heap :: "ttl_entry list"
  t_index :: "string \<rightharpoonup> nat"

definition ttl_new :: ttl_mgr where
  "ttl_new = \<lparr>t_heap = [], t_index = Map.empty\<rparr>"

section \<open>Heap operations\<close>

definition swap_entries :: "ttl_mgr \<Rightarrow> nat \<Rightarrow> nat \<Rightarrow> ttl_mgr" where
  "swap_entries t a b =
     (let h = (t_heap t)[a := t_heap t ! b, b := t_heap t ! a];
          h = h[a := (h ! a)\<lparr>t_heap_idx := a\<rparr>];
          h = h[b := (h ! b)\<lparr>t_heap_idx := b\<rparr>]
      in t\<lparr>t_heap := h, t_index := (t_index t)(t_key (h ! a) \<mapsto> a, t_key (h ! b) \<mapsto> b)\<rparr>)"

fun sift_up :: "ttl_mgr \<Rightarrow> nat \<Rightarrow> ttl_mgr" where
  "sift_up t i =
     (if 0 < i then
        let parent = (i - 1) div 2 in
        if t_expires_at (t_heap t ! parent) \<le> t_expires_at (t_heap t ! i) then t
        else sift_up (swap_entries t parent i) parent
      else t)"

declare sift_up.simps [simp del]

definition smallest_child :: "ttl_mgr \<Rightarrow> nat \<Rightarrow> nat" where
  "smallest_child t i =
     (let n = length (t_heap t); smallest = i; left = 2 * i + 1; right = 2 * i + 2;
          smallest = (if left < n \<and> t_expires_at (t_heap t ! left) < t_expires_at (t_heap t ! smallest)
                      then left else smallest);
          smallest = (if right < n \<and> t_expires_at (t_heap t ! right) < t_expires_at (t_heap t ! smallest)
                      then right else smallest)
      in smallest)"

lemma length_swap [simp]: "length (t_heap (swap_entries t a b)) = length (t_heap t)"
  by (simp add: swap_entries_def Let_def)

lemma smallest_child_cases:
  "smallest_child t i = i \<or>
   (i < smallest_child t i \<and> smallest_child t i < length (t_heap t) \<and>
    smallest_child t i \<in> {2 * i + 1, 2 * i + 2})"
  by (auto simp: smallest_child_def Let_def)

function sift_down :: "ttl_mgr \<Rightarrow> nat \<Rightarrow> ttl_mgr" where
  "sift_down t i =
     (let smallest = smallest_child t i in
      if smallest = i then t else sift_down (swap_entries t i smallest) smallest)"
  by pat_completeness auto
termination
  by (relation "measure (\<lambda>(t, i). length (t_heap t) - i)")
    (use smallest_child_cases in \<open>force+\<close>)

declare sift_down.simps [simp del]

section \<open>The manager's operations\<close>

definition put_deadline :: "ttl_mgr \<Rightarrow> string \<Rightarrow> millis \<Rightarrow> ttl_mgr" where
  "put_deadline t key deadline =
     (case t_index t key of
        Some idx \<Rightarrow>
          (let t = t\<lparr>t_heap := (t_heap t)[idx := (t_heap t ! idx)\<lparr>t_expires_at := deadline\<rparr>]\<rparr>
           in sift_down (sift_up t idx) idx)
      | None \<Rightarrow>
          (let idx = length (t_heap t) in
           sift_up (t\<lparr>t_heap := t_heap t @ [\<lparr>t_expires_at = deadline, t_key = key, t_heap_idx = idx\<rparr>],
                      t_index := (t_index t)(key \<mapsto> idx)\<rparr>) idx))"

definition set_expiry :: "millis \<Rightarrow> ttl_mgr \<Rightarrow> string \<Rightarrow> millis \<Rightarrow> ttl_mgr option" where
  "set_expiry now t key ttl_ms =
     (let deadline = now + ttl_ms in if int64 deadline then Some (put_deadline t key deadline) else None)"

definition remove_expiry :: "ttl_mgr \<Rightarrow> string \<Rightarrow> ttl_mgr" where
  "remove_expiry t key =
     (case t_index t key of
        None \<Rightarrow> t
      | Some idx \<Rightarrow>
          (let t = t\<lparr>t_index := (t_index t)(key := None)\<rparr> in
           if idx \<noteq> length (t_heap t) - 1 then
             (let h = (t_heap t)[idx := last (t_heap t)];
                  h = h[idx := (h ! idx)\<lparr>t_heap_idx := idx\<rparr>];
                  t = t\<lparr>t_heap := butlast h, t_index := (t_index t)(t_key (h ! idx) \<mapsto> idx)\<rparr>
              in sift_down (sift_up t idx) idx)
           else t\<lparr>t_heap := butlast (t_heap t)\<rparr>))"

definition get_expiry :: "ttl_mgr \<Rightarrow> string \<Rightarrow> millis" where
  "get_expiry t key =
     (case t_index t key of None \<Rightarrow> -1 | Some i \<Rightarrow> t_expires_at (t_heap t ! i))"

text \<open>
  The loop ends only because \<^verbatim>\<open>remove_expiry\<close> finds the key it is given, so it is a
  function in the option type; \<open>None\<close> is a loop that does not return.
\<close>

partial_function (option) evict_loop ::
  "millis \<Rightarrow> ttl_mgr \<Rightarrow> string list \<Rightarrow> (string list \<times> ttl_mgr) option" where [code]:
  "evict_loop now t expired =
     (if t_heap t \<noteq> [] \<and> t_expires_at (t_heap t ! 0) \<le> now
      then evict_loop now (remove_expiry t (t_key (t_heap t ! 0))) (expired @ [t_key (t_heap t ! 0)])
      else Some (expired, t))"

definition evict_expired :: "millis \<Rightarrow> ttl_mgr \<Rightarrow> (string list \<times> ttl_mgr) option" where
  "evict_expired now t = evict_loop now t []"

definition next_expiry_in :: "millis \<Rightarrow> ttl_mgr \<Rightarrow> millis option" where
  "next_expiry_in now t =
     (if t_heap t = [] then Some (-1)
      else let delta = t_expires_at (t_heap t ! 0) - now in
        if \<not> int64 delta then None else Some (if delta < 0 then 0 else delta))"

end
