(* ===== verification/TTL_Proofs.thy ===== *)
theory TTL_Proofs
  imports TTL Store_Interfaces
begin

text \<open>
  Correctness of the expiry heap: the position index agrees with the heap, the heap is ordered,
  every operation keeps both, and the heap stands for a map from keys to deadlines.
\<close>

section \<open>Invariant and abstraction\<close>

definition indexed :: "ttl_mgr \<Rightarrow> bool" where
  "indexed t \<longleftrightarrow>
     (\<forall>k i. t_index t k = Some i \<longleftrightarrow> i < length (t_heap t) \<and> t_key (t_heap t ! i) = k) \<and>
     (\<forall>i < length (t_heap t). t_heap_idx (t_heap t ! i) = i)"

definition pairs :: "ttl_mgr \<Rightarrow> (string \<times> millis) list" where
  "pairs t = map (\<lambda>e. (t_key e, t_expires_at e)) (t_heap t)"

definition exps :: "ttl_mgr \<Rightarrow> millis list" where
  "exps t = map t_expires_at (t_heap t)"

definition par :: "nat \<Rightarrow> nat" where
  "par j = (j - 1) div 2"

lemma par_less: "0 < j \<Longrightarrow> par j < j"
  by (simp add: par_def)

lemma par_eq_iff: "0 < j \<Longrightarrow> par j = i \<longleftrightarrow> j = 2 * i + 1 \<or> j = 2 * i + 2"
  by (auto simp: par_def)

definition heap_ok :: "millis list \<Rightarrow> bool" where
  "heap_ok e \<longleftrightarrow> (\<forall>j. 0 < j \<and> j < length e \<longrightarrow> e ! par j \<le> e ! j)"

definition ttl_inv :: "ttl_mgr \<Rightarrow> bool" where
  "ttl_inv t \<longleftrightarrow> indexed t \<and> heap_ok (exps t)"

definition ttl_abs :: "ttl_mgr \<Rightarrow> string \<rightharpoonup> millis" where
  "ttl_abs t = map_of (pairs t)"

lemma length_exps [simp]: "length (exps t) = length (t_heap t)"
  by (simp add: exps_def)

lemma length_pairs [simp]: "length (pairs t) = length (t_heap t)"
  by (simp add: pairs_def)

lemma exps_nth: "i < length (t_heap t) \<Longrightarrow> exps t ! i = t_expires_at (t_heap t ! i)"
  by (simp add: exps_def)

lemma pairs_nth: "i < length (t_heap t) \<Longrightarrow> pairs t ! i = (t_key (t_heap t ! i), t_expires_at (t_heap t ! i))"
  by (simp add: pairs_def)

lemma indexed_iff:
  "indexed t \<Longrightarrow> t_index t k = Some i \<longleftrightarrow> i < length (t_heap t) \<and> t_key (t_heap t ! i) = k"
  by (simp add: indexed_def)

lemma indexed_inj:
  assumes "indexed t" "i < length (t_heap t)" "j < length (t_heap t)"
    "t_key (t_heap t ! i) = t_key (t_heap t ! j)"
  shows "i = j"
  using assms indexed_iff [OF assms(1), of "t_key (t_heap t ! i)"] by (metis option.inject)

lemma indexed_distinct: "indexed t \<Longrightarrow> distinct (map fst (pairs t))"
  unfolding distinct_conv_nth using indexed_inj [of t] by (fastforce simp: pairs_def)

lemma ttl_abs_Some:
  assumes "indexed t" "t_index t k = Some i"
  shows "ttl_abs t k = Some (t_expires_at (t_heap t ! i))"
proof -
  have i: "i < length (t_heap t)" "t_key (t_heap t ! i) = k"
    using assms indexed_iff by auto
  then have "(k, t_expires_at (t_heap t ! i)) \<in> set (pairs t)"
    by (auto simp: pairs_def)
  then show ?thesis
    using indexed_distinct [OF assms(1)] by (simp add: ttl_abs_def)
qed

lemma ttl_abs_None:
  assumes "indexed t" "t_index t k = None"
  shows "ttl_abs t k = None"
proof -
  have "t_key e \<noteq> k" if "e \<in> set (t_heap t)" for e
    using that assms indexed_iff [OF assms(1), of k] by (metis in_set_conv_nth option.distinct(1))
  then have "k \<notin> t_key ` set (t_heap t)"
    by blast
  then show ?thesis
    by (simp add: ttl_abs_def pairs_def map_of_eq_None_iff image_image)
qed

lemma ttl_inv_new: "ttl_inv ttl_new" "ttl_abs ttl_new = Map.empty"
  by (auto simp: ttl_inv_def indexed_def heap_ok_def ttl_abs_def ttl_new_def pairs_def exps_def)

section \<open>Swapping two entries\<close>

lemma swap_heap:
  assumes "a < length (t_heap t)" "b < length (t_heap t)" "i < length (t_heap t)"
  shows "t_heap (swap_entries t a b) ! i =
    (if i = b then (t_heap t ! a)\<lparr>t_heap_idx := b\<rparr>
     else if i = a then (t_heap t ! b)\<lparr>t_heap_idx := a\<rparr> else t_heap t ! i)"
  using assms by (auto simp: swap_entries_def Let_def nth_list_update)

lemma swap_index:
  assumes "a < length (t_heap t)" "b < length (t_heap t)"
  shows "t_index (swap_entries t a b) =
    (t_index t)(t_key (t_heap t ! b) \<mapsto> a, t_key (t_heap t ! a) \<mapsto> b)"
  using assms by (auto simp: swap_entries_def Let_def nth_list_update)

lemma swap_exps:
  assumes "a < length (t_heap t)" "b < length (t_heap t)"
  shows "exps (swap_entries t a b) = (exps t)[a := exps t ! b, b := exps t ! a]"
  using assms by (intro nth_equalityI) (auto simp: exps_nth swap_heap nth_list_update)

lemma swap_pairs:
  assumes "a < length (t_heap t)" "b < length (t_heap t)"
  shows "mset (pairs (swap_entries t a b)) = mset (pairs t)"
proof -
  have "pairs (swap_entries t a b) = (pairs t)[a := pairs t ! b, b := pairs t ! a]"
    using assms by (intro nth_equalityI) (auto simp: pairs_nth swap_heap nth_list_update)
  then show ?thesis
    using assms by (simp add: mset_swap)
qed

lemma swap_keys_aux:
  assumes "x = ka \<longleftrightarrow> i = a" "x = kb \<longleftrightarrow> i = b" "ka = kb \<longleftrightarrow> a = b"
  shows "(if k = ka then i = b else if k = kb then i = a else x = k) \<longleftrightarrow>
    (if i = b then ka else if i = a then kb else x) = k"
  using assms by (cases "i = a"; cases "i = b") auto

lemma swap_indexed:
  assumes t: "indexed t" and ab: "a < length (t_heap t)" "b < length (t_heap t)"
  shows "indexed (swap_entries t a b)"
  unfolding indexed_def
proof (intro conjI allI impI)
  fix k i
  let ?t = "swap_entries t a b" and ?ka = "t_key (t_heap t ! a)" and ?kb = "t_key (t_heap t ! b)"
  note idx = indexed_iff [OF t]
  have keys: "t_key (t_heap ?t ! i) = (if i = b then ?ka else if i = a then ?kb else t_key (t_heap t ! i))"
    if "i < length (t_heap t)"
    using swap_heap [OF ab that] by simp
  have inj: "t_key (t_heap t ! i) = ?ka \<longleftrightarrow> i = a" "t_key (t_heap t ! i) = ?kb \<longleftrightarrow> i = b"
    "?ka = ?kb \<longleftrightarrow> a = b" if "i < length (t_heap t)"
    using indexed_inj [OF t that ab(1)] indexed_inj [OF t that ab(2)] indexed_inj [OF t ab] by auto
  show "t_index ?t k = Some i \<longleftrightarrow> i < length (t_heap ?t) \<and> t_key (t_heap ?t ! i) = k"
  proof (cases "i < length (t_heap t)")
    case True
    have "t_index ?t k = Some i \<longleftrightarrow>
      (if k = ?ka then i = b else if k = ?kb then i = a else t_key (t_heap t ! i) = k)"
      using idx [of k i] True by (auto simp: swap_index [OF ab])
    also have "\<dots> \<longleftrightarrow> t_key (t_heap ?t ! i) = k"
      unfolding keys [OF True] by (rule swap_keys_aux [OF inj [OF True]])
    finally show ?thesis using True by simp
  next
    case False
    then show ?thesis
      using ab idx [of k i] by (simp add: swap_index [OF ab])
  qed
next
  fix i assume "i < length (t_heap (swap_entries t a b))"
  then have i: "i < length (t_heap t)" by simp
  show "t_heap_idx (t_heap (swap_entries t a b) ! i) = i"
    using t i by (simp add: swap_heap [OF ab i] indexed_def)
qed

text \<open>What every rearrangement of the heap keeps.\<close>

definition rearranged :: "ttl_mgr \<Rightarrow> ttl_mgr \<Rightarrow> bool" where
  "rearranged t t' \<longleftrightarrow> indexed t' \<and> mset (pairs t') = mset (pairs t)"

lemma rearranged_length: "rearranged t t' \<Longrightarrow> length (t_heap t') = length (t_heap t)"
  by (metis length_pairs mset_eq_length rearranged_def)

lemma rearranged_abs: "rearranged t t' \<Longrightarrow> ttl_abs t' = ttl_abs t"
  unfolding rearranged_def ttl_abs_def by (intro map_of_mset_eq) (auto simp: indexed_distinct)

lemma rearranged_refl: "indexed t \<Longrightarrow> rearranged t t"
  by (simp add: rearranged_def)

lemma rearranged_trans: "rearranged t u \<Longrightarrow> rearranged u v \<Longrightarrow> rearranged t v"
  by (simp add: rearranged_def)

lemma rearranged_indexed: "rearranged t t' \<Longrightarrow> indexed t'"
  by (simp add: rearranged_def)

lemma swap_rearranged:
  "indexed t \<Longrightarrow> a < length (t_heap t) \<Longrightarrow> b < length (t_heap t) \<Longrightarrow> rearranged t (swap_entries t a b)"
  by (simp add: rearranged_def swap_indexed swap_pairs)

section \<open>Sifting up\<close>

text \<open>The heap is in order but for the edge above \<open>i\<close>, and the parent of \<open>i\<close> bounds its children.\<close>

definition up_inv :: "millis list \<Rightarrow> nat \<Rightarrow> bool" where
  "up_inv e i \<longleftrightarrow>
     (\<forall>j. 0 < j \<longrightarrow> j < length e \<longrightarrow> j \<noteq> i \<longrightarrow> e ! par j \<le> e ! j) \<and>
     (\<forall>j. 0 < j \<longrightarrow> j < length e \<longrightarrow> par j = i \<longrightarrow> 0 < i \<longrightarrow> e ! par i \<le> e ! j)"

lemma up_inv_step:
  assumes "up_inv e i" "0 < i" "i < length e" "e ! i < e ! par i"
  shows "up_inv (e[par i := e ! i, i := e ! par i]) (par i)"
proof -
  have p: "par i < i" using assms(2) by (rule par_less)
  show ?thesis
    unfolding up_inv_def
  proof (intro conjI allI impI; unfold length_list_update)
    fix j assume j: "0 < j" "j < length e" "j \<noteq> par i"
    have pj: "par j < j" using j(1) by (rule par_less)
    have up1: "j \<noteq> i \<longrightarrow> e ! par j \<le> e ! j" and up2: "par j = i \<longrightarrow> e ! par i \<le> e ! j"
      using assms(1,2) j by (auto simp: up_inv_def)
    show "e[par i := e ! i, i := e ! par i] ! par j \<le> e[par i := e ! i, i := e ! par i] ! j"
      using assms(3,4) p pj j up1 up2 by (cases "j = i"; cases "par j = i"; cases "par j = par i")
        (auto simp: nth_list_update)
  next
    fix j assume j: "0 < j" "j < length e" "par j = par i" "0 < par i"
    have "e ! par (par i) \<le> e ! par i"
      using assms(1,3) j(4) p by (auto simp: up_inv_def)
    moreover have "j \<noteq> i \<longrightarrow> e ! par j \<le> e ! j"
      using assms(1) j(1,2) unfolding up_inv_def by blast
    moreover have "par (par i) < par i" "j \<noteq> par i"
      using j par_less [of "par i"] par_less [of j] by auto
    moreover have "e[par i := e ! i, i := e ! par i] ! par (par i) = e ! par (par i)"
      using p \<open>par (par i) < par i\<close> by simp
    moreover have "e[par i := e ! i, i := e ! par i] ! j = (if j = i then e ! par i else e ! j)"
      using \<open>j \<noteq> par i\<close> assms(3) by simp
    ultimately show "e[par i := e ! i, i := e ! par i] ! par (par i) \<le> e[par i := e ! i, i := e ! par i] ! j"
      using j(3) by (cases "j = i") simp_all
  qed
qed

lemma up_inv_done:
  assumes "up_inv e i" "i = 0 \<or> e ! par i \<le> e ! i"
  shows "heap_ok e"
  using assms by (auto simp: up_inv_def heap_ok_def)

lemma sift_up_unfold:
  "sift_up t i =
     (if 0 < i \<and> t_expires_at (t_heap t ! i) < t_expires_at (t_heap t ! par i)
      then sift_up (swap_entries t (par i) i) (par i) else t)"
  by (subst sift_up.simps) (auto simp: Let_def par_def)

lemma sift_up_ok:
  assumes "indexed t" "up_inv (exps t) i" "i < length (t_heap t)"
  shows "rearranged t (sift_up t i) \<and> heap_ok (exps (sift_up t i))"
  using assms
proof (induction i arbitrary: t rule: less_induct)
  case (less i)
  let ?p = "par i" and ?t = "swap_entries t (par i) i"
  have p: "?p < length (t_heap t)"
    using less.prems(3) by (simp add: par_def)
  show ?case
  proof (cases "0 < i \<and> t_expires_at (t_heap t ! i) < t_expires_at (t_heap t ! ?p)")
    case True
    then have r: "rearranged t ?t"
      using less.prems p by (simp add: swap_rearranged)
    have "up_inv (exps ?t) ?p"
      using up_inv_step [OF less.prems(2)] True less.prems(3) p by (simp add: swap_exps exps_nth)
    then have "rearranged ?t (sift_up ?t ?p) \<and> heap_ok (exps (sift_up ?t ?p))"
      using less.IH [of ?p ?t] par_less [of i] True r p by (simp add: rearranged_indexed)
    then show ?thesis
      using True rearranged_trans [OF r] by (simp add: sift_up_unfold [of t])
  next
    case False
    then have "sift_up t i = t"
      by (auto simp: sift_up_unfold [of t])
    moreover have "heap_ok (exps t)"
      using up_inv_done [OF less.prems(2)] False less.prems(3) p by (auto simp: exps_nth)
    ultimately show ?thesis
      using less.prems(1) by (simp add: rearranged_refl)
  qed
qed

section \<open>Sifting down\<close>

definition down_inv :: "millis list \<Rightarrow> nat \<Rightarrow> bool" where
  "down_inv e i \<longleftrightarrow>
     (\<forall>j. 0 < j \<longrightarrow> j < length e \<longrightarrow> par j \<noteq> i \<longrightarrow> e ! par j \<le> e ! j) \<and>
     (\<forall>j. 0 < j \<longrightarrow> j < length e \<longrightarrow> par j = i \<longrightarrow> 0 < i \<longrightarrow> e ! par i \<le> e ! j)"

lemma smallest_child_le:
  assumes "0 < j" "j < length (t_heap t)" "par j = i" "i < length (t_heap t)"
  shows "exps t ! smallest_child t i \<le> exps t ! j" "exps t ! smallest_child t i \<le> exps t ! i"
  using assms by (auto simp: smallest_child_def Let_def exps_nth par_eq_iff)

lemma smallest_child_less:
  assumes "smallest_child t i \<noteq> i" "i < length (t_heap t)"
  shows "exps t ! smallest_child t i < exps t ! i"
  using assms by (auto simp: smallest_child_def Let_def exps_nth split: if_splits)

lemma down_inv_step:
  assumes "down_inv e i" "s < length e" "par s = i" "0 < s" "e ! s \<le> e ! i"
    and least: "\<And>j. 0 < j \<Longrightarrow> j < length e \<Longrightarrow> par j = i \<Longrightarrow> e ! s \<le> e ! j"
  shows "down_inv (e[i := e ! s, s := e ! i]) s"
proof -
  have i: "i < s" "i < length e" using assms(2-4) par_less [of s] by auto
  show ?thesis
    unfolding down_inv_def
  proof (intro conjI allI impI; unfold length_list_update)
    fix j assume j: "0 < j" "j < length e" "par j \<noteq> s"
    have pj: "par j < j" using j(1) by (rule par_less)
    have d1: "par j \<noteq> i \<longrightarrow> e ! par j \<le> e ! j"
      using assms(1) j by (auto simp: down_inv_def)
    have d2: "j = i \<longrightarrow> e ! par i \<le> e ! s"
      using assms(1-4) j by (auto simp: down_inv_def)
    show "e[i := e ! s, s := e ! i] ! par j \<le> e[i := e ! s, s := e ! i] ! j"
      using assms(2,3,5) least [OF j(1,2)] i pj j d1 d2
      by (cases "j = i"; cases "j = s"; cases "par j = i") (auto simp: nth_list_update)
  next
    fix j assume j: "0 < j" "j < length e" "par j = s" "0 < s"
    then have "par j \<noteq> i" "j \<noteq> i" "j \<noteq> s"
      using i par_less [OF j(1)] by auto
    then have "e ! par j \<le> e ! j" "j \<noteq> i" "j \<noteq> s"
      using assms(1) j(1,2) unfolding down_inv_def by blast+
    then show "e[i := e ! s, s := e ! i] ! par s \<le> e[i := e ! s, s := e ! i] ! j"
      using i assms(2,3) j(3) by (auto simp: nth_list_update)
  qed
qed

lemma down_inv_done:
  assumes "down_inv e i" "\<And>j. 0 < j \<Longrightarrow> j < length e \<Longrightarrow> par j = i \<Longrightarrow> e ! i \<le> e ! j"
  shows "heap_ok e"
  using assms by (auto simp: down_inv_def heap_ok_def)

lemma sift_down_ok:
  assumes "indexed t" "down_inv (exps t) i" "i < length (t_heap t)"
  shows "rearranged t (sift_down t i) \<and> heap_ok (exps (sift_down t i))"
  using assms
proof (induction t i rule: sift_down.induct)
  case (1 t i)
  let ?s = "smallest_child t i"
  show ?case
  proof (cases "?s = i")
    case True
    then have "sift_down t i = t"
      by (subst sift_down.simps) simp
    moreover have "heap_ok (exps t)"
      using down_inv_done [OF "1.prems"(2)] smallest_child_le [of _ t i] True "1.prems"(3) by auto
    ultimately show ?thesis
      using "1.prems"(1) by (simp add: rearranged_refl)
  next
    case False
    then have s: "i < ?s" "?s < length (t_heap t)" "par ?s = i" "0 < ?s"
      using smallest_child_cases [of t i] False par_eq_iff by auto
    let ?t = "swap_entries t i ?s"
    have r: "rearranged t ?t"
      using "1.prems" s by (simp add: swap_rearranged)
    have "down_inv (exps ?t) ?s"
      using down_inv_step [OF "1.prems"(2), of ?s] s smallest_child_less [OF False "1.prems"(3)]
        smallest_child_le [OF _ _ _ "1.prems"(3)] "1.prems"(3)
      by (simp add: swap_exps)
    then have "rearranged ?t (sift_down ?t ?s) \<and> heap_ok (exps (sift_down ?t ?s))"
      using "1.IH" [OF refl False] r s by (simp add: rearranged_indexed)
    then show ?thesis
      using False rearranged_trans [OF r] by (subst (1 2) sift_down.simps) (simp add: Let_def)
  qed
qed

lemma sift_down_same: "heap_ok (exps t) \<Longrightarrow> i < length (t_heap t) \<Longrightarrow> sift_down t i = t"
proof -
  assume h: "heap_ok (exps t)" and i: "i < length (t_heap t)"
  have "smallest_child t i = i"
  proof (rule ccontr)
    assume n: "smallest_child t i \<noteq> i"
    then have s: "0 < smallest_child t i" "smallest_child t i < length (t_heap t)"
      "par (smallest_child t i) = i"
      using smallest_child_cases [of t i] par_eq_iff by auto
    with h have "exps t ! i \<le> exps t ! smallest_child t i"
      unfolding heap_ok_def by (metis length_exps)
    then show False using smallest_child_less [OF n i] by simp
  qed
  then show ?thesis by (subst sift_down.simps) simp
qed

section \<open>Repairing the heap after a change at one position\<close>

definition loose :: "millis list \<Rightarrow> nat \<Rightarrow> bool" where
  "loose e i \<longleftrightarrow>
     (\<forall>j. 0 < j \<longrightarrow> j < length e \<longrightarrow> j \<noteq> i \<longrightarrow> par j \<noteq> i \<longrightarrow> e ! par j \<le> e ! j) \<and>
     (\<forall>j. 0 < j \<longrightarrow> j < length e \<longrightarrow> par j = i \<longrightarrow> 0 < i \<longrightarrow> e ! par i \<le> e ! j)"

lemma loose_update:
  assumes "heap_ok e" "i < length e"
  shows "loose (e[i := x]) i"
proof -
  have "e ! par i \<le> e ! j" if "0 < j" "j < length e" "par j = i" "0 < i" for j
  proof -
    have "e ! par i \<le> e ! i" "e ! par j \<le> e ! j"
      using assms that unfolding heap_ok_def by blast+
    then show ?thesis using that by simp
  qed
  then have "e[i := x] ! par i \<le> e[i := x] ! j" if "0 < j" "j < length e" "par j = i" "0 < i" for j
    using that par_less [of i] par_less [of j] by simp
  moreover have "e[i := x] ! par j \<le> e[i := x] ! j" if "0 < j" "j < length e" "j \<noteq> i" "par j \<noteq> i" for j
    using assms(1) that by (simp add: heap_ok_def)
  ultimately show ?thesis
    by (simp add: loose_def)
qed

lemma repair:
  assumes t: "indexed t" and l: "loose (exps t) i" and i: "i < length (t_heap t)"
  shows "rearranged t (sift_down (sift_up t i) i) \<and> heap_ok (exps (sift_down (sift_up t i) i))"
proof (cases "0 < i \<and> exps t ! i < exps t ! par i")
  case True
  have p: "par i < length (t_heap t)" using i par_less [of i] True by simp
  have "up_inv (exps t) i"
    unfolding up_inv_def
  proof (intro conjI allI impI)
    fix j assume j: "0 < j" "j < length (exps t)" "j \<noteq> i"
    show "exps t ! par j \<le> exps t ! j"
    proof (cases "par j = i")
      case True
      then have "exps t ! par i \<le> exps t ! j"
        using l j \<open>0 < i \<and> _\<close> unfolding loose_def by blast
      then show ?thesis using True \<open>0 < i \<and> _\<close> by simp
    qed (use l j in \<open>simp add: loose_def\<close>)
  qed (use l in \<open>simp add: loose_def\<close>)
  then have "rearranged t (sift_up t i) \<and> heap_ok (exps (sift_up t i))"
    using t i by (intro sift_up_ok)
  then show ?thesis
    using i sift_down_same [of "sift_up t i" i] rearranged_length by metis
next
  case False
  have "par i < length (t_heap t)" using i par_def by simp
  then have "sift_up t i = t"
    using False i by (auto simp: sift_up_unfold [of t i] exps_nth)
  moreover have "down_inv (exps t) i"
    unfolding down_inv_def
  proof (intro conjI allI impI)
    fix j assume j: "0 < j" "j < length (exps t)" "par j \<noteq> i"
    show "exps t ! par j \<le> exps t ! j"
      using l j False by (cases "j = i") (auto simp: loose_def)
  qed (use l in \<open>simp add: loose_def\<close>)
  ultimately show ?thesis
    using sift_down_ok [OF t _ i] by simp
qed

section \<open>The operations\<close>

lemma put_deadline_ok:
  assumes "ttl_inv t"
  shows "ttl_inv (put_deadline t key d)"
    "ttl_abs (put_deadline t key d) = (ttl_abs t)(key \<mapsto> d)"
proof -
  have t: "indexed t" and h: "heap_ok (exps t)"
    using assms by (auto simp: ttl_inv_def)
  let ?t' = "put_deadline t key d"
  have "ttl_inv ?t' \<and> ttl_abs ?t' = (ttl_abs t)(key \<mapsto> d)"
  proof (cases "t_index t key")
    case (Some idx)
    then have i: "idx < length (t_heap t)" "t_key (t_heap t ! idx) = key"
      using indexed_iff [OF t] by auto
    let ?t = "t\<lparr>t_heap := (t_heap t)[idx := (t_heap t ! idx)\<lparr>t_expires_at := d\<rparr>]\<rparr>"
    have t1: "indexed ?t"
      using t i by (simp add: indexed_def nth_list_update)
    have e1: "exps ?t = (exps t)[idx := d]"
      by (simp add: exps_def map_update)
    have p1: "pairs ?t = (pairs t)[idx := (key, d)]"
      using i by (simp add: pairs_def map_update)
    have "ttl_abs ?t = (ttl_abs t)(key \<mapsto> d)"
    proof -
      have m: "pairs t ! idx \<in># mset (pairs t)" and k: "pairs t ! idx = (key, t_expires_at (t_heap t ! idx))"
        using i nth_mem_mset [of idx "pairs t"] by (simp_all add: pairs_nth)
      have "mset (pairs ?t) + {#pairs t ! idx#} = mset (pairs t) + {#(key, d)#}"
        using i m by (simp add: p1 mset_update)
      with k m have "mset (pairs ?t) + {#(key, t_expires_at (t_heap t ! idx))#} = mset (pairs t) + {#(key, d)#}"
        "(key, t_expires_at (t_heap t ! idx)) \<in> set (pairs t)"
        by simp_all
      then show ?thesis
        unfolding ttl_abs_def using indexed_distinct [OF t1] indexed_distinct [OF t]
        by (rule replace_result)
    qed
    moreover have "?t' = sift_down (sift_up ?t idx) idx"
      using Some by (simp add: put_deadline_def Let_def)
    moreover have "loose (exps ?t) idx"
      unfolding e1 using h i by (intro loose_update) simp_all
    ultimately show ?thesis
      using repair [OF t1, of idx] i rearranged_abs rearranged_indexed
      by (simp add: ttl_inv_def) metis
  next
    case None
    let ?n = "length (t_heap t)"
    let ?t = "t\<lparr>t_heap := t_heap t @ [\<lparr>t_expires_at = d, t_key = key, t_heap_idx = ?n\<rparr>],
               t_index := (t_index t)(key \<mapsto> ?n)\<rparr>"
    have nk: "t_key (t_heap t ! i) \<noteq> key" if "i < ?n" for i
      using that None indexed_iff [OF t, of key i] by auto
    have t1: "indexed ?t"
      using t nk by (auto simp: indexed_def nth_append less_Suc_eq)
    have "up_inv (exps ?t) ?n"
    proof -
      have "exps ?t = exps t @ [d]" by (simp add: exps_def)
      moreover have "par j < length (exps t)" if "0 < j" "j < length (exps t)" for j
        using par_less [of j] that by simp
      ultimately show ?thesis
        using h par_eq_iff by (auto simp: up_inv_def heap_ok_def nth_append less_Suc_eq)
    qed
    moreover have "ttl_abs ?t = (ttl_abs t)(key \<mapsto> d)"
      using ttl_abs_None [OF t None] by (simp add: ttl_abs_def pairs_def fun_eq_iff map_add_def split: option.split)
    moreover have "?t' = sift_up ?t ?n"
      using None by (simp add: put_deadline_def Let_def)
    ultimately show ?thesis
      using sift_up_ok [OF t1, of ?n] rearranged_abs rearranged_indexed
      by (simp add: ttl_inv_def) metis
  qed
  then show "ttl_inv ?t'" "ttl_abs ?t' = (ttl_abs t)(key \<mapsto> d)" by auto
qed

lemma set_expiry_ok:
  assumes "ttl_inv t" "int64 (now + ttl)"
  shows "\<exists>t'. set_expiry now t key ttl = Some t' \<and> ttl_inv t' \<and> ttl_abs t' = (ttl_abs t)(key \<mapsto> now + ttl)"
  using put_deadline_ok [OF assms(1)] assms(2) by (simp add: set_expiry_def Let_def)

lemma get_expiry_ok:
  assumes "ttl_inv t"
  shows "get_expiry t key = (case ttl_abs t key of None \<Rightarrow> -1 | Some d \<Rightarrow> d)"
  using assms ttl_abs_None [of t key] ttl_abs_Some [of t key]
  by (auto simp: get_expiry_def ttl_inv_def split: option.split)

lemma heap_ok_prefix: "heap_ok (e @ f) \<Longrightarrow> heap_ok e"
  unfolding heap_ok_def
proof (intro allI impI)
  fix j assume h: "\<forall>j. 0 < j \<and> j < length (e @ f) \<longrightarrow> (e @ f) ! par j \<le> (e @ f) ! j"
    and j: "0 < j \<and> j < length e"
  then have "(e @ f) ! par j \<le> (e @ f) ! j" by simp
  then show "e ! par j \<le> e ! j"
    using j par_less [of j] by (simp add: nth_append)
qed

lemma loose_butlast:
  assumes "loose e i"
  shows "loose (butlast e) i"
proof -
  have "butlast e ! par j \<le> butlast e ! j \<longleftrightarrow> e ! par j \<le> e ! j" if "0 < j" "j < length (butlast e)" for j
    using that par_less [of j] by (simp add: nth_butlast)
  moreover have "butlast e ! par i \<le> butlast e ! j \<longleftrightarrow> e ! par i \<le> e ! j"
    if "0 < j" "j < length (butlast e)" "par j = i" "0 < i" for j
    using that par_less [of j] par_less [of i] by (simp add: nth_butlast)
  ultimately show ?thesis
    using assms by (simp add: loose_def)
qed

lemma remove_keys_aux:
  assumes "idx < n" "iv = Some j \<longleftrightarrow> j < Suc n \<and> kj = k"
    "j < Suc n \<Longrightarrow> kj = key \<longleftrightarrow> j = idx" "j < Suc n \<Longrightarrow> kj = kl \<longleftrightarrow> j = n"
  shows "(if k = kl then Some idx else if k = key then None else iv) = Some j \<longleftrightarrow>
    j < n \<and> (if j = idx then kl else kj) = k"
  using assms by (cases "j = idx"; cases "j < n") auto

lemma remove_expiry_ok:
  assumes "ttl_inv t"
  shows "ttl_inv (remove_expiry t key)" "ttl_abs (remove_expiry t key) = (ttl_abs t)(key := None)"
proof -
  have t: "indexed t" and h: "heap_ok (exps t)"
    using assms by (auto simp: ttl_inv_def)
  let ?t' = "remove_expiry t key" and ?n = "length (t_heap t)"
  have "ttl_inv ?t' \<and> ttl_abs ?t' = (ttl_abs t)(key := None)"
  proof (cases "t_index t key")
    case None
    then show ?thesis
      using assms ttl_abs_None [OF t None] by (auto simp: remove_expiry_def)
  next
    case (Some idx)
    then have i: "idx < ?n" "t_key (t_heap t ! idx) = key"
      using indexed_iff [OF t] by auto
    then have only: "t_key (t_heap t ! j) = key \<longleftrightarrow> j = idx" if "j < ?n" for j
      using indexed_inj [OF t that i(1)] by auto
    show ?thesis
    proof (cases "idx = ?n - 1")
      case True
      let ?t = "t\<lparr>t_index := (t_index t)(key := None), t_heap := butlast (t_heap t)\<rparr>"
      have eq: "?t' = ?t"
        using Some True by (simp add: remove_expiry_def Let_def)
      have "t_index t k = Some j \<longleftrightarrow> j < ?n - 1 \<and> t_key (t_heap t ! j) = k" if "k \<noteq> key" for k j
      proof (cases "j = idx")
        case False
        then have "j < ?n \<longleftrightarrow> j < ?n - 1" using True i(1) by auto
        then show ?thesis by (simp add: indexed_iff [OF t])
      next
        case j: True
        then show ?thesis using indexed_iff [OF t, of k j] that i by auto
      qed
      then have t1: "indexed ?t"
        using t only True by (auto simp: indexed_def nth_butlast)
      have ne: "t_heap t \<noteq> []" using i by auto
      have hs: "t_heap t = butlast (t_heap t) @ [t_heap t ! idx]"
        unfolding True last_conv_nth [OF ne, symmetric] using ne by simp
      have hm: "map f (t_heap t) = map f (butlast (t_heap t)) @ [f (t_heap t ! idx)]" for f :: "ttl_entry \<Rightarrow> 'x"
        using arg_cong [OF hs, of "map f"] by (simp only: map_append list.map)
      have "pairs t = pairs ?t @ [(key, t_expires_at (t_heap t ! idx))]"
        using hm [of "\<lambda>e. (t_key e, t_expires_at e)"] i(2) by (simp only: pairs_def) simp
      then have "mset (pairs t) = {#(key, t_expires_at (t_heap t ! idx))#} + mset (pairs ?t)"
        by simp
      from remove_result(1) [OF this indexed_distinct [OF t]]
      have "ttl_abs ?t = (ttl_abs t)(key := None)"
        by (simp add: ttl_abs_def)
      moreover have "exps t = exps ?t @ [t_expires_at (t_heap t ! idx)]"
        using hm [of t_expires_at] by (simp only: exps_def) simp
      then have "heap_ok (exps ?t)"
        using h heap_ok_prefix by metis
      ultimately show ?thesis
        using t1 eq by (simp add: ttl_inv_def)
    next
      case False
      then have lt: "idx < ?n - 1" using i by simp
      let ?h = "(t_heap t)[idx := (last (t_heap t))\<lparr>t_heap_idx := idx\<rparr>]"
      let ?t = "t\<lparr>t_heap := butlast ?h, t_index := (t_index t)(key := None, t_key (last (t_heap t)) \<mapsto> idx)\<rparr>"
      have eq: "?t' = sift_down (sift_up ?t idx) idx"
        using Some False i by (simp add: remove_expiry_def Let_def)
      have ne: "t_heap t \<noteq> []" using i by auto
      have hj: "t_heap ?t ! j = (if j = idx then (t_heap t ! (?n - 1))\<lparr>t_heap_idx := idx\<rparr> else t_heap t ! j)"
        if "j < ?n - 1" for j
        using that i ne by (simp add: nth_butlast last_conv_nth)
      have lastonly: "t_key (t_heap t ! j) = t_key (t_heap t ! (?n - 1)) \<longleftrightarrow> j = ?n - 1" if "j < ?n" for j
        using indexed_inj [OF t that, of "?n - 1"] lt by auto
      have t1: "indexed ?t"
        unfolding indexed_def
      proof (intro conjI allI impI)
        fix k j
        have idxl: "t_index ?t k = (if k = t_key (t_heap t ! (?n - 1)) then Some idx
            else if k = key then None else t_index t k)"
          using ne by (simp add: last_conv_nth)
        have "t_index ?t k = Some j \<longleftrightarrow>
            j < ?n - 1 \<and> (if j = idx then t_key (t_heap t ! (?n - 1)) else t_key (t_heap t ! j)) = k"
          unfolding idxl
          by (rule remove_keys_aux [OF lt]) (use indexed_iff [OF t, of k j] only lastonly lt in auto)
        also have "\<dots> \<longleftrightarrow> j < length (t_heap ?t) \<and> t_key (t_heap ?t ! j) = k"
          using hj [of j] by (cases "j < ?n - 1") (simp_all only: length_butlast length_list_update, simp_all)
        finally show "t_index ?t k = Some j \<longleftrightarrow> j < length (t_heap ?t) \<and> t_key (t_heap ?t ! j) = k" .
      next
        fix j assume "j < length (t_heap ?t)"
        then show "t_heap_idx (t_heap ?t ! j) = j"
          using t hj [of j] lt by (simp add: indexed_def)
      qed
      have p1: "pairs ?t = butlast ((pairs t)[idx := last (pairs t)])"
        using ne by (simp add: pairs_def map_butlast map_update last_map)
      have e1: "exps ?t = butlast ((exps t)[idx := last (exps t)])"
        using ne by (simp add: exps_def map_butlast map_update last_map)
      have "mset (pairs t) = {#pairs t ! idx#} + mset (pairs ?t)"
        unfolding p1 using lt by (intro mset_replace_by_last) simp
      then have "mset (pairs t) = {#(key, t_expires_at (t_heap t ! idx))#} + mset (pairs ?t)"
        using i by (simp add: pairs_nth)
      from remove_result(1) [OF this indexed_distinct [OF t]]
      have "ttl_abs ?t = (ttl_abs t)(key := None)"
        by (simp add: ttl_abs_def)
      moreover have "loose (exps ?t) idx"
        unfolding e1 using h i by (intro loose_butlast loose_update) simp_all
      moreover have "idx < length (t_heap ?t)" using lt by simp
      ultimately have "rearranged ?t ?t' \<and> heap_ok (exps ?t')" "ttl_abs ?t = (ttl_abs t)(key := None)"
        using repair [OF t1, of idx] by (simp_all only: eq)
      then show ?thesis
        using rearranged_abs [of ?t ?t'] rearranged_indexed [of ?t ?t'] by (simp only: ttl_inv_def)
    qed
  qed
  then show "ttl_inv ?t'" "ttl_abs ?t' = (ttl_abs t)(key := None)" by auto
qed

section \<open>Eviction\<close>

lemma heap_root:
  assumes "heap_ok e" "j < length e"
  shows "e ! 0 \<le> e ! j"
  using assms(2)
proof (induction j rule: less_induct)
  case (less j)
  show ?case
  proof (cases "j = 0")
    case False
    then have "e ! 0 \<le> e ! par j" "e ! par j \<le> e ! j"
      using less par_less [of j] assms(1) by (auto simp: heap_ok_def)
    then show ?thesis by simp
  qed simp
qed

lemma ttl_abs_mem:
  assumes "ttl_abs t k = Some d"
  shows "\<exists>i < length (t_heap t). t_key (t_heap t ! i) = k \<and> t_expires_at (t_heap t ! i) = d"
  using map_of_SomeD [OF assms [unfolded ttl_abs_def]] by (auto simp: pairs_def in_set_conv_nth)

lemma ttl_root:
  assumes "ttl_inv t" "t_heap t \<noteq> []"
  shows "ttl_abs t (t_key (t_heap t ! 0)) = Some (t_expires_at (t_heap t ! 0))"
    "ttl_abs t k = Some d \<Longrightarrow> t_expires_at (t_heap t ! 0) \<le> d"
proof -
  have t: "indexed t" "heap_ok (exps t)" and n: "0 < length (t_heap t)"
    using assms by (auto simp: ttl_inv_def)
  show "ttl_abs t (t_key (t_heap t ! 0)) = Some (t_expires_at (t_heap t ! 0))"
    using ttl_abs_Some [OF t(1), of _ 0] indexed_iff [OF t(1)] n by simp
  show "t_expires_at (t_heap t ! 0) \<le> d" if k: "ttl_abs t k = Some d"
    using ttl_abs_mem [OF k] heap_root [OF t(2)] n by (auto simp: exps_nth)
qed

lemma finite_dom_ttl: "finite (dom (ttl_abs t))"
  by (simp add: ttl_abs_def finite_dom_map_of)

lemma evict_loop_ok:
  assumes "ttl_inv t"
  shows "\<exists>ks t'. evict_loop now t acc = Some (acc @ ks, t') \<and> ttl_inv t' \<and>
    ttl_abs t' = ttl_abs t |` (- due now (ttl_abs t)) \<and> distinct ks \<and>
    set ks = due now (ttl_abs t) \<and> sorted (map (\<lambda>k. the (ttl_abs t k)) ks)"
  using assms
proof (induction "card (dom (ttl_abs t))" arbitrary: t acc rule: less_induct)
  case less
  let ?a = "ttl_abs t"
  show ?case
  proof (cases "t_heap t \<noteq> [] \<and> t_expires_at (t_heap t ! 0) \<le> now")
    case False
    have "due now ?a = {}"
    proof (cases "t_heap t = []")
      case True
      then show ?thesis by (simp add: due_def ttl_abs_def pairs_def)
    next
      case ne: False
      then show ?thesis
        using False ttl_root(2) [OF less.prems ne] by (fastforce simp: due_def)
    qed
    moreover have "evict_loop now t acc = Some (acc, t)"
      using False by (subst evict_loop.simps) auto
    ultimately show ?thesis
      using less.prems by (simp add: restrict_map_def)
  next
    case True
    let ?k = "t_key (t_heap t ! 0)" and ?d = "t_expires_at (t_heap t ! 0)"
    let ?t = "remove_expiry t ?k"
    have k: "?a ?k = Some ?d" and least: "\<And>k d. ?a k = Some d \<Longrightarrow> ?d \<le> d"
      using ttl_root [OF less.prems] True by auto
    have t1: "ttl_inv ?t" "ttl_abs ?t = ?a(?k := None)"
      using remove_expiry_ok [OF less.prems] by auto
    have "card (dom (ttl_abs ?t)) < card (dom ?a)"
      using k finite_dom_ttl [of t] by (auto simp: t1(2) intro!: psubset_card_mono)
    from less.hyps [OF this t1(1), of "acc @ [?k]"] obtain ks t' where
      ih: "evict_loop now ?t (acc @ [?k]) = Some ((acc @ [?k]) @ ks, t')" "ttl_inv t'"
      "ttl_abs t' = ttl_abs ?t |` (- due now (ttl_abs ?t))" "distinct ks"
      "set ks = due now (ttl_abs ?t)" "sorted (map (\<lambda>k. the (ttl_abs ?t k)) ks)"
      by blast
    have due: "due now ?a = insert ?k (due now (ttl_abs ?t))" "?k \<notin> due now (ttl_abs ?t)"
      using k True by (auto simp: t1(2) due_def split: if_splits)
    have same: "map (\<lambda>k. the (ttl_abs ?t k)) ks = map (\<lambda>k. the (?a k)) ks"
      using ih(5) due(2) by (auto simp: t1(2))
    have "evict_loop now t acc = Some (acc @ ?k # ks, t')"
      using True ih(1) by (subst evict_loop.simps) simp
    moreover have "ttl_abs t' = ?a |` (- due now ?a)"
      unfolding ih(3) due(1) by (auto simp: t1(2) restrict_map_def fun_eq_iff)
    moreover have "sorted (map (\<lambda>k. the (?a k)) (?k # ks))"
    proof -
      have "?d \<le> the (?a k')" if k': "k' \<in> set ks" for k'
      proof -
        obtain d where "ttl_abs ?t k' = Some d"
          using k' unfolding ih(5) due_def by blast
        then have "?a k' = Some d"
          unfolding t1(2) by (simp split: if_splits)
        then show ?thesis using least by simp
      qed
      then show ?thesis
        using ih(6) k by (simp add: same)
    qed
    ultimately show ?thesis
      using ih(2,4,5) due by (intro exI [of _ "?k # ks"] exI [of _ t']) auto
  qed
qed

lemma evict_expired_ok:
  assumes "ttl_inv t"
  shows "\<exists>ks t'. evict_expired now t = Some (ks, t') \<and> ttl_inv t' \<and>
    ttl_abs t' = ttl_abs t |` (- due now (ttl_abs t)) \<and> distinct ks \<and>
    set ks = due now (ttl_abs t) \<and> sorted (map (\<lambda>k. the (ttl_abs t k)) ks)"
  using evict_loop_ok [OF assms, of now "[]"] by (simp add: evict_expired_def)

section \<open>Time to the next expiry\<close>

lemma next_expiry_in_ok:
  assumes "ttl_inv t"
  shows "ttl_abs t = Map.empty \<Longrightarrow> next_expiry_in now t = Some (-1)"
    "ttl_abs t k = Some d \<Longrightarrow>
      \<exists>k0 d0. ttl_abs t k0 = Some d0 \<and> (\<forall>k d. ttl_abs t k = Some d \<longrightarrow> d0 \<le> d) \<and>
        next_expiry_in now t = (if int64 (d0 - now) then Some (max 0 (d0 - now)) else None)"
proof -
  show "next_expiry_in now t = Some (-1)" if "ttl_abs t = Map.empty"
    using ttl_root(1) [OF assms] that by (auto simp: next_expiry_in_def)
  assume "ttl_abs t k = Some d"
  then have ne: "t_heap t \<noteq> []"
    using ttl_abs_mem by fastforce
  let ?d = "t_expires_at (t_heap t ! 0)"
  have "next_expiry_in now t = (if int64 (?d - now) then Some (max 0 (?d - now)) else None)"
    using ne by (simp add: next_expiry_in_def Let_def)
  then show "\<exists>k0 d0. ttl_abs t k0 = Some d0 \<and> (\<forall>k d. ttl_abs t k = Some d \<longrightarrow> d0 \<le> d) \<and>
        next_expiry_in now t = (if int64 (d0 - now) then Some (max 0 (d0 - now)) else None)"
    using ttl_root [OF assms ne] by blast
qed

section \<open>The heap provides the expiry contract\<close>

interpretation ttl: expiry_store set_expiry remove_expiry get_expiry evict_expired ttl_abs ttl_inv
  by unfold_locales
    (simp_all add: set_expiry_ok remove_expiry_ok get_expiry_ok evict_expired_ok finite_dom_ttl)

section \<open>Properties\<close>

text \<open>
  C12. From the empty manager any run of \<^verbatim>\<open>set_expiry\<close>, \<^verbatim>\<open>remove_expiry\<close>,
  \<^verbatim>\<open>get_expiry\<close> and \<^verbatim>\<open>evict_expired\<close>, at any clock readings whose sums with the
  times to live are numbers of 64 bits, returns and answers as a map from keys to deadlines does; the heap
  order and the agreement between the heap and its position index hold at the end.
\<close>

theorem ttl_refines_deadlines:
  assumes "\<forall>x \<in> set ops. expiry_valid x"
  shows "\<exists>rs t. run_ops (expiry_step set_expiry remove_expiry get_expiry evict_expired) ttl_new ops = Some (rs, t) \<and>
     run_spec expiry_spec Map.empty ops = (rs, ttl_abs t) \<and> indexed t \<and> heap_ok (exps t)"
  using ttl.runs.run_refines [OF ttl_inv_new(1), of ops "length ops"] assms
  by (auto simp: ttl_inv_new(2) ttl_inv_def)

theorem ttl_refines_deadlines_witness:
  "\<exists>t. run_ops (expiry_step set_expiry remove_expiry get_expiry evict_expired) ttl_new
      [ExpSet 0 ''b'' 9, ExpSet 1 ''a'' 2, ExpGet ''b'', ExpEvict 3, ExpGet ''a''] =
    Some ([Done, Done, Deadline 9, Evicted {''a''}, Deadline (-1)], t)"
proof -
  let ?ops = "[ExpSet 0 ''b'' 9, ExpSet 1 ''a'' 2, ExpGet ''b'', ExpEvict 3, ExpGet ''a'']"
  have due: "due 3 [''b'' \<mapsto> 9, ''a'' \<mapsto> 3] = {''a''}" by (auto simp: due_def split: if_splits)
  have "fst (run_spec expiry_spec Map.empty ?ops) = [Done, Done, Deadline 9, Evicted {''a''}, Deadline (-1)]"
    by (simp add: due)
  moreover have "\<forall>x \<in> set ?ops. expiry_valid x" by (simp add: int64_def)
  ultimately show ?thesis using ttl_refines_deadlines [of ?ops] by (metis fst_conv)
qed

text \<open>
  \<^verbatim>\<open>evict_expired\<close> on a well-formed manager returns exactly the keys whose deadline has
  been reached, each once and in order of their deadlines, removes exactly those and keeps the
  heap and its index well-formed.
\<close>

theorem evict_expired_correct:
  assumes "ttl_inv t"
  shows "\<exists>ks t'. evict_expired now t = Some (ks, t') \<and> ttl_inv t' \<and>
    ttl_abs t' = ttl_abs t |` (- due now (ttl_abs t)) \<and> distinct ks \<and>
    set ks = due now (ttl_abs t) \<and> sorted (map (\<lambda>k. the (ttl_abs t k)) ks)"
  using assms by (rule evict_expired_ok)

theorem evict_expired_correct_witness:
  "\<exists>t ks t'. ttl_abs t = [''k'' \<mapsto> 5] \<and> evict_expired 7 t = Some (ks, t') \<and> ttl_inv t' \<and> set ks = {''k''}"
proof -
  obtain t where t: "ttl_inv t" "ttl_abs t = [''k'' \<mapsto> 5]"
    using put_deadline_ok [OF ttl_inv_new(1), of "''k''" 5] by (auto simp: ttl_inv_new(2))
  have "due 7 [''k'' \<mapsto> 5] = {''k''}" by (auto simp: due_def split: if_splits)
  with evict_expired_correct [OF t(1), of 7] t(2) show ?thesis by auto
qed

text \<open>
  The event loop's sleep: when some key has a deadline, \<^verbatim>\<open>next_expiry_in\<close> is the time
  from now to the least deadline, and \<open>0\<close> if that has passed; it is undefined if the difference overflows.
\<close>

theorem next_expiry_in_correct:
  assumes "ttl_inv t" "ttl_abs t k = Some d"
  shows "\<exists>k0 d0. ttl_abs t k0 = Some d0 \<and> (\<forall>k d. ttl_abs t k = Some d \<longrightarrow> d0 \<le> d) \<and>
    next_expiry_in now t = (if int64 (d0 - now) then Some (max 0 (d0 - now)) else None)"
  using assms by (rule next_expiry_in_ok(2))

theorem next_expiry_in_correct_witness:
  "\<exists>t. ttl_abs t = [''k'' \<mapsto> 5] \<and> next_expiry_in 2 t = Some 3"
proof -
  obtain t where t: "ttl_inv t" "ttl_abs t = [''k'' \<mapsto> 5]"
    using put_deadline_ok [OF ttl_inv_new(1), of "''k''" 5] by (auto simp: ttl_inv_new(2))
  from next_expiry_in_correct [OF t(1), of "''k''" 5 2] t(2) show ?thesis
    by (auto simp: int64_def split: if_splits)
qed

end
