(* ===== verification/KV_Engine.thy ===== *)
theory KV_Engine
  imports Robin_Hood_Map TTL_Proofs
begin

text \<open>
  The key-value engine of \<^verbatim>\<open>src/kv/kv_engine.hpp\<close> and \<^verbatim>\<open>src/kv/kv_engine.cpp\<close>
  (class \<^verbatim>\<open>KVEngine\<close>): a hash map for the values and an expiry heap for the deadlines,
  with lazy expiry on lookup and eager expiry on the tick of the event loop. It is the client of
  the store contract and of the expiry contract.
\<close>

section \<open>State and operations\<close>

record kv_engine =
  kv_map :: rh_map
  kv_ttl :: ttl_mgr

definition kv_new :: kv_engine where
  "kv_new = \<lparr>kv_map = rh_new 16, kv_ttl = ttl_new\<rparr>"

definition kv_set :: "millis \<Rightarrow> kv_engine \<Rightarrow> string \<Rightarrow> string \<Rightarrow> millis \<Rightarrow> (bool \<times> kv_engine) option" where
  "kv_set now kv key val ttl_ms = do {
     (inserted, m) \<leftarrow> rh_set (kv_map kv) key val;
     t \<leftarrow> (if 0 < ttl_ms then set_expiry now (kv_ttl kv) key ttl_ms
          else Some (remove_expiry (kv_ttl kv) key));
     Some (inserted, \<lparr>kv_map = m, kv_ttl = t\<rparr>)
   }"

definition kv_get :: "millis \<Rightarrow> kv_engine \<Rightarrow> string \<Rightarrow> (string option \<times> kv_engine) option" where
  "kv_get now kv key =
     (let exp = get_expiry (kv_ttl kv) key in
      if 0 \<le> exp \<and> exp \<le> now then do {
        (_, m) \<leftarrow> rh_del (kv_map kv) key;
        Some (None, \<lparr>kv_map = m, kv_ttl = remove_expiry (kv_ttl kv) key\<rparr>)
      }
      else do {
        v \<leftarrow> rh_get (kv_map kv) key;
        Some (v, kv)
      })"

definition kv_del :: "kv_engine \<Rightarrow> string \<Rightarrow> (bool \<times> kv_engine) option" where
  "kv_del kv key = do {
     let t = remove_expiry (kv_ttl kv) key;
     (found, m) \<leftarrow> rh_del (kv_map kv) key;
     Some (found, \<lparr>kv_map = m, kv_ttl = t\<rparr>)
   }"

definition kv_exists :: "millis \<Rightarrow> kv_engine \<Rightarrow> string \<Rightarrow> (bool \<times> kv_engine) option" where
  "kv_exists now kv key = map_option (map_prod (\<lambda>v. v \<noteq> None) id) (kv_get now kv key)"

definition kv_expire :: "millis \<Rightarrow> kv_engine \<Rightarrow> string \<Rightarrow> millis \<Rightarrow> (bool \<times> kv_engine) option" where
  "kv_expire now kv key ttl_ms = do {
     v \<leftarrow> rh_get (kv_map kv) key;
     case v of
       None \<Rightarrow> Some (False, kv)
     | Some _ \<Rightarrow> do { t \<leftarrow> set_expiry now (kv_ttl kv) key ttl_ms; Some (True, kv\<lparr>kv_ttl := t\<rparr>) }
   }"

definition kv_persist :: "kv_engine \<Rightarrow> string \<Rightarrow> bool \<times> kv_engine" where
  "kv_persist kv key =
     (if get_expiry (kv_ttl kv) key < 0 then (False, kv)
      else (True, kv\<lparr>kv_ttl := remove_expiry (kv_ttl kv) key\<rparr>))"

text \<open>
  The time left is the difference of a deadline that is not negative and the reading of a clock that
  counts from its start, so that it is a number of 64 bits.
\<close>

definition kv_ttl_of :: "millis \<Rightarrow> kv_engine \<Rightarrow> string \<Rightarrow> millis option" where
  "kv_ttl_of now kv key = do {
     v \<leftarrow> rh_get (kv_map kv) key;
     Some (if v = None then -2
           else let exp = get_expiry (kv_ttl kv) key in
             if exp < 0 then -1
             else let remaining = exp - now in if remaining < 0 then 0 else remaining)
   }"

definition kv_size :: "kv_engine \<Rightarrow> nat" where
  "kv_size kv = rh_size (kv_map kv)"

definition kv_tick :: "millis \<Rightarrow> kv_engine \<Rightarrow> kv_engine option" where
  "kv_tick now kv = do {
     (keys, t) \<leftarrow> evict_expired now (kv_ttl kv);
     m \<leftarrow> del_each rh_del (kv_map kv) keys;
     Some \<lparr>kv_map = m, kv_ttl = t\<rparr>
   }"

definition kv_next_expiry_in :: "millis \<Rightarrow> kv_engine \<Rightarrow> millis option" where
  "kv_next_expiry_in now kv = next_expiry_in now (kv_ttl kv)"

text \<open>
  \<^verbatim>\<open>all_entries\<close> walks the slots in order and reads the clock at each entry that has a
  deadline; \<open>clk i\<close> is the reading at slot \<open>i\<close>.
\<close>

fun kv_scan ::
  "(nat \<Rightarrow> millis) \<Rightarrow> ttl_mgr \<Rightarrow> nat \<Rightarrow> rh_entry list \<Rightarrow> (string \<times> string \<times> millis) list" where
  "kv_scan clk t i [] = []"
| "kv_scan clk t i (e # es) =
     (if e_empty e then kv_scan clk t (i + 1) es
      else let exp = get_expiry t (e_key e) in
        if 0 \<le> exp \<and> exp \<le> clk i then kv_scan clk t (i + 1) es
        else (e_key e, e_val e, exp) # kv_scan clk t (i + 1) es)"

definition kv_all_entries :: "(nat \<Rightarrow> millis) \<Rightarrow> kv_engine \<Rightarrow> (string \<times> string \<times> millis) list" where
  "kv_all_entries clk kv = kv_scan clk (kv_ttl kv) 0 (rh_entries (kv_map kv))"

section \<open>The abstract database\<close>

text \<open>A key is bound to a value and, if it is volatile, to its deadline.\<close>

type_synonym kv_db = "string \<rightharpoonup> string \<times> millis option"

datatype kv_op =
    KSet millis string string millis
  | KGet millis string
  | KDel string
  | KExists millis string
  | KExpire millis string millis
  | KPersist string
  | KTtl millis string
  | KTick millis

datatype kv_res = KBool bool | KVal "string option" | KInt int | KUnit

fun kv_step :: "kv_engine \<Rightarrow> kv_op \<Rightarrow> (kv_res \<times> kv_engine) option" where
  "kv_step kv (KSet now k v ttl) = map_option (map_prod KBool id) (kv_set now kv k v ttl)"
| "kv_step kv (KGet now k) = map_option (map_prod KVal id) (kv_get now kv k)"
| "kv_step kv (KDel k) = map_option (map_prod KBool id) (kv_del kv k)"
| "kv_step kv (KExists now k) = map_option (map_prod KBool id) (kv_exists now kv k)"
| "kv_step kv (KExpire now k ttl) = map_option (map_prod KBool id) (kv_expire now kv k ttl)"
| "kv_step kv (KPersist k) = Some (map_prod KBool id (kv_persist kv k))"
| "kv_step kv (KTtl now k) = map_option (\<lambda>r. (KInt r, kv)) (kv_ttl_of now kv k)"
| "kv_step kv (KTick now) = map_option (Pair KUnit) (kv_tick now kv)"

text \<open>The operations whose sum of clock and time to live is a number of 64 bits.\<close>

fun times_fit :: "kv_op \<Rightarrow> bool" where
  "times_fit (KSet now k v ttl) \<longleftrightarrow> (0 < ttl \<longrightarrow> int64 (now + ttl))"
| "times_fit (KExpire now k ttl) \<longleftrightarrow> int64 (now + ttl)"
| "times_fit _ \<longleftrightarrow> True"

text \<open>Lazily, a key is gone from its deadline on, unless the deadline is negative.\<close>

fun lapsed :: "millis \<Rightarrow> (string \<times> millis option) option \<Rightarrow> bool" where
  "lapsed now (Some (v, Some d)) \<longleftrightarrow> 0 \<le> d \<and> d \<le> now"
| "lapsed now _ \<longleftrightarrow> False"

fun evicted :: "millis \<Rightarrow> (string \<times> millis option) option \<Rightarrow> bool" where
  "evicted now (Some (v, Some d)) \<longleftrightarrow> d \<le> now"
| "evicted now _ \<longleftrightarrow> False"

fun kv_spec :: "kv_db \<Rightarrow> kv_op \<Rightarrow> kv_res \<times> kv_db" where
  "kv_spec a (KSet now k v ttl) =
     (KBool (a k = None), a(k \<mapsto> (v, if 0 < ttl then Some (now + ttl) else None)))"
| "kv_spec a (KGet now k) =
     (if lapsed now (a k) then (KVal None, a(k := None)) else (KVal (map_option fst (a k)), a))"
| "kv_spec a (KDel k) = (KBool (a k \<noteq> None), a(k := None))"
| "kv_spec a (KExists now k) =
     (if lapsed now (a k) then (KBool False, a(k := None)) else (KBool (a k \<noteq> None), a))"
| "kv_spec a (KExpire now k ttl) =
     (case a k of None \<Rightarrow> (KBool False, a)
      | Some (v, _) \<Rightarrow> (KBool True, a(k \<mapsto> (v, Some (now + ttl)))))"
| "kv_spec a (KPersist k) =
     (case a k of
        Some (v, Some d) \<Rightarrow> if d < 0 then (KBool False, a) else (KBool True, a(k \<mapsto> (v, None)))
      | _ \<Rightarrow> (KBool False, a))"
| "kv_spec a (KTtl now k) =
     (KInt (case a k of None \<Rightarrow> -2
            | Some (v, None) \<Rightarrow> -1
            | Some (v, Some d) \<Rightarrow> if d < 0 then -1 else max 0 (d - now)), a)"
| "kv_spec a (KTick now) = (KUnit, \<lambda>k. if evicted now (a k) then None else a k)"

definition kv_inv :: "kv_engine \<Rightarrow> bool" where
  "kv_inv kv \<longleftrightarrow> rh_inv (kv_map kv) \<and> ttl_inv (kv_ttl kv) \<and>
     dom (ttl_abs (kv_ttl kv)) \<subseteq> dom (rh_abs (kv_map kv))"

definition kv_abs :: "kv_engine \<Rightarrow> kv_db" where
  "kv_abs kv = (\<lambda>k. map_option (\<lambda>v. (v, ttl_abs (kv_ttl kv) k)) (rh_abs (kv_map kv) k))"

end
