(* ===== verification/KV_Proofs.thy ===== *)
theory KV_Proofs
  imports KV_Engine
begin

text \<open>
  The key-value engine against its abstract database, from the laws of the two contracts it is a
  client of, \<^verbatim>\<open>rh\<close> for the map and \<^verbatim>\<open>ttl\<close> for the deadlines.
\<close>

section \<open>The engine's state as a database\<close>

lemma kv_invD:
  assumes "kv_inv kv"
  shows "rh_inv (kv_map kv)" "ttl_inv (kv_ttl kv)"
    "ttl_abs (kv_ttl kv) k = Some d \<Longrightarrow> \<exists>v. rh_abs (kv_map kv) k = Some v"
  using assms by (auto simp: kv_inv_def)

lemma kv_abs_cases:
  "kv_abs kv k = None \<longleftrightarrow> rh_abs (kv_map kv) k = None"
  "kv_abs kv k = Some (v, d) \<longleftrightarrow> rh_abs (kv_map kv) k = Some v \<and> ttl_abs (kv_ttl kv) k = d"
  by (auto simp: kv_abs_def)

lemma kv_new_ok: "kv_inv kv_new" "kv_abs kv_new = Map.empty" "kv_size kv_new = 0"
  using rh_new_ok [of 16] ttl_inv_new
  by (simp_all add: kv_inv_def kv_abs_def kv_new_def kv_size_def)

text \<open>The engine's reading of a deadline is the specification's.\<close>

lemma lapsed_iff:
  assumes "kv_inv kv"
  shows "(let exp = get_expiry (kv_ttl kv) k in 0 \<le> exp \<and> exp \<le> now) \<longleftrightarrow> lapsed now (kv_abs kv k)"
proof (cases "ttl_abs (kv_ttl kv) k")
  case None
  then show ?thesis
    using ttl.lazy_due [OF kv_invD(2) [OF assms], of k now]
    by (cases "rh_abs (kv_map kv) k") (simp_all add: Let_def kv_abs_def)
next
  case (Some d)
  then obtain v where "rh_abs (kv_map kv) k = Some v"
    using kv_invD(3) [OF assms] by blast
  with Some show ?thesis
    using ttl.lazy_due [OF kv_invD(2) [OF assms], of k now] by (simp add: Let_def kv_abs_def)
qed

section \<open>Each operation\<close>

lemma kv_set_ok:
  assumes "kv_inv kv" "kv_size kv < 2 ^ 30" "0 < ttl \<Longrightarrow> int64 (now + ttl)"
  shows "\<exists>kv'. kv_set now kv k v ttl = Some (kv_abs kv k = None, kv') \<and> kv_inv kv' \<and>
    kv_abs kv' = (kv_abs kv)(k \<mapsto> (v, if 0 < ttl then Some (now + ttl) else None)) \<and>
    kv_size kv' \<le> kv_size kv + 1"
proof -
  note i = kv_invD [OF assms(1)]
  obtain m' where m': "rh_set (kv_map kv) k v = Some (rh_abs (kv_map kv) k = None, m')" "rh_inv m'"
    "rh_abs m' = (rh_abs (kv_map kv))(k \<mapsto> v)" "rh_size m' \<le> rh_size (kv_map kv) + 1"
    using rh.set_some [OF i(1)] assms(2) unfolding kv_size_def by blast
  obtain t where set: "(if 0 < ttl then set_expiry now (kv_ttl kv) k ttl else Some (remove_expiry (kv_ttl kv) k)) = Some t"
    and t: "ttl_inv t" "ttl_abs t = (ttl_abs (kv_ttl kv))(k := if 0 < ttl then Some (now + ttl) else None)"
    using ttl.set_exp_law [OF i(2) assms(3), of k] ttl.remove_exp_inv [OF i(2)] ttl.remove_exp_law [OF i(2)]
    by (cases "0 < ttl") auto
  let ?kv = "\<lparr>kv_map = m', kv_ttl = t\<rparr>"
  have "kv_set now kv k v ttl = Some (kv_abs kv k = None, ?kv)"
    using m'(1) unfolding kv_set_def set by (simp add: kv_abs_cases)
  moreover have "kv_inv ?kv"
    using t m' i(3) by (auto simp: kv_inv_def split: if_splits)
  moreover have "kv_abs ?kv = (kv_abs kv)(k \<mapsto> (v, if 0 < ttl then Some (now + ttl) else None))"
    using t(2) m'(3) by (auto simp: kv_abs_def fun_eq_iff)
  ultimately show ?thesis
    using m'(4) by (auto simp: kv_size_def)
qed

lemma kv_remove_ok:
  assumes "kv_inv kv"
  shows "\<exists>m'. rh_del (kv_map kv) k = Some (kv_abs kv k \<noteq> None, m') \<and>
    (let kv' = \<lparr>kv_map = m', kv_ttl = remove_expiry (kv_ttl kv) k\<rparr> in
     kv_inv kv' \<and> kv_abs kv' = (kv_abs kv)(k := None) \<and> kv_size kv' \<le> kv_size kv)"
proof -
  note i = kv_invD [OF assms(1)]
  obtain m' where m': "rh_del (kv_map kv) k = Some (rh_abs (kv_map kv) k \<noteq> None, m')" "rh_inv m'"
    "rh_abs m' = (rh_abs (kv_map kv))(k := None)" "rh_size m' \<le> rh_size (kv_map kv)"
    using rh.del_some [OF i(1)] by blast
  have t: "ttl_inv (remove_expiry (kv_ttl kv) k)"
    "ttl_abs (remove_expiry (kv_ttl kv) k) = (ttl_abs (kv_ttl kv))(k := None)"
    using ttl.remove_exp_inv ttl.remove_exp_law i(2) by simp_all
  have "kv_abs \<lparr>kv_map = m', kv_ttl = remove_expiry (kv_ttl kv) k\<rparr> = (kv_abs kv)(k := None)"
    using t(2) m'(3) by (auto simp: kv_abs_def fun_eq_iff)
  moreover have "kv_inv \<lparr>kv_map = m', kv_ttl = remove_expiry (kv_ttl kv) k\<rparr>"
    using t m'(2,3) i(3) by (auto simp: kv_inv_def)
  ultimately show ?thesis
    using m'(1,4) by (auto simp: kv_size_def kv_abs_cases)
qed

lemma kv_del_ok:
  assumes "kv_inv kv"
  shows "\<exists>kv'. kv_del kv k = Some (kv_abs kv k \<noteq> None, kv') \<and> kv_inv kv' \<and>
    kv_abs kv' = (kv_abs kv)(k := None) \<and> kv_size kv' \<le> kv_size kv"
  using kv_remove_ok [OF assms, of k] by (auto simp: kv_del_def Let_def)

lemma kv_get_ok:
  assumes "kv_inv kv"
  shows "\<exists>kv'. kv_get now kv k =
      Some (if lapsed now (kv_abs kv k) then None else map_option fst (kv_abs kv k), kv') \<and> kv_inv kv' \<and>
    kv_abs kv' = (if lapsed now (kv_abs kv k) then (kv_abs kv)(k := None) else kv_abs kv) \<and>
    kv_size kv' \<le> kv_size kv"
proof (cases "lapsed now (kv_abs kv k)")
  case True
  then show ?thesis
    using kv_remove_ok [OF assms, of k] lapsed_iff [OF assms, of k now]
    by (auto simp: kv_get_def Let_def)
next
  case False
  have "map_option fst (kv_abs kv k) = rh_abs (kv_map kv) k"
    by (auto simp: kv_abs_def option.map_comp o_def option.map_ident)
  moreover have "\<not> (0 \<le> get_expiry (kv_ttl kv) k \<and> get_expiry (kv_ttl kv) k \<le> now)"
    using False lapsed_iff [OF assms, of k now] by (simp add: Let_def)
  ultimately show ?thesis
    using False rh.get_law [OF kv_invD(1) [OF assms], of k] assms
    by (simp only: kv_get_def Let_def if_False) simp
qed

lemma kv_expire_ok:
  assumes "kv_inv kv" "int64 (now + ttl)"
  shows "\<exists>kv'. kv_expire now kv k ttl = Some (kv_abs kv k \<noteq> None, kv') \<and> kv_inv kv' \<and>
    kv_abs kv' = (case kv_abs kv k of None \<Rightarrow> kv_abs kv
      | Some (v, _) \<Rightarrow> (kv_abs kv)(k \<mapsto> (v, Some (now + ttl)))) \<and> kv_size kv' \<le> kv_size kv"
proof (cases "rh_abs (kv_map kv) k")
  case None
  then show ?thesis
    using assms(1) rh.get_law [OF kv_invD(1) [OF assms(1)], of k]
    by (simp add: kv_expire_def kv_abs_cases(1) [of kv k, THEN iffD2])
next
  case (Some v)
  note i = kv_invD [OF assms(1)]
  have k: "kv_abs kv k = Some (v, ttl_abs (kv_ttl kv) k)"
    using Some by (simp add: kv_abs_def)
  obtain t where t: "set_expiry now (kv_ttl kv) k ttl = Some t" "ttl_inv t"
    "ttl_abs t = (ttl_abs (kv_ttl kv))(k \<mapsto> now + ttl)"
    using i(2) assms(2) by (rule ttl.set_exp_some)
  let ?kv = "kv\<lparr>kv_ttl := t\<rparr>"
  have "kv_inv ?kv"
    using t i Some by (auto simp: kv_inv_def)
  moreover have "kv_abs ?kv = (kv_abs kv)(k \<mapsto> (v, Some (now + ttl)))"
    using t(3) Some by (auto simp: kv_abs_def fun_eq_iff)
  ultimately show ?thesis
    using Some t(1) rh.get_law [OF i(1), of k] by (simp add: kv_expire_def k kv_size_def)
qed

lemma kv_persist_ok:
  assumes "kv_inv kv"
  shows "\<exists>kv' r. kv_persist kv k = (r, kv') \<and> kv_inv kv' \<and> kv_size kv' \<le> kv_size kv \<and>
    kv_spec (kv_abs kv) (KPersist k) = (KBool r, kv_abs kv')"
proof -
  note i = kv_invD [OF assms]
  have get: "get_expiry (kv_ttl kv) k = (case ttl_abs (kv_ttl kv) k of None \<Rightarrow> -1 | Some d \<Rightarrow> d)"
    by (rule ttl.get_exp_law [OF i(2)])
  let ?kv = "kv\<lparr>kv_ttl := remove_expiry (kv_ttl kv) k\<rparr>"
  have "kv_inv ?kv" "kv_abs ?kv = (\<lambda>k'. if k' = k then map_option (\<lambda>(v, _). (v, None)) (kv_abs kv k) else kv_abs kv k')"
    using ttl.remove_exp_inv [OF i(2)] ttl.remove_exp_law [OF i(2)] i
    by (auto simp: kv_inv_def kv_abs_def fun_eq_iff option.map_comp o_def subset_iff split: if_splits)
  with i(3) [of k] assms show ?thesis
    by (cases "ttl_abs (kv_ttl kv) k")
      (auto simp: kv_persist_def get kv_abs_def kv_size_def fun_eq_iff split: option.splits)
qed

lemma kv_ttl_of_ok:
  assumes "kv_inv kv"
  shows "kv_ttl_of now kv k = Some (case kv_abs kv k of None \<Rightarrow> -2
    | Some (v, None) \<Rightarrow> -1
    | Some (v, Some d) \<Rightarrow> if d < 0 then -1 else max 0 (d - now))"
proof -
  note i = kv_invD [OF assms]
  show ?thesis
    using rh.get_law [OF i(1), of k] ttl.get_exp_law [OF i(2), of k]
    by (auto simp: kv_ttl_of_def kv_abs_def Let_def split: option.splits)
qed

lemma kv_tick_ok:
  assumes "kv_inv kv"
  shows "\<exists>kv'. kv_tick now kv = Some kv' \<and> kv_inv kv' \<and> kv_size kv' \<le> kv_size kv \<and>
    kv_abs kv' = (\<lambda>k. if evicted now (kv_abs kv k) then None else kv_abs kv k)"
proof -
  note i = kv_invD [OF assms]
  let ?due = "due now (ttl_abs (kv_ttl kv))"
  obtain ks t' where t': "evict_expired now (kv_ttl kv) = Some (ks, t')" "ttl_inv t'"
    "set ks = ?due" "ttl_abs t' = ttl_abs (kv_ttl kv) |` (- ?due)"
    using ttl.evict_some [OF i(2)] by blast
  obtain m' where m': "del_each rh_del (kv_map kv) ks = Some m'" "rh_inv m'"
    "rh_abs m' = (\<lambda>k. if k \<in> set ks then None else rh_abs (kv_map kv) k)" "rh_size m' \<le> rh_size (kv_map kv)"
    using rh.del_each_law [OF i(1), of ks] by blast
  let ?kv = "\<lparr>kv_map = m', kv_ttl = t'\<rparr>"
  have e: "evicted now (kv_abs kv k) \<longleftrightarrow> k \<in> ?due" for k
    using i(3) [of k] by (auto simp: kv_abs_def due_def elim!: evicted.elims)
  have "kv_inv ?kv"
    using t'(2-) m'(2,3) i(3) by (auto simp: kv_inv_def restrict_map_def split: if_splits)
  moreover have "kv_abs ?kv = (\<lambda>k. if evicted now (kv_abs kv k) then None else kv_abs kv k)"
    unfolding e using t'(3,4) m'(3) by (auto simp: kv_abs_def fun_eq_iff)
  ultimately show ?thesis
    using t'(1) m'(1,4) by (auto simp: kv_tick_def kv_size_def)
qed

section \<open>The engine refines the database\<close>

interpretation kv: refinement kv_step kv_spec times_fit kv_abs kv_inv kv_size "2 ^ 30"
proof unfold_locales
  fix kv :: kv_engine and x :: kv_op
  assume kv: "kv_inv kv" "kv_size kv < 2 ^ 30" and x: "times_fit x"
  show "\<exists>r s'. kv_step kv x = Some (r, s') \<and> kv_spec (kv_abs kv) x = (r, kv_abs s') \<and> kv_inv s' \<and>
    kv_size s' \<le> kv_size kv + 1"
  proof (cases x)
    case (KSet now k v ttl)
    with kv_set_ok [OF kv, of ttl now k v] x show ?thesis by auto
  next
    case (KGet now k)
    with kv_get_ok [OF kv(1), of now k] show ?thesis by force
  next
    case (KDel k)
    with kv_del_ok [OF kv(1), of k] show ?thesis by force
  next
    case (KExists now k)
    with kv_get_ok [OF kv(1), of now k] show ?thesis by (force simp: kv_exists_def)
  next
    case (KExpire now k ttl)
    with kv_expire_ok [OF kv(1), of now ttl k] x show ?thesis by (force split: option.splits)
  next
    case (KPersist k)
    with kv_persist_ok [OF kv(1), of k] show ?thesis by force
  next
    case (KTtl now k)
    with kv_ttl_of_ok [OF kv(1), of now k] kv show ?thesis by simp
  next
    case (KTick now)
    with kv_tick_ok [OF kv(1), of now] show ?thesis by force
  qed
qed

section \<open>Reading back within a time to live\<close>

text \<open>The operations that change the binding of a key, and the clock reading of an operation.\<close>

fun writes_key :: "string \<Rightarrow> kv_op \<Rightarrow> bool" where
  "writes_key k (KSet _ k' _ _) \<longleftrightarrow> k' = k"
| "writes_key k (KDel k') \<longleftrightarrow> k' = k"
| "writes_key k (KExpire _ k' _) \<longleftrightarrow> k' = k"
| "writes_key k (KPersist k') \<longleftrightarrow> k' = k"
| "writes_key k _ \<longleftrightarrow> False"

fun reading :: "kv_op \<Rightarrow> millis option" where
  "reading (KSet now _ _ _) = Some now"
| "reading (KGet now _) = Some now"
| "reading (KExists now _) = Some now"
| "reading (KExpire now _ _) = Some now"
| "reading (KTtl now _) = Some now"
| "reading (KTick now) = Some now"
| "reading _ = None"

text \<open>Until its deadline a key survives operations on other keys, reads and ticks; and once gone it
  stays gone.\<close>

lemma spec_keeps:
  assumes "a k = Some (v, Some d)" "\<not> writes_key k x" "\<And>now. reading x = Some now \<Longrightarrow> now < d"
  shows "snd (kv_spec a x) k = Some (v, Some d)"
  using assms by (cases x) (auto split: option.splits)

lemma spec_keeps_or_drops:
  assumes "a k = Some (v, Some d) \<or> a k = None" "\<not> writes_key k x"
  shows "snd (kv_spec a x) k = Some (v, Some d) \<or> snd (kv_spec a x) k = None"
  using assms by (cases x) (auto split: option.splits)

lemma run_spec_append:
  "run_spec spec a (xs @ ys) =
     (let (rs, b) = run_spec spec a xs; (ss, c) = run_spec spec b ys in (rs @ ss, c))"
  by (induction xs arbitrary: a) (auto split: prod.splits simp: Let_def)

lemma run_keeps:
  assumes "a k = Some (v, Some d)"
    "\<And>x. x \<in> set xs \<Longrightarrow> \<not> writes_key k x \<and> (\<forall>now. reading x = Some now \<longrightarrow> now < d)"
  shows "snd (run_spec kv_spec a xs) k = Some (v, Some d)"
  using assms
proof (induction xs arbitrary: a)
  case (Cons x xs)
  have "snd (kv_spec a x) k = Some (v, Some d)"
    using Cons.prems by (intro spec_keeps) auto
  moreover have "\<not> writes_key k y \<and> (\<forall>now. reading y = Some now \<longrightarrow> now < d)" if "y \<in> set xs" for y
    using that Cons.prems(2) [of y] by simp
  ultimately show ?case
    using Cons.IH [of "snd (kv_spec a x)"] by (auto split: prod.splits)
qed simp

lemma run_keeps_or_drops:
  assumes "a k = Some (v, Some d) \<or> a k = None" "\<And>x. x \<in> set xs \<Longrightarrow> \<not> writes_key k x"
  shows "snd (run_spec kv_spec a xs) k = Some (v, Some d) \<or> snd (run_spec kv_spec a xs) k = None"
  using assms
proof (induction xs arbitrary: a)
  case (Cons x xs)
  have "snd (kv_spec a x) k = Some (v, Some d) \<or> snd (kv_spec a x) k = None"
    using Cons.prems by (intro spec_keeps_or_drops) auto
  with Cons.IH [of "snd (kv_spec a x)"] Cons.prems(2) show ?case
    by (auto split: prod.splits)
qed simp

text \<open>On the abstract database, a lookup at \<open>t1\<close> after a SET with a time to live at \<open>t0\<close>.\<close>

lemma spec_read_back:
  assumes "0 < ttl" "0 \<le> t0" "\<And>x. x \<in> set ops \<Longrightarrow> \<not> writes_key k x"
    "\<And>x now. x \<in> set ops \<Longrightarrow> reading x = Some now \<Longrightarrow> now \<le> t1"
  shows "fst (kv_spec (snd (run_spec kv_spec (snd (kv_spec a (KSet t0 k v ttl))) ops)) (KGet t1 k)) =
    KVal (if t1 < t0 + ttl then Some v else None)"
proof -
  let ?a = "snd (kv_spec a (KSet t0 k v ttl))"
  let ?b = "snd (run_spec kv_spec ?a ops)"
  have a: "?a k = Some (v, Some (t0 + ttl))"
    using assms(1) by simp
  show ?thesis
  proof (cases "t1 < t0 + ttl")
    case True
    have "?b k = Some (v, Some (t0 + ttl))"
      using a assms(3,4) True by (intro run_keeps) force+
    with True show ?thesis by simp
  next
    case False
    have "?b k = Some (v, Some (t0 + ttl)) \<or> ?b k = None"
      using a assms(3) by (intro run_keeps_or_drops) auto
    with False assms(1,2) show ?thesis by auto
  qed
qed

section \<open>The snapshot of live entries\<close>

lemma kv_scan_sound:
  assumes "\<And>i. lo \<le> clk i" "x \<in> set (kv_scan clk t i es)"
  shows "\<exists>e \<in> set es. \<not> e_empty e \<and> x = (e_key e, e_val e, get_expiry t (e_key e)) \<and>
    \<not> (0 \<le> get_expiry t (e_key e) \<and> get_expiry t (e_key e) \<le> lo)"
  using assms
proof (induction es arbitrary: i)
  case (Cons e es)
  then show ?case
    using Cons.prems(1) [of i] order_trans [of "get_expiry t (e_key e)" lo "clk i"]
    by (auto simp: Let_def split: if_splits)
qed simp

lemma kv_scan_complete:
  assumes "\<And>i. clk i \<le> hi" "e \<in> set es" "\<not> e_empty e"
    "\<not> (0 \<le> get_expiry t (e_key e) \<and> get_expiry t (e_key e) \<le> hi)"
  shows "(e_key e, e_val e, get_expiry t (e_key e)) \<in> set (kv_scan clk t i es)"
  using assms
proof (induction es arbitrary: i)
  case (Cons e' es)
  then show ?case
    using Cons.prems(1) [of i] order_trans [of "get_expiry t (e_key e')" "clk i" hi]
    by (auto simp: Let_def)
qed simp

lemma kv_scan_distinct:
  assumes "distinct (map fst (kvs es))"
  shows "distinct (map fst (kv_scan clk t i es))"
  using assms
proof (induction es arbitrary: i)
  case (Cons e es)
  have "fst ` set (kv_scan clk t j es) \<subseteq> fst ` set (kvs es)" for j
    by (induction es arbitrary: j) (auto simp: kvs_def Let_def)
  moreover have "e_key e \<notin> fst ` set (kvs es)" if "\<not> e_empty e"
    using Cons.prems that by (auto simp: kvs_def)
  ultimately have "\<not> e_empty e \<Longrightarrow> e_key e \<notin> fst ` set (kv_scan clk t j es)" for j
    by blast
  moreover have "distinct (map fst (kvs es))"
    using Cons.prems by (simp add: kvs_def split: if_splits)
  ultimately show ?case
    using Cons.IH by (simp add: Let_def)
qed simp

lemma kvs_abs:
  assumes "rh_inv m"
  shows "distinct (map fst (kvs (rh_entries m)))"
    "rh_abs m k = Some v \<longleftrightarrow> (\<exists>e \<in> set (rh_entries m). \<not> e_empty e \<and> e_key e = k \<and> e_val e = v)"
proof -
  show d: "distinct (map fst (kvs (rh_entries m)))"
    using assms by (auto simp: rh_inv_def table_ok_def)
  show "rh_abs m k = Some v \<longleftrightarrow> (\<exists>e \<in> set (rh_entries m). \<not> e_empty e \<and> e_key e = k \<and> e_val e = v)"
    using d by (auto simp: rh_abs_def kvs_def)
qed

text \<open>How a listed deadline is written: \<open>-1\<close> for none.\<close>

definition listed :: "millis option \<Rightarrow> millis" where
  "listed d = (case d of None \<Rightarrow> -1 | Some e \<Rightarrow> e)"

lemma get_listed:
  assumes "kv_inv kv"
  shows "kv_abs kv k = Some (v, d) \<Longrightarrow> get_expiry (kv_ttl kv) k = listed d"
    "0 \<le> get_expiry (kv_ttl kv) k \<and> get_expiry (kv_ttl kv) k \<le> now \<longleftrightarrow> lapsed now (kv_abs kv k)"
  using ttl.get_exp_law [OF kv_invD(2) [OF assms], of k] lapsed_iff [OF assms, of k now]
  by (auto simp: kv_abs_cases listed_def Let_def)

lemma kv_entries_listed:
  assumes "kv_inv kv" "\<forall>i. lo \<le> clk i \<and> clk i \<le> hi"
  shows "distinct (map fst (kv_all_entries clk kv)) \<and>
    (\<forall>k v d. kv_abs kv k = Some (v, d) \<and> \<not> lapsed hi (Some (v, d)) \<longrightarrow>
       (k, v, listed d) \<in> set (kv_all_entries clk kv)) \<and>
    (\<forall>k v e. (k, v, e) \<in> set (kv_all_entries clk kv) \<longrightarrow>
       (\<exists>d. kv_abs kv k = Some (v, d) \<and> e = listed d \<and> \<not> lapsed lo (Some (v, d))))"
proof (intro conjI allI impI)
  note i = kv_invD [OF assms(1)]
  note rd = get_listed [OF assms(1)]
  show "distinct (map fst (kv_all_entries clk kv))"
    unfolding kv_all_entries_def by (intro kv_scan_distinct kvs_abs i)
  show "(k, v, listed d) \<in> set (kv_all_entries clk kv)"
    if a: "kv_abs kv k = Some (v, d) \<and> \<not> lapsed hi (Some (v, d))" for k v d
  proof -
    obtain e where e: "e \<in> set (rh_entries (kv_map kv))" "\<not> e_empty e" "e_key e = k" "e_val e = v"
      using a kvs_abs(2) [OF i(1)] by (auto simp: kv_abs_cases)
    then show ?thesis
      using kv_scan_complete [of clk hi e _ "kv_ttl kv" 0] assms(2) a rd(1) [of k v d] rd(2) [of k hi]
      by (auto simp: kv_all_entries_def)
  qed
  show "\<exists>d. kv_abs kv k = Some (v, d) \<and> e = listed d \<and> \<not> lapsed lo (Some (v, d))"
    if a: "(k, v, e) \<in> set (kv_all_entries clk kv)" for k v e
  proof -
    obtain x where x: "x \<in> set (rh_entries (kv_map kv))" "\<not> e_empty x"
      "(k, v, e) = (e_key x, e_val x, get_expiry (kv_ttl kv) (e_key x))"
      "\<not> (0 \<le> get_expiry (kv_ttl kv) (e_key x) \<and> get_expiry (kv_ttl kv) (e_key x) \<le> lo)"
      using kv_scan_sound [of lo clk "(k, v, e)"] a assms(2) unfolding kv_all_entries_def by blast
    then have "rh_abs (kv_map kv) k = Some v"
      using kvs_abs(2) [OF i(1)] by auto
    then have k: "kv_abs kv k = Some (v, ttl_abs (kv_ttl kv) k)"
      by (simp add: kv_abs_def)
    with x(3,4) rd(1) [OF k] rd(2) [of k lo] show ?thesis by auto
  qed
qed

section \<open>Properties\<close>

text \<open>
  C1. From the empty engine any run of at most \<open>2 ^ 30\<close> SET, GET, DEL, EXISTS, EXPIRE, PERSIST,
  TTL and tick operations, at any readings of a clock that is not negative and whose sums with the times to
  live are numbers of 64 bits, returns and answers as a database of values and deadlines
  does: lookups drop the keys that have lapsed, ticks drop every key that is due.
\<close>

theorem kv_refines_db:
  assumes "length ops \<le> 2 ^ 30" "\<forall>x \<in> set ops. times_fit x \<and> (\<forall>now. reading x = Some now \<longrightarrow> 0 \<le> now)"
  shows "\<exists>rs kv. run_ops kv_step kv_new ops = Some (rs, kv) \<and>
    run_spec kv_spec Map.empty ops = (rs, kv_abs kv) \<and> kv_inv kv"
  using kv.run_refines [OF kv_new_ok(1), of ops] assms by (simp add: kv_new_ok) blast

theorem kv_refines_db_witness:
  "length [KSet 0 ''a'' ''1'' 5, KTick 9, KGet 9 ''a''] \<le> (2::nat) ^ 30 \<and>
   (\<exists>rs kv. run_ops kv_step kv_new [KSet 0 ''a'' ''1'' 5, KTick 9, KGet 9 ''a''] = Some (rs, kv) \<and>
    run_spec kv_spec Map.empty [KSet 0 ''a'' ''1'' 5, KTick 9, KGet 9 ''a''] = (rs, kv_abs kv) \<and> kv_inv kv)"
  using kv_refines_db [of "[KSet 0 ''a'' ''1'' 5, KTick 9, KGet 9 ''a'']"] by (simp add: int64_def)

text \<open>
  Expiry end to end: after SET of a key with a positive time to live at \<open>t0\<close>, and any
  operations that do not write that key (lookups, ticks and writes of other keys) at readings up to
  \<open>t1\<close>, GET at \<open>t1\<close> returns the value when \<open>t1\<close> is before the deadline and nothing from the deadline
  on.
\<close>

theorem kv_read_back:
  assumes "kv_inv kv" "kv_size kv + length ops + 2 \<le> 2 ^ 30" "0 < ttl" "0 \<le> t0" "int64 (t0 + ttl)"
    "\<forall>x \<in> set ops. times_fit x \<and> \<not> writes_key k x \<and> (\<forall>now. reading x = Some now \<longrightarrow> now \<le> t1)"
  shows "\<exists>rs kv'. run_ops kv_step kv (KSet t0 k v ttl # ops @ [KGet t1 k]) = Some (rs, kv') \<and>
    last rs = KVal (if t1 < t0 + ttl then Some v else None)"
proof -
  let ?xs = "KSet t0 k v ttl # ops @ [KGet t1 k]"
  obtain rs kv' where run: "run_ops kv_step kv ?xs = Some (rs, kv')"
    "run_spec kv_spec (kv_abs kv) ?xs = (rs, kv_abs kv')"
    using kv.run_refines [OF assms(1), of ?xs] assms(2,5,6) by auto
  let ?b = "snd (run_spec kv_spec (snd (kv_spec (kv_abs kv) (KSet t0 k v ttl))) ops)"
  have "last rs = fst (kv_spec ?b (KGet t1 k))"
    using run(2) by (auto simp: run_spec_append Let_def split: prod.splits)
  also have "\<dots> = KVal (if t1 < t0 + ttl then Some v else None)"
    using assms(3,4,6) by (intro spec_read_back) auto
  finally show ?thesis using run(1) by blast
qed

theorem kv_read_back_witness:
  "\<exists>rs kv'. run_ops kv_step kv_new (KSet 100 ''k'' ''v'' 50 # [KTick 120, KDel ''j''] @ [KGet 150 ''k'']) =
     Some (rs, kv') \<and> last rs = KVal (if (150::int) < 100 + 50 then Some ''v'' else None)"
  by (rule kv_read_back) (auto simp: kv_new_ok int64_def)

text \<open>
  C26. The engine's reading of a deadline that lies before the epoch of the clock: EXPIRE with a time
  to live below \<open>- now\<close> on a bound key reports success, but the key is then served by GET as if it
  were persistent, TTL reports \<open>-1\<close>, PERSIST refuses, and the next tick deletes it.
\<close>

theorem kv_negative_deadline:
  assumes "kv_inv kv" "kv_size kv + 6 \<le> 2 ^ 30" "kv_abs kv k = Some (v, d)" "now + ttl < 0" "0 \<le> now" "int64 ttl"
  shows "\<exists>kv'. run_ops kv_step kv
      [KExpire now k ttl, KGet now k, KTtl now k, KPersist k, KTick now, KGet now k] =
    Some ([KBool True, KVal (Some v), KInt (-1), KBool False, KUnit, KVal None], kv')"
  using kv.run_refines [OF assms(1),
      of "[KExpire now k ttl, KGet now k, KTtl now k, KPersist k, KTick now, KGet now k]"] assms(2-6)
  by (auto simp: int64_def)

theorem kv_negative_deadline_witness:
  "\<exists>kv kv'. kv_abs kv ''k'' = Some (''v'', None) \<and> run_ops kv_step kv
      [KExpire 3 ''k'' (-4), KGet 3 ''k'', KTtl 3 ''k'', KPersist ''k'', KTick 3, KGet 3 ''k''] =
    Some ([KBool True, KVal (Some ''v''), KInt (-1), KBool False, KUnit, KVal None], kv')"
proof -
  obtain kv where kv: "kv_inv kv" "kv_abs kv ''k'' = Some (''v'', None)" "kv_size kv \<le> 1"
    using kv_set_ok [OF kv_new_ok(1), of 0 3 "''k''" "''v''"] by (auto simp: kv_new_ok)
  then show ?thesis
    using kv_negative_deadline [OF kv(1) _ kv(2), of 3 "-4"] by (auto simp: int64_def)
qed

text \<open>
  The listing that the snapshot writer uses has each key once, contains every binding that is
  live at the last clock reading, and contains only bindings that were live at the first.
\<close>

theorem kv_all_entries_live:
  assumes "kv_inv kv" "\<forall>i. lo \<le> clk i \<and> clk i \<le> hi"
  shows "distinct (map fst (kv_all_entries clk kv)) \<and>
    (\<forall>k v d. kv_abs kv k = Some (v, d) \<and> \<not> lapsed hi (Some (v, d)) \<longrightarrow>
       (k, v, listed d) \<in> set (kv_all_entries clk kv)) \<and>
    (\<forall>k v e. (k, v, e) \<in> set (kv_all_entries clk kv) \<longrightarrow>
       (\<exists>d. kv_abs kv k = Some (v, d) \<and> e = listed d \<and> \<not> lapsed lo (Some (v, d))))"
  by (rule kv_entries_listed [OF assms])

theorem kv_all_entries_live_witness:
  "kv_inv kv_new \<and> (\<forall>i. (1::int) \<le> (\<lambda>_. 2) i \<and> (\<lambda>_. 2) i \<le> (3::int)) \<and>
   distinct (map fst (kv_all_entries (\<lambda>_. 2) kv_new))"
  using kv_all_entries_live [OF kv_new_ok(1), of 1 "\<lambda>_. 2" 3] kv_new_ok(1) by simp

end
