(* ===== verification/RDB.thy ===== *)
theory RDB
  imports Graph_Engine KV_Proofs
begin

text \<open>
  Snapshots: \<^verbatim>\<open>src/persistence/rdb.cpp\<close> (class \<^verbatim>\<open>RDB\<close>) and
  \<^verbatim>\<open>src/persistence/persistence.cpp\<close> (class \<^verbatim>\<open>Persistence\<close>). A file is
  a string of bytes; integers are written as the machine stores them, little endian. What the operating
  system does (whether a file can be opened or renamed, what of the bytes reaches the disk, the clock)
  is an argument.
\<close>

section \<open>Bytes\<close>

fun le_bytes :: "nat \<Rightarrow> nat \<Rightarrow> string" where
  "le_bytes 0 n = []"
| "le_bytes (Suc k) n = char_of (n mod 256) # le_bytes k (n div 256)"

fun le_val :: "string \<Rightarrow> nat" where
  "le_val [] = 0"
| "le_val (c # cs) = of_char c + 256 * le_val cs"

text \<open>
  The encoding of a \<^verbatim>\<open>float\<close>: sign, biased exponent, fraction. All NaNs are written as the
  quiet one, since the model does not keep their payload.
\<close>

fun f32_bits :: "f32 \<Rightarrow> nat" where
  "f32_bits (F32_Fin s m) = (if s then 2 ^ 31 else 0) +
     (if m < 2 ^ 23 then m else (f32_exp m + 1) * 2 ^ 23 + (m div 2 ^ f32_exp m - 2 ^ 23))"
| "f32_bits (F32_Inf s) = (if s then 2 ^ 31 else 0) + 255 * 2 ^ 23"
| "f32_bits F32_NaN = 255 * 2 ^ 23 + 2 ^ 22"

definition f32_of_bits :: "nat \<Rightarrow> f32" where
  "f32_of_bits b =
     (let s = b div 2 ^ 31 mod 2 = 1; x = b div 2 ^ 23 mod 256; t = b mod 2 ^ 23 in
      if x = 255 then (if t = 0 then F32_Inf s else F32_NaN)
      else if x = 0 then F32_Fin s t
      else F32_Fin s ((2 ^ 23 + t) * 2 ^ (x - 1)))"

section \<open>Writing\<close>

definition write_u32 :: "nat \<Rightarrow> string" where
  "write_u32 v = le_bytes 4 v"

definition write_u64 :: "nat \<Rightarrow> string" where
  "write_u64 v = le_bytes 8 v"

definition write_f32 :: "f32 \<Rightarrow> string" where
  "write_f32 v = le_bytes 4 (f32_bits v)"

text \<open>The length is cut to 32 bits, and so are the bytes.\<close>

definition write_str :: "string \<Rightarrow> string" where
  "write_str s = (let len = length s mod 2 ^ 32 in write_u32 len @ take len s)"

text \<open>The conversions of an \<^verbatim>\<open>int\<close> and of an \<^verbatim>\<open>int64_t\<close> to their unsigned bits.\<close>

definition bits_of :: "nat \<Rightarrow> int \<Rightarrow> nat" where
  "bits_of w i = nat (i mod 2 ^ w)"

definition rdb_magic :: nat where
  "rdb_magic = 0x464153544752FF00"

definition rdb_version :: nat where
  "rdb_version = 1"

definition rdb_eof :: nat where
  "rdb_eof = 0xFFFFFFFFFFFFFFFF"

fun kv_bytes :: "string \<times> string \<times> millis \<Rightarrow> string" where
  "kv_bytes (key, val, expires_at) = write_str key @ write_str val @ write_u64 (bits_of 64 expires_at)"

fun node_bytes :: "int \<times> string \<times> string \<Rightarrow> string" where
  "node_bytes (nid, label, props) = write_u32 (bits_of 32 nid) @ write_str label @ write_str props"

fun edge_bytes :: "int \<times> int \<times> string \<times> f32 \<Rightarrow> string" where
  "edge_bytes (from, to, rel, weight) =
     write_u32 (bits_of 32 from) @ write_u32 (bits_of 32 to) @ write_str rel @ write_f32 weight"

definition section_bytes :: "('a \<Rightarrow> string) \<Rightarrow> 'a list \<Rightarrow> string" where
  "section_bytes enc xs = write_u64 (length xs) @ concat (map enc xs)"

definition rdb_image ::
  "(string \<times> string \<times> millis) list \<Rightarrow> (int \<times> string \<times> string) list \<Rightarrow> (int \<times> int \<times> string \<times> f32) list \<Rightarrow> string" where
  "rdb_image entries nodes edges =
     write_u64 rdb_magic @ write_u32 rdb_version @ section_bytes kv_bytes entries @
     section_bytes node_bytes nodes @ section_bytes edge_bytes edges @ write_u64 rdb_eof"

type_synonym files = "string \<rightharpoonup> string"

text \<open>
  Whether the temporary file can be opened and renamed, and which bytes of those written are stored: no
  result of \<^verbatim>\<open>fwrite\<close> or \<^verbatim>\<open>fclose\<close> is looked at. \<open>ids\<close> and \<open>aids\<close> are the
  keys of the node map and the adjacency map, \<open>clk\<close> the readings of the clock.
\<close>

record io_env =
  io_open :: bool
  io_store :: "string \<Rightarrow> string"
  io_rename :: bool

definition rdb_save ::
  "io_env \<Rightarrow> (nat \<Rightarrow> millis) \<Rightarrow> int list \<Rightarrow> int list \<Rightarrow> files \<Rightarrow> string \<Rightarrow> kv_engine \<Rightarrow> graph_engine \<Rightarrow> (bool \<times> files) option" where
  "rdb_save io clk ids aids fs fname kv E =
     (if \<not> io_open io then Some (False, fs)
      else do { nodes \<leftarrow> all_nodes E ids;
                let image = io_store io (rdb_image (kv_all_entries clk kv) nodes (all_edges E aids));
                Some (if io_rename io then (True, fs(fname @ ''.tmp'' := None, fname \<mapsto> image))
                      else (False, fs(fname @ ''.tmp'' \<mapsto> image))) })"

section \<open>Reading\<close>

text \<open>
  A short \<^verbatim>\<open>fread\<close> of one element leaves an unspecified value, \<open>junk\<close> of the bytes that were
  left; at the end of the file the variable keeps its value.
\<close>

definition read_num :: "(string \<Rightarrow> nat) \<Rightarrow> nat \<Rightarrow> nat \<Rightarrow> string \<Rightarrow> bool \<times> nat \<times> string" where
  "read_num junk w v bs =
     (if w \<le> length bs then (True, le_val (take w bs), drop w bs)
      else (False, if bs = [] then v else junk bs, []))"

definition read_str :: "(string \<Rightarrow> nat) \<Rightarrow> string \<Rightarrow> bool \<times> string \<times> string" where
  "read_str junk bs =
     (case read_num junk 4 0 bs of
        (False, _, left) \<Rightarrow> (False, [], left)
      | (True, len, left) \<Rightarrow>
          (len \<le> length left, take len left @ replicate (len - length left) (CHR 0x00), drop len left))"

text \<open>The loop over the entries; \<open>clk (2 * i)\<close> and \<open>clk (2 * i + 1)\<close> are the readings in iteration \<open>i\<close>.\<close>

fun load_kv :: "(string \<Rightarrow> nat) \<Rightarrow> (nat \<Rightarrow> millis) \<Rightarrow> nat \<Rightarrow> nat \<Rightarrow> string \<Rightarrow> kv_engine \<Rightarrow> (string \<times> kv_engine) option" where
  "load_kv junk clk i 0 bs kv = Some (bs, kv)"
| "load_kv junk clk i (Suc n) bs kv =
     (let (_, key, bs1) = read_str junk bs; (_, val, bs2) = read_str junk bs1;
          (_, bits, bs3) = read_num junk 8 0 bs2; expires_at = to_i64 (int bits);
          ttl_ms = (if 0 < expires_at then expires_at - clk (2 * i) else -1) in
      if 0 < expires_at \<and> ttl_ms \<le> 0 then load_kv junk clk (i + 1) n bs3 kv
      else do { (_, kv') \<leftarrow> kv_set (clk (2 * i + 1)) kv key val ttl_ms; load_kv junk clk (i + 1) n bs3 kv' })"

fun load_nodes :: "(string \<Rightarrow> nat) \<Rightarrow> nat \<Rightarrow> string \<Rightarrow> graph_engine \<Rightarrow> string \<times> graph_engine" where
  "load_nodes junk 0 bs E = (bs, E)"
| "load_nodes junk (Suc n) bs E =
     (let (_, nid, bs1) = read_num junk 4 0 bs; (_, label, bs2) = read_str junk bs1; (_, props, bs3) = read_str junk bs2 in
      load_nodes junk n bs3 (ge_add_node E (to_i32 (int nid)) label props))"

fun load_edges :: "(string \<Rightarrow> nat) \<Rightarrow> nat \<Rightarrow> string \<Rightarrow> graph_engine \<Rightarrow> string \<times> graph_engine" where
  "load_edges junk 0 bs E = (bs, E)"
| "load_edges junk (Suc n) bs E =
     (let (_, from, bs1) = read_num junk 4 0 bs; (_, to, bs2) = read_num junk 4 0 bs1;
          (_, rel, bs3) = read_str junk bs2; (_, weight, bs4) = read_num junk 4 (f32_bits f32_one) bs3 in
      load_edges junk n bs4 (ge_add_edge E (to_i32 (int from)) (to_i32 (int to)) rel (f32_of_bits weight)))"

definition rdb_load ::
  "(string \<Rightarrow> nat) \<Rightarrow> (nat \<Rightarrow> millis) \<Rightarrow> files \<Rightarrow> string \<Rightarrow> kv_engine \<Rightarrow> graph_engine \<Rightarrow>
   (bool \<times> kv_engine \<times> graph_engine) option" where
  "rdb_load junk clk fs fname kv E =
     (case fs fname of
        None \<Rightarrow> Some (False, kv, E)
      | Some bs \<Rightarrow>
          let (ok, magic, bs1) = read_num junk 8 0 bs in
          if \<not> ok \<or> magic \<noteq> rdb_magic then Some (False, kv, E)
          else let (ok2, ver, bs2) = read_num junk 4 0 bs1 in
            if \<not> ok2 \<or> ver \<noteq> rdb_version then Some (False, kv, E)
            else let (_, kv_count, bs3) = read_num junk 8 0 bs2 in
              do { (bs4, kv') \<leftarrow> load_kv junk clk 0 kv_count bs3 kv;
                   let (_, node_count, bs5) = read_num junk 8 0 bs4;
                   let (bs6, E1) = load_nodes junk node_count bs5 E;
                   let (_, edge_count, bs7) = read_num junk 8 0 bs6;
                   let (bs8, E2) = load_edges junk edge_count bs7 E1;
                   let (_, eof, _) = read_num junk 8 0 bs8;
                   Some (eof = rdb_eof, kv', E2) })"

section \<open>The persistence object\<close>

record persistence =
  ps_path :: string
  ps_saving :: bool

definition ps_save ::
  "io_env \<Rightarrow> (nat \<Rightarrow> millis) \<Rightarrow> int list \<Rightarrow> int list \<Rightarrow> files \<Rightarrow> persistence \<Rightarrow> kv_engine \<Rightarrow> graph_engine \<Rightarrow>
   (bool \<times> persistence \<times> files) option" where
  "ps_save io clk ids aids fs ps kv E =
     do { (ok, fs') \<leftarrow> rdb_save io clk ids aids fs (ps_path ps) kv E; Some (ok, ps\<lparr>ps_saving := False\<rparr>, fs') }"

definition ps_load ::
  "(string \<Rightarrow> nat) \<Rightarrow> (nat \<Rightarrow> millis) \<Rightarrow> files \<Rightarrow> persistence \<Rightarrow> kv_engine \<Rightarrow> graph_engine \<Rightarrow>
   (bool \<times> kv_engine \<times> graph_engine) option" where
  "ps_load junk clk fs ps kv E = rdb_load junk clk fs (ps_path ps) kv E"

text \<open>
  \<^verbatim>\<open>bgsave\<close> forks unless a save is under way. The child works on its copy of the state, returned
  here as the pending job; \<open>bgsave_done\<close> is the child's save and the waiter that clears the flag.
\<close>

definition bgsave :: "bool \<Rightarrow> persistence \<Rightarrow> kv_engine \<Rightarrow> graph_engine \<Rightarrow> bool \<times> persistence \<times> (kv_engine \<times> graph_engine) option" where
  "bgsave fork_ok ps kv E =
     (if ps_saving ps then (False, ps, None)
      else if \<not> fork_ok then (False, ps, None)
      else (True, ps\<lparr>ps_saving := True\<rparr>, Some (kv, E)))"

definition bgsave_done ::
  "io_env \<Rightarrow> (nat \<Rightarrow> millis) \<Rightarrow> int list \<Rightarrow> int list \<Rightarrow> files \<Rightarrow> persistence \<Rightarrow> kv_engine \<times> graph_engine \<Rightarrow> (persistence \<times> files) option" where
  "bgsave_done io clk ids aids fs ps job =
     do { (_, fs') \<leftarrow> rdb_save io clk ids aids fs (ps_path ps) (fst job) (snd job); Some (ps\<lparr>ps_saving := False\<rparr>, fs') }"

end
