(* ===== verification/RDB_Proofs.thy ===== *)
theory RDB_Proofs
  imports RDB
begin

text \<open>
  A snapshot that reached the disk restores the database: what \<open>rdb_save\<close> writes \<open>rdb_load\<close> reads back
  into empty engines as the same keys, values and deadlines, nodes, labels, properties and adjacency
  lists.
\<close>

section \<open>Numbers and strings\<close>

lemma length_le_bytes [simp]: "length (le_bytes k n) = k"
  by (induction k arbitrary: n) auto

lemma le_val_bytes: "le_val (le_bytes k n) = n mod 256 ^ k"
proof (induction k arbitrary: n)
  case (Suc k)
  have "of_char (char_of (n mod 256) :: char) = n mod 256" by simp
  then show ?case using Suc [of "n div 256"] mod_mult2_eq [of n 256 "256 ^ k"] by simp
qed simp

lemma read_num_bytes: "n < 256 ^ w \<Longrightarrow> read_num junk w v (le_bytes w n @ bs) = (True, n, bs)"
  by (simp add: read_num_def le_val_bytes)

lemma read_u64 [simp]: "n < 2 ^ 64 \<Longrightarrow> read_num junk 8 v (write_u64 n @ bs) = (True, n, bs)"
  unfolding write_u64_def by (rule read_num_bytes) simp

lemma read_u32 [simp]: "n < 2 ^ 32 \<Longrightarrow> read_num junk 4 v (write_u32 n @ bs) = (True, n, bs)"
  unfolding write_u32_def by (rule read_num_bytes) simp

lemma read_write_str [simp]: "length s < 2 ^ 32 \<Longrightarrow> read_str junk (write_str s @ bs) = (True, s, bs)"
  by (simp add: write_str_def Let_def read_str_def)

lemma bits_of_less: "bits_of w i < 2 ^ w"
  by (simp add: bits_of_def nat_less_iff)

lemma to_i32_bits: "int32 i \<Longrightarrow> to_i32 (int (bits_of 32 i)) = i"
proof -
  assume "int32 i"
  have "word_of_int (int (bits_of 32 i)) = (word_of_int i :: 32 word)"
    by (simp add: bits_of_def word_of_int_eq_iff take_bit_eq_mod)
  then show ?thesis using to_i32_id [of i] \<open>int32 i\<close> by (simp add: to_i32_def int32_def)
qed

lemma to_i64_bits: "int64 i \<Longrightarrow> to_i64 (int (bits_of 64 i)) = i"
proof -
  assume i: "int64 i"
  have "word_of_int (int (bits_of 64 i)) = (word_of_int i :: 64 word)"
    by (simp add: bits_of_def word_of_int_eq_iff take_bit_eq_mod)
  then have "to_i64 (int (bits_of 64 i)) = sint (word_of_int i :: 64 word)" by (simp add: to_i64_def)
  also have "\<dots> = i" using i by (simp add: int64_def signed_of_int signed_take_bit_int_eq_self)
  finally show ?thesis .
qed

section \<open>Floats\<close>

lemma f32_fin_split:
  assumes "f32_round m = m" "m < 2 ^ 277" "2 ^ 23 \<le> m"
  shows "\<exists>q e. m = q * 2 ^ e \<and> 2 ^ 23 \<le> q \<and> q < 2 ^ 24 \<and> e \<le> 253 \<and> f32_exp m = e"
proof (cases "m < 2 ^ 24")
  case True
  then have "f32_exp m = 0" using floorlog_leI [of m 2 24] by (simp add: f32_exp_def)
  then show ?thesis using True assms(3) by (intro exI [of _ m] exI [of _ 0]) simp
next
  case False
  define q where "q = half_even m (2 ^ f32_exp m)"
  have m: "m = q * 2 ^ f32_exp m" using assms(1) by (simp add: f32_round_def q_def)
  have "24 < floorlog 2 m"
  proof (rule ccontr)
    assume "\<not> 24 < floorlog 2 m"
    then have "(2::nat) ^ floorlog 2 m \<le> 2 ^ 24" by (intro power_increasing) simp_all
    then show False using floorlog_bounds(2) [of m] False by simp
  qed
  then have fl: "floorlog 2 m = 24 + f32_exp m" by (simp add: f32_exp_def)
  have b: "2 ^ (23 + f32_exp m) \<le> m" "m < 2 ^ (24 + f32_exp m)"
    using floorlog_bounds [of m] False fl by simp_all
  have "2 ^ 23 * 2 ^ f32_exp m \<le> q * 2 ^ f32_exp m" unfolding power_add [symmetric] m [symmetric] by (rule b(1))
  then have "2 ^ 23 \<le> q" by (simp only: mult_le_cancel2) simp
  moreover have "q * 2 ^ f32_exp m < 2 ^ 24 * 2 ^ f32_exp m" unfolding power_add [symmetric] m [symmetric] by (rule b(2))
  then have "q < 2 ^ 24" by (simp only: mult_less_cancel2)
  moreover have "f32_exp m \<le> 253"
  proof -
    have "(2::nat) ^ (23 + f32_exp m) < 2 ^ 277" using b(1) assms(2) by (rule le_less_trans)
    then have "23 + f32_exp m < 277" by (rule power_less_imp_less_exp [rotated]) simp
    then show ?thesis by simp
  qed
  ultimately show ?thesis using m by blast
qed

lemma f32_bits_fields:
  fixes b x t :: nat
  assumes "t < 2 ^ 23" "x < 256" and b_def: "b = (if s then 2 ^ 31 else 0) + (x * 2 ^ 23 + t)"
  shows "b div 2 ^ 31 mod 2 = (if s then 1 else 0)" "b div 2 ^ 23 mod 256 = x" "b mod 2 ^ 23 = t" "b < 2 ^ 32"
proof -
  have "x * 2 ^ 23 + t < 2 ^ 31" using assms(1,2) by simp
  then show "b div 2 ^ 31 mod 2 = (if s then 1 else 0)" "b < 2 ^ 32" by (simp_all add: b_def)
  have b: "b = (if s then 256 + x else x) * 2 ^ 23 + t" by (simp add: b_def)
  show "b mod 2 ^ 23 = t" unfolding b using assms(1) by simp
  have "b div 2 ^ 23 = (if s then 256 + x else x)" unfolding b using assms(1) by simp
  then show "b div 2 ^ 23 mod 256 = x" using assms(2) by simp
qed

lemma f32_bits_fin:
  assumes "f32_wf (F32_Fin s m)"
  shows "\<exists>x t. t < 2 ^ 23 \<and> x < 255 \<and> f32_bits (F32_Fin s m) = (if s then 2 ^ 31 else 0) + (x * 2 ^ 23 + t) \<and>
    m = (if x = 0 then t else (2 ^ 23 + t) * 2 ^ (x - 1))"
proof (cases "m < 2 ^ 23")
  case True
  then show ?thesis by (intro exI [of _ 0] exI [of _ m]) simp
next
  case False
  then obtain q e where q: "m = q * 2 ^ e" "2 ^ 23 \<le> q" "q < 2 ^ 24" "e \<le> 253" "f32_exp m = e"
    using f32_fin_split [of m] assms by auto
  then have "m div 2 ^ e = q" by simp
  then show ?thesis using q False by (intro exI [of _ "e + 1"] exI [of _ "q - 2 ^ 23"]) simp
qed

lemma f32_roundtrip: "f32_wf w \<Longrightarrow> f32_of_bits (f32_bits w) = w \<and> f32_bits w < 2 ^ 32"
proof (cases w)
  case (F32_Fin s m)
  assume "f32_wf w"
  then obtain x t where xt: "t < 2 ^ 23" "x < 255" "f32_bits w = (if s then 2 ^ 31 else 0) + (x * 2 ^ 23 + t)"
    "m = (if x = 0 then t else (2 ^ 23 + t) * 2 ^ (x - 1))"
    using f32_bits_fin [of s m] F32_Fin by auto
  have x: "x < 256" using xt(2) by simp
  note f = f32_bits_fields [OF xt(1) x xt(3)]
  have "f32_of_bits (f32_bits w) = (if x = 0 then F32_Fin s t else F32_Fin s ((2 ^ 23 + t) * 2 ^ (x - 1)))"
    unfolding f32_of_bits_def Let_def f(1-3) using xt(2) by (cases s) simp_all
  also have "\<dots> = w" unfolding F32_Fin xt(4) by (rule if_distrib [symmetric])
  finally show ?thesis using f(4) by blast
next
  case (F32_Inf s)
  then show ?thesis by (simp add: f32_of_bits_def)
next
  case F32_NaN
  then show ?thesis by (simp add: f32_of_bits_def)
qed


section \<open>Sections of the file\<close>

definition short :: "string \<Rightarrow> bool" where
  "short s \<longleftrightarrow> length s < 2 ^ 32"

text \<open>What loading an entry does to the database when the clock stands at \<open>now\<close>.\<close>

fun put_entry :: "millis \<Rightarrow> kv_db \<Rightarrow> string \<times> string \<times> millis \<Rightarrow> kv_db" where
  "put_entry now db (k, v, e) =
     (if 0 < e then (if e \<le> now then db else db(k \<mapsto> (v, Some e))) else db(k \<mapsto> (v, None)))"

fun entry_ok :: "string \<times> string \<times> millis \<Rightarrow> bool" where
  "entry_ok (k, v, e) \<longleftrightarrow> short k \<and> short v \<and> int64 e"

lemma load_kv_Cons:
  assumes "entry_ok (k, v, e)"
  shows "load_kv junk (\<lambda>_. now) i (Suc n) (kv_bytes (k, v, e) @ bs) kv =
    (if 0 < e \<and> e \<le> now then load_kv junk (\<lambda>_. now) (i + 1) n bs kv
     else Option.bind (kv_set now kv k v (if 0 < e then e - now else -1)) (\<lambda>(_, kv'). load_kv junk (\<lambda>_. now) (i + 1) n bs kv'))"
  using assms bits_of_less [of 64 e] to_i64_bits [of e]
  by (simp add: short_def Let_def)

lemma load_kv_ok:
  assumes "\<forall>x \<in> set es. entry_ok x" "kv_inv kv" "kv_size kv + length es \<le> 2 ^ 30"
  shows "\<exists>kv'. load_kv junk (\<lambda>_. now) i (length es) (concat (map kv_bytes es) @ bs) kv = Some (bs, kv') \<and> kv_inv kv' \<and>
    kv_abs kv' = foldl (put_entry now) (kv_abs kv) es"
  using assms
proof (induction es arbitrary: kv i)
  case (Cons x es)
  obtain k v e where x: "x = (k, v, e)" by (cases x)
  have ok: "entry_ok (k, v, e)" using Cons.prems(1) x by simp
  note eq = load_kv_Cons [OF ok, of junk now i "length es" "concat (map kv_bytes es) @ bs" kv]
  show ?case
  proof (cases "0 < e \<and> e \<le> now")
    case True
    then show ?thesis using Cons.IH [OF _ Cons.prems(2), of "i + 1"] Cons.prems(1,3) eq by (simp add: x)
  next
    case False
    let ?ttl = "if 0 < e then e - now else -1"
    have fits: "0 < ?ttl \<Longrightarrow> int64 (now + ?ttl)" using ok by (auto split: if_splits)
    obtain kv1 where kv1: "kv_set now kv k v ?ttl = Some (kv_abs kv k = None, kv1)" "kv_inv kv1"
      "kv_abs kv1 = (kv_abs kv)(k \<mapsto> (v, if 0 < ?ttl then Some (now + ?ttl) else None))" "kv_size kv1 \<le> kv_size kv + 1"
      using kv_set_ok [OF Cons.prems(2) _ fits, of k v] Cons.prems(3) by auto
    have "kv_abs kv1 = put_entry now (kv_abs kv) x" using kv1(3) False x by auto
    moreover obtain kv' where "load_kv junk (\<lambda>_. now) (i + 1) (length es) (concat (map kv_bytes es) @ bs) kv1 = Some (bs, kv')"
      "kv_inv kv'" "kv_abs kv' = foldl (put_entry now) (kv_abs kv1) es"
      using Cons.IH [OF _ kv1(2), of "i + 1"] Cons.prems(1,3) kv1(4) by auto
    ultimately show ?thesis using eq kv1(1) False by (simp add: x del: kv_bytes.simps load_kv.simps put_entry.simps)
  qed
qed simp

fun node_ok :: "int \<times> string \<times> string \<Rightarrow> bool" where
  "node_ok (n, l, p) \<longleftrightarrow> int32 n \<and> short l \<and> short p"

fun put_node :: "labelled_graph \<Rightarrow> int \<times> string \<times> string \<Rightarrow> labelled_graph" where
  "put_node S (n, l, p) = snd (ge_spec S (EAddNode n l p))"

lemma put_node_spent: "ag_spent (foldl put_node S ns) = ag_spent S + sum_list (map (\<lambda>(n, l, p). label_cost l) ns)"
  by (induction ns arbitrary: S) auto

lemma load_nodes_ok:
  assumes "\<forall>x \<in> set ns. node_ok x" "ge_rep E S" "ag_spent (foldl put_node S ns) \<le> unat pool_capacity"
  shows "\<exists>E'. load_nodes junk (length ns) (concat (map node_bytes ns) @ bs) E = (bs, E') \<and> ge_rep E' (foldl put_node S ns)"
  using assms
proof (induction ns arbitrary: E S)
  case (Cons x ns)
  obtain n l p where x: "x = (n, l, p)" by (cases x)
  have ok: "int32 n" "short l" "short p" using Cons.prems(1) x by auto
  have "ag_spent S + label_cost l \<le> unat pool_capacity" using Cons.prems(3) by (simp add: x put_node_spent)
  from add_node_held [OF Cons.prems(2) this, of n p]
  have rep: "ge_rep (ge_add_node E n l p) (put_node S x)" by (simp add: x)
  have "load_nodes junk (length (x # ns)) (concat (map node_bytes (x # ns)) @ bs) E =
      load_nodes junk (length ns) (concat (map node_bytes ns) @ bs) (ge_add_node E n l p)"
    using ok bits_of_less [of 32 n] to_i32_bits [of n] by (simp add: x short_def Let_def)
  with Cons.IH [OF _ rep] Cons.prems(1,3) show ?case by simp
qed simp

fun edge_ok :: "log_edge \<Rightarrow> bool" where
  "edge_ok (f, t, r, w) \<longleftrightarrow> int32 f \<and> int32 t \<and> short r \<and> f32_wf w"

lemma load_edges_ok:
  assumes "\<forall>x \<in> set es. edge_ok x" "ge_rep E S"
  shows "\<exists>E'. load_edges junk (length es) (concat (map edge_bytes es) @ bs) E = (bs, E') \<and>
    ge_rep E' (S\<lparr>ag_edges := ag_edges S @ es\<rparr>)"
  using assms
proof (induction es arbitrary: E S)
  case (Cons x es)
  obtain f t r w where x: "x = (f, t, r, w)" by (cases x)
  have ok: "int32 f" "int32 t" "short r" "f32_wf w" using Cons.prems(1) x by auto
  let ?S = "S\<lparr>ag_edges := ag_edges S @ [x]\<rparr>"
  have rep: "ge_rep (ge_add_edge E f t r w) ?S" using edge_ops_held(1) [OF Cons.prems(2), of f t r w] by (simp add: x)
  have "read_num junk 4 v (write_f32 w @ bs) = (True, f32_bits w, bs)" for v bs
    unfolding write_f32_def by (rule read_num_bytes) (use f32_roundtrip [OF ok(4)] in simp)
  then have "load_edges junk (length (x # es)) (concat (map edge_bytes (x # es)) @ bs) E =
      load_edges junk (length es) (concat (map edge_bytes es) @ bs) (ge_add_edge E f t r w)"
    using ok bits_of_less [of 32 f] bits_of_less [of 32 t] to_i32_bits [of f] to_i32_bits [of t] f32_roundtrip [OF ok(4)]
    by (simp add: x short_def Let_def)
  with Cons.IH [OF _ rep] Cons.prems(1) show ?case by simp
qed simp


section \<open>What is saved\<close>

text \<open>The bindings that are live when they are saved and still live when they are loaded.\<close>

fun survivor :: "millis \<Rightarrow> millis \<Rightarrow> (string \<times> millis option) option \<Rightarrow> (string \<times> millis option) option" where
  "survivor t0 t1 None = None"
| "survivor t0 t1 (Some (v, None)) = Some (v, None)"
| "survivor t0 t1 (Some (v, Some d)) =
     (if d < 0 then Some (v, None) else if d \<le> t0 \<or> d \<le> t1 then None else Some (v, Some d))"

lemma put_entries:
  assumes "distinct (map fst es)"
  shows "foldl (put_entry now) db es k =
    (case map_of es k of None \<Rightarrow> db k
     | Some (v, e) \<Rightarrow> if 0 < e then (if e \<le> now then db k else Some (v, Some e)) else Some (v, None))"
  using assms
proof (induction es arbitrary: db)
  case (Cons x es)
  obtain k' v e where x: "x = (k', v, e)" by (cases x)
  have gone: "map_of es k' = None" using Cons.prems by (simp add: x map_of_eq_None_iff)
  have "foldl (put_entry now) db (x # es) k = (case map_of es k of None \<Rightarrow> put_entry now db x k
      | Some (v, e) \<Rightarrow> if 0 < e then (if e \<le> now then put_entry now db x k else Some (v, Some e)) else Some (v, None))"
    using Cons.IH [of "put_entry now db x"] Cons.prems by simp
  then show ?case
    using gone by (cases "k = k'") (simp_all add: x split: option.splits)
qed simp

lemma loaded_survivors:
  assumes "kv_inv kv" "0 \<le> t0"
  shows "foldl (put_entry t1) Map.empty (kv_all_entries (\<lambda>_. t0) kv) k = survivor t0 t1 (kv_abs kv k)"
proof -
  let ?es = "kv_all_entries (\<lambda>_. t0) kv"
  have d: "distinct (map fst ?es)"
    and live: "\<And>v d. kv_abs kv k = Some (v, d) \<Longrightarrow> \<not> lapsed t0 (Some (v, d)) \<Longrightarrow> (k, v, listed d) \<in> set ?es"
    and only: "\<And>v e. (k, v, e) \<in> set ?es \<Longrightarrow> \<exists>d. kv_abs kv k = Some (v, d) \<and> e = listed d \<and> \<not> lapsed t0 (Some (v, d))"
    using kv_entries_listed [OF assms(1), of t0 "\<lambda>_. t0" t0] by auto
  show ?thesis
  proof (cases "kv_abs kv k")
    case None
    then have "map_of ?es k = None" using only by (auto simp: map_of_eq_None_iff)
    then show ?thesis using put_entries [OF d] None by simp
  next
    case (Some vd)
    obtain v dl where vd: "vd = (v, dl)" by (cases vd)
    show ?thesis
    proof (cases "lapsed t0 (Some (v, dl))")
      case True
      then have "map_of ?es k = None" using only Some vd by (auto simp: map_of_eq_None_iff)
      then show ?thesis using put_entries [OF d] Some vd True by (cases dl) simp_all
    next
      case False
      then have "map_of ?es k = Some (v, listed dl)" using live [of v dl] Some vd d by simp
      then show ?thesis
        using put_entries [OF d, of t1 Map.empty k] Some vd False assms(2) by (cases dl) (auto simp: listed_def)
    qed
  qed
qed

lemma listing_map: "\<forall>k \<in> set ks. m k \<noteq> None \<Longrightarrow> listing m ks = map (\<lambda>k. (k, the (m k))) ks"
  by (induction ks) (auto simp: listing_def)

definition nul_free :: "string \<Rightarrow> bool" where
  "nul_free s \<longleftrightarrow> CHR 0x00 \<notin> set s"

definition node_list :: "labelled_graph \<Rightarrow> int list \<Rightarrow> (int \<times> string \<times> string) list" where
  "node_list S ids = map (\<lambda>n. (n, the (ag_nodes S n))) ids"

lemma all_nodes_loop_ok:
  assumes "ge_rep E S" "\<forall>n \<in> set ids. ag_nodes S n \<noteq> None" "\<forall>(l, p) \<in> ran (ag_nodes S). nul_free l"
  shows "all_nodes_loop E (map (\<lambda>n. (n, the (dg_meta (ge_graph E) n))) ids) res = Some (res @ node_list S ids)"
  using assms(2)
proof (induction ids arbitrary: res)
  case (Cons n ids)
  obtain l p where lp: "ag_nodes S n = Some (l, p)" using Cons.prems by force
  have lh: "labels_held E S" and inv: "sp_inv (ge_pool E)" using assms(1) by (simp_all add: ge_rep_def pool_held_def)
  obtain m q where m: "dg_meta (ge_graph E) n = Some m" "nm_props m = p" "nm_label m = Some q" "(l, q) \<in> set (sp_table (ge_pool E))"
    using labels_heldD(1) [OF lh lp] by blast
  have "stored (ge_pool E) l q" using inv m(4) by (auto simp: sp_inv_def)
  moreover have "nul_free l" using assms(3) lp by (auto simp: ran_def)
  then have "takeWhile (\<lambda>c. c \<noteq> CHR 0x00) l = l" by (auto simp: nul_free_def takeWhile_eq_all_conv)
  ultimately have "label_text E m = Some l" using read_cstr_stored m(3) by (simp add: label_text_def)
  then show ?case using Cons.IH Cons.prems m lp by (simp add: node_list_def)
qed (simp add: node_list_def)

lemma all_nodes_ok:
  assumes "ge_rep E S" "set ids = dom (ag_nodes S)" "\<forall>(l, p) \<in> ran (ag_nodes S). nul_free l"
  shows "all_nodes E ids = Some (node_list S ids)"
proof -
  have lh: "labels_held E S" using assms(1) by (simp add: ge_rep_def)
  have "\<forall>n \<in> set ids. dg_meta (ge_graph E) n \<noteq> None" using labels_heldD(2) [OF lh] assms(2) by (auto simp: dom_def)
  moreover have "\<forall>n \<in> set ids. ag_nodes S n \<noteq> None" using assms(2) by auto
  ultimately show ?thesis
    using all_nodes_loop_ok [OF assms(1) _ assms(3), of ids "[]"] by (simp add: all_nodes_def listing_map)
qed

definition edge_list :: "labelled_graph \<Rightarrow> int list \<Rightarrow> log_edge list" where
  "edge_list S aids = concat (map (\<lambda>u. map (\<lambda>e. (u, ed_to e, ed_rel e, ed_weight e)) (out_edges (ag_edges S) u)) aids)"

lemma all_edges_ok:
  assumes "ge_rep E S" "set aids = dom (dg_adj (ge_graph E))"
  shows "all_edges E aids = edge_list S aids"
proof -
  have "dg_neighbors (ge_graph E) u = out_edges (ag_edges S) u" for u
    using assms(1) by (simp add: ge_rep_def represents_def)
  then have "the (dg_adj (ge_graph E) u) = out_edges (ag_edges S) u" if "u \<in> set aids" for u
    using that unfolding assms(2) dg_neighbors_def by (metis domIff option.case_eq_if)
  moreover have "listing (dg_adj (ge_graph E)) aids = map (\<lambda>u. (u, the (dg_adj (ge_graph E) u))) aids"
    by (rule listing_map) (use assms(2) in auto)
  ultimately show ?thesis
    by (simp add: all_edges_def edge_list_def comp_def cong: map_cong)
qed


lemma edge_list_out:
  assumes "distinct aids"
  shows "out_edges (edge_list S aids) u = (if u \<in> set aids then out_edges (ag_edges S) u else [])"
proof -
  have "out_edges (map (\<lambda>e. (v, ed_to e, ed_rel e, ed_weight e)) es) u = (if v = u then es else [])" for v and es :: "edge list"
    by (induction es) auto
  then show ?thesis using assms by (induction aids) (auto simp: edge_list_def)
qed

lemma edge_list_length:
  assumes "distinct aids"
  shows "length (edge_list S aids) \<le> length (ag_edges S)"
proof -
  have one: "sum_list (map (\<lambda>u. if f = u then 1 else 0) aids) \<le> (1::nat)" for f :: int
    using assms by (induction aids) (auto simp: sum_list_eq_0_iff)
  have "sum_list (map (\<lambda>u. length (out_edges es u)) aids) \<le> length es" for es
  proof (induction es)
    case (Cons x es)
    obtain f t r w where x: "x = (f, t, r, w)" by (cases x)
    have "(\<lambda>u. length (out_edges (x # es) u)) = (\<lambda>u. (if f = u then 1 else 0) + length (out_edges es u))"
      by (auto simp: x)
    then show ?case using Cons one [of f] by (simp add: sum_list_addf)
  qed simp
  then show ?thesis by (simp add: edge_list_def length_concat comp_def)
qed

lemma edge_list_sub: "set (edge_list S aids) \<subseteq> set (ag_edges S)"
  by (auto simp: edge_list_def in_out_edges)

lemma put_nodes:
  assumes "\<forall>n \<in> set ids. ag_nodes S n \<noteq> None"
  shows "ag_nodes (foldl put_node A (node_list S ids)) n = (if n \<in> set ids then ag_nodes S n else ag_nodes A n)"
    "ag_edges (foldl put_node A (node_list S ids)) = ag_edges A"
  using assms by (induction ids arbitrary: A) (auto simp: node_list_def)

section \<open>The round trip\<close>

text \<open>What the format can hold: 32-bit lengths and ids, 64-bit deadlines, labels without a NUL byte that fit the pool.\<close>

definition fits_format :: "(string \<times> string \<times> millis) list \<Rightarrow> labelled_graph \<Rightarrow> int list \<Rightarrow> bool" where
  "fits_format entries S ids \<longleftrightarrow> (\<forall>x \<in> set entries. entry_ok x) \<and> length entries \<le> 2 ^ 30 \<and>
     (\<forall>x \<in> set (node_list S ids). node_ok x) \<and> (\<forall>(l, p) \<in> ran (ag_nodes S). nul_free l) \<and>
     length ids < 2 ^ 64 \<and> sum_list (map (\<lambda>(n, l, p). label_cost l) (node_list S ids)) \<le> unat pool_capacity \<and>
     (\<forall>x \<in> set (ag_edges S). edge_ok x) \<and> length (ag_edges S) < 2 ^ 64"

lemma load_image:
  assumes fits: "fits_format es S ids" and ids: "set ids = dom (ag_nodes S)" and aids: "distinct aids"
  shows "\<exists>kv' E'. rdb_load junk (\<lambda>_. now) [fname \<mapsto> rdb_image es (node_list S ids) (edge_list S aids)] fname kv_new ge_new =
      Some (True, kv', E') \<and> kv_inv kv' \<and> kv_abs kv' = foldl (put_entry now) Map.empty es \<and>
    ge_rep E' ((foldl put_node ag_new (node_list S ids))\<lparr>ag_edges := edge_list S aids\<rparr>)"
proof -
  let ?ns = "node_list S ids" and ?gs = "edge_list S aids"
  have f: "\<forall>x \<in> set es. entry_ok x" "length es \<le> 2 ^ 30" "\<forall>x \<in> set ?ns. node_ok x" "length ids < 2 ^ 64"
    "sum_list (map (\<lambda>(n, l, p). label_cost l) ?ns) \<le> unat pool_capacity" "\<forall>x \<in> set (ag_edges S). edge_ok x"
    "length (ag_edges S) < 2 ^ 64" using fits by (simp_all add: fits_format_def)
  let ?b3 = "write_u64 rdb_eof"
  let ?b2 = "write_u64 (length ?gs) @ concat (map edge_bytes ?gs) @ ?b3"
  let ?b1 = "write_u64 (length ?ns) @ concat (map node_bytes ?ns) @ ?b2"
  obtain kv' where kv': "load_kv junk (\<lambda>_. now) 0 (length es) (concat (map kv_bytes es) @ ?b1) kv_new = Some (?b1, kv')"
    "kv_inv kv'" "kv_abs kv' = foldl (put_entry now) Map.empty es"
    using load_kv_ok [OF f(1) kv_new_ok(1), of junk now 0 ?b1] f(2) kv_new_ok by auto
  have "ag_spent (foldl put_node ag_new ?ns) \<le> unat pool_capacity" using f(5) by (simp add: put_node_spent ag_new_def)
  from load_nodes_ok [OF f(3) ge_new_ok this, of junk ?b2] obtain E1 where
    E1: "load_nodes junk (length ?ns) (concat (map node_bytes ?ns) @ ?b2) ge_new = (?b2, E1)" "ge_rep E1 (foldl put_node ag_new ?ns)"
    by auto
  have "\<forall>x \<in> set ?gs. edge_ok x" using f(6) edge_list_sub by blast
  from load_edges_ok [OF this E1(2), of junk ?b3] obtain E2 where
    E2: "load_edges junk (length ?gs) (concat (map edge_bytes ?gs) @ ?b3) E1 = (?b3, E2)"
    "ge_rep E2 ((foldl put_node ag_new ?ns)\<lparr>ag_edges := ag_edges (foldl put_node ag_new ?ns) @ ?gs\<rparr>)" by auto
  have nodes: "\<forall>n \<in> set ids. ag_nodes S n \<noteq> None" using ids by auto
  have rep: "ge_rep E2 ((foldl put_node ag_new ?ns)\<lparr>ag_edges := ?gs\<rparr>)"
    using E2(2) put_nodes(2) [OF nodes, of ag_new] by (simp add: ag_new_def)
  have l: "length ?ns < 2 ^ 64" "length ?gs < 2 ^ 64" "length es < 2 ^ 64" "rdb_magic < 2 ^ 64" "rdb_version < 2 ^ 32" "rdb_eof < 2 ^ 64"
    using f(2,4,7) edge_list_length [OF aids, of S]
    by (simp_all add: node_list_def rdb_magic_def rdb_version_def rdb_eof_def)
  have eof: "read_num junk 8 0 ?b3 = (True, rdb_eof, [])" using read_u64 [OF l(6), of junk 0 "[]"] by simp
  have "rdb_load junk (\<lambda>_. now) [fname \<mapsto> rdb_image es ?ns ?gs] fname kv_new ge_new = Some (True, kv', E2)"
    unfolding rdb_load_def rdb_image_def section_bytes_def
    by (simp add: read_u64 [OF l(4)] read_u32 [OF l(5)] read_u64 [OF l(3)] kv'(1) read_u64 [OF l(1)] E1(1)
        read_u64 [OF l(2)] E2(1) eof Let_def)
  with kv'(2,3) rep show ?thesis by blast
qed


lemma rdb_load_file: "fs fname = Some bs \<Longrightarrow> rdb_load junk clk fs fname kv E = rdb_load junk clk [fname \<mapsto> bs] fname kv E"
  by (simp add: rdb_load_def)

lemma put_node_values: "ag_values (foldl put_node A ns) = ag_values A"
  by (induction ns arbitrary: A) auto

section \<open>Properties\<close>

text \<open>
  C7. A snapshot restores the database: after a save whose bytes reach the disk, loading the file into
  new engines, at any later reading of the clock, succeeds and restores every key that is still live
  with its value and deadline, every node with label and properties, and every adjacency list in order.
  The clock stands still while saving and while loading, labels have no NUL bytes and the counts and lengths
  fit the format; negative deadlines come back as none, and the values of the property index not at all.
\<close>

theorem snapshot_roundtrip:
  assumes "kv_inv kv" "ge_rep E S" "set ids = dom (ag_nodes S)" "set aids = dom (dg_adj (ge_graph E))" "distinct aids"
    "fits_format (kv_all_entries (\<lambda>_. t0) kv) S ids" "0 \<le> t0"
    "io_open io" "io_rename io" "\<forall>b. io_store io b = b"
  shows "\<exists>fs' kv' E' S'. rdb_save io (\<lambda>_. t0) ids aids fs fname kv E = Some (True, fs') \<and>
    rdb_load junk (\<lambda>_. t1) fs' fname kv_new ge_new = Some (True, kv', E') \<and> kv_inv kv' \<and>
    (\<forall>k. kv_abs kv' k = survivor t0 t1 (kv_abs kv k)) \<and> ge_rep E' S' \<and> ag_nodes S' = ag_nodes S \<and>
    (\<forall>u. out_edges (ag_edges S') u = out_edges (ag_edges S) u) \<and> ag_values S' = (\<lambda>_ _. None)"
proof -
  let ?es = "kv_all_entries (\<lambda>_. t0) kv" and ?ns = "node_list S ids" and ?gs = "edge_list S aids"
  let ?S = "(foldl put_node ag_new ?ns)\<lparr>ag_edges := ?gs\<rparr>"
  let ?fs = "fs(fname @ ''.tmp'' := None, fname \<mapsto> rdb_image ?es ?ns ?gs)"
  have "rdb_save io (\<lambda>_. t0) ids aids fs fname kv E = Some (True, ?fs)"
    using assms(6,8-10) all_nodes_ok [OF assms(2,3)] all_edges_ok [OF assms(2,4)]
    by (simp add: rdb_save_def fits_format_def)
  moreover obtain kv' E' where "rdb_load junk (\<lambda>_. t1) ?fs fname kv_new ge_new = Some (True, kv', E')" "kv_inv kv'"
    "kv_abs kv' = foldl (put_entry t1) Map.empty ?es" "ge_rep E' ?S"
    using load_image [OF assms(6,3,5), of junk t1 fname] rdb_load_file [of ?fs fname "rdb_image ?es ?ns ?gs" junk] by auto
  moreover have "out_edges ?gs u = out_edges (ag_edges S) u" for u
    using edge_list_out [OF assms(5)] assms(2,4)
    by (auto simp: ge_rep_def represents_def dg_neighbors_def domIff split: option.splits dest!: spec [of _ u])
  moreover have "ag_nodes ?S = ag_nodes S"
  proof
    fix n
    have all: "\<forall>n \<in> set ids. ag_nodes S n \<noteq> None" using assms(3) by auto
    have "n \<in> set ids \<longleftrightarrow> ag_nodes S n \<noteq> None" using assms(3) by auto
    then show "ag_nodes ?S n = ag_nodes S n"
      using put_nodes(1) [OF all, of ag_new n] by (cases "ag_nodes S n") (simp_all add: ag_new_def)
  qed
  moreover have "ag_values ?S = (\<lambda>_ _. None)" by (simp add: put_node_values ag_new_def)
  ultimately show ?thesis
    using loaded_survivors [OF assms(1,7)] by (intro exI [of _ ?fs] exI [of _ kv'] exI [of _ E'] exI [of _ ?S]) simp
qed

definition sample_engine :: graph_engine where
  "sample_engine = ge_add_edge (ge_add_node ge_new 7 ''A'' ''{}'') 7 9 ''r'' f32_one"

definition sample_graph :: labelled_graph where
  "sample_graph = \<lparr>ag_nodes = [7 \<mapsto> (''A'', ''{}'')], ag_edges = [(7, 9, ''r'', f32_one)], ag_values = (\<lambda>_ _. None), ag_spent = 18\<rparr>"

lemma sample_ok: "ge_rep sample_engine sample_graph" "dom (dg_adj (ge_graph sample_engine)) = {7}"
proof -
  have "ge_rep (ge_add_node ge_new 7 ''A'' ''{}'') (snd (ge_spec ag_new (EAddNode 7 ''A'' ''{}'')))"
    by (rule add_node_held [OF ge_new_ok]) (simp add: ag_new_def label_cost_def pool_capacity_def)
  from edge_ops_held(1) [OF this, of 7 9 "''r''" f32_one]
  show "ge_rep sample_engine sample_graph"
    by (simp add: sample_engine_def sample_graph_def ag_new_def label_cost_def)
  show "dom (dg_adj (ge_graph sample_engine)) = {7}"
    by (auto simp: sample_engine_def ge_add_edge_def ge_add_node_def ge_new_def dg_add_edge_def dg_add_node_def dg_new_def
        ensure_def split: prod.splits)
qed

theorem snapshot_roundtrip_witness:
  "\<exists>fs' kv' E' S'. rdb_save \<lparr>io_open = True, io_store = (\<lambda>b. b), io_rename = True\<rparr> (\<lambda>_. 5) [7] [7] Map.empty ''f'' kv_new sample_engine =
      Some (True, fs') \<and> rdb_load length (\<lambda>_. 9) fs' ''f'' kv_new ge_new = Some (True, kv', E') \<and> ge_rep E' S' \<and>
    ag_nodes S' = [7 \<mapsto> (''A'', ''{}'')]"
proof -
  have "kv_all_entries (\<lambda>_. 5) kv_new = []"
    using kv_entries_listed [OF kv_new_ok(1), of 5 "\<lambda>_. 5" 5] kv_new_ok(2) by (cases "kv_all_entries (\<lambda>_. 5) kv_new") auto
  moreover have "f32_wf f32_one" using cost_one by (simp add: f32_one_def)
  ultimately have fits: "fits_format (kv_all_entries (\<lambda>_. 5) kv_new) sample_graph [7]"
    by (simp add: fits_format_def sample_graph_def node_list_def short_def int32_def nul_free_def label_cost_def
        pool_capacity_def ran_def)
  let ?io = "\<lparr>io_open = True, io_store = (\<lambda>b. b), io_rename = True\<rparr>"
  have "\<exists>fs' kv' E' S'. rdb_save ?io (\<lambda>_. 5) [7] [7] Map.empty ''f'' kv_new sample_engine = Some (True, fs') \<and>
    rdb_load length (\<lambda>_. 9) fs' ''f'' kv_new ge_new = Some (True, kv', E') \<and> kv_inv kv' \<and>
    (\<forall>k. kv_abs kv' k = survivor 5 9 (kv_abs kv_new k)) \<and> ge_rep E' S' \<and> ag_nodes S' = ag_nodes sample_graph \<and>
    (\<forall>u. out_edges (ag_edges S') u = out_edges (ag_edges sample_graph) u) \<and> ag_values S' = (\<lambda>_ _. None)"
    by (rule snapshot_roundtrip [OF kv_new_ok(1) sample_ok(1) _ _ _ fits]) (simp_all add: sample_ok(2) sample_graph_def)
  moreover have "ag_nodes sample_graph = [7 \<mapsto> (''A'', ''{}'')]" by (simp add: sample_graph_def)
  ultimately show ?thesis by metis
qed

text \<open>
  Write errors go unnoticed: whatever of the bytes is stored, a save that can open and rename its
  file reports success, and what was stored has replaced the previous snapshot.
\<close>

theorem save_ignores_write_errors:
  assumes "io_open io" "io_rename io" "all_nodes E ids = Some nodes"
  shows "\<exists>fs'. rdb_save io clk ids aids fs fname kv E = Some (True, fs') \<and>
    fs' fname = Some (io_store io (rdb_image (kv_all_entries clk kv) nodes (all_edges E aids)))"
  using assms by (simp add: rdb_save_def)

theorem save_ignores_write_errors_witness:
  "\<exists>fs'. rdb_save \<lparr>io_open = True, io_store = (\<lambda>_. []), io_rename = True\<rparr> (\<lambda>_. 1) [] [] [''f'' \<mapsto> ''old''] ''f'' kv_new ge_new =
      Some (True, fs') \<and> fs' ''f'' = Some []"
  using save_ignores_write_errors [of "\<lparr>io_open = True, io_store = (\<lambda>_. []), io_rename = True\<rparr>" ge_new "[]" "[]" "\<lambda>_. 1" "[]"
      "[''f'' \<mapsto> ''old'']" "''f''" kv_new]
  by (simp add: all_nodes_def listing_def)

end
