(* ===== verification/Resp.thy ===== *)
theory Resp
  imports Cxx_Text
begin

text \<open>
  The wire protocol of \<^verbatim>\<open>src/protocol\<close>: the reply encoder (\<^verbatim>\<open>encoder.cpp\<close>) and the
  request parser (\<^verbatim>\<open>resp.cpp\<close>). The parser works on the connection's input buffer, erases
  what it has consumed and leaves its result in an output argument; both are threaded here. Indices
  into the buffer that the code keeps in an \<^verbatim>\<open>int\<close> are cut to 32 bits, and the length test,
  which mixes \<^verbatim>\<open>size_t\<close> and \<^verbatim>\<open>int\<close>, wraps at 64 bits.
\<close>

section \<open>The encoder\<close>

abbreviation CR :: char where "CR \<equiv> CHR 0x0D"
abbreviation LF :: char where "LF \<equiv> CHR 0x0A"

definition crlf :: string where
  "crlf = [CR, LF]"

definition simple_string :: "string \<Rightarrow> string" where
  "simple_string s = ''+'' @ s @ crlf"

definition error_reply :: "string \<Rightarrow> string" where
  "error_reply msg = ''-ERR '' @ msg @ crlf"

definition integer_reply :: "int \<Rightarrow> string" where
  "integer_reply n = '':'' @ int_dec n @ crlf"

definition bulk_string :: "string \<Rightarrow> string" where
  "bulk_string s = ''$'' @ nat_dec (length s) @ crlf @ s @ crlf"

definition null_bulk :: string where
  "null_bulk = ''$-1'' @ crlf"

definition array_reply :: "string list \<Rightarrow> string" where
  "array_reply items = ''*'' @ nat_dec (length items) @ crlf @ concat (map bulk_string items)"

definition empty_array :: string where
  "empty_array = ''*0'' @ crlf"

section \<open>The parser\<close>

datatype parse_result = Complete | Incomplete | Error

function find_crlf_loop :: "string \<Rightarrow> nat \<Rightarrow> int" where
  "find_crlf_loop buf i =
     (if i + 1 < length buf
      then if buf ! i = CR \<and> buf ! (i + 1) = LF then to_i32 (int i) else find_crlf_loop buf (i + 1)
      else -1)"
  by auto
termination by (relation "measure (\<lambda>(buf, i). length buf - i)") auto

declare find_crlf_loop.simps [simp del]

definition find_crlf :: "string \<Rightarrow> nat \<Rightarrow> int" where
  "find_crlf buf start = find_crlf_loop buf start"

text \<open>
  The loop over the bulk strings of an array: it stops with \<^const>\<open>Incomplete\<close> or
  \<^const>\<open>Error\<close>, or ends with the position after the command and the arguments.
\<close>

fun parse_args ::
  "string \<Rightarrow> nat \<Rightarrow> nat \<Rightarrow> string list \<Rightarrow> parse_result + (nat \<times> string list)" where
  "parse_args buf 0 pos args = Inr (pos, args)"
| "parse_args buf (Suc n) pos args =
     (if length buf \<le> pos then Inl Incomplete
      else if buf ! pos \<noteq> CHR ''$'' then Inl Error
      else let len_crlf = find_crlf buf pos in
        if len_crlf < 0 then Inl Incomplete
        else let len = atoi (drop (pos + 1) buf); p = nat (len_crlf + 2) in
          if length buf < (p + to_u64 len + 2) mod 2 ^ 64 then Inl Incomplete
          else parse_args buf n ((p + to_u64 (len + 2)) mod 2 ^ 64) (args @ [substr buf p (to_u64 len)]))"

definition parse_array :: "string \<Rightarrow> string list \<Rightarrow> parse_result \<times> string \<times> string list" where
  "parse_array buf out =
     (let crlf_at = find_crlf buf 0 in
      if crlf_at < 0 then (Incomplete, buf, out)
      else let count = atoi (drop 1 buf) in
        if count \<le> 0 then (Error, buf, out)
        else case parse_args buf (nat count) (nat (crlf_at + 2)) [] of
          Inl r \<Rightarrow> (r, buf, out)
        | Inr (pos, args) \<Rightarrow> (Complete, drop pos buf, args))"

text \<open>The words of an inline command, cut at single spaces.\<close>

function inline_words :: "string \<Rightarrow> nat \<Rightarrow> string list \<Rightarrow> string list" where
  "inline_words line start args =
     (if start < length line
      then let e = (case find_char line CHR '' '' start of None \<Rightarrow> length line | Some i \<Rightarrow> i) in
        inline_words line (e + 1) (if start < e then args @ [substr line start (e - start)] else args)
      else args)"
  by auto
termination
  by (relation "measure (\<lambda>(line, start, args). length line - start)")
    (auto simp: find_char_def split: option.splits)

declare inline_words.simps [simp del]

definition parse_inline :: "string \<Rightarrow> string list \<Rightarrow> parse_result \<times> string \<times> string list" where
  "parse_inline buf out =
     (let crlf_at = find_crlf buf 0 in
      if crlf_at < 0 then (Incomplete, buf, out)
      else let line = substr buf 0 (nat crlf_at); buf' = drop (nat (crlf_at + 2)) buf;
               args = inline_words line 0 [] in
        if args = [] then (Error, buf', out) else (Complete, buf', args))"

definition parse :: "string \<Rightarrow> string list \<Rightarrow> parse_result \<times> string \<times> string list" where
  "parse buf out =
     (if buf = [] then (Incomplete, buf, out)
      else if buf ! 0 = CHR ''*'' then parse_array buf out
      else parse_inline buf out)"

end
