(* ===== verification/Dispatcher.thy ===== *)
theory Dispatcher
  imports RDB_Proofs Resp DFS Dijkstra
begin

text \<open>
  The command dispatcher of \<^verbatim>\<open>src/dispatch/dispatcher.cpp\<close> (class
  \<^verbatim>\<open>Dispatcher\<close>): every command with its guards on the number of arguments, the conversions
  of the arguments with their exceptions, the call of the engine and the encoding of the reply.
\<close>

section \<open>Outcomes\<close>

text \<open>
  A call returns, throws, or has no defined result: undefined behaviour such as an access out of bounds
  or a signed overflow, or a loop that does not end.
\<close>

datatype 'a outcome = Returns 'a | Throws cxx_exn | Undefined

fun follow :: "'a outcome \<Rightarrow> ('a \<Rightarrow> 'b outcome) \<Rightarrow> 'b outcome" where
  "follow (Returns x) f = f x"
| "follow (Throws e) f = Throws e"
| "follow Undefined f = Undefined"

fun converted :: "cxx_exn + 'a \<Rightarrow> 'a outcome" where
  "converted (Inl e) = Throws e"
| "converted (Inr x) = Returns x"

fun defined :: "'a option \<Rightarrow> 'a outcome" where
  "defined None = Undefined"
| "defined (Some x) = Returns x"

text \<open>The handler \<^verbatim>\<open>catch (const std::exception& e)\<close>; the state is that at the throw.\<close>

fun caught :: "'s \<Rightarrow> (string \<times> 's) outcome \<Rightarrow> (string \<times> 's) outcome" where
  "caught s (Throws e) = Returns (error_reply (''bad args: '' @ exn_what e), s)"
| "caught s r = r"

section \<open>State and environment\<close>

record database =
  db_kv :: kv_engine
  db_graph :: graph_engine
  db_zsets :: zset_engine
  db_persist :: persistence
  db_files :: files

text \<open>The state at the start of the server, before a snapshot is loaded.\<close>

definition db_new :: "string \<Rightarrow> files \<Rightarrow> database" where
  "db_new fname fs = \<lparr>db_kv = kv_new, db_graph = ge_new, db_zsets = Map.empty,
     db_persist = \<lparr>ps_path = fname, ps_saving = False\<rparr>, db_files = fs\<rparr>"

text \<open>
  What a call meets outside the database: the clock, the generator of the skip lists, the order in which
  the hash maps are iterated, the order in which the compiler evaluates the arguments of a call, and the
  operating system.
\<close>

record call_env =
  ce_now :: millis
  ce_draws :: "nat \<Rightarrow> bool"
  ce_ids :: "int list"
  ce_aids :: "int list"
  ce_dist_order :: "distance_map \<Rightarrow> int list"
  ce_stoi_first :: bool
  ce_io :: io_env
  ce_junk :: "string \<Rightarrow> nat"
  ce_clk :: "nat \<Rightarrow> millis"
  ce_fork :: bool

type_synonym handled = "(string \<times> database) outcome"

definition to_upper :: "string \<Rightarrow> string" where
  "to_upper s = map upper_char s"

definition ok_reply :: string where
  "ok_reply = simple_string ''OK''"

definition flag_reply :: "bool \<Rightarrow> string" where
  "flag_reply b = integer_reply (if b then 1 else 0)"

definition unknown_command :: "string \<Rightarrow> string \<Rightarrow> string" where
  "unknown_command kind name = error_reply (''unknown '' @ kind @ ''command '' @ [CHR 39] @ name @ [CHR 39])"

section \<open>Keys and values\<close>

text \<open>Signed 64-bit arithmetic: a product out of range is undefined.\<close>

definition in_int64 :: "int \<Rightarrow> int outcome" where
  "in_int64 i = (if int64 i then Returns i else Undefined)"

definition seconds :: "string \<Rightarrow> millis outcome" where
  "seconds s = follow (converted (stoll s)) (\<lambda>n. in_int64 (n * 1000))"

text \<open>The loop over the options of \<^verbatim>\<open>SET\<close>: every position is looked at, also those of the values.\<close>

fun set_options :: "string list \<Rightarrow> millis \<Rightarrow> millis outcome" where
  "set_options (a # b # opts) ttl =
     follow (if to_upper a = ''EX'' then seconds b
             else if to_upper a = ''PX'' then converted (stoll b) else Returns ttl)
       (set_options (b # opts))"
| "set_options _ ttl = Returns ttl"

definition with_kv :: "database \<Rightarrow> ('a \<times> kv_engine) option \<Rightarrow> ('a \<Rightarrow> string) \<Rightarrow> handled" where
  "with_kv db r reply = follow (defined r) (\<lambda>(x, kv). Returns (reply x, db\<lparr>db_kv := kv\<rparr>))"

definition run_set :: "call_env \<Rightarrow> database \<Rightarrow> string \<Rightarrow> string \<Rightarrow> millis \<Rightarrow> handled" where
  "run_set env db key val ttl =
     with_kv db (kv_set (ce_now env) (db_kv db) key val ttl) (\<lambda>_. ok_reply)"

definition run_expire :: "call_env \<Rightarrow> database \<Rightarrow> string \<Rightarrow> millis \<Rightarrow> handled" where
  "run_expire env db key ttl =
     with_kv db (kv_expire (ce_now env) (db_kv db) key ttl) flag_reply"

definition run_ttl :: "call_env \<Rightarrow> database \<Rightarrow> string \<Rightarrow> (millis \<Rightarrow> int) \<Rightarrow> handled" where
  "run_ttl env db key scale =
     follow (defined (kv_ttl_of (ce_now env) (db_kv db) key)) (\<lambda>ms.
       Returns (integer_reply (if ms = -2 then -2 else if ms = -1 then -1 else scale ms), db))"

definition bulk_or_null :: "string option \<Rightarrow> string" where
  "bulk_or_null v = (case v of None \<Rightarrow> null_bulk | Some s \<Rightarrow> bulk_string s)"

text \<open>
  The time left is not negative where it is rounded up to seconds. The sum with 999 is exact; it leaves the
  64 bits only for deadlines within a second of their end.
\<close>

definition handle_kv :: "call_env \<Rightarrow> database \<Rightarrow> string \<Rightarrow> string list \<Rightarrow> handled" where
  "handle_kv env db cmd args =
     (let argc = length args; kv = db_kv db; now = ce_now env in
      if cmd = ''PING'' then Returns (simple_string (if 2 \<le> argc then args ! 1 else ''PONG''), db)
      else if cmd = ''SET'' \<and> 3 \<le> argc then
        follow (set_options (drop 3 args) (-1)) (run_set env db (args ! 1) (args ! 2))
      else if cmd = ''GET'' \<and> 2 \<le> argc then with_kv db (kv_get now kv (args ! 1)) bulk_or_null
      else if cmd = ''DEL'' \<and> 2 \<le> argc then with_kv db (kv_del kv (args ! 1)) flag_reply
      else if cmd = ''EXISTS'' \<and> 2 \<le> argc then with_kv db (kv_exists now kv (args ! 1)) flag_reply
      else if cmd = ''EXPIRE'' \<and> 3 \<le> argc then follow (seconds (args ! 2)) (run_expire env db (args ! 1))
      else if cmd = ''PEXPIRE'' \<and> 3 \<le> argc then follow (converted (stoll (args ! 2))) (run_expire env db (args ! 1))
      else if cmd = ''TTL'' \<and> 2 \<le> argc then run_ttl env db (args ! 1) (\<lambda>ms. (ms + 999) div 1000)
      else if cmd = ''PTTL'' \<and> 2 \<le> argc then run_ttl env db (args ! 1) (\<lambda>ms. ms)
      else if cmd = ''PERSIST'' \<and> 2 \<le> argc then with_kv db (Some (kv_persist kv (args ! 1))) flag_reply
      else if cmd = ''DBSIZE'' then Returns (integer_reply (int (kv_size kv)), db)
      else if cmd = ''COMMAND'' then Returns (ok_reply, db)
      else Returns (unknown_command [] (args ! 0), db))"


section \<open>The graph\<close>

text \<open>Two conversions of arguments, and the reply of a list of numbers.\<close>

definition two_ints :: "string \<Rightarrow> string \<Rightarrow> (int \<Rightarrow> int \<Rightarrow> 'a outcome) \<Rightarrow> 'a outcome" where
  "two_ints a b f = follow (converted (stoi a)) (\<lambda>i. follow (converted (stoi b)) (f i))"

definition ids_reply :: "int list \<Rightarrow> string" where
  "ids_reply ids = array_reply (map int_dec ids)"

definition rel_argument :: "string list \<Rightarrow> string" where
  "rel_argument args = (if 4 \<le> length args then args ! 3 else [])"

text \<open>The commands that change the graph; \<^const>\<open>None\<close> when none of them matches.\<close>

definition graph_updates :: "call_env \<Rightarrow> database \<Rightarrow> string \<Rightarrow> string list \<Rightarrow> handled option" where
  "graph_updates env db cmd args =
     (let argc = length args; E = db_graph db; keep = (\<lambda>E. Returns (ok_reply, db\<lparr>db_graph := E\<rparr>)) in
      if cmd = ''GRAPH.ADD_NODE'' \<and> 4 \<le> argc then
        Some (follow (converted (stoi (args ! 1))) (\<lambda>nid. keep (ge_add_node E nid (args ! 2) (args ! 3))))
      else if cmd = ''GRAPH.ADD_NODE'' \<and> argc = 3 then
        Some (follow (converted (stoi (args ! 1))) (\<lambda>nid. keep (ge_add_node E nid (args ! 2) ''{}'')))
      else if cmd = ''GRAPH.DEL_NODE'' \<and> 2 \<le> argc then
        Some (follow (converted (stoi (args ! 1))) (\<lambda>nid. follow (defined (ge_remove_node E nid)) keep))
      else if cmd = ''GRAPH.ADD_EDGE'' \<and> 4 \<le> argc then
        Some (two_ints (args ! 1) (args ! 2) (\<lambda>from to.
          follow (if 5 \<le> argc then converted (stof (args ! 4)) else Returns f32_one) (\<lambda>weight.
            keep (ge_add_edge E from to (args ! 3) weight))))
      else if cmd = ''GRAPH.DEL_EDGE'' \<and> 4 \<le> argc then
        Some (two_ints (args ! 1) (args ! 2) (\<lambda>from to. keep (ge_remove_edge E from to (args ! 3))))
      else None)"

definition graph_reads :: "call_env \<Rightarrow> database \<Rightarrow> string \<Rightarrow> string list \<Rightarrow> handled option" where
  "graph_reads env db cmd args =
     (let argc = length args; E = db_graph db; keep = (\<lambda>r. Returns (r, db)) in
      if cmd = ''GRAPH.NODE'' \<and> 2 \<le> argc then
        Some (follow (converted (stoi (args ! 1))) (\<lambda>nid.
          case ge_node_meta E nid of
            None \<Rightarrow> keep null_bulk
          | Some m \<Rightarrow> follow (defined (label_text E m)) (\<lambda>label.
              keep (array_reply [''label'', label, ''props'', nm_props m]))))
      else if cmd = ''GRAPH.HAS_NODE'' \<and> 2 \<le> argc then
        Some (follow (converted (stoi (args ! 1))) (\<lambda>nid. keep (flag_reply (ge_has_node E nid))))
      else if cmd = ''GRAPH.HAS_EDGE'' \<and> 3 \<le> argc then
        Some (two_ints (args ! 1) (args ! 2) (\<lambda>from to. keep (flag_reply (ge_has_edge E from to))))
      else if cmd = ''GRAPH.NEIGHBORS'' \<and> 2 \<le> argc then
        Some (follow (converted (stoi (args ! 1))) (\<lambda>nid. keep (array_reply
          (concat (map (\<lambda>e. [int_dec (ed_to e), ed_rel e, f32_text (ed_weight e)]) (ge_neighbors E nid))))))
      else if cmd = ''GRAPH.REVNEIGHBORS'' \<and> 2 \<le> argc then
        Some (follow (converted (stoi (args ! 1))) (\<lambda>nid. keep (array_reply
          (concat (map (\<lambda>e. [int_dec (ed_to e), ed_rel e]) (ge_reverse_neighbors E nid))))))
      else if cmd = ''GRAPH.LABEL_NODES'' \<and> 2 \<le> argc then
        Some (case nodes_by_label E (ce_ids env) (args ! 1) of
          (ids, E') \<Rightarrow> Returns (ids_reply ids, db\<lparr>db_graph := E'\<rparr>))
      else None)"

definition wpath_reply :: "weighted_path \<Rightarrow> string" where
  "wpath_reply p =
     (if wp_empty p then null_bulk
      else array_reply ([''cost'', f32_text (wp_cost p), ''path''] @ map int_dec (wp_nodes p) @ [''rels''] @ wp_rels p))"

definition hop_texts :: "hop_result \<Rightarrow> string list" where
  "hop_texts r = [int_dec (hr_node r), int_dec (hr_hop r), int_dec (hr_via r), hr_rel r]"

definition graph_searches :: "call_env \<Rightarrow> database \<Rightarrow> string \<Rightarrow> string list \<Rightarrow> handled option" where
  "graph_searches env db cmd args =
     (let argc = length args; g = ge_graph (db_graph db); keep = (\<lambda>r. Returns (r, db)) in
      if cmd = ''GRAPH.PATH'' \<and> 3 \<le> argc then
        Some (two_ints (args ! 1) (args ! 2) (\<lambda>src dst.
          let E = reset_query_arena (db_graph db) in
          case bfs_path g src dst (rel_argument args) (Some (ge_arena E)) of
            (Some (Inr p), Some a) \<Rightarrow>
              Returns (if path_empty p then null_bulk else ids_reply (pr_nodes p), db\<lparr>db_graph := E\<lparr>ge_arena := a\<rparr>\<rparr>)
          | _ \<Rightarrow> Undefined))
      else if cmd = ''GRAPH.WPATH'' \<and> 3 \<le> argc then
        Some (two_ints (args ! 1) (args ! 2) (\<lambda>src dst.
          follow (defined (dijkstra_path g src dst (rel_argument args))) (\<lambda>p. keep (wpath_reply p))))
      else if cmd = ''GRAPH.NEIGHBORHOOD'' \<and> 3 \<le> argc then
        Some (two_ints (args ! 1) (args ! 2) (\<lambda>src hops.
          follow (defined (bfs_neighborhood g src hops (rel_argument args))) (\<lambda>rs.
            keep (array_reply (concat (map hop_texts rs))))))
      else if cmd = ''GRAPH.COMPONENT'' \<and> 2 \<le> argc then
        Some (follow (converted (stoi (args ! 1))) (\<lambda>src.
          follow (defined (bfs_component g src)) (\<lambda>ids. keep (ids_reply ids))))
      else if cmd = ''GRAPH.HAS_CYCLE'' then
        Some (follow (defined (dfs_has_cycle g (ce_ids env))) (\<lambda>c. keep (flag_reply c)))
      else if cmd = ''GRAPH.DISTANCES'' \<and> 2 \<le> argc then
        Some (follow (converted (stoi (args ! 1))) (\<lambda>src.
          follow (defined (dijkstra_all g src)) (\<lambda>dm. keep (array_reply
            (concat (map (\<lambda>(n, d). [int_dec n, f32_text d]) (listing (dm_dist dm) (ce_dist_order env dm))))))))
      else None)"

text \<open>The order in which the two conversions of \<^verbatim>\<open>GRAPH.INDEX_PROP\<close> are evaluated is open.\<close>

definition index_arguments :: "bool \<Rightarrow> string \<Rightarrow> string \<Rightarrow> (int \<times> f64) outcome" where
  "index_arguments stoi_first a v =
     (if stoi_first then follow (converted (stoi a)) (\<lambda>nid. follow (converted (stod v)) (\<lambda>x. Returns (nid, x)))
      else follow (converted (stod v)) (\<lambda>x. follow (converted (stoi a)) (\<lambda>nid. Returns (nid, x))))"

definition ids_or_throw :: "database \<Rightarrow> (cxx_exn + int list) option \<Rightarrow> handled" where
  "ids_or_throw db r = follow (defined r) (\<lambda>s. follow (converted s) (\<lambda>ids. Returns (ids_reply ids, db)))"

definition graph_indexed :: "call_env \<Rightarrow> database \<Rightarrow> string \<Rightarrow> string list \<Rightarrow> handled option" where
  "graph_indexed env db cmd args =
     (let argc = length args; E = db_graph db in
      if cmd = ''GRAPH.INFO'' then
        Some (Returns (array_reply [''nodes'', int_dec (ge_node_count E), ''edges'',
          int_dec (ge_edge_count E)], db))
      else if cmd = ''GRAPH.INDEX_PROP'' \<and> 5 \<le> argc then
        Some (follow (index_arguments (ce_stoi_first env) (args ! 1) (args ! 4)) (\<lambda>(nid, val).
          follow (defined (index_property (ce_draws env) E (args ! 2) (args ! 3) val nid)) (\<lambda>E'.
            Returns (ok_reply, db\<lparr>db_graph := E'\<rparr>))))
      else if cmd = ''GRAPH.RANGE'' \<and> 5 \<le> argc then
        Some (follow (converted (stod (args ! 3))) (\<lambda>mn. follow (converted (stod (args ! 4))) (\<lambda>mx.
          ids_or_throw db (range_query E (args ! 1) (args ! 2) mn mx))))
      else if cmd = ''GRAPH.EXACT'' \<and> 4 \<le> argc then
        Some (follow (converted (stod (args ! 3))) (\<lambda>val.
          ids_or_throw db (exact_query E (args ! 1) (args ! 2) val)))
      else None)"

fun first_match :: "handled option list \<Rightarrow> handled \<Rightarrow> handled" where
  "first_match [] other = other"
| "first_match (None # rs) other = first_match rs other"
| "first_match (Some r # rs) other = r"

definition handle_graph :: "call_env \<Rightarrow> database \<Rightarrow> string \<Rightarrow> string list \<Rightarrow> handled" where
  "handle_graph env db cmd args =
     caught db (first_match [graph_updates env db cmd args, graph_reads env db cmd args,
         graph_searches env db cmd args, graph_indexed env db cmd args]
       (Returns (unknown_command ''graph '' (args ! 0), db)))"

section \<open>Sorted sets\<close>

definition with_zsets :: "database \<Rightarrow> ('a \<times> zset_engine) option \<Rightarrow> ('a \<Rightarrow> string) \<Rightarrow> handled" where
  "with_zsets db r reply = follow (defined r) (\<lambda>(x, Z). Returns (reply x, db\<lparr>db_zsets := Z\<rparr>))"

definition scored_texts :: "bool \<Rightarrow> (f64 \<times> string) list \<Rightarrow> string list" where
  "scored_texts with_scores rs = concat (map (\<lambda>(s, m). if with_scores then [m, f64_text s] else [m]) rs)"

definition zset_commands :: "call_env \<Rightarrow> database \<Rightarrow> string \<Rightarrow> string list \<Rightarrow> handled option" where
  "zset_commands env db cmd args =
     (let argc = length args; Z = db_zsets db; keep = (\<lambda>r. Returns (r, db)) in
      if cmd = ''ZADD'' \<and> 4 \<le> argc then
        Some (follow (converted (stod (args ! 2))) (\<lambda>score.
          with_zsets db (zadd (ce_draws env) Z (args ! 1) score (args ! 3)) integer_reply))
      else if cmd = ''ZREM'' \<and> 3 \<le> argc then Some (with_zsets db (zrem Z (args ! 1) (args ! 2)) flag_reply)
      else if cmd = ''ZSCORE'' \<and> 3 \<le> argc then
        Some (keep (case zscore Z (args ! 1) (args ! 2) of None \<Rightarrow> null_bulk | Some sc \<Rightarrow> bulk_string (f64_text sc)))
      else if cmd = ''ZRANGE'' \<and> 4 \<le> argc then
        Some (two_ints (args ! 2) (args ! 3) (\<lambda>start stop.
          follow (defined (zrange Z (args ! 1) start stop)) (\<lambda>rs.
            keep (array_reply (scored_texts (5 \<le> argc \<and> to_upper (args ! 4) = ''WITHSCORES'') rs)))))
      else if cmd = ''ZRANGEBYSCORE'' \<and> 4 \<le> argc then
        Some (follow (converted (stod (args ! 2))) (\<lambda>mn. follow (converted (stod (args ! 3))) (\<lambda>mx.
          follow (defined (zrangebyscore Z (args ! 1) mn mx)) (\<lambda>rs. keep (array_reply (scored_texts True rs))))))
      else if cmd = ''ZCARD'' \<and> 2 \<le> argc then Some (keep (integer_reply (zcard Z (args ! 1))))
      else if cmd = ''ZRANK'' \<and> 3 \<le> argc then
        Some (follow (defined (zrank Z (args ! 1) (args ! 2))) (\<lambda>r. keep (integer_reply r)))
      else None)"

text \<open>
  The snapshot commands are handled here, with the sorted sets. A background save is the fork and the
  job of the child, which runs elsewhere.
\<close>

definition snapshot_commands :: "call_env \<Rightarrow> database \<Rightarrow> string \<Rightarrow> handled option" where
  "snapshot_commands env db cmd =
     (if cmd = ''BGSAVE'' then
        (case bgsave (ce_fork env) (db_persist db) (db_kv db) (db_graph db) of
          (_, ps, _) \<Rightarrow> Some (Returns (simple_string ''Background saving started'', db\<lparr>db_persist := ps\<rparr>)))
      else if cmd = ''BGRESTORE'' then
        Some (follow (defined (ps_load (ce_junk env) (ce_clk env) (db_files db) (db_persist db) (db_kv db) (db_graph db)))
          (\<lambda>(ok, kv, E). Returns (if ok then ok_reply else error_reply ''no snapshot file found'',
             db\<lparr>db_kv := kv, db_graph := E\<rparr>)))
      else if cmd = ''SAVE'' then
        Some (follow (defined (ps_save (ce_io env) (ce_clk env) (ce_ids env) (ce_aids env) (db_files db) (db_persist db)
            (db_kv db) (db_graph db)))
          (\<lambda>(ok, ps, fs). Returns (if ok then ok_reply else error_reply ''save failed'',
             db\<lparr>db_persist := ps, db_files := fs\<rparr>)))
      else None)"

definition handle_zset :: "call_env \<Rightarrow> database \<Rightarrow> string \<Rightarrow> string list \<Rightarrow> handled" where
  "handle_zset env db cmd args =
     caught db (first_match [zset_commands env db cmd args, snapshot_commands env db cmd]
       (Returns (unknown_command [] (args ! 0), db)))"

section \<open>Dispatch\<close>

definition dispatch :: "call_env \<Rightarrow> database \<Rightarrow> string list \<Rightarrow> handled" where
  "dispatch env db args =
     (if args = [] then Returns (error_reply ''empty command'', db)
      else let cmd = to_upper (args ! 0) in
        if take 6 cmd = ''GRAPH.'' then handle_graph env db cmd args
        else if cmd \<noteq> [] \<and> cmd ! 0 = CHR ''Z'' then handle_zset env db cmd args
        else handle_kv env db cmd args)"

end
