(* ===== verification/Reactor.thy ===== *)
theory Reactor
  imports Cxx_Text
begin

text \<open>
  The event loop of \<^verbatim>\<open>src/net/reactor.hpp\<close> (class \<^verbatim>\<open>Reactor\<close>): the handlers of the
  descriptors, the timers, the callbacks posted by other threads, and one round of \<^verbatim>\<open>poll\<close>. A
  \<^verbatim>\<open>std::function\<close> is a value of a type parameter (a closure of the program is a constructor of
  the client's type), and running it is an argument of the loops. The kernel's epoll set is part of the
  state; what \<^verbatim>\<open>epoll_wait\<close> reports is an argument.
\<close>

section \<open>State\<close>

text \<open>A timer with its time point in nanoseconds of the steady clock.\<close>

record 't timer =
  tm_when :: int
  tm_cb :: 't

record ('h, 't, 'p) reactor =
  rc_event_fd :: int
  rc_running :: bool
  rc_handlers :: "int \<Rightarrow> 'h option"
  rc_interest :: "int \<Rightarrow> u32 option"
  rc_timers :: "'t timer list"
  rc_posted :: "'p list"
  rc_signals :: nat

definition EPOLLIN :: u32 where "EPOLLIN = 1"
definition EPOLLOUT :: u32 where "EPOLLOUT = 4"

text \<open>
  \<^verbatim>\<open>epoll_ctl\<close>: adding a descriptor that is registered, and changing or deleting one that is not,
  fails without an effect; the code ignores the result.
\<close>

definition epoll_add :: "int \<Rightarrow> u32 \<Rightarrow> (int \<Rightarrow> u32 option) \<Rightarrow> (int \<Rightarrow> u32 option)" where
  "epoll_add fd ev m = (if m fd = None then m(fd \<mapsto> ev) else m)"

definition epoll_mod :: "int \<Rightarrow> u32 \<Rightarrow> (int \<Rightarrow> u32 option) \<Rightarrow> (int \<Rightarrow> u32 option)" where
  "epoll_mod fd ev m = (if m fd = None then m else m(fd \<mapsto> ev))"

definition rc_new :: "int \<Rightarrow> ('h, 't, 'p) reactor" where
  "rc_new efd = \<lparr>rc_event_fd = efd, rc_running = False, rc_handlers = Map.empty,
     rc_interest = epoll_add efd EPOLLIN Map.empty, rc_timers = [], rc_posted = [], rc_signals = 0\<rparr>"

section \<open>Operations\<close>

definition rc_add :: "('h, 't, 'p, 'z) reactor_scheme \<Rightarrow> int \<Rightarrow> u32 \<Rightarrow> 'h \<Rightarrow> ('h, 't, 'p, 'z) reactor_scheme" where
  "rc_add s fd ev h = s\<lparr>rc_handlers := (rc_handlers s)(fd \<mapsto> h), rc_interest := epoll_add fd ev (rc_interest s)\<rparr>"

definition rc_modify :: "('h, 't, 'p, 'z) reactor_scheme \<Rightarrow> int \<Rightarrow> u32 \<Rightarrow> ('h, 't, 'p, 'z) reactor_scheme" where
  "rc_modify s fd ev = s\<lparr>rc_interest := epoll_mod fd ev (rc_interest s)\<rparr>"

definition rc_remove :: "('h, 't, 'p, 'z) reactor_scheme \<Rightarrow> int \<Rightarrow> ('h, 't, 'p, 'z) reactor_scheme" where
  "rc_remove s fd = s\<lparr>rc_handlers := (rc_handlers s)(fd := None), rc_interest := (rc_interest s)(fd := None)\<rparr>"

text \<open>\<open>now\<close> is the reading of the clock, \<open>delay\<close> a number of milliseconds.\<close>

definition rc_add_timer ::
  "int \<Rightarrow> ('h, 't, 'p, 'z) reactor_scheme \<Rightarrow> int \<Rightarrow> 't \<Rightarrow> ('h, 't, 'p, 'z) reactor_scheme" where
  "rc_add_timer now s delay cb = s\<lparr>rc_timers := rc_timers s @ [\<lparr>tm_when = now + delay * 1000000, tm_cb = cb\<rparr>]\<rparr>"

definition rc_post :: "('h, 't, 'p, 'z) reactor_scheme \<Rightarrow> 'p \<Rightarrow> ('h, 't, 'p, 'z) reactor_scheme" where
  "rc_post s cb = s\<lparr>rc_posted := rc_posted s @ [cb], rc_signals := rc_signals s + 1\<rparr>"

definition rc_stop :: "('h, 't, 'p, 'z) reactor_scheme \<Rightarrow> ('h, 't, 'p, 'z) reactor_scheme" where
  "rc_stop s = s\<lparr>rc_running := False\<rparr>"

section \<open>Timers\<close>

text \<open>
  The top of the priority queue is a timer with the least time point. Which one of several is left open
  by the library: \<open>pick\<close> is its choice.
\<close>

definition earliest :: "'t timer list \<Rightarrow> nat list" where
  "earliest ts = filter (\<lambda>i. \<forall>t \<in> set ts. tm_when (ts ! i) \<le> tm_when t) [0..<length ts]"

definition top_index :: "('t timer list \<Rightarrow> nat) \<Rightarrow> 't timer list \<Rightarrow> nat" where
  "top_index pick ts = (let es = earliest ts in es ! (pick ts mod length es))"

definition top_timer :: "('t timer list \<Rightarrow> nat) \<Rightarrow> 't timer list \<Rightarrow> 't timer" where
  "top_timer pick ts = ts ! top_index pick ts"

definition pop_timer :: "('t timer list \<Rightarrow> nat) \<Rightarrow> 't timer list \<Rightarrow> 't timer list" where
  "pop_timer pick ts = take (top_index pick ts) ts @ drop (Suc (top_index pick ts)) ts"

text \<open>
  Firing the timers that are due at \<open>now\<close>: a callback may add timers. The callbacks, run by \<open>run\<close>, may
  throw (\<^const>\<open>Inl\<close>) or not return.
\<close>

partial_function (option) fire_timers ::
  "('t timer list \<Rightarrow> nat) \<Rightarrow> ('t \<Rightarrow> ('h, 't, 'p, 'z) reactor_scheme \<Rightarrow> ('e + ('h, 't, 'p, 'z) reactor_scheme) option)
   \<Rightarrow> int \<Rightarrow> ('h, 't, 'p, 'z) reactor_scheme \<Rightarrow> ('e + ('h, 't, 'p, 'z) reactor_scheme) option" where
  "fire_timers pick run now s =
     (let ts = rc_timers s in
      if ts = [] \<or> now < tm_when (top_timer pick ts) then Some (Inr s)
      else Option.bind (run (tm_cb (top_timer pick ts)) (s\<lparr>rc_timers := pop_timer pick ts\<rparr>))
        (\<lambda>r. case r of Inl e \<Rightarrow> Some (Inl e) | Inr s' \<Rightarrow> fire_timers pick run now s'))"

text \<open>
  How long \<^verbatim>\<open>poll\<close> lets the kernel wait: the time to the first timer in milliseconds (a duration
  is cut towards zero) as an \<^verbatim>\<open>int\<close>, or the timeout given, whichever is less.
\<close>

definition poll_timeout :: "('t timer list \<Rightarrow> nat) \<Rightarrow> int \<Rightarrow> int \<Rightarrow> 't timer list \<Rightarrow> int" where
  "poll_timeout pick now timeout ts =
     (if ts = [] then timeout
      else let left = tm_when (top_timer pick ts) - now;
               ms = sgn left * (\<bar>left\<bar> div 1000000);
               t = to_i32 (max 0 ms) in
        if timeout < 0 \<or> t < timeout then t else timeout)"

section \<open>One round\<close>

text \<open>The posted callbacks are taken out together; what they post is left for the next round.\<close>

fun run_posted ::
  "('p \<Rightarrow> ('h, 't, 'p, 'z) reactor_scheme \<Rightarrow> ('e + ('h, 't, 'p, 'z) reactor_scheme) option)
   \<Rightarrow> 'p list \<Rightarrow> ('h, 't, 'p, 'z) reactor_scheme \<Rightarrow> ('e + ('h, 't, 'p, 'z) reactor_scheme) option" where
  "run_posted run [] s = Some (Inr s)"
| "run_posted run (p # ps) s =
     (case run p s of None \<Rightarrow> None | Some (Inl e) \<Rightarrow> Some (Inl e) | Some (Inr s') \<Rightarrow> run_posted run ps s')"

text \<open>
  The events of a round: descriptor, reported bits, and what the system calls of its handler will
  return (\<open>'i\<close>). A descriptor without a handler is skipped.
\<close>

fun handle_events ::
  "('h \<Rightarrow> int \<Rightarrow> u32 \<Rightarrow> 'i \<Rightarrow> ('h, 't, 'p, 'z) reactor_scheme \<Rightarrow> ('e + ('h, 't, 'p, 'z) reactor_scheme) option)
   \<Rightarrow> ('p \<Rightarrow> ('h, 't, 'p, 'z) reactor_scheme \<Rightarrow> ('e + ('h, 't, 'p, 'z) reactor_scheme) option)
   \<Rightarrow> (int \<times> u32 \<times> 'i) list \<Rightarrow> ('h, 't, 'p, 'z) reactor_scheme \<Rightarrow> ('e + ('h, 't, 'p, 'z) reactor_scheme) option" where
  "handle_events handle runp [] s = Some (Inr s)"
| "handle_events handle runp ((fd, ev, inp) # es) s =
     (case (if fd = rc_event_fd s then run_posted runp (rc_posted s) (s\<lparr>rc_posted := [], rc_signals := 0\<rparr>)
            else case rc_handlers s fd of None \<Rightarrow> Some (Inr s) | Some h \<Rightarrow> handle h fd ev inp s) of
        None \<Rightarrow> None
      | Some (Inl e) \<Rightarrow> Some (Inl e)
      | Some (Inr s') \<Rightarrow> handle_events handle runp es s')"

text \<open>\<^verbatim>\<open>poll\<close> after the kernel has reported \<open>es\<close>; the clock reads \<open>now\<close>.\<close>

definition rc_poll ::
  "('t timer list \<Rightarrow> nat) \<Rightarrow> ('t \<Rightarrow> ('h, 't, 'p, 'z) reactor_scheme \<Rightarrow> ('e + ('h, 't, 'p, 'z) reactor_scheme) option)
   \<Rightarrow> ('h \<Rightarrow> int \<Rightarrow> u32 \<Rightarrow> 'i \<Rightarrow> ('h, 't, 'p, 'z) reactor_scheme \<Rightarrow> ('e + ('h, 't, 'p, 'z) reactor_scheme) option)
   \<Rightarrow> ('p \<Rightarrow> ('h, 't, 'p, 'z) reactor_scheme \<Rightarrow> ('e + ('h, 't, 'p, 'z) reactor_scheme) option)
   \<Rightarrow> int \<Rightarrow> (int \<times> u32 \<times> 'i) list \<Rightarrow> ('h, 't, 'p, 'z) reactor_scheme \<Rightarrow> ('e + ('h, 't, 'p, 'z) reactor_scheme) option" where
  "rc_poll pick run handle runp now es s =
     Option.bind (fire_timers pick run now s)
       (\<lambda>r. case r of Inl e \<Rightarrow> Some (Inl e) | Inr s' \<Rightarrow> handle_events handle runp es s')"

end
