(* ===== verification/Config.thy ===== *)
theory Config
  imports Cxx_Numbers
begin

text \<open>
  The settings of \<^verbatim>\<open>src/config/config.hpp\<close>, read from a file and from the command line by
  \<^verbatim>\<open>src/config/config.cpp\<close> and \<^verbatim>\<open>src/main.cpp\<close>, with the exceptions of the
  conversions, and what the two readings amount to.
\<close>

section \<open>Settings\<close>

record config =
  cf_port :: int
  cf_threads :: nat
  cf_interval :: int
  cf_rdb :: string
  cf_max_conns :: nat

definition default_config :: config where
  "default_config = \<lparr>cf_port = 6379, cf_threads = 4, cf_interval = 300, cf_rdb = ''fastgraph.rdb'', cf_max_conns = 10000\<rparr>"

text \<open>\<^verbatim>\<open>std::stoul\<close>: a negative number is accepted and taken modulo \<open>2 ^ 64\<close>.\<close>

definition stoul :: "string \<Rightarrow> cxx_exn + nat" where
  "stoul s =
     (if \<not> starts_number s then Inl (InvalidArgument ''stoul'')
      else if 2 ^ 64 \<le> \<bar>signed_dec s\<bar> then Inl (OutOfRange ''stoul'')
      else Inr (to_u64 (signed_dec s)))"

section \<open>The file\<close>

text \<open>\<^verbatim>\<open>std::getline\<close> until the end of the file: a line feed at the end starts no further line.\<close>

fun getlines :: "string \<Rightarrow> string \<Rightarrow> string list" where
  "getlines acc [] = (if acc = [] then [] else [acc])"
| "getlines acc (c # cs) = (if c = CHR 0x0A then acc # getlines [] cs else getlines (acc @ [c]) cs)"

text \<open>\<^verbatim>\<open>ss >> word\<close>: the next word and what follows it, if there is one.\<close>

definition next_word :: "string \<Rightarrow> (string \<times> string) option" where
  "next_word s =
     (let t = dropWhile is_space s in
      if t = [] then None else Some (takeWhile (\<lambda>c. \<not> is_space c) t, dropWhile (\<lambda>c. \<not> is_space c) t))"

definition two_words :: "string \<Rightarrow> (string \<times> string) option" where
  "two_words line =
     (case next_word line of None \<Rightarrow> None
      | Some (key, s) \<Rightarrow> (case next_word s of None \<Rightarrow> None | Some (val, _) \<Rightarrow> Some (key, val)))"

definition config_entry :: "config \<Rightarrow> string \<Rightarrow> string \<Rightarrow> cxx_exn + config" where
  "config_entry cfg key val =
     (if key = ''port'' then map_sum id (\<lambda>n. cfg\<lparr>cf_port := n\<rparr>) (stoi val)
      else if key = ''threads'' then map_sum id (\<lambda>n. cfg\<lparr>cf_threads := n\<rparr>) (stoul val)
      else if key = ''snapshot_interval'' then map_sum id (\<lambda>n. cfg\<lparr>cf_interval := n\<rparr>) (stoi val)
      else if key = ''rdb_path'' then Inr (cfg\<lparr>cf_rdb := val\<rparr>)
      else if key = ''max_connections'' then map_sum id (\<lambda>n. cfg\<lparr>cf_max_conns := n\<rparr>) (stoul val)
      else Inr cfg)"

fun config_lines :: "config \<Rightarrow> string list \<Rightarrow> cxx_exn + config" where
  "config_lines cfg [] = Inr cfg"
| "config_lines cfg (line # lines) =
     (if line = [] \<or> line ! 0 = CHR ''#'' then config_lines cfg lines
      else case two_words line of
          None \<Rightarrow> config_lines cfg lines
        | Some (key, val) \<Rightarrow>
            (case config_entry cfg key val of Inl e \<Rightarrow> Inl e | Inr cfg' \<Rightarrow> config_lines cfg' lines))"

text \<open>The contents of the file, \<^const>\<open>None\<close> when it cannot be opened.\<close>

definition from_file :: "string option \<Rightarrow> cxx_exn + config" where
  "from_file contents =
     (case contents of None \<Rightarrow> Inr default_config | Some text \<Rightarrow> config_lines default_config (getlines [] text))"

section \<open>The command line\<close>

text \<open>The loop from an index on, over the arguments from there.\<close>

fun args_loop :: "config \<Rightarrow> string list \<Rightarrow> cxx_exn + config" where
  "args_loop cfg (key # val # argv) =
     (if key = ''--port'' then
        (case stoi val of Inl e \<Rightarrow> Inl e | Inr n \<Rightarrow> args_loop (cfg\<lparr>cf_port := n\<rparr>) argv)
      else if key = ''--threads'' then
        (case stoul val of Inl e \<Rightarrow> Inl e | Inr n \<Rightarrow> args_loop (cfg\<lparr>cf_threads := n\<rparr>) argv)
      else if key = ''--rdb'' then args_loop (cfg\<lparr>cf_rdb := val\<rparr>) argv
      else args_loop cfg (val # argv))"
| "args_loop cfg _ = Inr cfg"

definition apply_args :: "config \<Rightarrow> string list \<Rightarrow> cxx_exn + config" where
  "apply_args cfg argv = args_loop cfg (drop 1 argv)"

fun config_path :: "string \<Rightarrow> string list \<Rightarrow> string" where
  "config_path path0 (a # p # argv) = (if a = ''--config'' then config_path p argv else config_path path0 (p # argv))"
| "config_path path0 _ = path0"

text \<open>What \<^verbatim>\<open>main\<close> hands to the server; \<open>disk\<close> gives the contents of a file.\<close>

definition startup_config :: "(string \<Rightarrow> string option) \<Rightarrow> string list \<Rightarrow> cxx_exn + config" where
  "startup_config disk argv =
     (case from_file (disk (config_path ''config.conf'' (drop 1 argv))) of
        Inl e \<Rightarrow> Inl e
      | Inr cfg \<Rightarrow> apply_args cfg argv)"

section \<open>Lemmas\<close>

lemma stoul_nat_dec: "n < 2 ^ 64 \<Longrightarrow> stoul (nat_dec n) = Inr n"
  using starts_number_int_dec [of "int n"] signed_dec_int_dec [of "int n"]
  by (simp add: stoul_def int_dec_def to_u64_nonneg)

definition no_space :: "string \<Rightarrow> bool" where
  "no_space s \<longleftrightarrow> (\<forall>c \<in> set s. \<not> is_space c)"

lemma no_space_dec: "no_space (int_dec i)" "no_space (nat_dec n)"
  using nat_dec_digits is_digit_not(1) by (auto simp: no_space_def int_dec_def is_space_def)

lemma next_word_append:
  assumes "no_space w" "w \<noteq> []" "s = [] \<or> is_space (hd s)"
  shows "next_word (w @ s) = Some (w, s)"
proof -
  obtain c cs where w: "w = c # cs" using assms(2) by (cases w) auto
  have "takeWhile (\<lambda>c. \<not> is_space c) (w @ s) = w" "dropWhile (\<lambda>c. \<not> is_space c) (w @ s) = s"
    using assms(1,3) by (cases s; simp add: no_space_def takeWhile_append dropWhile_append)+
  then show ?thesis
    using assms(1) by (simp add: next_word_def w no_space_def)
qed

lemma two_words_line:
  assumes "no_space key" "key \<noteq> []" "no_space val" "val \<noteq> []"
  shows "two_words (key @ CHR '' '' # val) = Some (key, val)"
proof -
  have "next_word (key @ CHR '' '' # val) = Some (key, CHR '' '' # val)"
    by (rule next_word_append) (use assms in \<open>simp_all add: is_space_def\<close>)
  moreover have "next_word (CHR '' '' # val) = next_word val"
    by (simp add: next_word_def is_space_def)
  ultimately show ?thesis
    using next_word_append [of val "[]"] assms by (simp add: two_words_def)
qed

lemma getlines_append:
  "CHR 0x0A \<notin> set line \<Longrightarrow> getlines acc (line @ CHR 0x0A # text) = (acc @ line) # getlines [] text"
  by (induction line arbitrary: acc) auto

text \<open>The file that sets every field, and the options of a command line.\<close>

definition entry_line :: "string \<times> string \<Rightarrow> string" where
  "entry_line = (\<lambda>(key, val). key @ CHR '' '' # val @ [CHR 0x0A])"

definition config_text :: "config \<Rightarrow> string" where
  "config_text cfg = concat (map entry_line
     [(''port'', int_dec (cf_port cfg)), (''threads'', nat_dec (cf_threads cfg)),
      (''snapshot_interval'', int_dec (cf_interval cfg)), (''rdb_path'', cf_rdb cfg),
      (''max_connections'', nat_dec (cf_max_conns cfg))])"

fun config_entries :: "config \<Rightarrow> (string \<times> string) list \<Rightarrow> cxx_exn + config" where
  "config_entries cfg [] = Inr cfg"
| "config_entries cfg ((key, val) # es) =
     (case config_entry cfg key val of Inl e \<Rightarrow> Inl e | Inr cfg' \<Rightarrow> config_entries cfg' es)"

datatype setting = Set_Port int | Set_Threads nat | Set_Rdb string

fun setting_args :: "setting \<Rightarrow> string list" where
  "setting_args (Set_Port n) = [''--port'', int_dec n]"
| "setting_args (Set_Threads n) = [''--threads'', nat_dec n]"
| "setting_args (Set_Rdb p) = [''--rdb'', p]"

fun setting_ok :: "setting \<Rightarrow> bool" where
  "setting_ok (Set_Port n) \<longleftrightarrow> - (2 ^ 31) \<le> n \<and> n < 2 ^ 31"
| "setting_ok (Set_Threads n) \<longleftrightarrow> n < 2 ^ 64"
| "setting_ok (Set_Rdb p) \<longleftrightarrow> True"

fun put_setting :: "config \<Rightarrow> setting \<Rightarrow> config" where
  "put_setting cfg (Set_Port n) = cfg\<lparr>cf_port := n\<rparr>"
| "put_setting cfg (Set_Threads n) = cfg\<lparr>cf_threads := n\<rparr>"
| "put_setting cfg (Set_Rdb p) = cfg\<lparr>cf_rdb := p\<rparr>"

lemma no_newline: "no_space s \<Longrightarrow> CHR 0x0A \<notin> set s"
  unfolding no_space_def by (rule notI, drule (1) bspec) (simp add: is_space_def)

lemma config_line:
  assumes "no_space key" "key \<noteq> []" "hd key \<noteq> CHR ''#''" "no_space val" "val \<noteq> []"
  shows "config_lines cfg (getlines [] (entry_line (key, val) @ text)) =
    (case config_entry cfg key val of Inl e \<Rightarrow> Inl e | Inr cfg' \<Rightarrow> config_lines cfg' (getlines [] text))"
proof -
  have "getlines [] (entry_line (key, val) @ text) = (key @ CHR '' '' # val) # getlines [] text"
    using getlines_append [of "key @ CHR '' '' # val" "[]" "text"] no_newline assms(1,4) by (simp add: entry_line_def)
  then show ?thesis
    using two_words_line [OF assms(1,2,4,5)] assms(2,3) by (simp add: nth_append hd_conv_nth)
qed

lemma config_lines_entries:
  "\<forall>(key, val) \<in> set es. no_space key \<and> key \<noteq> [] \<and> hd key \<noteq> CHR ''#'' \<and> no_space val \<and> val \<noteq> [] \<Longrightarrow>
    config_lines cfg (getlines [] (concat (map entry_line es))) = config_entries cfg es"
proof (induction es arbitrary: cfg)
  case (Cons e es)
  obtain key val where "e = (key, val)" by fastforce
  with Cons config_line [of key val cfg "concat (map entry_line es)"] show ?case
    by (auto split: sum.splits)
qed simp

lemma setting_names: "no_space ''port''" "no_space ''threads''" "no_space ''snapshot_interval''" "no_space ''rdb_path''"
  "no_space ''max_connections''"
  by (simp_all add: no_space_def is_space_def)

lemma int_dec_ne [simp]: "int_dec i \<noteq> []"
  by (simp add: int_dec_def)

lemma args_settings:
  "\<forall>x \<in> set xs. setting_ok x \<Longrightarrow> args_loop cfg (concat (map setting_args xs)) = Inr (foldl put_setting cfg xs)"
proof (induction xs arbitrary: cfg)
  case (Cons x xs)
  then show ?case by (cases x) (simp_all add: stoi_int_dec stoul_nat_dec)
qed simp

lemma int_dec_no_option: "int_dec i \<noteq> CHR ''-'' # CHR ''-'' # s" "nat_dec n \<noteq> CHR ''-'' # s"
proof -
  have "CHR ''-'' \<notin> set (nat_dec n)" for n
    using nat_dec_digits [of n] is_digit_not(2) by blast
  then show "nat_dec n \<noteq> CHR ''-'' # s" "int_dec i \<noteq> CHR ''-'' # CHR ''-'' # s"
    by (metis list.set_intros(1), metis int_dec_def list.inject list.set_intros(1))
qed

lemma config_path_skip: "a \<noteq> ''--config'' \<Longrightarrow> config_path path0 (a # argv) = config_path path0 argv"
  by (cases argv) simp_all

lemma config_path_settings:
  "\<forall>x \<in> set xs. setting_ok x \<and> x \<noteq> Set_Rdb ''--config'' \<Longrightarrow> config_path path0 (concat (map setting_args xs)) = path0"
proof (induction xs)
  case (Cons x xs)
  obtain a v where x: "setting_args x = [a, v]" "a \<noteq> ''--config''" "v \<noteq> ''--config''"
    using Cons.prems int_dec_no_option by (cases x) auto
  have "config_path path0 (v # concat (map setting_args xs)) = path0"
    using config_path_skip [OF x(3)] Cons by simp
  then show ?case using x by simp
qed simp

text \<open>The name of the settings file is looked at as a key, too.\<close>

lemma args_settings_after:
  assumes "\<forall>x \<in> set xs. setting_ok x \<and> x \<noteq> Set_Rdb ''--config''" "p \<notin> {''--port'', ''--threads'', ''--rdb''}"
  shows "args_loop cfg (''--config'' # p # concat (map setting_args xs)) = Inr (foldl put_setting cfg xs)"
proof -
  have "args_loop cfg (p # concat (map setting_args xs)) = args_loop cfg (concat (map setting_args xs))"
    using assms(2) by (cases "concat (map setting_args xs)") (simp_all only: args_loop.simps insert_iff de_Morgan_disj if_False)
  then show ?thesis
    using args_settings [of xs cfg] assms(1) by simp
qed

section \<open>Properties\<close>

text \<open>
  C40. A file that gives every setting, one per line, is read back as those settings.
\<close>

theorem config_file_roundtrip:
  assumes "- (2 ^ 31) \<le> cf_port cfg" "cf_port cfg < 2 ^ 31" "- (2 ^ 31) \<le> cf_interval cfg" "cf_interval cfg < 2 ^ 31"
    "cf_threads cfg < 2 ^ 64" "cf_max_conns cfg < 2 ^ 64" "cf_rdb cfg \<noteq> []" "no_space (cf_rdb cfg)"
  shows "from_file (Some (config_text cfg)) = Inr cfg"
  using assms setting_names
  by (simp add: from_file_def config_text_def config_lines_entries no_space_dec config_entry_def stoi_int_dec
      stoul_nat_dec del: concat.simps list.map)

theorem config_file_roundtrip_witness:
  "from_file (Some (config_text (default_config\<lparr>cf_port := -1, cf_rdb := ''x''\<rparr>))) =
    Inr (default_config\<lparr>cf_port := -1, cf_rdb := ''x''\<rparr>)"
  by (rule config_file_roundtrip) (simp_all add: default_config_def no_space_def is_space_def)

text \<open>
  The options of the command line override the settings of the file, the last one of a kind winning;
  they are applied in order.
\<close>

theorem options_override_file:
  assumes "\<forall>x \<in> set xs. setting_ok x \<and> x \<noteq> Set_Rdb ''--config''" "p \<notin> {''--port'', ''--threads'', ''--rdb''}"
    "from_file (disk p) = Inr cfg"
  shows "startup_config disk (prog # ''--config'' # p # concat (map setting_args xs)) = Inr (foldl put_setting cfg xs)"
  using assms config_path_settings [of xs p] args_settings_after [of xs p cfg]
  by (simp add: startup_config_def apply_args_def)

theorem options_override_file_witness:
  "startup_config (\<lambda>_. None) [''fastgraph'', ''--config'', ''c'', ''--port'', ''1'', ''--port'', ''2''] =
    Inr (default_config\<lparr>cf_port := 2\<rparr>)"
proof -
  have "int_dec 1 = ''1''" "int_dec 2 = ''2''" by code_simp+
  then show ?thesis
    using options_override_file [of "[Set_Port 1, Set_Port 2]" "''c''" "\<lambda>_. None" default_config "''fastgraph''"]
    by (simp add: from_file_def)
qed

end
