(* ===== verification/Server.thy ===== *)
theory Server
  imports Dispatcher Reactor Config
begin

text \<open>
  The server of \<^verbatim>\<open>src/net/server.cpp\<close> (class \<^verbatim>\<open>Server\<close>) and the connections of
  \<^verbatim>\<open>src/net/conn.hpp\<close>. The server is a reactor extended with the database, the connections and
  the queue of the thread pool; the closures it registers are the constructors of two datatypes.
\<close>

section \<open>Connections\<close>

datatype conn_state = Reading | Writing | Closing

record conn =
  cn_fd :: int
  cn_state :: conn_state
  cn_read_buf :: string
  cn_write_buf :: string
  cn_write_offset :: nat
  cn_args :: "string list"

definition conn_new :: "int \<Rightarrow> conn" where
  "conn_new fd = \<lparr>cn_fd = fd, cn_state = Reading, cn_read_buf = [], cn_write_buf = [], cn_write_offset = 0, cn_args = []\<rparr>"

text \<open>
  How the process ends other than by returning: an exception that nobody catches, or the signal that the
  kernel sends to a process that writes to a connection closed by the peer (it is not ignored).
\<close>

datatype crash = Uncaught cxx_exn | Runtime_Error string | Broken_Pipe

text \<open>
  What \<^verbatim>\<open>read\<close> returns: bytes (none at the end of the stream), that there are none now, or
  another error. What \<^verbatim>\<open>write\<close> does: it takes at most so many bytes (at least one), would
  block, fails, or raises the signal. A call past the end of a list of results would block.
\<close>

datatype read_result = Bytes string | Read_Again | Read_Fails
datatype write_result = Takes nat | Write_Again | Write_Fails | Peer_Gone

section \<open>Reading\<close>

text \<open>The loop of \<^verbatim>\<open>do_read\<close>; \<^const>\<open>True\<close> when it is left to parse.\<close>

fun read_loop :: "conn \<Rightarrow> read_result list \<Rightarrow> conn \<times> bool" where
  "read_loop c [] = (c, True)"
| "read_loop c (Bytes s # rs) =
     (if s = [] then (c\<lparr>cn_state := Closing\<rparr>, False) else read_loop (c\<lparr>cn_read_buf := cn_read_buf c @ s\<rparr>) rs)"
| "read_loop c (Read_Again # rs) = (c, True)"
| "read_loop c (Read_Fails # rs) = (c\<lparr>cn_state := Closing\<rparr>, False)"

text \<open>
  The loop of \<^verbatim>\<open>try_parse\<close>: the commands in the buffer are dispatched one after the other, the
  \<open>n\<close>-th call meeting the environment \<open>envs n\<close>. The branch that hands a command to the thread pool is
  switched off in the code (\<^verbatim>\<open>heavy\<close> is false).
\<close>

partial_function (option) parse_loop ::
  "(nat \<Rightarrow> call_env) \<Rightarrow> nat \<Rightarrow> conn \<Rightarrow> database \<Rightarrow> (crash + nat \<times> conn \<times> database) option" where
  "parse_loop envs n c db =
     (case parse (cn_read_buf c) [] of
        (r, buf, args) \<Rightarrow>
          let c1 = c\<lparr>cn_read_buf := buf, cn_args := args\<rparr> in
          if r = Incomplete then Some (Inr (n, c1, db))
          else if r = Error then
            Some (Inr (n, c1\<lparr>cn_write_buf := cn_write_buf c @ error_reply ''protocol error'', cn_state := Closing\<rparr>, db))
          else case dispatch (envs n) db args of
            Undefined \<Rightarrow> None
          | Throws e \<Rightarrow> Some (Inl (Uncaught e))
          | Returns (reply, db') \<Rightarrow>
              parse_loop envs (Suc n) (c1\<lparr>cn_write_buf := cn_write_buf c @ reply\<rparr>) db')"

section \<open>Writing\<close>

datatype write_end = All_Written | Write_Left

text \<open>
  The loop of \<^verbatim>\<open>do_write\<close>: the bytes the kernel took, the connection, and whether the loop was
  left by its condition.
\<close>

fun write_loop :: "conn \<Rightarrow> write_result list \<Rightarrow> crash + (string \<times> conn \<times> write_end)" where
  "write_loop c ws =
     (if length (cn_write_buf c) \<le> cn_write_offset c then Inr ([], c, All_Written)
      else case ws of
        [] \<Rightarrow> Inr ([], c, Write_Left)
      | Write_Again # _ \<Rightarrow> Inr ([], c, Write_Left)
      | Write_Fails # _ \<Rightarrow> Inr ([], c\<lparr>cn_state := Closing\<rparr>, Write_Left)
      | Peer_Gone # _ \<Rightarrow> Inl Broken_Pipe
      | Takes k # ws' \<Rightarrow>
          let chunk = take (max 1 k) (drop (cn_write_offset c) (cn_write_buf c));
              off = cn_write_offset c + length chunk;
              c1 = (if off = length (cn_write_buf c) then c\<lparr>cn_write_buf := [], cn_write_offset := 0\<rparr>
                    else c\<lparr>cn_write_offset := off\<rparr>) in
          map_sum id (map_prod ((@) chunk) id) (write_loop c1 ws'))"

declare write_loop.simps [simp del]

section \<open>The server\<close>

datatype handler = On_Accept | On_Io
datatype timer_job = Tick | Snapshot
datatype pool_job = Save_Job

record server = "(handler, timer_job, unit) reactor" +
  sv_listen :: int
  sv_interval :: int
  sv_db :: database
  sv_conns :: "int \<Rightarrow> conn option"
  sv_jobs :: "pool_job list"
  sv_calls :: nat
  sv_sent :: "(int \<times> string) list"

text \<open>
  What the server meets: the environment of each call, the reading of the steady clock in nanoseconds
  at each call, and the choice among timers with the same time. \<open>sv_calls\<close> counts the calls.
\<close>

record surroundings =
  sr_envs :: "nat \<Rightarrow> call_env"
  sr_nanos :: "nat \<Rightarrow> int"
  sr_pick :: "timer_job timer list \<Rightarrow> nat"

text \<open>What the system calls in the handler of an event return.\<close>

record io_results =
  io_reads :: "read_result list"
  io_writes :: "write_result list"
  io_accepts :: "int list"

type_synonym served = "(crash + server) option"

definition put_conn :: "server \<Rightarrow> conn \<Rightarrow> server" where
  "put_conn s c = s\<lparr>sv_conns := (sv_conns s)(cn_fd c \<mapsto> c)\<rparr>"

fun accept_all :: "int list \<Rightarrow> server \<Rightarrow> server" where
  "accept_all [] s = s"
| "accept_all (fd # fds) s =
     (if fd < 0 then s
      else accept_all fds (rc_add (put_conn s (conn_new fd)) fd EPOLLIN On_Io))"

text \<open>The end of \<^verbatim>\<open>try_parse\<close>: unsent bytes ask for the event of a writable descriptor.\<close>

definition announce_writes :: "server \<Rightarrow> conn \<Rightarrow> server \<times> conn" where
  "announce_writes s c =
     (if cn_write_offset c < length (cn_write_buf c)
      then (rc_modify s (cn_fd c) (EPOLLIN OR EPOLLOUT), c\<lparr>cn_state := Writing\<rparr>)
      else (s, c))"

definition try_parse :: "surroundings \<Rightarrow> server \<Rightarrow> conn \<Rightarrow> (crash + server \<times> conn) option" where
  "try_parse sr s c =
     map_option (map_sum id (\<lambda>(n, c', db). announce_writes (s\<lparr>sv_db := db, sv_calls := n\<rparr>) c'))
       (parse_loop (sr_envs sr) (sv_calls s) c (sv_db s))"

definition do_read :: "surroundings \<Rightarrow> read_result list \<Rightarrow> server \<Rightarrow> conn \<Rightarrow> (crash + server \<times> conn) option" where
  "do_read sr reads s c =
     (case read_loop c reads of (c', go) \<Rightarrow> if go then try_parse sr s c' else Some (Inr (s, c')))"

definition do_write :: "write_result list \<Rightarrow> server \<Rightarrow> conn \<Rightarrow> crash + server \<times> conn" where
  "do_write writes s c =
     (case write_loop c writes of
        Inl e \<Rightarrow> Inl e
      | Inr (bytes, c', end) \<Rightarrow>
          let s' = s\<lparr>sv_sent := sv_sent s @ [(cn_fd c, bytes)]\<rparr> in
          if end = All_Written \<and> cn_state c' \<noteq> Closing
          then Inr (rc_modify s' (cn_fd c) EPOLLIN, c'\<lparr>cn_state := Reading\<rparr>)
          else Inr (s', c'))"

definition close_conn :: "server \<Rightarrow> conn \<Rightarrow> server" where
  "close_conn s c = (let s' = rc_remove s (cn_fd c) in s'\<lparr>sv_conns := (sv_conns s')(cn_fd c := None)\<rparr>)"

definition finish_io :: "server \<Rightarrow> conn \<Rightarrow> server" where
  "finish_io s c = (if cn_state c = Closing then close_conn s c else put_conn s c)"

definition on_io :: "surroundings \<Rightarrow> int \<Rightarrow> u32 \<Rightarrow> io_results \<Rightarrow> server \<Rightarrow> served" where
  "on_io sr fd events io s =
     (case sv_conns s fd of
        None \<Rightarrow> Some (Inr s)
      | Some c \<Rightarrow>
          (case (if events AND EPOLLIN \<noteq> 0 then do_read sr (io_reads io) s c else Some (Inr (s, c))) of
             None \<Rightarrow> None
           | Some (Inl e) \<Rightarrow> Some (Inl e)
           | Some (Inr (s1, c1)) \<Rightarrow>
               (case (if events AND EPOLLOUT \<noteq> 0 then do_write (io_writes io) s1 c1 else Inr (s1, c1)) of
                  Inl e \<Rightarrow> Some (Inl e)
                | Inr (s2, c2) \<Rightarrow> Some (Inr (finish_io s2 c2)))))"

fun run_handler :: "surroundings \<Rightarrow> handler \<Rightarrow> int \<Rightarrow> u32 \<Rightarrow> io_results \<Rightarrow> server \<Rightarrow> served" where
  "run_handler sr On_Accept fd events io s = Some (Inr (accept_all (io_accepts io) s))"
| "run_handler sr On_Io fd events io s = on_io sr fd events io s"

section \<open>Timers and start\<close>

definition server_add_timer :: "surroundings \<Rightarrow> server \<Rightarrow> int \<Rightarrow> timer_job \<Rightarrow> server" where
  "server_add_timer sr s delay job =
     (rc_add_timer (sr_nanos sr (sv_calls s)) s delay job)\<lparr>sv_calls := Suc (sv_calls s)\<rparr>"

definition schedule_tick :: "surroundings \<Rightarrow> server \<Rightarrow> server" where
  "schedule_tick sr s = server_add_timer sr s 100 Tick"

text \<open>
  The callbacks of the timers: the tick of the engine, and the job handed to the thread pool (whose
  constructor has checked that it has threads and which is never stopped while the server runs).
\<close>

fun run_timer :: "surroundings \<Rightarrow> timer_job \<Rightarrow> server \<Rightarrow> served" where
  "run_timer sr Tick s =
     map_option (\<lambda>kv. Inr (schedule_tick sr (s\<lparr>sv_db := (sv_db s)\<lparr>db_kv := kv\<rparr>, sv_calls := Suc (sv_calls s)\<rparr>)))
       (kv_tick (ce_now (sr_envs sr (sv_calls s))) (db_kv (sv_db s)))"
| "run_timer sr Snapshot s =
     Some (Inr (server_add_timer sr (s\<lparr>sv_jobs := sv_jobs s @ [Save_Job]\<rparr>) (sv_interval s) Snapshot))"

text \<open>
  The constructor and \<^verbatim>\<open>start\<close> up to the loop, with the descriptors that the system hands out. The
  interval is the product of two numbers of type \<^verbatim>\<open>int\<close>; out of range it is undefined.
\<close>

definition server_new :: "config \<Rightarrow> files \<Rightarrow> int \<Rightarrow> crash + server" where
  "server_new cfg fs event_fd =
     (if cf_threads cfg = 0 then Inl (Runtime_Error ''need at least 1 thread'')
      else Inr (reactor.extend (rc_new event_fd)
        \<lparr>sv_listen = -1, sv_interval = 0, sv_db = db_new (cf_rdb cfg) fs, sv_conns = Map.empty, sv_jobs = [],
         sv_calls = 0, sv_sent = []\<rparr>))"

definition server_load :: "surroundings \<Rightarrow> server \<Rightarrow> server option" where
  "server_load sr s =
     (let db = sv_db s; env = sr_envs sr (sv_calls s) in
      map_option (\<lambda>(ok, kv, E). s\<lparr>sv_db := db\<lparr>db_kv := kv, db_graph := E\<rparr>, sv_calls := Suc (sv_calls s)\<rparr>)
        (ps_load (ce_junk env) (ce_clk env) (db_files db) (db_persist db) (db_kv db) (db_graph db)))"

definition server_start :: "surroundings \<Rightarrow> config \<Rightarrow> int \<Rightarrow> server \<Rightarrow> server option" where
  "server_start sr cfg listen_fd s0 =
     Option.bind (server_load sr s0) (\<lambda>s.
       let interval = cf_interval cfg * 1000;
           s1 = schedule_tick sr (rc_add (s\<lparr>sv_listen := listen_fd\<rparr>) listen_fd EPOLLIN On_Accept) in
       if interval < - (2 ^ 31) \<or> 2 ^ 31 \<le> interval then None
       else Some ((server_add_timer sr (s1\<lparr>sv_interval := interval\<rparr>) interval Snapshot)\<lparr>rc_running := True\<rparr>))"

text \<open>One round of the event loop.\<close>

definition server_poll :: "surroundings \<Rightarrow> int \<Rightarrow> (int \<times> u32 \<times> io_results) list \<Rightarrow> server \<Rightarrow> served" where
  "server_poll sr now es s = rc_poll (sr_pick sr) (run_timer sr) (run_handler sr) (\<lambda>_ s. Some (Inr s)) now es s"

end
