(* ===== verification/Reactor_Proofs.thy ===== *)
theory Reactor_Proofs
  imports Reactor
begin

text \<open>
  The timers of the event loop: the choice of the queue is always a timer with the least time, and the
  contract under which firing the timers returns and leaves each of them armed for later.
\<close>

section \<open>The queue\<close>

lemma least_timer_exists: "ts \<noteq> [] \<Longrightarrow> \<exists>t \<in> set ts. \<forall>u \<in> set ts. tm_when t \<le> tm_when u"
  using ex_min_if_finite [of "tm_when ` set ts"]
  by (metis (no_types, lifting) List.finite_set finite_imageI image_iff image_is_empty not_le set_empty)

lemma earliest_ne: "ts \<noteq> [] \<Longrightarrow> earliest ts \<noteq> []"
  using least_timer_exists [of ts] by (fastforce simp: earliest_def filter_empty_conv in_set_conv_nth)

lemma top_index_ok:
  assumes "ts \<noteq> []"
  shows "top_index pick ts < length ts" "\<forall>t \<in> set ts. tm_when (top_timer pick ts) \<le> tm_when t"
proof -
  have "top_index pick ts \<in> set (earliest ts)"
    using earliest_ne [OF assms] by (simp add: top_index_def Let_def)
  then show "top_index pick ts < length ts" "\<forall>t \<in> set ts. tm_when (top_timer pick ts) \<le> tm_when t"
    by (auto simp: earliest_def top_timer_def)
qed

lemma pop_timer_mset:
  assumes "ts \<noteq> []"
  shows "mset ts = {#top_timer pick ts#} + mset (pop_timer pick ts)"
proof -
  let ?i = "top_index pick ts"
  have "ts = take ?i ts @ ts ! ?i # drop (Suc ?i) ts"
    using top_index_ok(1) [OF assms] by (simp add: id_take_nth_drop [symmetric])
  then have "mset ts = mset (take ?i ts @ ts ! ?i # drop (Suc ?i) ts)" by simp
  then show ?thesis by (simp add: pop_timer_def top_timer_def)
qed

lemma pop_timer_set: "ts \<noteq> [] \<Longrightarrow> set ts = insert (top_timer pick ts) (set (pop_timer pick ts))"
  using arg_cong [OF pop_timer_mset, of ts set_mset pick] by simp

section \<open>Firing\<close>

lemma fire_none:
  assumes "\<forall>t \<in> set (rc_timers s). now < tm_when t"
  shows "fire_timers pick run now s = Some (Inr s)"
proof -
  have "now < tm_when (top_timer pick (rc_timers s))" if "rc_timers s \<noteq> []"
    using top_index_ok(1) [OF that] assms by (simp add: top_timer_def)
  then show ?thesis by (subst fire_timers.simps) (auto simp: Let_def)
qed

text \<open>
  The contract of a client whose callbacks arm themselves again for a time after \<open>now\<close> and keep \<open>ok\<close>,
  which does not look at the timers.
\<close>

locale timer_client =
  fixes run :: "'t \<Rightarrow> ('h, 't, 'p, 'z) reactor_scheme \<Rightarrow> ('e + ('h, 't, 'p, 'z) reactor_scheme) option"
    and now :: int
    and ok :: "('h, 't, 'p, 'z) reactor_scheme \<Rightarrow> bool"
  assumes rearms: "ok s \<Longrightarrow>
      \<exists>s' t. run cb s = Some (Inr s') \<and> ok s' \<and> rc_timers s' = rc_timers s @ [t] \<and> tm_cb t = cb \<and> now < tm_when t"
    and timers_free: "ok s \<Longrightarrow> ok (s\<lparr>rc_timers := ts\<rparr>)"
begin

lemma fire_returns:
  assumes "ok s"
  shows "\<exists>s'. fire_timers pick run now s = Some (Inr s') \<and> ok s' \<and> (\<forall>t \<in> set (rc_timers s'). now < tm_when t) \<and>
    image_mset tm_cb (mset (rc_timers s')) = image_mset tm_cb (mset (rc_timers s))"
  using assms
proof (induction "size (filter_mset (\<lambda>t. tm_when t \<le> now) (mset (rc_timers s)))" arbitrary: s rule: less_induct)
  case (less s)
  show ?case
  proof (cases "rc_timers s = [] \<or> now < tm_when (top_timer pick (rc_timers s))")
    case True
    then have "\<forall>t \<in> set (rc_timers s). now < tm_when t"
      using top_index_ok(2) [of "rc_timers s" pick] by fastforce
    then show ?thesis
      using True less.prems by (subst fire_timers.simps) (simp add: Let_def)
  next
    case False
    let ?t = "top_timer pick (rc_timers s)" and ?s = "s\<lparr>rc_timers := pop_timer pick (rc_timers s)\<rparr>"
    obtain s1 u where s1: "run (tm_cb ?t) ?s = Some (Inr s1)" "ok s1"
      "rc_timers s1 = rc_timers ?s @ [u]" "tm_cb u = tm_cb ?t" "now < tm_when u"
      using rearms [OF timers_free [OF less.prems]] by blast
    have m: "mset (rc_timers s) = {#?t#} + mset (pop_timer pick (rc_timers s))"
      by (rule pop_timer_mset) (use False in simp)
    have "size (filter_mset (\<lambda>t. tm_when t \<le> now) (mset (rc_timers s1)))
        < size (filter_mset (\<lambda>t. tm_when t \<le> now) (mset (rc_timers s)))"
      using False s1(3,5) unfolding m by simp
    from less.hyps [OF this s1(2)] show ?thesis
      using False s1 m by (subst fire_timers.simps) (auto simp: Let_def)
  qed
qed

end

text \<open>What holds after firing, whenever it returns: an invariant that every callback keeps.\<close>

lemma fire_timers_keeps:
  assumes "fire_timers pick run now s = Some r" "r = Inr s'"
    and step: "\<And>s cb s'. P s \<Longrightarrow> run cb s = Some (Inr s') \<Longrightarrow>
      P s' \<and> image_mset tm_cb (mset (rc_timers s')) = image_mset tm_cb (mset (rc_timers s)) + {#cb#}"
    and frame: "\<And>s ts. P s \<Longrightarrow> P (s\<lparr>rc_timers := ts\<rparr>)"
    and "P s"
  shows "P s' \<and> image_mset tm_cb (mset (rc_timers s')) = image_mset tm_cb (mset (rc_timers s))"
proof -
  let ?cbs = "\<lambda>s. image_mset tm_cb (mset (rc_timers s))"
  have "run = run' \<longrightarrow> (\<forall>s'. r = Inr s' \<longrightarrow> P s \<longrightarrow> P s' \<and> ?cbs s' = ?cbs s)" if "fire_timers pick run' now s = Some r"
    for pick run' now s r
  proof (rule fire_timers.raw_induct
      [where P = "\<lambda>_ run' _ s r. run = run' \<longrightarrow> (\<forall>s'. r = Inr s' \<longrightarrow> P s \<longrightarrow> P s' \<and> ?cbs s' = ?cbs s)", OF _ that],
      intro impI allI)
    fix go pick run' now s r s'
    assume go: "\<And>pk rn nw x y. go pk rn nw x = Some y \<Longrightarrow>
        run = rn \<longrightarrow> (\<forall>s'. y = Inr s' \<longrightarrow> P x \<longrightarrow> P s' \<and> ?cbs s' = ?cbs x)"
      and body: "(let ts = rc_timers s
          in if ts = [] \<or> now < tm_when (top_timer pick ts) then Some (Inr s)
             else Option.bind (run' (tm_cb (top_timer pick ts)) (s\<lparr>rc_timers := pop_timer pick ts\<rparr>))
                   (case_sum (\<lambda>e. Some (Inl e)) (go pick run' now))) = Some r"
      and *: "run = run'" "r = Inr s'" "P s"
    show "P s' \<and> ?cbs s' = ?cbs s"
    proof (cases "rc_timers s = [] \<or> now < tm_when (top_timer pick (rc_timers s))")
      case True
      then show ?thesis using body * by (simp add: Let_def split: if_splits)
    next
      case False
      let ?t = "top_timer pick (rc_timers s)" and ?s = "s\<lparr>rc_timers := pop_timer pick (rc_timers s)\<rparr>"
      obtain y where y: "run (tm_cb ?t) ?s = Some y" "case_sum (\<lambda>e. Some (Inl e)) (go pick run now) y = Some r"
        using body *(1) False unfolding Let_def by (auto simp: bind_eq_Some_conv)
      obtain s1 where s1: "run (tm_cb ?t) ?s = Some (Inr s1)" "go pick run now s1 = Some r"
        by (cases y) (use y *(2) in auto)
      note keep = step [OF frame [OF *(3)] s1(1)]
      from go [OF s1(2)] *(2) keep pop_timer_mset [of "rc_timers s" pick] False show ?thesis by simp
    qed
  qed
  then show ?thesis using assms by blast
qed

end
