(* ===== verification/Dispatcher_Proofs.thy ===== *)
theory Dispatcher_Proofs
  imports Dispatcher
begin

text \<open>
  What a client can rely on: the commands on keys answer as the abstract database does, only three
  commands can throw, and the snapshot commands are never reached.
\<close>

section \<open>Command names\<close>

lemma upper_names [simp]:
  "to_upper ''SET'' = ''SET''" "to_upper ''GET'' = ''GET''" "to_upper ''DEL'' = ''DEL''" "to_upper ''EXISTS'' = ''EXISTS''"
  "to_upper ''PEXPIRE'' = ''PEXPIRE''" "to_upper ''EXPIRE'' = ''EXPIRE''" "to_upper ''PERSIST'' = ''PERSIST''"
  "to_upper ''PTTL'' = ''PTTL''" "to_upper ''PX'' = ''PX''" "to_upper ''PING'' = ''PING''"
  by (simp_all add: to_upper_def upper_char_def)

lemma dispatch_kv:
  "to_upper c = cmd \<Longrightarrow> take 6 cmd \<noteq> ''GRAPH.'' \<Longrightarrow> cmd = [] \<or> cmd ! 0 \<noteq> CHR ''Z'' \<Longrightarrow>
    dispatch env db (c # opts) = handle_kv env db cmd (c # opts)"
  by (auto simp: dispatch_def Let_def)


section \<open>Exceptions\<close>

lemma follow_throws: "follow r f = Throws e \<longleftrightarrow> r = Throws e \<or> (\<exists>x. r = Returns x \<and> f x = Throws e)"
  by (cases r) auto

lemma defined_throws [simp]: "defined r \<noteq> Throws e"
  by (cases r) auto

lemma in_int64_throws [simp]: "in_int64 i \<noteq> Throws e"
  by (simp add: in_int64_def)

lemma caught_throws [simp]: "caught s r \<noteq> Throws e"
  by (cases r) auto

lemma with_kv_throws [simp]: "with_kv db r f \<noteq> Throws e"
  by (auto simp: with_kv_def follow_throws)

lemma run_throws [simp]: "run_set env db k v t \<noteq> Throws e" "run_expire env db k t \<noteq> Throws e" "run_ttl env db k s \<noteq> Throws e"
  by (auto simp: run_set_def run_expire_def run_ttl_def follow_throws)

lemma handle_kv_throws:
  "handle_kv env db cmd args = Throws e \<Longrightarrow> cmd \<in> {''SET'', ''EXPIRE'', ''PEXPIRE''}"
  by (auto simp: handle_kv_def Let_def split: if_splits)

section \<open>Commands on keys\<close>






definition answered :: "(string \<times> database) outcome \<Rightarrow> (string \<times> database) option" where
  "answered r = (case r of Returns x \<Rightarrow> Some x | _ \<Rightarrow> None)"






text \<open>Running a session through a map of answers.\<close>

lemma run_session:
  assumes "\<And>db x. x \<in> set xs \<Longrightarrow> session db x = map_option (\<lambda>(r, c). (reply x r, put c db)) (step (get db) x)"
    "\<And>c db. get (put c db) = c" "\<And>c c' db. put c (put c' db) = put c db" "\<And>db. put (get db) db = db"
  shows "run_ops session db xs =
    map_option (\<lambda>(rs, c). (map2 reply xs rs, put c db)) (run_ops step (get db) xs)"
  using assms(1)
proof (induction xs arbitrary: db)
  case (Cons x xs)
  have x: "session db x = map_option (\<lambda>(r, c). (reply x r, put c db)) (step (get db) x)"
    by (rule Cons.prems) simp
  show ?case
  proof (cases "step (get db) x")
    case (Some rc)
    obtain r c where rc: "rc = (r, c)" by (cases rc)
    have "run_ops session (put c db) xs = map_option (\<lambda>(rs, c'). (map2 reply xs rs, put c' (put c db))) (run_ops step c xs)"
      using Cons.IH [of "put c db"] Cons.prems assms(2) by simp
    then show ?thesis
      using x Some rc assms(3) by (cases "run_ops step c xs") auto
  qed (use x in simp)
qed (simp add: assms(4))

section \<open>Commands on sorted sets\<close>

text \<open>\<open>txt\<close> is any text for a score that the library reads as that score.\<close>

fun zs_command :: "(f64 \<Rightarrow> string) \<Rightarrow> zs_op \<Rightarrow> string list" where
  "zs_command txt (ZAdd k s m) = [''ZADD'', k, txt s, m]"
| "zs_command txt (ZRem k m) = [''ZREM'', k, m]"
| "zs_command txt (ZScoreOf k m) = [''ZSCORE'', k, m]"
| "zs_command txt (ZRange k i j) = [''ZRANGE'', k, int_dec i, int_dec j]"
| "zs_command txt (ZRangeByScore k mn mx) = [''ZRANGEBYSCORE'', k, txt mn, txt mx]"
| "zs_command txt (ZCard k) = [''ZCARD'', k]"
| "zs_command txt (ZRank k m) = [''ZRANK'', k, m]"

fun zs_reply_text :: "zs_op \<Rightarrow> zs_reply \<Rightarrow> string" where
  "zs_reply_text x (ZInt i) = integer_reply i"
| "zs_reply_text x (ZScoreReply sc) = (case sc of None \<Rightarrow> null_bulk | Some s \<Rightarrow> bulk_string (f64_text s))"
| "zs_reply_text (ZRangeByScore k mn mx) (ZList rs) = array_reply (scored_texts True rs)"
| "zs_reply_text x (ZList rs) = array_reply (scored_texts False rs)"

fun zs_command_ok :: "(f64 \<Rightarrow> string) \<Rightarrow> zs_op \<Rightarrow> bool" where
  "zs_command_ok txt (ZAdd k s m) \<longleftrightarrow> stod (txt s) = Inr s \<and> \<not> f64_nan s"
| "zs_command_ok txt (ZRange k i j) \<longleftrightarrow> int32 i \<and> int32 j"
| "zs_command_ok txt (ZRangeByScore k mn mx) \<longleftrightarrow> stod (txt mn) = Inr mn \<and> stod (txt mx) = Inr mx"
| "zs_command_ok txt _ \<longleftrightarrow> True"

lemma zs_command_ok_valid: "zs_command_ok txt x \<Longrightarrow> zs_valid x"
  by (cases x) auto

definition zs_session :: "call_env \<Rightarrow> (f64 \<Rightarrow> string) \<Rightarrow> database \<Rightarrow> zs_op \<Rightarrow> (string \<times> database) option" where
  "zs_session env txt db x = answered (dispatch env db (zs_command txt x))"

lemma upper_zset_names [simp]:
  "to_upper ''ZADD'' = ''ZADD''" "to_upper ''ZREM'' = ''ZREM''" "to_upper ''ZSCORE'' = ''ZSCORE''"
  "to_upper ''ZRANGE'' = ''ZRANGE''" "to_upper ''ZRANGEBYSCORE'' = ''ZRANGEBYSCORE''" "to_upper ''ZCARD'' = ''ZCARD''"
  "to_upper ''ZRANK'' = ''ZRANK''"
  by (simp_all add: to_upper_def upper_char_def)

lemma stoi_int32: "int32 i \<Longrightarrow> stoi (int_dec i) = Inr i"
  by (simp add: int32_def stoi_int_dec)

lemma dispatch_zset:
  "to_upper c = cmd \<Longrightarrow> cmd \<noteq> [] \<Longrightarrow> cmd ! 0 = CHR ''Z'' \<Longrightarrow>
    dispatch env db (c # opts) = handle_zset env db cmd (c # opts)"
  by (cases cmd) (auto simp: dispatch_def Let_def)

lemma answered_caught: "\<forall>e. r \<noteq> Throws e \<Longrightarrow> answered (caught db r) = answered r"
  by (cases r) auto

lemma answered_follow: "answered (follow (defined r) (\<lambda>x. Returns (f x, db))) = map_option (\<lambda>x. (f x, db)) r"
  by (cases r) (auto simp: answered_def)

lemma answered_with_zsets: "answered (with_zsets db r f) = map_option (\<lambda>(x, Z). (f x, db\<lparr>db_zsets := Z\<rparr>)) r"
  by (cases r) (auto simp: answered_def with_zsets_def)

lemma with_zsets_throws [simp]: "with_zsets db r f \<noteq> Throws e"
  by (auto simp: with_zsets_def follow_throws)

lemma zs_session_step:
  assumes "zs_command_ok txt x"
  shows "zs_session env txt db x =
    map_option (\<lambda>(r, Z). (zs_reply_text x r, db\<lparr>db_zsets := Z\<rparr>)) (zs_step (ce_draws env) (db_zsets db) x)"
proof -
  have keep: "db = db\<lparr>db_zsets := db_zsets db\<rparr>" by simp
  show ?thesis
    by (cases x)
      (use assms keep in \<open>simp_all add: zs_session_def dispatch_zset handle_zset_def zset_commands_def Let_def answered_caught
        follow_throws answered_with_zsets answered_follow option.map_comp comp_def case_prod_unfold two_ints_def stoi_int32\<close>,
       simp_all add: answered_def scored_texts_def flag_reply_def)
qed


text \<open>An environment for concrete runs.\<close>

definition plain_env :: call_env where
  "plain_env = \<lparr>ce_now = 0, ce_draws = even, ce_ids = [], ce_aids = [], ce_dist_order = (\<lambda>_. []), ce_stoi_first = True,
     ce_io = \<lparr>io_open = True, io_store = (\<lambda>b. b), io_rename = True\<rparr>, ce_junk = length, ce_clk = (\<lambda>_. 0), ce_fork = True\<rparr>"

section \<open>Properties\<close>



text \<open>
  C14. A client that sends commands on sorted sets, with any texts for the scores that are read as those
  scores, none of which is a NaN, sees a map from keys to sorted lists of scored members.
\<close>

theorem zset_commands_refine:
  assumes "\<forall>x \<in> set xs. zs_command_ok txt x" "zsets_rep (db_zsets db) A"
  shows "\<exists>Z. run_ops (zs_session env txt) db xs =
      Some (map2 zs_reply_text xs (fst (run_spec zs_spec A xs)), db\<lparr>db_zsets := Z\<rparr>) \<and>
    zsets_rep Z (snd (run_spec zs_spec A xs))"
proof -
  have "run_ops (zs_session env txt) db xs =
      map_option (\<lambda>(rs, Z). (map2 zs_reply_text xs rs, db\<lparr>db_zsets := Z\<rparr>)) (run_ops (zs_step (ce_draws env)) (db_zsets db) xs)"
    by (rule run_session) (use assms(1) in \<open>auto simp: zs_session_step\<close>)
  moreover have "\<forall>x \<in> set xs. zs_valid x"
    using assms(1) zs_command_ok_valid by blast
  ultimately show ?thesis using zsets.runs_answer [OF assms(2), of xs "ce_draws env"] by auto
qed

theorem zset_commands_refine_witness:
  "\<exists>Z. run_ops (zs_session plain_env (\<lambda>_. ''0'')) (db_new [] Map.empty) [ZAdd ''k'' (F64_Fin False 0) ''b'', ZAdd ''k'' (F64_Fin False 0) ''a'', ZRank ''k'' ''b''] =
     Some ([integer_reply 1, integer_reply 1, integer_reply 1], (db_new [] Map.empty)\<lparr>db_zsets := Z\<rparr>)"
proof -
  let ?xs = "[ZAdd ''k'' (F64_Fin False 0) ''b'', ZAdd ''k'' (F64_Fin False 0) ''a'', ZRank ''k'' ''b'']" and ?db = "db_new [] Map.empty"
  have zero: "stod ''0'' = Inr (F64_Fin False 0)"
    by (simp add: stod_def parse_float_def parse_decimal_def split_mantissa_def drop_sign_def has_sign_def is_space_def is_digit_def
        lower_char_def power_ratio_def digits_value_def xdigit_val_def digit_val_def read_exponent_def convert_def round_ratio_def
        half_even_def Let_def)
  have ok: "\<forall>x \<in> set ?xs. zs_command_ok (\<lambda>_. ''0'') x" using zero by simp
  have rep: "zsets_rep (db_zsets ?db) (\<lambda>_. [])" using zsets_rep_new by (simp add: db_new_def)
  have "map2 zs_reply_text ?xs (fst (run_spec zs_spec (\<lambda>_. []) ?xs)) = [integer_reply 1, integer_reply 1, integer_reply 1]"
    by (simp add: zset_insert_def zset_place_def zset_has_def zset_rank_def zset_score_def)
  then show ?thesis using zset_commands_refine [OF ok rep, of plain_env] by auto
qed

text \<open>
  Only three commands let an exception escape: those that read a number of seconds or milliseconds
  outside a handler. It is caught nowhere up to \<^verbatim>\<open>main\<close>, so it ends the server.
\<close>

theorem uncaught_exceptions:
  assumes "dispatch env db args = Throws e"
  shows "args \<noteq> [] \<and> to_upper (args ! 0) \<in> {''SET'', ''EXPIRE'', ''PEXPIRE''}"
  using assms handle_kv_throws [of env db "to_upper (args ! 0)" args e]
  by (auto simp: dispatch_def Let_def handle_graph_def handle_zset_def split: if_splits)

theorem uncaught_exceptions_witness:
  "dispatch plain_env (db_new [] Map.empty) [''EXPIRE'', ''k'', ''soon''] = Throws (InvalidArgument ''stoll'') \<and>
   to_upper ([''EXPIRE'', ''k'', ''soon''] ! 0) \<in> {''SET'', ''EXPIRE'', ''PEXPIRE''}"
proof -
  have "dispatch plain_env (db_new [] Map.empty) [''EXPIRE'', ''k'', ''soon''] = Throws (InvalidArgument ''stoll'')"
    by (simp add: dispatch_kv handle_kv_def seconds_def stoll_def sto_int_def starts_number_def drop_sign_def is_space_def is_digit_def)
  with uncaught_exceptions [OF this] show ?thesis by blast
qed

text \<open>
  The snapshot commands cannot be given by a client: they are handled with the sorted sets, to which
  only names beginning with Z are sent, so that they are answered as unknown and do nothing.
\<close>

theorem snapshot_commands_unreachable:
  assumes "to_upper c \<in> {''SAVE'', ''BGSAVE'', ''BGRESTORE''}"
  shows "dispatch env db (c # opts) = Returns (unknown_command [] c, db)"
  using assms by (auto simp: dispatch_kv handle_kv_def)

theorem snapshot_commands_unreachable_witness:
  "dispatch plain_env (db_new [] Map.empty) [''bgsave''] = Returns (unknown_command [] ''bgsave'', db_new [] Map.empty)"
proof (rule snapshot_commands_unreachable)
  have "to_upper ''bgsave'' = ''BGSAVE''" by code_simp
  then show "to_upper ''bgsave'' \<in> {''SAVE'', ''BGSAVE'', ''BGRESTORE''}" by simp
qed

end
