(* ===== verification/Resp_Proofs.thy ===== *)
theory Resp_Proofs
  imports Resp
begin

text \<open>
  The parser inverts the encoder on arrays, waits on every truncated command without touching the
  buffer, cuts inline commands into words, and accepts negative lengths.
\<close>

section \<open>Finding the end of a line\<close>

lemma find_crlf_found:
  assumes "length buf < 2 ^ 31" "buf = pre @ hd_line @ crlf @ rest" "CR \<notin> set hd_line"
  shows "find_crlf buf (length pre) = int (length pre + length hd_line)"
  using assms unfolding find_crlf_def
proof (induction hd_line arbitrary: pre)
  case Nil
  then show ?case
    by (subst find_crlf_loop.simps) (simp add: crlf_def nth_append to_i32_id)
next
  case (Cons c cs)
  have "find_crlf_loop buf (length pre) = find_crlf_loop buf (length (pre @ [c]))"
    using Cons.prems by (subst find_crlf_loop.simps) (auto simp: nth_append crlf_def)
  then show ?case
    using Cons.IH [of "pre @ [c]"] Cons.prems by simp
qed

lemma find_crlf_none:
  assumes "LF \<notin> set (drop start buf)"
  shows "find_crlf buf start = -1"
  using assms unfolding find_crlf_def
proof (induction buf start rule: find_crlf_loop.induct)
  case (1 buf i)
  have "buf ! (i + 1) \<noteq> LF" if "i + 1 < length buf"
  proof
    assume "buf ! (i + 1) = LF"
    then have "drop i buf ! 1 = LF" "1 < length (drop i buf)"
      using that by simp_all
    then show False using 1(2) nth_mem by metis
  qed
  moreover have "LF \<notin> set (drop (i + 1) buf)"
    using 1(2) set_drop_subset_set_drop [of i "i + 1" buf] by auto
  ultimately show ?case
    using 1(1) by (subst find_crlf_loop.simps) auto
qed

lemma find_crlf_bounds:
  assumes "length buf < 2 ^ 31"
  shows "find_crlf buf start = -1 \<or>
    int start \<le> find_crlf buf start \<and> find_crlf buf start + 2 \<le> int (length buf)"
  using assms unfolding find_crlf_def
proof (induction buf start rule: find_crlf_loop.induct)
  case (1 buf i)
  note unf = find_crlf_loop.simps [of buf i]
  consider "find_crlf_loop buf i = -1" | "i + 1 < length buf" "find_crlf_loop buf i = int i"
    | "find_crlf_loop buf i = find_crlf_loop buf (i + 1)" "i + 1 < length buf"
      "\<not> (buf ! i = CR \<and> buf ! (i + 1) = LF)"
  proof (cases "i + 1 < length buf")
    case True
    show ?thesis
    proof (cases "buf ! i = CR \<and> buf ! (i + 1) = LF")
      case True
      then have "find_crlf_loop buf i = int i"
        using 1(2) \<open>i + 1 < length buf\<close> by (simp add: unf to_i32_nat)
      then show ?thesis using that(2) \<open>i + 1 < length buf\<close> by blast
    next
      case False
      then have "find_crlf_loop buf i = find_crlf_loop buf (i + 1)"
        using \<open>i + 1 < length buf\<close> by (simp only: unf if_True if_False)
      then show ?thesis using that(3) \<open>i + 1 < length buf\<close> False by blast
    qed
  qed (use that(1) unf in simp)
  then show ?case
    by cases (use 1 in \<open>force+\<close>)
qed

section \<open>Arrays of bulk strings\<close>

declare parse_args.simps(2) [simp del]

lemma nat_dec_no_cr: "CR \<notin> set (nat_dec n)" "LF \<notin> set (nat_dec n)"
  using nat_dec_digits [of n] by (auto simp: is_digit_def)

lemma crlf_read: "crlf @ rest = [] \<or> \<not> is_digit (hd (crlf @ rest))"
  by (simp add: crlf_def is_digit_def)

text \<open>One turn of the loop on a well-formed bulk string.\<close>

lemma parse_args_bulk:
  assumes "length buf < 2 ^ 31" "buf = pre @ bulk_string x @ rest"
  shows "parse_args buf (Suc n) (length pre) args =
    parse_args buf n (length (pre @ bulk_string x)) (args @ [x])"
proof -
  let ?h = "''$'' @ nat_dec (length x)"
  have buf: "buf = pre @ ?h @ crlf @ (x @ crlf @ rest)"
    using assms(2) by (simp add: bulk_string_def)
  have fc: "find_crlf buf (length pre) = int (length pre + length ?h)"
    using assms(1) buf nat_dec_no_cr by (intro find_crlf_found) auto
  have lx: "length x < 2 ^ 31"
    using assms by (simp add: bulk_string_def)
  have at: "atoi (drop (length pre + 1) buf) = int (length x)"
    using atoi_read(1) [OF crlf_read lx, of "x @ crlf @ rest"] by (simp add: buf)
  have u: "to_u64 (int (length x)) = length x" "to_u64 (int (length x) + 2) = length x + 2"
    using lx by (simp_all add: narrow)
  have p: "nat (find_crlf buf (length pre) + 2) = length (pre @ ?h @ crlf)"
    by (simp add: fc crlf_def)
  have len: "length buf = length (pre @ ?h @ crlf) + length x + 2 + length rest"
    by (simp add: buf crlf_def)
  have wrap: "(length (pre @ ?h @ crlf) + length x + 2) mod 2 ^ 64 = length (pre @ ?h @ crlf) + length x + 2"
    using assms(1) len by (intro mod_less) simp
  have bound: "length pre < length buf" "buf ! length pre = CHR ''$''"
    by (simp_all add: buf)
  have sub: "substr buf (length (pre @ ?h @ crlf)) (length x) = x"
    by (simp add: substr_def buf)
  have "parse_args buf (Suc n) (length pre) args =
    parse_args buf n (length (pre @ ?h @ crlf) + length x + 2) (args @ [x])"
    using bound len fc unfolding parse_args.simps Let_def p at u sub
    by (simp only: add.assoc [symmetric] wrap) simp
  then show ?thesis
    by (simp add: bulk_string_def crlf_def add.assoc)
qed

lemma parse_args_bulks:
  assumes "length buf < 2 ^ 31" "buf = pre @ concat (map bulk_string items) @ rest"
  shows "parse_args buf (length items + n) (length pre) args =
    parse_args buf n (length (pre @ concat (map bulk_string items))) (args @ items)"
  using assms
proof (induction items arbitrary: pre args)
  case (Cons x items)
  have "parse_args buf (length (x # items) + n) (length pre) args =
      parse_args buf (length items + n) (length (pre @ bulk_string x)) (args @ [x])"
    using parse_args_bulk [of buf pre x _ "length items + n"] Cons.prems by simp
  also have "\<dots> = parse_args buf n (length ((pre @ bulk_string x) @ concat (map bulk_string items)))
      ((args @ [x]) @ items)"
    using Cons.prems by (intro Cons.IH) simp_all
  finally show ?case by simp
qed simp

lemma array_header:
  assumes "length buf < 2 ^ 31" "buf = ''*'' @ nat_dec n @ crlf @ rest" "n < 2 ^ 31" "0 < n"
  shows "parse buf out = (case parse_args buf n (length (''*'' @ nat_dec n @ crlf)) [] of
    Inl r \<Rightarrow> (r, buf, out) | Inr (pos, args) \<Rightarrow> (Complete, drop pos buf, args))"
proof -
  have "find_crlf buf (length []) = int (length [] + length (''*'' @ nat_dec n))"
    using assms(1,2) nat_dec_no_cr find_crlf_found [of buf "[]" "''*'' @ nat_dec n" rest] by simp
  then have fc: "find_crlf buf 0 = int (length (''*'' @ nat_dec n))"
    by simp
  have at: "atoi (drop 1 buf) = int n"
    using atoi_read(1) [OF crlf_read assms(3), of rest] assms(2) by simp
  have p: "nat (find_crlf buf 0 + 2) = length (''*'' @ nat_dec n @ crlf)"
    by (simp add: fc crlf_def)
  have star: "buf \<noteq> []" "buf ! 0 = CHR ''*''"
    using assms(2) by simp_all
  show ?thesis
    using star assms(4) fc unfolding parse_def parse_array_def Let_def p at by simp
qed

lemma length_items_bound: "length items \<le> length (concat (map bulk_string items))"
  by (induction items) (auto simp: bulk_string_def)

lemma parse_array_reply:
  assumes "items \<noteq> []" "length (array_reply items @ rest) < 2 ^ 31"
  shows "parse (array_reply items @ rest) out = (Complete, rest, items)"
proof -
  let ?pre = "''*'' @ nat_dec (length items) @ crlf"
  let ?buf = "?pre @ concat (map bulk_string items) @ rest"
  have buf: "array_reply items @ rest = ?buf"
    by (simp add: array_reply_def)
  have len: "length ?buf < 2 ^ 31"
    using assms(2) by (simp only: buf)
  have "length items < 2 ^ 31"
    using len length_items_bound [of items] by simp
  then have "parse ?buf out = (case parse_args ?buf (length items) (length ?pre) [] of
      Inl r \<Rightarrow> (r, ?buf, out) | Inr (pos, args) \<Rightarrow> (Complete, drop pos ?buf, args))"
    using len assms(1) by (intro array_header) simp_all
  also have "parse_args ?buf (length items) (length ?pre) [] =
      Inr (length (?pre @ concat (map bulk_string items)), items)"
    using parse_args_bulks [OF len refl, of 0 "[]"] by simp
  finally show ?thesis
    by (simp add: buf)
qed

section \<open>Truncated commands\<close>

lemma crlf_cut:
  assumes "k < length h + 2" "LF \<notin> set h"
  shows "LF \<notin> set (take k (h @ crlf))"
proof -
  have "h @ crlf = (h @ [CR]) @ [LF]" "k \<le> length (h @ [CR])"
    using assms(1) by (simp_all add: crlf_def)
  then have "take k (h @ crlf) = take k (h @ [CR])"
    by (simp only: take_append) simp
  then show ?thesis
    using assms(2) set_take_subset [of k "h @ [CR]"] by auto
qed

lemma take_past: "length xs \<le> k \<Longrightarrow> take k (xs @ ys) = xs @ take (k - length xs) ys"
  by simp

lemma parse_args_cut_bulk:
  assumes "length buf < 2 ^ 31" "buf = pre @ take k (bulk_string x)" "k < length (bulk_string x)"
    "length x < 2 ^ 31"
  shows "parse_args buf (Suc n) (length pre) args = Inl Incomplete"
proof -
  let ?h = "''$'' @ nat_dec (length x)"
  consider "k = 0" | "0 < k" "k < length ?h + 2" | "length ?h + 2 \<le> k"
    by linarith
  then show ?thesis
  proof cases
    case 1
    then show ?thesis using assms(2) by (simp add: parse_args.simps)
  next
    case 2
    have "take k (bulk_string x) = take k ((?h @ crlf) @ (x @ crlf))"
      by (simp add: bulk_string_def)
    also have "\<dots> = take k (?h @ crlf)"
      using 2(2) by (simp only: take_append) (simp add: crlf_def)
    finally have b: "buf = pre @ take k (?h @ crlf)"
      using assms(2) by simp
    have "LF \<notin> set (drop (length pre) buf)"
      using crlf_cut [OF 2(2)] nat_dec_no_cr by (simp add: b)
    then have "find_crlf buf (length pre) = -1"
      by (rule find_crlf_none)
    moreover have "length pre < length buf" "buf ! length pre = CHR ''$''"
      using 2(1) by (simp_all add: b nth_append)
    ultimately show ?thesis by (simp add: parse_args.simps)
  next
    case 3
    define d where "d = take (k - length (?h @ crlf)) (x @ crlf)"
    have b: "buf = pre @ ?h @ crlf @ d"
      using 3 assms(2) take_past [of "?h @ crlf" k "x @ crlf"] by (simp add: bulk_string_def d_def crlf_def)
    have fc: "find_crlf buf (length pre) = int (length pre + length ?h)"
      using assms(1) b nat_dec_no_cr by (intro find_crlf_found) auto
    have at: "atoi (drop (length pre + 1) buf) = int (length x)"
      using atoi_read(1) [OF crlf_read assms(4), of d] by (simp add: b)
    have u: "to_u64 (int (length x)) = length x"
      using assms(4) by (simp add: narrow)
    have p: "nat (find_crlf buf (length pre) + 2) = length (pre @ ?h @ crlf)"
      by (simp add: fc crlf_def)
    have ld: "length d < length x + 2"
      using assms(3) by (simp add: d_def bulk_string_def crlf_def)
    have "length (pre @ ?h @ crlf) + length d < 2 ^ 31"
      using assms(1) by (simp add: b)
    then have wrap: "(length (pre @ ?h @ crlf) + length x + 2) mod 2 ^ 64 = length (pre @ ?h @ crlf) + length x + 2"
      using assms(4) by (intro mod_less) simp
    have "length buf < (length (pre @ ?h @ crlf) + to_u64 (int (length x)) + 2) mod 2 ^ 64"
      unfolding u wrap using ld by (simp add: b)
    moreover have "0 \<le> find_crlf buf (length pre)"
      by (simp add: fc)
    moreover have "length pre < length buf" "buf ! length pre = CHR ''$''"
      by (simp_all add: b)
    ultimately show ?thesis
      unfolding parse_args.simps Let_def p at by simp
  qed
qed

lemma parse_args_cut:
  assumes "length buf < 2 ^ 31" "buf = pre @ take k (concat (map bulk_string items))"
    "k < length (concat (map bulk_string items))" "\<And>x. x \<in> set items \<Longrightarrow> length x < 2 ^ 31"
  shows "parse_args buf (length items) (length pre) args = Inl Incomplete"
  using assms
proof (induction items arbitrary: pre args k)
  case (Cons x items)
  show ?case
  proof (cases "k < length (bulk_string x)")
    case True
    then show ?thesis
      using Cons.prems parse_args_cut_bulk [of buf pre k x "length items" args] by simp
  next
    case False
    let ?k = "k - length (bulk_string x)"
    have b: "buf = pre @ bulk_string x @ take ?k (concat (map bulk_string items))"
      using False Cons.prems(2) by simp
    have "parse_args buf (length (x # items)) (length pre) args =
        parse_args buf (length items) (length (pre @ bulk_string x)) (args @ [x])"
      using parse_args_bulk [OF Cons.prems(1) b] by simp
    also have "\<dots> = Inl Incomplete"
      using Cons.prems(1,3,4) b False by (intro Cons.IH [where k = ?k]) auto
    finally show ?thesis .
  qed
qed simp

lemma parse_array_cut:
  assumes "items \<noteq> []" "length (array_reply items) < 2 ^ 31" "k < length (array_reply items)"
  shows "parse (take k (array_reply items)) out = (Incomplete, take k (array_reply items), out)"
proof -
  let ?h = "''*'' @ nat_dec (length items)"
  let ?body = "concat (map bulk_string items)"
  have all: "array_reply items = ?h @ crlf @ ?body"
    by (simp add: array_reply_def)
  have n: "length items < 2 ^ 31"
    using assms(2) length_items_bound [of items] by (simp add: all)
  consider "k = 0" | "0 < k" "k < length ?h + 2" | "length ?h + 2 \<le> k"
    by linarith
  then show ?thesis
  proof cases
    case 1
    then show ?thesis by (simp add: parse_def)
  next
    case 2
    have t: "take k (array_reply items) = take k (?h @ crlf)"
      using 2(2) by (simp only: all append_assoc [symmetric] take_append) (simp add: crlf_def)
    have "find_crlf (take k (?h @ crlf)) 0 = -1"
      using crlf_cut [OF 2(2)] nat_dec_no_cr by (intro find_crlf_none) simp
    moreover have "take k (?h @ crlf) \<noteq> []" "take k (?h @ crlf) ! 0 = CHR ''*''"
      using 2(1) by simp_all
    ultimately show ?thesis
      unfolding t parse_def parse_array_def by simp
  next
    case 3
    let ?k = "k - length (?h @ crlf)"
    have t: "take k (array_reply items) = (?h @ crlf) @ take ?k ?body"
      using 3 take_past [of "?h @ crlf" k ?body] by (simp add: all crlf_def)
    have len: "length ((?h @ crlf) @ take ?k ?body) < 2 ^ 31"
      using assms(2,3) by (simp only: t [symmetric]) simp
    have short: "length x < 2 ^ 31" if "x \<in> set items" for x
    proof -
      have "length x \<le> length ?body"
        using that by (induction items) (auto simp: bulk_string_def)
      then show ?thesis using assms(2) by (simp add: all)
    qed
    have "parse ((?h @ crlf) @ take ?k ?body) out =
        (case parse_args ((?h @ crlf) @ take ?k ?body) (length items) (length (?h @ crlf)) [] of
          Inl r \<Rightarrow> (r, (?h @ crlf) @ take ?k ?body, out)
        | Inr (pos, args) \<Rightarrow> (Complete, drop pos ((?h @ crlf) @ take ?k ?body), args))"
      using array_header [OF len _ n] assms(1) by simp
    also have "parse_args ((?h @ crlf) @ take ?k ?body) (length items) (length (?h @ crlf)) [] = Inl Incomplete"
      by (rule parse_args_cut [OF len refl _ short]) (use assms(3) 3 in \<open>simp add: all crlf_def\<close>)
    finally show ?thesis
      by (simp add: t)
  qed
qed

section \<open>Inline commands\<close>

text \<open>The reference: the fields between separators, and the words, which are the nonempty fields.\<close>

fun fields :: "char \<Rightarrow> string \<Rightarrow> string list" where
  "fields sep [] = [[]]"
| "fields sep (c # cs) =
     (if c = sep then [] # fields sep cs
      else case fields sep cs of w # ws \<Rightarrow> (c # w) # ws | [] \<Rightarrow> [[c]])"

definition words_of :: "string \<Rightarrow> string list" where
  "words_of line = filter (\<lambda>w. w \<noteq> []) (fields CHR '' '' line)"

lemma fields_ne: "fields sep s \<noteq> []"
  by (cases s) (auto split: list.splits)

lemma fields_field: "sep \<notin> set w \<Longrightarrow> fields sep w = [w]"
  by (induction w) auto

lemma fields_cut: "sep \<notin> set w \<Longrightarrow> fields sep (w @ sep # r) = w # fields sep r"
  by (induction w) (auto split: list.splits)

lemma words_of_cut: "CHR '' '' \<notin> set w \<Longrightarrow> words_of (w @ CHR '' '' # r) = (if w = [] then [] else [w]) @ words_of r"
  by (simp add: words_of_def fields_cut)

lemma words_of_word: "CHR '' '' \<notin> set w \<Longrightarrow> words_of w = (if w = [] then [] else [w])"
  by (simp add: words_of_def fields_field)

lemma inline_words_ok: "inline_words line start args = args @ words_of (drop start line)"
proof (induction line start args rule: inline_words.induct)
  case (1 line start args)
  show ?case
  proof (cases "start < length line")
    case False
    then show ?thesis
      by (subst inline_words.simps) (simp add: words_of_def)
  next
    case True
    note ih = 1 [OF True refl]
    show ?thesis
    proof (cases "index_of CHR '' '' (drop start line)")
      case None
      then have e: "find_char line CHR '' '' start = None" "CHR '' '' \<notin> set (drop start line)"
        by (simp_all add: find_char_def index_of_None)
      have "inline_words line (length line + 1) (args @ [drop start line]) = args @ [drop start line]"
        by (subst inline_words.simps) simp
      then show ?thesis
        using True e words_of_word [OF e(2)]
        by (subst inline_words.simps) (simp add: substr_def)
    next
      case (Some i)
      then have e: "find_char line CHR '' '' start = Some (start + i)"
        and i: "i < length (drop start line)" "drop start line ! i = CHR '' ''"
          "CHR '' '' \<notin> set (take i (drop start line))"
        by (simp_all add: find_char_def index_of_Some)
      let ?w = "take i (drop start line)"
      have "drop start line = ?w @ CHR '' '' # drop (Suc i) (drop start line)"
        using i id_take_nth_drop [OF i(1)] by metis
      then have "words_of (drop start line) = (if ?w = [] then [] else [?w]) @ words_of (drop (start + i + 1) line)"
        using words_of_cut [OF i(3)] by (metis add.commute add_Suc_right drop_drop plus_1_eq_Suc add.assoc)
      moreover have "?w = [] \<longleftrightarrow> i = 0"
        using True by auto
      moreover have "inline_words line (start + i + 1) (if i = 0 then args else args @ [?w]) =
          (if i = 0 then args else args @ [?w]) @ words_of (drop (start + i + 1) line)"
        using ih by (cases "i = 0") (simp_all add: e substr_def)
      ultimately show ?thesis
        using True by (subst inline_words.simps) (cases "i = 0"; simp add: e substr_def)
    qed
  qed
qed

lemma parse_inline_line:
  assumes "length (line @ crlf @ rest) < 2 ^ 31" "CR \<notin> set line" "line = [] \<or> hd line \<noteq> CHR ''*''"
  shows "parse (line @ crlf @ rest) out =
    (if words_of line = [] then (Error, rest, out) else (Complete, rest, words_of line))"
proof -
  let ?buf = "line @ crlf @ rest"
  have fc: "find_crlf ?buf 0 = int (length line)"
    using find_crlf_found [of ?buf "[]" line rest] assms by simp
  have h: "?buf \<noteq> []" "?buf ! 0 \<noteq> CHR ''*''"
    using assms(3) by (cases line; simp add: crlf_def)+
  have d: "drop (nat (find_crlf ?buf 0 + 2)) ?buf = rest" "substr ?buf 0 (nat (find_crlf ?buf 0)) = line"
    unfolding fc by (simp_all add: crlf_def substr_def nat_add_distrib)
  show ?thesis
    using h fc unfolding parse_def parse_inline_def Let_def d by (simp add: inline_words_ok)
qed

section \<open>Negative lengths\<close>

text \<open>A bulk length of \<open>-7\<close>, whose header has five bytes, takes the parser back to that header.\<close>

lemma parse_args_back:
  assumes "length buf < 2 ^ 31" "buf = pre @ ''$-7'' @ crlf @ rest"
  shows "parse_args buf n (length pre) args = Inr (length pre, args @ replicate n rest)"
proof (induction n arbitrary: args)
  case (Suc n)
  have fc: "find_crlf buf (length pre) = int (length pre + 3)"
    using find_crlf_found [OF assms] by simp
  have "nat_dec 7 = ''7''"
    by (subst nat_dec.simps) (simp add: digit_char_def char_of_def bit_iff_odd)
  then have at: "atoi (drop (length pre + 1) buf) = -7"
    using atoi_read(2) [OF crlf_read, of 7 rest] assms(2) by simp
  have p: "nat (find_crlf buf (length pre) + 2) = length pre + 5"
    by (simp add: fc)
  have lp: "length pre + 5 + length rest = length buf"
    by (simp add: assms(2) crlf_def)
  have u: "to_u64 (-7) = 2 ^ 64 - 7" "to_u64 (-7 + 2) = 2 ^ 64 - 5"
    by (simp_all add: to_u64_def)
  have "length pre + 5 + (2 ^ 64 - 7) + 2 = 2 ^ 64 + length pre" "length pre + 5 + (2 ^ 64 - 5) = 2 ^ 64 + length pre"
    by simp_all
  then have w: "(length pre + 5 + (2 ^ 64 - 7) + 2) mod 2 ^ 64 = length pre"
    "(length pre + 5 + (2 ^ 64 - 5)) mod 2 ^ 64 = length pre"
    using lp assms(1) by (simp_all only: mod_add_self1) simp_all
  have s: "substr buf (length pre + 5) (2 ^ 64 - 7) = rest"
    using lp assms(1) by (simp add: substr_def) (simp add: assms(2) crlf_def)
  have "parse_args buf (Suc n) (length pre) args = parse_args buf n (length pre) (args @ [rest])"
    using lp fc unfolding parse_args.simps Let_def p at u w s by (simp add: assms(2))
  then show ?case
    using Suc.IH by (simp add: replicate_append_same [symmetric])
qed simp

section \<open>Properties\<close>

text \<open>
  C24. Round trip: the parser, given the array encoding of a nonempty command followed by any bytes
  (less than \<open>2 ^ 31\<close> in all), returns exactly the command's arguments, whatever bytes they contain,
  and leaves exactly the bytes that follow.
\<close>

theorem resp_roundtrip:
  assumes "items \<noteq> []" "length (array_reply items @ rest) < 2 ^ 31"
  shows "parse (array_reply items @ rest) out = (Complete, rest, items)"
  using assms by (rule parse_array_reply)

theorem resp_roundtrip_witness:
  "parse (array_reply [''SET'', [CR, LF, CHR ''$'']] @ ''*1'') [] = (Complete, ''*1'', [''SET'', [CR, LF, CHR ''$'']])"
  by (rule resp_roundtrip)
    (use length_nat_dec [of "Suc (Suc 0)"] length_nat_dec [of "Suc (Suc (Suc 0))"] in \<open>simp_all add: array_reply_def bulk_string_def crlf_def\<close>)

text \<open>
  Incomplete input is waited for: on every proper prefix of an encoded command the parser
  answers \<open>Incomplete\<close> and changes neither the buffer nor the arguments.
\<close>

theorem resp_truncated:
  assumes "items \<noteq> []" "length (array_reply items) < 2 ^ 31" "k < length (array_reply items)"
  shows "parse (take k (array_reply items)) out = (Incomplete, take k (array_reply items), out)"
  using assms by (rule parse_array_cut)

theorem resp_truncated_witness:
  "parse (take 9 (array_reply [''GET'', ''k''])) [] = (Incomplete, take 9 (array_reply [''GET'', ''k'']), [])"
  by (rule resp_truncated)
    (use length_nat_dec [of "Suc (Suc 0)"] length_nat_dec [of "Suc (Suc (Suc 0))"] length_nat_dec [of "Suc 0"] in
      \<open>simp_all add: array_reply_def bulk_string_def crlf_def\<close>)

text \<open>
  C25. A line that is no array is cut into its nonempty space-separated words; a line with none is an
  error, which consumes the line.
\<close>

theorem resp_inline_words:
  assumes "length (line @ crlf @ rest) < 2 ^ 31" "CR \<notin> set line" "line = [] \<or> hd line \<noteq> CHR ''*''"
  shows "parse (line @ crlf @ rest) out =
    (if words_of line = [] then (Error, rest, out) else (Complete, rest, words_of line))"
  using assms by (rule parse_inline_line)

theorem resp_inline_words_witness:
  "parse (''GET  k'' @ crlf @ ''x'') [] =
    (if words_of ''GET  k'' = [] then (Error, ''x'', []) else (Complete, ''x'', words_of ''GET  k''))"
  by (rule resp_inline_words) (simp_all add: crlf_def)

text \<open>
  Negative lengths are accepted: a command of \<open>n\<close> arguments whose single bulk header is
  \<^verbatim>\<open>$-7\<close> is parsed \<open>n\<close> times at the same place, yields \<open>n\<close> copies of the rest of the buffer
  and leaves the header in the buffer. A few bytes make the server build up to \<open>2 ^ 31 - 1\<close> arguments.
\<close>

theorem resp_negative_length:
  assumes "0 < n" "n < 2 ^ 31" "length (''*'' @ nat_dec n @ crlf @ ''$-7'' @ crlf @ rest) < 2 ^ 31"
  shows "parse (''*'' @ nat_dec n @ crlf @ ''$-7'' @ crlf @ rest) out =
    (Complete, ''$-7'' @ crlf @ rest, replicate n rest)"
  using array_header [OF assms(3) refl assms(2,1), of out]
    parse_args_back [OF assms(3), of "''*'' @ nat_dec n @ crlf" rest n "[]"]
  by simp

theorem resp_negative_length_witness:
  "parse (''*'' @ nat_dec 1000 @ crlf @ ''$-7'' @ crlf @ ''a'') [] =
    (Complete, ''$-7'' @ crlf @ ''a'', replicate 1000 ''a'')"
  by (rule resp_negative_length) (use length_nat_dec [of 1000] in \<open>simp_all add: crlf_def\<close>)

end
