(* ===== verification/Server_Proofs.thy ===== *)
theory Server_Proofs
  imports Server Reactor_Proofs Dispatcher_Proofs Resp_Proofs
begin

text \<open>
  The connections: a pipelined session is answered command by command, in order, however the network
  cuts the bytes; and what goes wrong when the client breaks the protocol or closes early.
\<close>

section \<open>Parsing a stream\<close>

text \<open>The replies to a list of commands, given one after the other.\<close>

fun serve :: "(nat \<Rightarrow> call_env) \<Rightarrow> nat \<Rightarrow> database \<Rightarrow> string list list \<Rightarrow> (string list \<times> nat \<times> database) option" where
  "serve envs n db [] = Some ([], n, db)"
| "serve envs n db (cmd # cmds) =
     (case dispatch (envs n) db cmd of
        Returns (reply, db') \<Rightarrow> map_option (map_prod ((#) reply) id) (serve envs (Suc n) db' cmds)
      | _ \<Rightarrow> None)"

abbreviation encoded :: "string list list \<Rightarrow> string" where
  "encoded cmds \<equiv> concat (map array_reply cmds)"

lemma parse_loop_stop:
  assumes "parse (cn_read_buf c) [] = (Incomplete, cn_read_buf c, [])"
  shows "parse_loop envs n c db = Some (Inr (n, c\<lparr>cn_args := []\<rparr>, db))"
  by (subst parse_loop.simps) (simp add: assms Let_def)

lemma parse_loop_stream:
  assumes "serve envs n db cmds = Some (rs, m, db')" "\<forall>cmd \<in> set cmds. cmd \<noteq> []"
    "cn_read_buf c = encoded cmds @ p" "length (cn_read_buf c) < 2 ^ 31" "parse p [] = (Incomplete, p, [])"
  shows "parse_loop envs n c db =
    Some (Inr (m, c\<lparr>cn_read_buf := p, cn_write_buf := cn_write_buf c @ concat rs, cn_args := []\<rparr>, db'))"
  using assms
proof (induction cmds arbitrary: n db c rs)
  case Nil
  then show ?case by (simp add: parse_loop_stop)
next
  case (Cons cmd cmds)
  obtain reply db1 rs1 where d: "dispatch (envs n) db cmd = Returns (reply, db1)"
    "serve envs (Suc n) db1 cmds = Some (rs1, m, db')" "rs = reply # rs1"
    using Cons.prems(1) by (auto split: outcome.splits)
  let ?c = "c\<lparr>cn_read_buf := encoded cmds @ p, cn_args := cmd, cn_write_buf := cn_write_buf c @ reply\<rparr>"
  have "parse (cn_read_buf c) [] = (Complete, encoded cmds @ p, cmd)"
    using parse_array_reply [of cmd "encoded cmds @ p" "[]"] Cons.prems(2-4) by simp
  then have "parse_loop envs n c db = parse_loop envs (Suc n) ?c db1"
    by (subst parse_loop.simps) (simp add: d(1))
  then show ?case
    using Cons.IH [OF d(2), of ?c] Cons.prems d(3) by simp
qed

text \<open>Cutting a stream anywhere leaves whole commands and a proper prefix of the next one.\<close>

definition unfinished :: "string \<Rightarrow> string list list \<Rightarrow> bool" where
  "unfinished p cmds \<longleftrightarrow> (case cmds of [] \<Rightarrow> p = [] | cmd # _ \<Rightarrow> length p < length (array_reply cmd))"

lemma unfinished_nil: "unfinished [] cmds"
  by (cases cmds) (simp_all add: unfinished_def array_reply_def)

lemma stream_cut:
  "b @ later = encoded cmds \<Longrightarrow> \<exists>now left p. cmds = now @ left \<and> b = encoded now @ p \<and>
    p @ later = encoded left \<and> unfinished p left"
proof (induction cmds arbitrary: b)
  case Nil
  then show ?case by (simp add: unfinished_def)
next
  case (Cons cmd cmds)
  show ?case
  proof (cases "length b < length (array_reply cmd)")
    case True
    then show ?thesis using Cons.prems by (intro exI [of _ "[]"] exI [of _ "cmd # cmds"] exI [of _ b]) (simp add: unfinished_def)
  next
    case False
    define b' where "b' = drop (length (array_reply cmd)) b"
    have "take (length (array_reply cmd)) (b @ later) = array_reply cmd" "drop (length (array_reply cmd)) (b @ later) = encoded cmds"
      using Cons.prems by simp_all
    then have b': "b = array_reply cmd @ b'" "b' @ later = encoded cmds"
      using False append_take_drop_id [of "length (array_reply cmd)" b] by (simp_all add: b'_def)
    from Cons.IH [OF b'(2)] obtain now left p where
      "cmds = now @ left" "b' = encoded now @ p" "p @ later = encoded left" "unfinished p left"
      by blast
    then show ?thesis using b'(1) by (intro exI [of _ "cmd # now"] exI [of _ left] exI [of _ p]) simp
  qed
qed

lemma unfinished_incomplete:
  assumes "unfinished p cmds" "p @ later = encoded cmds" "\<forall>cmd \<in> set cmds. cmd \<noteq> [] \<and> length (array_reply cmd) < 2 ^ 30"
  shows "parse p [] = (Incomplete, p, [])"
proof (cases cmds)
  case Nil
  then show ?thesis using assms(1) by (simp add: unfinished_def parse_def)
next
  case (Cons cmd rest)
  then have "p = take (length p) (array_reply cmd)" "length p < length (array_reply cmd)"
    using assms(1,2) by (auto simp: unfinished_def append_eq_append_conv2) (metis append_eq_conv_conj)
  then show ?thesis
    using parse_array_cut [of cmd "length p" "[]"] assms(3) Cons by auto
qed

lemma serve_append:
  "serve envs n db (xs @ ys) = Some (rs, m, db') \<Longrightarrow>
    \<exists>rs1 n1 db1 rs2. serve envs n db xs = Some (rs1, n1, db1) \<and> serve envs n1 db1 ys = Some (rs2, m, db') \<and> rs = rs1 @ rs2"
proof (induction xs arbitrary: n db rs)
  case (Cons x xs)
  then obtain reply db1 rs0 where "dispatch (envs n) db x = Returns (reply, db1)" "rs = reply # rs0"
    "serve envs (Suc n) db1 (xs @ ys) = Some (rs0, m, db')"
    by (auto split: outcome.splits)
  with Cons.IH [of "Suc n" db1 rs0] show ?case by fastforce
qed simp

section \<open>Reading and writing\<close>

fun received :: "read_result list \<Rightarrow> string" where
  "received (Bytes s # rs) = s @ received rs"
| "received _ = []"

definition calm_reads :: "read_result list \<Rightarrow> bool" where
  "calm_reads rs \<longleftrightarrow> (\<forall>r \<in> set rs. r \<noteq> Read_Fails \<and> r \<noteq> Bytes [])"

definition calm_writes :: "write_result list \<Rightarrow> bool" where
  "calm_writes ws \<longleftrightarrow> (\<forall>w \<in> set ws. w \<noteq> Write_Fails \<and> w \<noteq> Peer_Gone)"

lemma read_loop_calm:
  "calm_reads rs \<Longrightarrow> read_loop c rs = (c\<lparr>cn_read_buf := cn_read_buf c @ received rs\<rparr>, True)"
  by (induction c rs rule: read_loop.induct) (simp_all add: calm_reads_def)

definition pending :: "conn \<Rightarrow> string" where
  "pending c = drop (cn_write_offset c) (cn_write_buf c)"

definition offset_ok :: "conn \<Rightarrow> bool" where
  "offset_ok c \<longleftrightarrow> cn_write_offset c \<le> length (cn_write_buf c)"

lemma pending_ne: "cn_write_offset c < length (cn_write_buf c) \<longleftrightarrow> pending c \<noteq> []"
  by (auto simp: pending_def)

lemma write_loop_takes:
  assumes "cn_write_offset c < length (cn_write_buf c)"
  shows "\<exists>chunk c1. write_loop c (Takes k # ws) = map_sum id (map_prod ((@) chunk) id) (write_loop c1 ws) \<and>
    chunk @ pending c1 = pending c \<and> offset_ok c1 \<and> cn_fd c1 = cn_fd c \<and> cn_read_buf c1 = cn_read_buf c \<and>
    cn_state c1 = cn_state c \<and> (length (pending c) \<le> k \<longrightarrow> pending c1 = [])"
proof -
  define chunk where "chunk = take (max 1 k) (drop (cn_write_offset c) (cn_write_buf c))"
  define c1 where "c1 = (let off = cn_write_offset c + length chunk in
    if off = length (cn_write_buf c) then c\<lparr>cn_write_buf := [], cn_write_offset := 0\<rparr> else c\<lparr>cn_write_offset := off\<rparr>)"
  have "chunk = take (length chunk) (pending c)" "length chunk \<le> length (pending c)"
    by (auto simp: chunk_def pending_def min_def)
  then have "chunk @ drop (length chunk) (pending c) = pending c"
    by (metis append_take_drop_id)
  moreover have "pending c1 = drop (length chunk) (pending c)" "offset_ok c1"
    using assms \<open>length chunk \<le> length (pending c)\<close>
    by (auto simp: c1_def pending_def offset_ok_def Let_def add.commute)
  moreover have "length (pending c) \<le> k \<longrightarrow> chunk = pending c"
    by (simp add: chunk_def pending_def)
  moreover have "write_loop c (Takes k # ws) = map_sum id (map_prod ((@) chunk) id) (write_loop c1 ws)"
    using assms by (subst write_loop.simps) (simp add: chunk_def c1_def Let_def)
  moreover have "cn_fd c1 = cn_fd c" "cn_read_buf c1 = cn_read_buf c" "cn_state c1 = cn_state c"
    by (simp_all add: c1_def Let_def)
  ultimately show ?thesis by (intro exI [of _ chunk] exI [of _ c1]) auto
qed

lemma write_loop_full: "\<not> cn_write_offset c < length (cn_write_buf c) \<Longrightarrow> write_loop c ws = Inr ([], c, All_Written)"
  by (subst write_loop.simps) simp

lemma write_loop_stops:
  assumes "cn_write_offset c < length (cn_write_buf c)"
  shows "write_loop c [] = Inr ([], c, Write_Left)" "write_loop c (Write_Again # ws) = Inr ([], c, Write_Left)"
    "write_loop c (Write_Fails # ws) = Inr ([], c\<lparr>cn_state := Closing\<rparr>, Write_Left)"
    "write_loop c (Peer_Gone # ws) = Inl Broken_Pipe"
  using assms by (subst write_loop.simps; simp)+

lemma write_loop_conserves:
  assumes "write_loop c ws = Inr (bytes, c', e)" "offset_ok c"
  shows "bytes @ pending c' = pending c \<and> offset_ok c' \<and> cn_fd c' = cn_fd c \<and> cn_read_buf c' = cn_read_buf c \<and>
    (e = All_Written \<longrightarrow> pending c' = []) \<and> (pending c' = [] \<longrightarrow> e = All_Written \<or> cn_state c' = Closing) \<and>
    cn_state c' \<in> {cn_state c, Closing} \<and> (calm_writes ws \<longrightarrow> cn_state c' = cn_state c)"
  using assms
proof (induction ws arbitrary: c bytes)
  case Nil
  then show ?case
    by (cases "cn_write_offset c < length (cn_write_buf c)") (auto simp: write_loop_stops write_loop_full pending_def)
next
  case (Cons w ws)
  show ?case
  proof (cases "cn_write_offset c < length (cn_write_buf c)")
    case False
    then show ?thesis
      using Cons.prems by (auto simp: write_loop_full pending_def)
  next
    case True
    note nonempty = True
    show ?thesis
    proof (cases w)
      case (Takes k)
      from write_loop_takes [OF True, of k ws] obtain chunk c1 where c1:
        "write_loop c (w # ws) = map_sum id (map_prod ((@) chunk) id) (write_loop c1 ws)"
        "chunk @ pending c1 = pending c" "offset_ok c1" "cn_fd c1 = cn_fd c" "cn_read_buf c1 = cn_read_buf c"
        "cn_state c1 = cn_state c" unfolding Takes by blast
      obtain b where b: "write_loop c1 ws = Inr (b, c', e)" "bytes = chunk @ b"
        using c1(1) Cons.prems(1) by (cases "write_loop c1 ws") auto
      from Cons.IH [OF b(1) c1(3)] show ?thesis
        using c1 b(2) by (auto simp: calm_writes_def)
    qed (use Cons.prems nonempty in \<open>auto simp: write_loop_stops pending_def offset_ok_def calm_writes_def\<close>)
  qed
qed


section \<open>Sessions\<close>

text \<open>The events of one descriptor, handled one after the other, and the bytes taken from the peer and given to it.\<close>

fun run_io :: "surroundings \<Rightarrow> int \<Rightarrow> (u32 \<times> io_results) list \<Rightarrow> server \<Rightarrow> served" where
  "run_io sr fd [] s = Some (Inr s)"
| "run_io sr fd ((ev, io) # es) s =
     (case on_io sr fd ev io s of Some (Inr s') \<Rightarrow> run_io sr fd es s' | r \<Rightarrow> r)"

definition arriving :: "u32 \<times> io_results \<Rightarrow> string" where
  "arriving = (\<lambda>(ev, io). if ev AND EPOLLIN \<noteq> 0 then received (io_reads io) else [])"

definition sent_to :: "server \<Rightarrow> int \<Rightarrow> string" where
  "sent_to s fd = concat (map snd (filter (\<lambda>(f, _). f = fd) (sv_sent s)))"

definition calm :: "u32 \<times> io_results \<Rightarrow> bool" where
  "calm = (\<lambda>(ev, io). calm_reads (io_reads io) \<and> calm_writes (io_writes io))"

definition live_conn :: "server \<Rightarrow> int \<Rightarrow> conn \<Rightarrow> bool" where
  "live_conn s fd c \<longleftrightarrow> sv_conns s fd = Some c \<and> cn_fd c = fd \<and> offset_ok c \<and> cn_state c \<noteq> Closing"

text \<open>What the reading half of an event does to a connection in the middle of a stream.\<close>

lemma do_read_stream:
  assumes c: "cn_read_buf c @ received rs = encoded now @ p" "length (encoded now @ p) < 2 ^ 31" "parse p [] = (Incomplete, p, [])"
    and d: "serve (sr_envs sr) (sv_calls s) (sv_db s) now = Some (rs', m, db')" "\<forall>cmd \<in> set now. cmd \<noteq> []"
    and ok: "calm_reads rs" "offset_ok c" "cn_state c \<noteq> Closing"
  shows "\<exists>s1 c1. do_read sr rs s c = Some (Inr (s1, c1)) \<and> sv_db s1 = db' \<and> sv_calls s1 = m \<and> sv_sent s1 = sv_sent s \<and>
    sv_conns s1 = sv_conns s \<and> cn_fd c1 = cn_fd c \<and> offset_ok c1 \<and> cn_state c1 \<noteq> Closing \<and> cn_read_buf c1 = p \<and>
    pending c1 = pending c @ concat rs'"
proof -
  let ?c0 = "c\<lparr>cn_read_buf := cn_read_buf c @ received rs\<rparr>"
  let ?c2 = "c\<lparr>cn_read_buf := p, cn_write_buf := cn_write_buf c @ concat rs', cn_args := []\<rparr>"
  have "parse_loop (sr_envs sr) (sv_calls s) ?c0 (sv_db s) = Some (Inr (m, ?c2, db'))"
    using parse_loop_stream [OF d(1,2), of ?c0 p] c by simp
  then have "do_read sr rs s c = Some (Inr (announce_writes (s\<lparr>sv_db := db', sv_calls := m\<rparr>) ?c2))"
    by (simp add: do_read_def try_parse_def read_loop_calm [OF ok(1)])
  then show ?thesis
    using ok(2,3) by (auto simp: announce_writes_def rc_modify_def offset_ok_def pending_def)
qed

lemma do_write_calm:
  assumes "calm_writes ws" "offset_ok c" "cn_state c \<noteq> Closing"
  shows "\<exists>s1 c1 bytes. do_write ws s c = Inr (s1, c1) \<and> sv_db s1 = sv_db s \<and> sv_calls s1 = sv_calls s \<and>
    sv_sent s1 = sv_sent s @ [(cn_fd c, bytes)] \<and> sv_conns s1 = sv_conns s \<and> cn_fd c1 = cn_fd c \<and> offset_ok c1 \<and>
    cn_state c1 \<noteq> Closing \<and> cn_read_buf c1 = cn_read_buf c \<and> bytes @ pending c1 = pending c"
proof -
  have "write_loop c ws \<noteq> Inl e" for e
    using assms(1)
  proof (induction ws arbitrary: c)
    case Nil
    then show ?case by (cases "cn_write_offset c < length (cn_write_buf c)") (simp_all add: write_loop_stops write_loop_full)
  next
    case (Cons w ws)
    show ?case
    proof (cases "cn_write_offset c < length (cn_write_buf c)")
      case True
      then show ?thesis
      proof (cases w)
        case (Takes k)
        with write_loop_takes [OF True, of k ws] obtain chunk c1 where
          "write_loop c (w # ws) = map_sum id (map_prod ((@) chunk) id) (write_loop c1 ws)" by blast
        moreover have "write_loop c1 ws \<noteq> Inl e" using Cons by (simp add: calm_writes_def)
        ultimately show ?thesis by (cases "write_loop c1 ws") auto
      qed (use True Cons.prems in \<open>auto simp: write_loop_stops calm_writes_def\<close>)
    qed (simp add: write_loop_full)
  qed
  then obtain bytes c' e where w: "write_loop c ws = Inr (bytes, c', e)"
    by (metis prod_cases3 sumE)
  from write_loop_conserves [OF w assms(2)] assms show ?thesis
    by (auto simp: do_write_def w Let_def rc_modify_def pending_def offset_ok_def split: prod.splits)
qed

lemma on_io_write_half:
  assumes "sv_conns s fd = Some c" "calm_writes (io_writes io)"
    "(if ev AND EPOLLIN \<noteq> 0 then do_read sr (io_reads io) s c else Some (Inr (s, c))) = Some (Inr (s1, c1))"
    "sv_sent s1 = sv_sent s" "cn_fd c1 = fd" "offset_ok c1" "cn_state c1 \<noteq> Closing"
  shows "\<exists>s' c'. on_io sr fd ev io s = Some (Inr s') \<and> live_conn s' fd c' \<and> sv_db s' = sv_db s1 \<and> sv_calls s' = sv_calls s1 \<and>
    cn_read_buf c' = cn_read_buf c1 \<and> sent_to s' fd @ pending c' = sent_to s fd @ pending c1"
proof -
  have "\<exists>s2 c2 sent. (if ev AND EPOLLOUT \<noteq> 0 then do_write (io_writes io) s1 c1 else Inr (s1, c1)) = Inr (s2, c2) \<and>
      sv_db s2 = sv_db s1 \<and> sv_calls s2 = sv_calls s1 \<and> sent_to s2 fd = sent_to s fd @ sent \<and> cn_fd c2 = fd \<and>
      offset_ok c2 \<and> cn_state c2 \<noteq> Closing \<and> cn_read_buf c2 = cn_read_buf c1 \<and> sent @ pending c2 = pending c1"
  proof (cases "ev AND EPOLLOUT = 0")
    case True
    then show ?thesis using assms by (intro exI [of _ s1] exI [of _ c1] exI [of _ "[]"]) (simp add: sent_to_def)
  next
    case False
    from do_write_calm [OF assms(2,6,7), of s1] assms(4,5) False show ?thesis by (auto simp: sent_to_def)
  qed
  then obtain s2 c2 sent where w: "(if ev AND EPOLLOUT \<noteq> 0 then do_write (io_writes io) s1 c1 else Inr (s1, c1)) = Inr (s2, c2)"
    "sv_db s2 = sv_db s1" "sv_calls s2 = sv_calls s1" "sent_to s2 fd = sent_to s fd @ sent" "cn_fd c2 = fd"
    "offset_ok c2" "cn_state c2 \<noteq> Closing" "cn_read_buf c2 = cn_read_buf c1" "sent @ pending c2 = pending c1"
    by blast
  have "on_io sr fd ev io s = Some (Inr (put_conn s2 c2))"
    using w(7) assms(1) by (simp add: on_io_def assms(3) w(1) finish_io_def)
  then show ?thesis
    using w by (intro exI [of _ "put_conn s2 c2"] exI [of _ c2]) (auto simp: live_conn_def put_conn_def sent_to_def)
qed

lemma on_io_stream:
  assumes l: "live_conn s fd c"
    and c: "cn_read_buf c @ arriving (ev, io) = encoded now @ p" "length (encoded now @ p) < 2 ^ 31" "parse p [] = (Incomplete, p, [])"
    and d: "serve (sr_envs sr) (sv_calls s) (sv_db s) now = Some (rs, m, db')" "\<forall>cmd \<in> set now. cmd \<noteq> []"
    and ok: "calm (ev, io)" "ev AND EPOLLIN = 0 \<Longrightarrow> now = []"
  shows "\<exists>s' c'. on_io sr fd ev io s = Some (Inr s') \<and> live_conn s' fd c' \<and> sv_db s' = db' \<and> sv_calls s' = m \<and>
    cn_read_buf c' = p \<and> sent_to s' fd @ pending c' = sent_to s fd @ pending c @ concat rs"
proof -
  have "\<exists>s1 c1. (if ev AND EPOLLIN \<noteq> 0 then do_read sr (io_reads io) s c else Some (Inr (s, c))) = Some (Inr (s1, c1)) \<and>
      sv_db s1 = db' \<and> sv_calls s1 = m \<and> sv_sent s1 = sv_sent s \<and> cn_fd c1 = fd \<and>
      offset_ok c1 \<and> cn_state c1 \<noteq> Closing \<and> cn_read_buf c1 = p \<and> pending c1 = pending c @ concat rs"
  proof (cases "ev AND EPOLLIN = 0")
    case True
    then show ?thesis using l c(1) d(1) ok(2) by (auto simp: live_conn_def arriving_def)
  next
    case False
    have "calm_reads (io_reads io)" using ok(1) by (simp add: calm_def)
    then show ?thesis
      using do_read_stream [of c "io_reads io" now p sr s rs m db'] False l c d by (auto simp: live_conn_def arriving_def)
  qed
  with on_io_write_half [of s fd c io ev sr] l ok(1) show ?thesis
    by (fastforce simp: live_conn_def calm_def)
qed

lemma session_stream:
  assumes "live_conn s fd c" "unfinished (cn_read_buf c) cmds"
    "cn_read_buf c @ concat (map arriving es) = encoded cmds"
    "\<forall>cmd \<in> set cmds. cmd \<noteq> [] \<and> length (array_reply cmd) < 2 ^ 30" "\<forall>e \<in> set es. calm e \<and> length (arriving e) < 2 ^ 30"
    "serve (sr_envs sr) (sv_calls s) (sv_db s) cmds = Some (rs, m, db')"
  shows "\<exists>s' c'. run_io sr fd es s = Some (Inr s') \<and> live_conn s' fd c' \<and> sv_db s' = db' \<and>
    cn_read_buf c' = [] \<and> sent_to s' fd @ pending c' = sent_to s fd @ pending c @ concat rs"
  using assms
proof (induction es arbitrary: s c cmds rs)
  case Nil
  then have "cmds = []" by (cases cmds) (auto simp: unfinished_def)
  then show ?case using Nil by (auto simp: unfinished_def)
next
  case (Cons e es)
  obtain ev io where e: "e = (ev, io)" by fastforce
  obtain now left p where cut: "cmds = now @ left" "cn_read_buf c @ arriving e = encoded now @ p"
    "p @ concat (map arriving es) = encoded left" "unfinished p left"
    using stream_cut [of "cn_read_buf c @ arriving e" "concat (map arriving es)" cmds] Cons.prems(3) by auto
  obtain rs1 n1 db1 rs2 where sv: "serve (sr_envs sr) (sv_calls s) (sv_db s) now = Some (rs1, n1, db1)"
    "serve (sr_envs sr) n1 db1 left = Some (rs2, m, db')" "rs = rs1 @ rs2"
    using serve_append Cons.prems(6) cut(1) by blast
  have "length (cn_read_buf c) < 2 ^ 30"
    using Cons.prems(2,4) by (cases cmds) (auto simp: unfinished_def)
  then have len: "length (encoded now @ p) < 2 ^ 31"
    using arg_cong [OF cut(2), of length] Cons.prems(5) by auto
  have "parse p [] = (Incomplete, p, [])"
    using unfinished_incomplete [OF cut(4,3)] Cons.prems(4) cut(1) by simp
  moreover have "now = []" if "ev AND EPOLLIN = 0"
  proof (rule ccontr)
    assume "now \<noteq> []"
    then obtain cmd more' where "now = cmd # more'" by (cases now) auto
    then show False
      using cut(1,2) Cons.prems(2) that e arg_cong [OF cut(2), of length] by (simp add: unfinished_def arriving_def)
  qed
  ultimately obtain s1 c1 where s1: "on_io sr fd ev io s = Some (Inr s1)" "live_conn s1 fd c1" "sv_db s1 = db1" "sv_calls s1 = n1"
    "cn_read_buf c1 = p" "sent_to s1 fd @ pending c1 = sent_to s fd @ pending c @ concat rs1"
    using on_io_stream [OF Cons.prems(1), of ev io now p sr rs1 n1 db1] cut(1,2) len sv(1) Cons.prems(4,5) e by auto
  from Cons.IH [OF s1(2), of left rs2] s1 cut Cons.prems(4,5) sv(2,3) e show ?case by fastforce
qed

section \<open>Broken input\<close>

text \<open>
  Arrays that the parser refuses, whatever follows: a number of elements that is not positive, or a byte
  other than \<^verbatim>\<open>$\<close> where a bulk string should start, after complete ones.
\<close>

definition refused :: "string \<Rightarrow> bool" where
  "refused buf \<longleftrightarrow>
     (\<exists>n later. buf = ''*'' @ int_dec n @ crlf @ later \<and> - (2 ^ 31) < n \<and> n \<le> 0) \<or>
     (\<exists>n items c later. buf = ''*'' @ nat_dec n @ crlf @ concat (map bulk_string items) @ c # later \<and>
        n < 2 ^ 31 \<and> length items < n \<and> c \<noteq> CHR ''$'')"

lemma refused_append:
  assumes "refused buf"
  shows "refused (buf @ more')"
  using assms unfolding refused_def
proof (elim disjE exE conjE)
  fix n later
  assume "buf = ''*'' @ int_dec n @ crlf @ later" "- (2 ^ 31) < n" "n \<le> 0"
  then show "(\<exists>n l. buf @ more' = ''*'' @ int_dec n @ crlf @ l \<and> - (2 ^ 31) < n \<and> n \<le> 0) \<or>
      (\<exists>n items c l. buf @ more' = ''*'' @ nat_dec n @ crlf @ concat (map bulk_string items) @ c # l \<and>
        n < 2 ^ 31 \<and> length items < n \<and> c \<noteq> CHR ''$'')"
    by (intro disjI1 exI [of _ n] exI [of _ "later @ more'"]) simp
next
  fix n items c later
  assume "buf = ''*'' @ nat_dec n @ crlf @ concat (map bulk_string items) @ c # later"
    "n < 2 ^ 31" "length items < n" "c \<noteq> CHR ''$''"
  then show "(\<exists>n l. buf @ more' = ''*'' @ int_dec n @ crlf @ l \<and> - (2 ^ 31) < n \<and> n \<le> 0) \<or>
      (\<exists>n items c l. buf @ more' = ''*'' @ nat_dec n @ crlf @ concat (map bulk_string items) @ c # l \<and>
        n < 2 ^ 31 \<and> length items < n \<and> c \<noteq> CHR ''$'')"
    by (intro disjI2 exI [of _ n] exI [of _ items] exI [of _ c] exI [of _ "later @ more'"]) simp
qed

lemma int_dec_no_cr: "CR \<notin> set (int_dec n)"
  using nat_dec_no_cr by (auto simp: int_dec_def)

lemma parse_no_elements:
  assumes "length (''*'' @ int_dec n @ crlf @ later) < 2 ^ 31" "- (2 ^ 31) < n" "n \<le> 0"
  shows "parse (''*'' @ int_dec n @ crlf @ later) out = (Error, ''*'' @ int_dec n @ crlf @ later, out)"
proof -
  have fc: "0 \<le> find_crlf (''*'' @ int_dec n @ crlf @ later) 0"
    using find_crlf_found [OF assms(1), of "[]" "''*'' @ int_dec n" later] int_dec_no_cr by simp
  have "atoi (int_dec n @ crlf @ later) = n"
    using atoi_read [OF crlf_read, of "nat (- n)" later] assms(2,3) by (cases "n = 0") (auto simp: int_dec_def)
  then show ?thesis
    using fc assms(3) by (simp add: parse_def parse_array_def)
qed

lemma parse_refused:
  assumes "refused buf" "length buf < 2 ^ 31"
  shows "parse buf out = (Error, buf, out)"
  using assms(1) unfolding refused_def
proof (elim disjE exE conjE)
  fix n items c later
  let ?h = "''*'' @ nat_dec n @ crlf"
  assume buf: "buf = ''*'' @ nat_dec n @ crlf @ concat (map bulk_string items) @ c # later"
    and n: "n < 2 ^ 31" "length items < n" and c: "c \<noteq> CHR ''$''"
  have split: "buf = ?h @ concat (map bulk_string items) @ c # later" using buf by simp
  obtain k where k: "n = length items + Suc k" using n(2) less_imp_Suc_add by fastforce
  let ?pos = "length (?h @ concat (map bulk_string items))"
  have "buf ! ?pos = c" "?pos < length buf" unfolding split append_assoc [symmetric] by (simp_all only: nth_append_length) simp
  then have "parse_args buf (Suc k) ?pos items = Inl Error" using c by simp
  then have "parse_args buf n (length ?h) [] = Inl Error"
    using parse_args_bulks [OF assms(2) split, of "Suc k" "[]"] unfolding k by simp
  then show ?thesis using array_header [OF assms(2) buf n(1)] n(2) by simp
qed (use parse_no_elements assms(2) in simp)

definition stuck_command :: string where
  "stuck_command = ''*1'' @ crlf @ ''$-12'' @ crlf"

text \<open>A length of \<open>-12\<close> takes the position back to the start of the buffer, so that nothing is consumed.\<close>

lemma parse_stuck_command: "parse stuck_command out = (Complete, stuck_command, [[]])"
proof -
  have "nat_dec 1 = ''1''" "nat_dec 12 = ''12''"
    by (subst nat_dec.simps, simp add: digit_char_def char_of_def bit_iff_odd)+ 
  note dec = this
  have len: "length stuck_command < 2 ^ 31" "length stuck_command = 10"
    by (simp_all add: stuck_command_def crlf_def)
  have header: "length (''*1'' @ crlf) = 4" by (simp add: crlf_def)
  have fc: "find_crlf stuck_command 4 = 8"
    using find_crlf_found [OF len(1), of "''*1'' @ crlf" "''$-12''" "[]"] unfolding header
    by (simp add: stuck_command_def)
  have at: "atoi (drop 5 stuck_command) = -12"
    using atoi_read(2) [OF crlf_read, of 12 "[]"] dec(2) by (simp add: stuck_command_def crlf_def)
  have u: "to_u64 (-12) = 2 ^ 64 - 12" "to_u64 (-10) = 2 ^ 64 - 10"
    by (simp_all add: to_u64_def)
  have "stuck_command ! 4 = CHR ''$''" by (simp add: stuck_command_def crlf_def)
  then have "parse_args stuck_command 1 4 [] = Inr (0, [[]])"
    using len(2) by (simp add: substr_def fc at u Let_def)
  moreover have "length (''*'' @ nat_dec 1 @ crlf) = 4" using dec(1) by (simp add: crlf_def)
  moreover have "stuck_command = ''*'' @ nat_dec 1 @ crlf @ ''$-12'' @ crlf"
    using dec(1) by (simp add: stuck_command_def)
  ultimately show ?thesis
    using array_header [OF len(1), of 1 "''$-12'' @ crlf" out] by (simp only: drop_0) simp
qed

end
