(* ===== verification/Server_Properties.thy ===== *)
theory Server_Properties
  imports Server_Proofs
begin

text \<open>
  What the event loop keeps: no reply is left without a registered event, every descriptor with a
  handler has its connection, and both timers stay armed; and the properties of sessions.
\<close>

section \<open>The invariant\<close>

lemma event_bits [simp]: "EPOLLIN \<noteq> 0" "EPOLLOUT \<noteq> 0" "(EPOLLIN OR EPOLLOUT) AND EPOLLIN \<noteq> 0" "(EPOLLIN OR EPOLLOUT) AND EPOLLOUT \<noteq> 0"
  "EPOLLIN AND EPOLLOUT = 0" "EPOLLOUT AND EPOLLIN = 0"
  by (simp_all add: EPOLLIN_def EPOLLOUT_def)

text \<open>A connection that is served: its state tells whether bytes are unsent, and if so their event is asked for.\<close>

definition served_ok :: "server \<Rightarrow> int \<Rightarrow> conn \<Rightarrow> bool" where
  "served_ok s fd c \<longleftrightarrow> cn_state c = (if pending c = [] then Reading else Writing) \<and>
     (pending c \<noteq> [] \<longrightarrow> (\<exists>ev. rc_interest s fd = Some ev \<and> ev AND EPOLLOUT \<noteq> 0))"

definition server_ok :: "server \<Rightarrow> bool" where
  "server_ok s \<longleftrightarrow>
     (\<forall>fd c. sv_conns s fd = Some c \<longrightarrow> cn_fd c = fd \<and> offset_ok c \<and> served_ok s fd c \<and> rc_interest s fd \<noteq> None) \<and>
     (\<forall>fd. rc_handlers s fd = Some On_Io \<longleftrightarrow> sv_conns s fd \<noteq> None) \<and>
     (\<forall>fd ev. rc_interest s fd = Some ev \<longrightarrow> ev AND EPOLLIN \<noteq> 0) \<and>
     image_mset tm_cb (mset (rc_timers s)) = {#Tick, Snapshot#}"

lemma server_ok_cong:
  "sv_conns t = sv_conns s \<Longrightarrow> rc_handlers t = rc_handlers s \<Longrightarrow> rc_interest t = rc_interest s \<Longrightarrow>
    rc_timers t = rc_timers s \<Longrightarrow> server_ok t = server_ok s"
  by (simp add: server_ok_def served_ok_def)

text \<open>What an event of \<open>fd\<close> leaves alone while its connection is in hand.\<close>

definition others_kept :: "int \<Rightarrow> server \<Rightarrow> server \<Rightarrow> bool" where
  "others_kept fd s s' \<longleftrightarrow> sv_conns s' = sv_conns s \<and> rc_handlers s' = rc_handlers s \<and> rc_timers s' = rc_timers s \<and>
     (\<forall>f. f \<noteq> fd \<longrightarrow> rc_interest s' f = rc_interest s f) \<and> (rc_interest s fd \<noteq> None \<longrightarrow> rc_interest s' fd \<noteq> None) \<and>
     (\<forall>ev. rc_interest s' fd = Some ev \<longrightarrow> rc_interest s fd = Some ev \<or> ev AND EPOLLIN \<noteq> 0)"

lemma others_kept_refl [simp]: "others_kept fd s s"
  by (simp add: others_kept_def)

lemma others_kept_trans: "others_kept fd s t \<Longrightarrow> others_kept fd t u \<Longrightarrow> others_kept fd s u"
  unfolding others_kept_def by metis

definition in_hand :: "int \<Rightarrow> server \<Rightarrow> conn \<Rightarrow> bool" where
  "in_hand fd s c \<longleftrightarrow> cn_fd c = fd \<and> offset_ok c \<and> rc_interest s fd \<noteq> None \<and> (cn_state c \<noteq> Closing \<longrightarrow> served_ok s fd c)"

lemma read_loop_keeps:
  "read_loop c rs = (c', go) \<Longrightarrow> cn_fd c' = cn_fd c \<and> cn_write_buf c' = cn_write_buf c \<and>
    cn_write_offset c' = cn_write_offset c \<and> cn_state c' = (if go then cn_state c else Closing)"
  by (induction c rs rule: read_loop.induct) (auto split: if_splits)

lemma parse_loop_keeps:
  assumes "parse_loop envs n c db = Some (Inr (m, c', db'))"
  shows "cn_fd c' = cn_fd c \<and> cn_write_offset c' = cn_write_offset c \<and>
    (\<exists>x. cn_write_buf c' = cn_write_buf c @ x \<and> (cn_state c' = cn_state c \<or> x \<noteq> []))"
proof -
  let ?Q = "\<lambda>c r. \<forall>m c' db'. r = Inr (m, c', db') \<longrightarrow> cn_fd c' = cn_fd c \<and> cn_write_offset c' = cn_write_offset c \<and>
    (\<exists>x. cn_write_buf c' = cn_write_buf c @ x \<and> (cn_state c' = cn_state c \<or> x \<noteq> []))"
  have "?Q c r" if "parse_loop envs n c db = Some r" for r
  proof (rule parse_loop.raw_induct [where P = "\<lambda>_ _ c _ r. ?Q c r", OF _ that], goal_cases)
    case (1 go envs n c db r)
    obtain res buf args where p: "parse (cn_read_buf c) [] = (res, buf, args)"
      by (metis prod_cases3)
    show ?case
    proof (cases res)
      case Complete
      then obtain reply db1 where d: "dispatch (envs n) db args = Returns (reply, db1) \<and>
          go envs (Suc n) (c\<lparr>cn_read_buf := buf, cn_args := args, cn_write_buf := cn_write_buf c @ reply\<rparr>) db1 = Some r \<or>
          (\<exists>e. r = Inl e)"
        using 1(2) p by (auto split: outcome.splits)
      then show ?thesis
      proof (elim disjE conjE exE)
        assume "go envs (Suc n) (c\<lparr>cn_read_buf := buf, cn_args := args, cn_write_buf := cn_write_buf c @ reply\<rparr>) db1 = Some r"
        from 1(1) [OF this] show ?thesis by fastforce
      qed simp
    qed (use 1(2) p in \<open>auto simp: error_reply_def\<close>)
  qed
  then show ?thesis using assms by blast
qed

lemma do_read_ok:
  assumes "do_read sr rs s c = Some (Inr (s1, c1))" "in_hand fd s c"
  shows "in_hand fd s1 c1 \<and> others_kept fd s s1"
proof -
  obtain c0 go where r: "read_loop c rs = (c0, go)" by fastforce
  note keep = read_loop_keeps [OF r]
  show ?thesis
  proof (cases go)
    case False
    then show ?thesis using assms keep by (auto simp: do_read_def r in_hand_def offset_ok_def)
  next
    case True
    then obtain n c2 db where p: "parse_loop (sr_envs sr) (sv_calls s) c0 (sv_db s) = Some (Inr (n, c2, db))"
      "announce_writes (s\<lparr>sv_db := db, sv_calls := n\<rparr>) c2 = (s1, c1)"
      using assms(1)
      by (cases "parse_loop (sr_envs sr) (sv_calls s) c0 (sv_db s)"; cases "the (parse_loop (sr_envs sr) (sv_calls s) c0 (sv_db s))")
        (auto simp: do_read_def r try_parse_def)
    from parse_loop_keeps [OF p(1)] obtain x where x: "cn_fd c2 = cn_fd c0" "cn_write_offset c2 = cn_write_offset c0"
      "cn_write_buf c2 = cn_write_buf c0 @ x" "cn_state c2 = cn_state c0 \<or> x \<noteq> []" by blast
    have pend: "pending c2 = pending c @ x" "offset_ok c2"
      using x keep assms(2) by (auto simp: pending_def in_hand_def offset_ok_def)
    show ?thesis
    proof (cases "pending c2 = []")
      case True
      then have "s1 = s\<lparr>sv_db := db, sv_calls := n\<rparr>" "c1 = c2"
        using p(2) by (auto simp: announce_writes_def pending_ne)
      then show ?thesis
        using assms(2) x keep \<open>go\<close> pend True by (auto simp: in_hand_def served_ok_def others_kept_def)
    next
      case False
      then have "s1 = rc_modify (s\<lparr>sv_db := db, sv_calls := n\<rparr>) (cn_fd c2) (EPOLLIN OR EPOLLOUT)" "c1 = c2\<lparr>cn_state := Writing\<rparr>"
        using p(2) by (auto simp: announce_writes_def pending_ne)
      then show ?thesis
        using assms(2) x keep pend False
        by (auto simp: in_hand_def served_ok_def others_kept_def rc_modify_def epoll_mod_def offset_ok_def pending_def)
    qed
  qed
qed

lemma do_write_ok:
  assumes "do_write ws s c = Inr (s1, c1)" "in_hand fd s c"
  shows "in_hand fd s1 c1 \<and> others_kept fd s s1"
proof -
  obtain bytes c2 e where w: "write_loop c ws = Inr (bytes, c2, e)"
    using assms(1) by (auto simp: do_write_def split: sum.splits)
  have k: "bytes @ pending c2 = pending c" "offset_ok c2" "cn_fd c2 = fd" "e = All_Written \<longrightarrow> pending c2 = []"
    "pending c2 = [] \<longrightarrow> e = All_Written \<or> cn_state c2 = Closing" "cn_state c2 \<in> {cn_state c, Closing}"
    using write_loop_conserves [OF w] assms(2) by (auto simp: in_hand_def)
  show ?thesis
  proof (cases "e = All_Written \<and> cn_state c2 \<noteq> Closing")
    case True
    then have "s1 = rc_modify (s\<lparr>sv_sent := sv_sent s @ [(cn_fd c, bytes)]\<rparr>) (cn_fd c) EPOLLIN" "c1 = c2\<lparr>cn_state := Reading\<rparr>"
      using assms(1) by (simp_all add: do_write_def w Let_def)
    then show ?thesis
      using k True assms(2)
      by (auto simp: in_hand_def served_ok_def others_kept_def rc_modify_def epoll_mod_def offset_ok_def pending_def)
  next
    case False
    then have "s1 = s\<lparr>sv_sent := sv_sent s @ [(cn_fd c, bytes)]\<rparr>" "c1 = c2"
      using assms(1) by (auto simp: do_write_def w Let_def split: if_splits)
    then show ?thesis
      using k False assms(2) by (auto simp: in_hand_def served_ok_def others_kept_def)
  qed
qed

lemma finish_io_ok:
  assumes "server_ok s" "in_hand fd s1 c1" "others_kept fd s s1" "sv_conns s fd \<noteq> None"
  shows "server_ok (finish_io s1 c1)"
proof -
  have ints: "\<forall>f ev. rc_interest s1 f = Some ev \<longrightarrow> ev AND EPOLLIN \<noteq> 0"
    using assms(1,3) unfolding server_ok_def others_kept_def by metis
  have olds: "served_ok s1 f c \<and> rc_interest s1 f \<noteq> None \<and> cn_fd c = f \<and> offset_ok c" if "sv_conns s f = Some c" "f \<noteq> fd" for f c
    using assms(1,3) that by (auto simp: server_ok_def others_kept_def served_ok_def)
  have io: "rc_handlers s1 f = Some On_Io \<longleftrightarrow> sv_conns s f \<noteq> None" for f
    using assms(1,3) by (simp add: server_ok_def others_kept_def)
  have rest: "sv_conns s1 = sv_conns s" "image_mset tm_cb (mset (rc_timers s1)) = {#Tick, Snapshot#}"
    using assms(1,3) by (simp_all add: server_ok_def others_kept_def)
  show ?thesis
  proof (cases "cn_state c1 = Closing")
    case True
    then show ?thesis
      using assms(2) ints olds io rest
      by (auto simp: server_ok_def in_hand_def finish_io_def close_conn_def rc_remove_def served_ok_def Let_def)
  next
    case False
    have "server_ok (put_conn s1 c1)"
      unfolding server_ok_def
    proof (intro conjI allI impI)
      show "image_mset tm_cb (mset (rc_timers (put_conn s1 c1))) = {#Tick, Snapshot#}"
        using rest by (simp add: put_conn_def)
    qed (use assms(2,4) ints olds io rest False in \<open>auto simp: in_hand_def put_conn_def served_ok_def split: if_splits\<close>)
    then show ?thesis using False by (simp add: finish_io_def)
  qed
qed

lemma on_io_ok:
  assumes "on_io sr fd ev io s = Some (Inr s')" "server_ok s"
  shows "server_ok s'"
proof (cases "sv_conns s fd")
  case None
  then show ?thesis using assms by (simp add: on_io_def)
next
  case (Some c)
  obtain s1 c1 where r: "(if ev AND EPOLLIN \<noteq> 0 then do_read sr (io_reads io) s c else Some (Inr (s, c))) = Some (Inr (s1, c1))"
    using assms(1) Some by (auto simp: on_io_def split: option.splits sum.splits)
  obtain s2 c2 where w: "(if ev AND EPOLLOUT \<noteq> 0 then do_write (io_writes io) s1 c1 else Inr (s1, c1)) = Inr (s2, c2)"
    "s' = finish_io s2 c2"
    using assms(1) Some r by (simp add: on_io_def split: sum.splits prod.splits)
  have "in_hand fd s c" using assms(2) Some by (auto simp: server_ok_def in_hand_def)
  then have 1: "in_hand fd s1 c1 \<and> others_kept fd s s1"
    using r do_read_ok [of sr "io_reads io" s c s1 c1 fd] by (auto split: if_splits)
  then have 2: "in_hand fd s2 c2 \<and> others_kept fd s1 s2"
    using w(1) do_write_ok [of "io_writes io" s1 c1 s2 c2 fd] by (auto split: if_splits)
  show ?thesis
    using finish_io_ok [OF assms(2), of fd s2 c2] 1 2 others_kept_trans Some w(2) by blast
qed

lemma accept_all_ok: "server_ok s \<Longrightarrow> server_ok (accept_all fds s)"
proof (induction fds arbitrary: s)
  case (Cons fd fds)
  have "server_ok (rc_add (put_conn s (conn_new fd)) fd EPOLLIN On_Io)"
    using Cons.prems
    by (auto simp: server_ok_def rc_add_def put_conn_def conn_new_def offset_ok_def served_ok_def pending_def epoll_add_def)
  with Cons show ?case by simp
qed simp

lemma run_handler_ok: "run_handler sr h fd ev io s = Some (Inr s') \<Longrightarrow> server_ok s \<Longrightarrow> server_ok s'"
  by (cases h) (auto intro: on_io_ok accept_all_ok)

lemma posted_ok: "server_ok s \<Longrightarrow> run_posted (\<lambda>_ s. Some (Inr s)) ps s = Some (Inr s') \<Longrightarrow> server_ok s'"
  by (induction ps arbitrary: s) auto

lemma handle_events_ok:
  "handle_events (run_handler sr) (\<lambda>_ s. Some (Inr s)) es s = Some (Inr s') \<Longrightarrow> server_ok s \<Longrightarrow> server_ok s'"
proof (induction es arbitrary: s)
  case (Cons e es)
  obtain fd ev io where e: "e = (fd, ev, io)" by (metis prod_cases3)
  obtain s1 where s1: "(if fd = rc_event_fd s then run_posted (\<lambda>_ s. Some (Inr s)) (rc_posted s) (s\<lparr>rc_posted := [], rc_signals := 0\<rparr>)
      else case rc_handlers s fd of None \<Rightarrow> Some (Inr s) | Some h \<Rightarrow> run_handler sr h fd ev io s) = Some (Inr s1)"
    "handle_events (run_handler sr) (\<lambda>_ s. Some (Inr s)) es s1 = Some (Inr s')"
    using Cons.prems(1) unfolding e handle_events.simps by (simp split: option.splits sum.splits)
  have "server_ok (s\<lparr>rc_posted := [], rc_signals := 0\<rparr>)"
    using Cons.prems(2) server_ok_cong [of "s\<lparr>rc_posted := [], rc_signals := 0\<rparr>" s] by simp
  then have "server_ok s1"
    using s1(1) Cons.prems(2) posted_ok [of "s\<lparr>rc_posted := [], rc_signals := 0\<rparr>" "rc_posted s" s1]
    by (auto split: if_splits option.splits intro: run_handler_ok)
  from Cons.IH [OF s1(2) this] show ?case .
qed simp

text \<open>A timer is taken out while its callback runs, so that part of the invariant is restored by the callback.\<close>

definition wired_ok :: "server \<Rightarrow> bool" where
  "wired_ok s \<longleftrightarrow> server_ok (s\<lparr>rc_timers := [\<lparr>tm_when = 0, tm_cb = Tick\<rparr>, \<lparr>tm_when = 0, tm_cb = Snapshot\<rparr>]\<rparr>)"

lemma wired_ok_iff: "server_ok s \<longleftrightarrow> wired_ok s \<and> image_mset tm_cb (mset (rc_timers s)) = {#Tick, Snapshot#}"
  by (auto simp: wired_ok_def server_ok_def served_ok_def)

lemma run_timer_ok:
  assumes "wired_ok s" "run_timer sr job s = Some (Inr s')"
  shows "wired_ok s' \<and> image_mset tm_cb (mset (rc_timers s')) = image_mset tm_cb (mset (rc_timers s)) + {#job#}"
  using assms
  by (cases job) (auto simp: wired_ok_def server_ok_def served_ok_def schedule_tick_def server_add_timer_def rc_add_timer_def)

lemma poll_ok:
  assumes "server_poll sr now es s = Some (Inr s')" "server_ok s"
  shows "server_ok s'"
proof -
  obtain s1 where s1: "fire_timers (sr_pick sr) (run_timer sr) now s = Some (Inr s1)"
    "handle_events (run_handler sr) (\<lambda>_ s. Some (Inr s)) es s1 = Some (Inr s')"
    using assms(1)
    by (cases "fire_timers (sr_pick sr) (run_timer sr) now s"; cases "the (fire_timers (sr_pick sr) (run_timer sr) now s)")
      (auto simp: server_poll_def rc_poll_def)
  have "wired_ok s1 \<and> image_mset tm_cb (mset (rc_timers s1)) = image_mset tm_cb (mset (rc_timers s))"
  proof (rule fire_timers_keeps [OF s1(1) refl, where P = wired_ok])
    show "wired_ok s" using assms(2) wired_ok_iff by blast
  qed (use run_timer_ok in \<open>blast | simp add: wired_ok_def\<close>)+
  then have "server_ok s1" using assms(2) wired_ok_iff by simp
  then show ?thesis using handle_events_ok [OF s1(2)] by blast
qed

text \<open>The states of a server that was started with the settings \<open>cfg\<close> and the files \<open>fs\<close>.\<close>

inductive server_reached :: "surroundings \<Rightarrow> config \<Rightarrow> files \<Rightarrow> server \<Rightarrow> bool" for sr cfg fs where
  boot: "server_new cfg fs event_fd = Inr s0 \<Longrightarrow> server_start sr cfg listen_fd s0 = Some s \<Longrightarrow> server_reached sr cfg fs s"
| round: "server_reached sr cfg fs s \<Longrightarrow> server_poll sr now es s = Some (Inr s') \<Longrightarrow> server_reached sr cfg fs s'"

lemma start_ok:
  assumes "server_new cfg fs event_fd = Inr s0" "server_start sr cfg listen_fd s0 = Some s"
  shows "server_ok s"
proof -
  have new: "sv_conns s0 = Map.empty \<and> rc_handlers s0 = Map.empty \<and> rc_interest s0 = [event_fd \<mapsto> EPOLLIN] \<and> rc_timers s0 = []"
    using assms(1) by (auto simp: server_new_def rc_new_def reactor.defs epoll_add_def split: if_splits)
  obtain s1 where s1: "server_load sr s0 = Some s1"
    "s = (server_add_timer sr ((schedule_tick sr (rc_add (s1\<lparr>sv_listen := listen_fd\<rparr>) listen_fd EPOLLIN On_Accept))
      \<lparr>sv_interval := cf_interval cfg * 1000\<rparr>) (cf_interval cfg * 1000) Snapshot)\<lparr>rc_running := True\<rparr>"
    using assms(2) by (auto simp: server_start_def Let_def bind_eq_Some_conv split: if_splits)
  have "sv_conns s1 = Map.empty \<and> rc_handlers s1 = Map.empty \<and> rc_interest s1 = [event_fd \<mapsto> EPOLLIN] \<and> rc_timers s1 = []"
    using s1(1) new by (auto simp: server_load_def Let_def)
  then have "sv_conns s = Map.empty" "rc_handlers s = [listen_fd \<mapsto> On_Accept]"
    "rc_interest s = epoll_add listen_fd EPOLLIN [event_fd \<mapsto> EPOLLIN]"
    "image_mset tm_cb (mset (rc_timers s)) = {#Tick, Snapshot#}"
    by (simp_all add: s1(2) schedule_tick_def server_add_timer_def rc_add_def rc_add_timer_def)
  then show ?thesis by (simp add: server_ok_def epoll_add_def)
qed

lemma reachable_ok: "server_reached sr cfg fs s \<Longrightarrow> server_ok s"
  by (induction rule: server_reached.induct) (auto intro: start_ok poll_ok)

section \<open>Timers\<close>

definition timers_ok :: "surroundings \<Rightarrow> int \<Rightarrow> server \<Rightarrow> bool" where
  "timers_ok sr now s \<longleftrightarrow> kv_inv (db_kv (sv_db s)) \<and> 0 < sv_interval s \<and> (\<forall>n \<ge> sv_calls s. now \<le> sr_nanos sr n)"

interpretation timers: timer_client "run_timer sr" now "timers_ok sr now" for sr now
proof
  fix s :: server and cb
  assume ok: "timers_ok sr now s"
  show "\<exists>s' t. run_timer sr cb s = Some (Inr s') \<and> timers_ok sr now s' \<and> rc_timers s' = rc_timers s @ [t] \<and>
      tm_cb t = cb \<and> now < tm_when t"
  proof (cases cb)
    case Tick
    obtain kv' where "kv_tick (ce_now (sr_envs sr (sv_calls s))) (db_kv (sv_db s)) = Some kv'" "kv_inv kv'"
      using kv_tick_ok ok by (meson timers_ok_def)
    moreover have "now < sr_nanos sr (Suc (sv_calls s)) + 100000000"
      using ok [unfolded timers_ok_def] by (auto dest: spec [where x = "Suc (sv_calls s)"])
    ultimately show ?thesis
      using ok Tick by (auto simp: timers_ok_def schedule_tick_def server_add_timer_def rc_add_timer_def)
  next
    case Snapshot
    have "now \<le> sr_nanos sr (sv_calls s)" "0 < sv_interval s * 1000000" using ok by (simp_all add: timers_ok_def)
    then have "now < sr_nanos sr (sv_calls s) + sv_interval s * 1000000" by linarith
    then show ?thesis
      using ok Snapshot by (auto simp: timers_ok_def server_add_timer_def rc_add_timer_def)
  qed
qed (simp add: timers_ok_def)

section \<open>Broken sessions\<close>

lemma protocol_error_step:
  assumes "live_conn s fd c" "cn_read_buf c @ arriving (ev, io) = y" "refused y" "length y < 2 ^ 31"
    "ev AND EPOLLIN \<noteq> 0" "calm (ev, io)"
  shows "\<exists>s' c'. on_io sr fd ev io s = Some (Inr s') \<and> live_conn s' fd c' \<and> cn_read_buf c' = y \<and> sv_db s' = sv_db s \<and>
    sent_to s' fd @ pending c' = sent_to s fd @ pending c @ error_reply ''protocol error''"
proof -
  let ?c1 = "c\<lparr>cn_read_buf := y, cn_args := [], cn_state := Writing,
    cn_write_buf := cn_write_buf c @ error_reply ''protocol error''\<rparr>"
  have c: "cn_fd c = fd" "offset_ok c" "sv_conns s fd = Some c" using assms(1) by (simp_all add: live_conn_def)
  have reads: "calm_reads (io_reads io)" "calm_writes (io_writes io)" using assms(6) by (simp_all add: calm_def)
  have buf: "cn_read_buf c @ received (io_reads io) = y"
    using assms(2,5) by (simp add: arriving_def)
  have "try_parse sr s (c\<lparr>cn_read_buf := y\<rparr>) =
      Some (Inr (rc_modify (s\<lparr>sv_calls := sv_calls s\<rparr>) fd (EPOLLIN OR EPOLLOUT), ?c1))"
    using parse_refused [OF assms(3,4)] c
    by (simp add: try_parse_def parse_loop.simps [of _ _ "c\<lparr>cn_read_buf := _\<rparr>"] announce_writes_def error_reply_def offset_ok_def)
  then have "do_read sr (io_reads io) s c = Some (Inr (rc_modify (s\<lparr>sv_calls := sv_calls s\<rparr>) fd (EPOLLIN OR EPOLLOUT), ?c1))"
    by (simp only: do_read_def read_loop_calm [OF reads(1)] buf prod.case if_True)
  from on_io_write_half [OF c(3) reads(2), where ev = ev and sr = sr, unfolded this] c assms(5) show ?thesis
    by (fastforce simp: rc_modify_def offset_ok_def pending_def)
qed

lemma protocol_error_run:
  assumes "live_conn s fd c" "refused (cn_read_buf c)" "\<forall>(ev, io) \<in> set es. ev AND EPOLLIN \<noteq> 0 \<and> calm (ev, io)"
    "length (cn_read_buf c) + length (concat (map arriving es)) < 2 ^ 31"
  shows "\<exists>s' c'. run_io sr fd es s = Some (Inr s') \<and> sv_conns s' fd = Some c' \<and> cn_state c' \<noteq> Closing \<and>
    cn_read_buf c' = cn_read_buf c @ concat (map arriving es) \<and> sv_db s' = sv_db s \<and>
    sent_to s' fd @ pending c' = sent_to s fd @ pending c @ concat (replicate (length es) (error_reply ''protocol error''))"
  using assms
proof (induction es arbitrary: s c)
  case Nil
  then show ?case by (simp add: live_conn_def)
next
  case (Cons e es)
  obtain ev io where e: "e = (ev, io)" by fastforce
  let ?y = "cn_read_buf c @ arriving e"
  have y: "refused ?y" "length ?y + length (concat (map arriving es)) < 2 ^ 31"
    using refused_append Cons.prems(2,4) by simp_all
  then obtain s1 c1 where s1: "on_io sr fd ev io s = Some (Inr s1)" "live_conn s1 fd c1" "cn_read_buf c1 = ?y" "sv_db s1 = sv_db s"
    "sent_to s1 fd @ pending c1 = sent_to s fd @ pending c @ error_reply ''protocol error''"
    using protocol_error_step [OF Cons.prems(1), of ev io ?y sr] Cons.prems(3) e by auto
  from Cons.IH [OF s1(2)] y Cons.prems(3) s1 e show ?case by fastforce
qed

lemma parse_loop_stuck:
  assumes "cn_read_buf c = stuck_command"
  shows "parse_loop envs n c db = None"
proof -
  have "cn_read_buf c \<noteq> stuck_command" if "parse_loop envs n c db = Some r" for r
  proof (rule parse_loop.raw_induct [where P = "\<lambda>_ _ c _ _. cn_read_buf c \<noteq> stuck_command", OF _ that], goal_cases)
    case (1 go envs n c db r)
    have "dispatch (envs n) db [[]] = Returns (unknown_command [] [], db)"
      by (simp add: dispatch_def to_upper_def handle_kv_def)
    then show ?case using 1(2) 1(1) [of envs "Suc n"] parse_stuck_command [of "[]"] by fastforce
  qed
  then show ?thesis using assms by (cases "parse_loop envs n c db") auto
qed

section \<open>Concrete servers\<close>

definition plain_sr :: surroundings where
  "plain_sr = \<lparr>sr_envs = (\<lambda>_. plain_env), sr_nanos = (\<lambda>_. 0), sr_pick = (\<lambda>_. 0)\<rparr>"

definition plain_server :: "conn list \<Rightarrow> server" where
  "plain_server cs = reactor.extend ((rc_new 3) \<lparr>rc_handlers := map_of (map (\<lambda>c. (cn_fd c, On_Io)) cs),
       rc_interest := map_of (map (\<lambda>c. (cn_fd c, EPOLLIN)) cs)\<rparr>)
     \<lparr>sv_listen = 4, sv_interval = 1000, sv_db = db_new ''f'' Map.empty, sv_conns = map_of (map (\<lambda>c. (cn_fd c, c)) cs),
      sv_jobs = [], sv_calls = 0, sv_sent = []\<rparr>"

definition only_reads :: "read_result list \<Rightarrow> io_results" where
  "only_reads rs = \<lparr>io_reads = rs, io_writes = [], io_accepts = []\<rparr>"

definition only_writes :: "write_result list \<Rightarrow> io_results" where
  "only_writes ws = \<lparr>io_reads = [], io_writes = ws, io_accepts = []\<rparr>"

section \<open>Properties\<close>

text \<open>
  C3. A pipelined session is answered in order: however the network cuts the encoded commands into
  reads, and however much the kernel takes at each write, the bytes sent and still to be sent are the
  replies of the dispatcher to the commands, one after the other, and nothing is left unparsed.
\<close>

theorem pipelined_commands_answered:
  assumes "sv_conns s fd = Some (conn_new fd)" "concat (map arriving es) = encoded cmds"
    "\<forall>cmd \<in> set cmds. cmd \<noteq> [] \<and> length (array_reply cmd) < 2 ^ 30" "\<forall>e \<in> set es. calm e \<and> length (arriving e) < 2 ^ 30"
    "serve (sr_envs sr) (sv_calls s) (sv_db s) cmds = Some (replies, m, db')"
  shows "\<exists>s' c. run_io sr fd es s = Some (Inr s') \<and> sv_conns s' fd = Some c \<and> cn_state c \<noteq> Closing \<and> cn_read_buf c = [] \<and>
    sv_db s' = db' \<and> sent_to s' fd @ drop (cn_write_offset c) (cn_write_buf c) = sent_to s fd @ concat replies"
proof -
  have "live_conn s fd (conn_new fd)" "pending (conn_new fd) = []" "cn_read_buf (conn_new fd) = []"
    using assms(1) by (simp_all add: live_conn_def conn_new_def offset_ok_def pending_def)
  then show ?thesis
    using unfinished_nil [of cmds] session_stream [of s fd "conn_new fd" cmds es sr replies m db'] assms
    by (auto simp: live_conn_def pending_def)
qed

theorem pipelined_commands_answered_witness:
  "\<exists>s' c. run_io plain_sr 5 [(EPOLLIN, only_reads [Bytes (''*1'' @ crlf @ ''$4'' @ crlf @ ''PI'')]),
      (EPOLLIN, only_reads [Bytes (''NG'' @ crlf @ ''*1''), Bytes (crlf @ ''$4'' @ crlf @ ''PING'' @ crlf)]),
      (EPOLLOUT, only_writes [Takes 3])] (plain_server [conn_new 5]) = Some (Inr s') \<and>
    sv_conns s' 5 = Some c \<and>
    sent_to s' 5 @ drop (cn_write_offset c) (cn_write_buf c) = simple_string ''PONG'' @ simple_string ''PONG''"
proof -
  let ?s = "plain_server [conn_new 5]" and ?cmds = "[[''PING''], [''PING'']]"
  let ?es = "[(EPOLLIN, only_reads [Bytes (''*1'' @ crlf @ ''$4'' @ crlf @ ''PI'')]),
      (EPOLLIN, only_reads [Bytes (''NG'' @ crlf @ ''*1''), Bytes (crlf @ ''$4'' @ crlf @ ''PING'' @ crlf)]),
      (EPOLLOUT, only_writes [Takes 3])]"
  have dec: "nat_dec (Suc 0) = ''1''" "nat_dec (Suc (Suc (Suc (Suc 0)))) = ''4''"
    by (subst nat_dec.simps, simp add: digit_char_def char_of_def bit_iff_odd)+
  then have enc: "array_reply [''PING''] = ''*1'' @ crlf @ ''$4'' @ crlf @ ''PING'' @ crlf"
    by (simp add: array_reply_def bulk_string_def)
  have 1: "sv_conns ?s 5 = Some (conn_new 5)" by (simp add: plain_server_def reactor.defs conn_new_def)
  have 2: "concat (map arriving ?es) = encoded ?cmds"
    by (simp add: arriving_def only_reads_def only_writes_def enc)
  have 3: "\<forall>cmd \<in> set ?cmds. cmd \<noteq> [] \<and> length (array_reply cmd) < 2 ^ 30" by (simp add: enc crlf_def)
  have 4: "\<forall>e \<in> set ?es. calm e \<and> length (arriving e) < 2 ^ 30"
    by (simp add: arriving_def only_reads_def only_writes_def calm_def calm_reads_def calm_writes_def crlf_def)
  have "dispatch env db [''PING''] = Returns (simple_string ''PONG'', db)" for env db
    by (simp add: dispatch_kv handle_kv_def)
  then have 5: "serve (sr_envs plain_sr) (sv_calls ?s) (sv_db ?s) ?cmds =
      Some ([simple_string ''PONG'', simple_string ''PONG''], Suc (Suc (sv_calls ?s)), sv_db ?s)" by simp
  have "sent_to ?s 5 = []" by (simp add: sent_to_def plain_server_def reactor.defs)
  with pipelined_commands_answered [OF 1 2 3 4 5] show ?thesis by auto
qed

text \<open>
  C10. Nothing is lost or left waiting: in every state that the event loop reaches, whatever the clients
  and the kernel do, a connection with unsent bytes has asked for the event of a writable descriptor, every
  connection asks for readable events and has a handler, its state tells whether bytes are unsent, and
  exactly one tick and one snapshot timer are armed.
\<close>

theorem reachable_servers_watch:
  assumes "server_reached sr cfg fs s"
  shows "image_mset tm_cb (mset (rc_timers s)) = {#Tick, Snapshot#} \<and>
    (\<forall>fd. rc_handlers s fd = Some On_Io \<longleftrightarrow> sv_conns s fd \<noteq> None) \<and>
    (\<forall>fd c. sv_conns s fd = Some c \<longrightarrow> cn_fd c = fd \<and> cn_write_offset c \<le> length (cn_write_buf c) \<and>
       (\<exists>ev. rc_interest s fd = Some ev \<and> ev AND EPOLLIN \<noteq> 0 \<and>
         (if cn_write_offset c = length (cn_write_buf c) then cn_state c = Reading
          else cn_state c = Writing \<and> ev AND EPOLLOUT \<noteq> 0)))"
proof (intro conjI allI impI)
  note ok = reachable_ok [OF assms]
  show "image_mset tm_cb (mset (rc_timers s)) = {#Tick, Snapshot#}" using ok by (simp add: server_ok_def)
  show "rc_handlers s fd = Some On_Io \<longleftrightarrow> sv_conns s fd \<noteq> None" for fd
    using ok by (simp add: server_ok_def)
  fix fd c
  assume "sv_conns s fd = Some c"
  then have c: "cn_fd c = fd" "offset_ok c" "served_ok s fd c" "rc_interest s fd \<noteq> None"
    "\<forall>ev. rc_interest s fd = Some ev \<longrightarrow> ev AND EPOLLIN \<noteq> 0"
    using ok unfolding server_ok_def by blast+
  then show "cn_fd c = fd" "cn_write_offset c \<le> length (cn_write_buf c)" by (simp_all add: offset_ok_def)
  show "\<exists>ev. rc_interest s fd = Some ev \<and> ev AND EPOLLIN \<noteq> 0 \<and>
      (if cn_write_offset c = length (cn_write_buf c) then cn_state c = Reading
       else cn_state c = Writing \<and> ev AND EPOLLOUT \<noteq> 0)"
    using c(2-5) by (auto simp: offset_ok_def served_ok_def pending_def split: if_splits)
qed

theorem reachable_servers_watch_witness:
  "\<exists>s. server_reached plain_sr default_config Map.empty s \<and> sv_conns s 5 = Some (conn_new 5) \<and>
    image_mset tm_cb (mset (rc_timers s)) = {#Tick, Snapshot#}"
proof -
  obtain s0 where s0: "server_new default_config Map.empty 3 = Inr s0"
    by (simp add: server_new_def default_config_def)
  then have "db_files (sv_db s0) = Map.empty" "sv_calls s0 = 0" "rc_timers s0 = []" "rc_event_fd s0 = 3" "sv_conns s0 = Map.empty"
    by (auto simp: server_new_def db_new_def reactor.defs rc_new_def split: if_splits)
  note new = this
  define s where "s = (server_add_timer plain_sr ((schedule_tick plain_sr (rc_add (s0\<lparr>sv_calls := Suc (sv_calls s0), sv_listen := 4\<rparr>)
    4 EPOLLIN On_Accept))\<lparr>sv_interval := 300000\<rparr>) 300000 Snapshot)\<lparr>rc_running := True\<rparr>"
  have "server_start plain_sr default_config 4 s0 = Some s"
    using new(1) by (simp add: server_start_def server_load_def ps_load_def rdb_load_def s_def default_config_def Let_def)
  then have boot: "server_reached plain_sr default_config Map.empty s" by (rule server_reached.boot [OF s0])
  have "\<forall>t \<in> set (rc_timers s). 0 < tm_when t" "rc_handlers s 4 = Some On_Accept" "rc_event_fd s = 3"
    using new(3,4) by (simp_all add: s_def schedule_tick_def server_add_timer_def rc_add_timer_def rc_add_def plain_sr_def)
  then have "server_poll plain_sr 0 [(4, EPOLLIN, \<lparr>io_reads = [], io_writes = [], io_accepts = [5]\<rparr>)] s =
      Some (Inr (rc_add (put_conn s (conn_new 5)) 5 EPOLLIN On_Io))"
    by (simp add: server_poll_def rc_poll_def fire_none)
  from server_reached.round [OF boot this] have "server_reached plain_sr default_config Map.empty (rc_add (put_conn s (conn_new 5)) 5 EPOLLIN On_Io)" .
  from this reachable_servers_watch [OF this] show ?thesis
    by (intro exI [of _ "rc_add (put_conn s (conn_new 5)) 5 EPOLLIN On_Io"]) (simp add: rc_add_def put_conn_def conn_new_def)
qed

text \<open>
  Replies are delivered: when the descriptor of a connection becomes writable and the kernel takes
  the bytes, all of the unsent ones are sent, in order, and the connection goes back to reading only.
\<close>

theorem writable_delivers:
  assumes "sv_conns s fd = Some c" "cn_fd c = fd" "cn_state c = Writing" "cn_write_offset c < length (cn_write_buf c)"
    "rc_interest s fd \<noteq> None" "length (cn_write_buf c) \<le> cn_write_offset c + k"
  shows "\<exists>s'. on_io sr fd EPOLLOUT (only_writes [Takes k]) s = Some (Inr s') \<and>
    sent_to s' fd = sent_to s fd @ drop (cn_write_offset c) (cn_write_buf c) \<and> rc_interest s' fd = Some EPOLLIN \<and>
    sv_conns s' fd = Some (c\<lparr>cn_state := Reading, cn_write_buf := [], cn_write_offset := 0\<rparr>)"
proof -
  have "write_loop c [Takes k] = Inr (pending c, c\<lparr>cn_write_buf := [], cn_write_offset := 0\<rparr>, All_Written)"
    using assms(4,6) by (subst write_loop.simps) (auto simp: pending_def write_loop_full max_def)
  then show ?thesis
    using assms by (auto simp: on_io_def only_writes_def do_write_def finish_io_def put_conn_def rc_modify_def epoll_mod_def
        sent_to_def pending_def Let_def)
qed

theorem writable_delivers_witness:
  "\<exists>s'. on_io plain_sr 5 EPOLLOUT (only_writes [Takes 9])
      (plain_server [(conn_new 5)\<lparr>cn_state := Writing, cn_write_buf := ''abc'', cn_write_offset := 1\<rparr>]) = Some (Inr s') \<and>
    sent_to s' 5 = ''bc'' \<and> sv_conns s' 5 = Some (conn_new 5)"
proof -
  let ?c = "(conn_new 5)\<lparr>cn_state := Writing, cn_write_buf := ''abc'', cn_write_offset := 1\<rparr>"
  have "sent_to (plain_server [?c]) 5 = []" by (simp add: sent_to_def plain_server_def reactor.defs)
  then show ?thesis
    using writable_delivers [of "plain_server [?c]" 5 ?c 9 plain_sr]
    by (auto simp: plain_server_def reactor.defs conn_new_def)
qed

text \<open>
  C36. A refused array does not close the connection. Once the read buffer starts with an array whose number of
  elements is not positive, or in which a byte other than \<^verbatim>\<open>$\<close> stands where a bulk string should start after
  complete ones, the bytes stay in the buffer and every later input is answered with the same protocol error,
  whatever it is, as long as the buffer stays below 2 ^ 31 bytes and the client keeps its side open.
\<close>

theorem protocol_error_keeps_open:
  assumes "live_conn s fd c" "refused (cn_read_buf c)" "\<forall>(ev, io) \<in> set es. ev AND EPOLLIN \<noteq> 0 \<and> calm (ev, io)"
    "length (cn_read_buf c) + length (concat (map arriving es)) < 2 ^ 31"
  shows "\<exists>s' c'. run_io sr fd es s = Some (Inr s') \<and> sv_conns s' fd = Some c' \<and> cn_state c' \<noteq> Closing \<and>
    cn_read_buf c' = cn_read_buf c @ concat (map arriving es) \<and> sv_db s' = sv_db s \<and>
    sent_to s' fd @ pending c' = sent_to s fd @ pending c @ concat (replicate (length es) (error_reply ''protocol error''))"
  by (rule protocol_error_run [OF assms])

theorem protocol_error_keeps_open_witness:
  "\<exists>s' c'. run_io plain_sr 5 [(EPOLLIN, only_reads [Bytes ''PING'']), (EPOLLIN, only_reads [Bytes crlf])]
      (plain_server [(conn_new 5)\<lparr>cn_read_buf := ''*0'' @ crlf\<rparr>]) = Some (Inr s') \<and> sv_conns s' 5 = Some c' \<and>
    cn_state c' \<noteq> Closing \<and> cn_read_buf c' = ''*0'' @ crlf @ ''PING'' @ crlf"
proof -
  let ?c = "(conn_new 5)\<lparr>cn_read_buf := ''*0'' @ crlf\<rparr>"
  let ?es = "[(EPOLLIN, only_reads [Bytes ''PING'']), (EPOLLIN, only_reads [Bytes crlf])]"
  have "live_conn (plain_server [?c]) 5 ?c"
    by (simp add: live_conn_def plain_server_def reactor.defs conn_new_def offset_ok_def)
  moreover have "\<forall>(ev, io) \<in> set ?es. ev AND EPOLLIN \<noteq> 0 \<and> calm (ev, io)"
    by (simp add: calm_def only_reads_def calm_reads_def calm_writes_def crlf_def)
  moreover have "concat (map arriving ?es) = ''PING'' @ crlf"
    by (simp add: arriving_def only_reads_def)
  moreover have "int_dec 0 = ''0''" by code_simp
  then have "refused (cn_read_buf ?c)"
    unfolding refused_def by (intro disjI1 exI [of _ 0] exI [of _ "[]"]) simp
  ultimately show ?thesis
    using protocol_error_keeps_open [of "plain_server [?c]" 5 ?c ?es plain_sr] by (fastforce simp: crlf_def)
qed

text \<open>
  C35. Ten bytes stop the server: on a command whose bulk length is \<open>-12\<close> the parser reports a complete
  command and consumes nothing, so that the handler of the event does not return.
\<close>

theorem stuck_command_hangs:
  assumes "sv_conns s fd = Some c" "cn_read_buf c = []" "ev AND EPOLLIN \<noteq> 0"
  shows "on_io sr fd ev (only_reads [Bytes stuck_command]) s = None"
proof -
  have "stuck_command \<noteq> []" by (simp add: stuck_command_def)
  then show ?thesis
    using assms parse_loop_stuck [of "c\<lparr>cn_read_buf := stuck_command\<rparr>"]
    by (simp add: on_io_def only_reads_def do_read_def try_parse_def)
qed

theorem stuck_command_hangs_witness:
  "on_io plain_sr 5 EPOLLIN (only_reads [Bytes stuck_command]) (plain_server [conn_new 5]) = None"
  by (rule stuck_command_hangs [of _ _ "conn_new 5"]) (simp_all add: plain_server_def reactor.defs conn_new_def)

text \<open>
  Input that ends is lost: when the client's end of the stream is read in the same event as its last
  commands, the connection is closed without dispatching them.
\<close>

theorem eof_discards_input:
  assumes "sv_conns s fd = Some c" "cn_fd c = fd" "ev AND EPOLLIN \<noteq> 0" "ev AND EPOLLOUT = 0" "\<forall>r \<in> set reads. \<exists>bs. r = Bytes bs"
  shows "on_io sr fd ev (only_reads (reads @ [Bytes []])) s = Some (Inr (close_conn s c))"
proof -
  have "\<exists>buf. read_loop c (reads @ [Bytes []]) = (c\<lparr>cn_read_buf := buf, cn_state := Closing\<rparr>, False)" for c
    using assms(5)
  proof (induction reads arbitrary: c)
    case Nil
    then show ?case by (intro exI [of _ "cn_read_buf c"]) simp
  next
    case (Cons r reads)
    then obtain bs where r: "r = Bytes bs" by auto
    show ?case
    proof (cases "bs = []")
      case True
      then show ?thesis using r by (intro exI [of _ "cn_read_buf c"]) simp
    next
      case False
      then show ?thesis using r Cons.IH [of "c\<lparr>cn_read_buf := cn_read_buf c @ bs\<rparr>"] Cons.prems by simp
    qed
  qed
  then obtain buf where "read_loop c (reads @ [Bytes []]) = (c\<lparr>cn_read_buf := buf, cn_state := Closing\<rparr>, False)" by blast
  then show ?thesis
    using assms(1-4) by (simp add: on_io_def only_reads_def do_read_def finish_io_def close_conn_def)
qed

theorem eof_discards_input_witness:
  "on_io plain_sr 5 EPOLLIN (only_reads [Bytes (''GET k'' @ crlf), Bytes []]) (plain_server [conn_new 5]) =
    Some (Inr (close_conn (plain_server [conn_new 5]) (conn_new 5)))"
  using eof_discards_input [of "plain_server [conn_new 5]" 5 "conn_new 5" EPOLLIN "[Bytes (''GET k'' @ crlf)]" plain_sr]
  by (simp add: plain_server_def reactor.defs conn_new_def)

text \<open>
  C37. The timers go on: when the clock is not behind \<open>now\<close> and the snapshot interval is positive, firing
  the due timers ends, the tick and the snapshot timer are armed again, and no timer is left due.
\<close>

theorem timers_go_on:
  assumes "kv_inv (db_kv (sv_db s))" "0 < sv_interval s" "\<forall>n. now \<le> sr_nanos sr n"
  shows "\<exists>s'. fire_timers (sr_pick sr) (run_timer sr) now s = Some (Inr s') \<and> (\<forall>t \<in> set (rc_timers s'). now < tm_when t) \<and>
    image_mset tm_cb (mset (rc_timers s')) = image_mset tm_cb (mset (rc_timers s)) \<and> kv_inv (db_kv (sv_db s'))"
  using timers.fire_returns [of sr now s "sr_pick sr"] assms by (auto simp: timers_ok_def)

theorem timers_go_on_witness:
  "\<exists>s'. fire_timers (sr_pick plain_sr) (run_timer plain_sr) 0
      ((plain_server [])\<lparr>rc_timers := [\<lparr>tm_when = -5, tm_cb = Tick\<rparr>, \<lparr>tm_when = -9, tm_cb = Snapshot\<rparr>]\<rparr>) = Some (Inr s') \<and>
    (\<forall>t \<in> set (rc_timers s'). 0 < tm_when t) \<and> image_mset tm_cb (mset (rc_timers s')) = {#Tick, Snapshot#}"
proof -
  let ?s = "(plain_server [])\<lparr>rc_timers := [\<lparr>tm_when = -5, tm_cb = Tick\<rparr>, \<lparr>tm_when = -9, tm_cb = Snapshot\<rparr>]\<rparr>"
  have "kv_inv (db_kv (sv_db ?s))" by (simp add: plain_server_def reactor.defs db_new_def kv_new_ok)
  from timers_go_on [OF this, of 0 plain_sr] show ?thesis
    by (auto simp: plain_server_def reactor.defs plain_sr_def)
qed

end
