(* ===== verification/Database_Types.thy ===== *)
theory Database_Types
  imports Dispatcher_Proofs DFS_Proofs
begin

text \<open>
  Type soundness of the command dispatcher: a database is well formed when every engine satisfies its
  invariant, a call keeps it well formed, and only the commands listed here can be undefined or throw.
\<close>

section \<open>Well-formed databases\<close>

text \<open>
  Labels point to interned strings, or are null once the pool is full. Nothing is asked of the files
  and of the state of the background save.
\<close>

definition labels_typed :: "dgraph \<Rightarrow> string_pool \<Rightarrow> bool" where
  "labels_typed g sp \<longleftrightarrow> (\<forall>n m q. dg_meta g n = Some m \<longrightarrow> nm_label m = Some q \<longrightarrow> q \<in> snd ` set (sp_table sp))"

definition graph_typed :: "graph_engine \<Rightarrow> bool" where
  "graph_typed E \<longleftrightarrow> (\<exists>es. represents (ge_graph E) (dg_meta (ge_graph E), es)) \<and> sp_inv (ge_pool E) \<and>
     labels_typed (ge_graph E) (ge_pool E) \<and> (\<exists>V. pi_rep (ge_index E) V) \<and> arena_ok (ge_arena E)"

definition db_typed :: "database \<Rightarrow> bool" where
  "db_typed db \<longleftrightarrow> kv_inv (db_kv db) \<and> graph_typed (db_graph db) \<and> (\<exists>A. zsets_rep (db_zsets db) A)"

lemma db_new_typed: "db_typed (db_new fname fs)"
proof -
  have "ge_rep ge_new ag_new" by (rule ge_new_ok)
  then have "graph_typed ge_new"
    by (auto simp: graph_typed_def ge_rep_def pool_held_def labels_typed_def ge_new_def dg_new_def arena_new_def arena_ok_def
        pool_capacity_def)
  then show ?thesis using kv_new_ok(1) zsets_rep_new by (auto simp: db_typed_def db_new_def)
qed

section \<open>Outcomes\<close>

text \<open>A returned value satisfies \<open>P\<close>; only where \<open>U\<close> holds the outcome may be undefined.\<close>

definition sound :: "('a \<Rightarrow> bool) \<Rightarrow> bool \<Rightarrow> 'a outcome \<Rightarrow> bool" where
  "sound P U r \<longleftrightarrow> (case r of Returns x \<Rightarrow> P x | Throws e \<Rightarrow> True | Undefined \<Rightarrow> U)"

lemma sound_simps [simp]:
  "sound P U (Returns x) \<longleftrightarrow> P x" "sound P U (Throws e)" "sound P U Undefined \<longleftrightarrow> U"
  by (simp_all add: sound_def)

lemma sound_follow: "sound (\<lambda>x. sound P U (f x)) U r \<Longrightarrow> sound P U (follow r f)"
  by (cases r) auto

lemma sound_converted [simp]: "sound P U (converted s) \<longleftrightarrow> (\<forall>x. s = Inr x \<longrightarrow> P x)"
  by (cases s) auto

lemma sound_defined [simp]: "sound P U (defined r) \<longleftrightarrow> (case r of None \<Rightarrow> U | Some x \<Rightarrow> P x)"
  by (cases r) auto

lemma sound_caught: "sound P U r \<Longrightarrow> (\<And>e. P (error_reply (''bad args: '' @ exn_what e), s)) \<Longrightarrow> sound P U (caught s r)"
  by (cases r) auto

text \<open>What a call may return: a reply and a well-formed database, in which at most one key is new.\<close>

definition kept :: "nat \<Rightarrow> string \<times> database \<Rightarrow> bool" where
  "kept n r \<longleftrightarrow> db_typed (snd r) \<and> kv_size (db_kv (snd r)) \<le> n + 1"

lemma kept_same [simp]: "db_typed db \<Longrightarrow> kept (kv_size (db_kv db)) (reply, db)"
  by (simp add: kept_def)

lemma kept_graph: "db_typed db \<Longrightarrow> graph_typed E \<Longrightarrow> kept (kv_size (db_kv db)) (reply, db\<lparr>db_graph := E\<rparr>)"
  by (simp add: kept_def db_typed_def)

section \<open>Keys and values\<close>

lemma sound_with_kv:
  assumes "db_typed db" "\<exists>x kv. r = Some (x, kv) \<and> kv_inv kv \<and> kv_size kv \<le> kv_size (db_kv db) + 1"
  shows "sound (kept (kv_size (db_kv db))) U (with_kv db r reply)"
  using assms by (auto simp: with_kv_def kept_def db_typed_def)

text \<open>
  Each call of the engine as a step of the refinement; a time that does not fit has no result, unless the
  key is not bound.
\<close>

lemma kv_step_total:
  assumes "db_typed db" "kv_size (db_kv db) < 2 ^ 30" "times_fit op"
  shows "\<exists>x kv. kv_step (db_kv db) op = Some (x, kv) \<and> kv_inv kv \<and> kv_size kv \<le> kv_size (db_kv db) + 1"
  using kv.simulates [of "db_kv db" op] assms by (auto simp: db_typed_def)

lemma set_expiry_overflow: "\<not> int64 (now + ttl) \<Longrightarrow> set_expiry now t k ttl = None"
  by (simp add: set_expiry_def)

lemma kv_step_kept:
  assumes "db_typed db" "kv_size (db_kv db) < 2 ^ 30" "kv_step (db_kv db) op = Some (x, kv)"
  shows "kv_inv kv \<and> kv_size kv \<le> kv_size (db_kv db) + 1"
proof (cases "times_fit op")
  case True
  then show ?thesis using kv_step_total [OF assms(1,2) True] assms(3) by auto
next
  case False
  then have "kv = db_kv db"
    using assms(3) set_expiry_overflow
    by (cases op) (auto simp: kv_set_def kv_expire_def split: bind_splits option.splits if_splits)
  then show ?thesis using assms(1) by (simp add: db_typed_def)
qed

lemma handle_kv_sound:
  assumes db: "db_typed db" "kv_size (db_kv db) < 2 ^ 30"
  shows "sound (kept (kv_size (db_kv db))) (cmd \<in> {''SET'', ''EXPIRE'', ''PEXPIRE''}) (handle_kv env db cmd args)"
proof -
  let ?n = "kv_size (db_kv db)"
  note s = kv_step_total [OF db] and p = kv_step_kept [OF db]
  have partly: "sound (kept ?n) True (with_kv db r f)" if "\<And>x kv. r = Some (x, kv) \<Longrightarrow> kv_inv kv \<and> kv_size kv \<le> ?n + 1"
    for r :: "(bool \<times> kv_engine) option" and f
    using that db(1) by (cases r) (auto simp: with_kv_def kept_def db_typed_def)
  have "sound (kept ?n) True (run_set env db k v ttl)" for k v ttl
    unfolding run_set_def by (rule partly) (use p [of "KSet (ce_now env) k v ttl"] in auto)
  then have set: "sound (kept ?n) True (follow r (run_set env db k v))" for r k v
    by (cases r) auto
  have "sound (kept ?n) True (run_expire env db k ttl)" for k ttl
    unfolding run_expire_def by (rule partly) (use p [of "KExpire (ce_now env) k ttl"] in auto)
  then have expire: "sound (kept ?n) True (follow r (run_expire env db k))" for r k
    by (cases r) auto
  have ttl: "sound (kept ?n) False (run_ttl env db k scale)" for k scale
    using s [of "KTtl (ce_now env) k"] db by (auto simp: run_ttl_def intro!: sound_follow)
  have gets: "sound (kept ?n) False (with_kv db (kv_get now (db_kv db) k) f)"
    "sound (kept ?n) False (with_kv db (kv_del (db_kv db) k) h)"
    "sound (kept ?n) False (with_kv db (kv_exists now (db_kv db) k) h)"
    "sound (kept ?n) False (with_kv db (Some (kv_persist (db_kv db) k)) h)" for now k f h
    using s [of "KGet now k"] s [of "KDel k"] s [of "KExists now k"] s [of "KPersist k"]
    by (cases "kv_persist (db_kv db) k"; auto intro!: sound_with_kv [OF db(1)])+
  show ?thesis
    using set expire ttl gets db(1) by (simp add: handle_kv_def Let_def)
qed

section \<open>The graph\<close>

lemma intern_typed:
  assumes "sp_inv sp" "labels_typed g sp" "length s < 2 ^ 61" "intern sp s = (r, sp')"
  shows "sp_inv sp'" "labels_typed g sp'" "\<And>p. r = Some p \<Longrightarrow> p \<in> snd ` set (sp_table sp')"
proof -
  obtain r1 sp1 where i: "intern sp s = (r1, sp1)" "sp_inv sp1" "set (sp_table sp) \<subseteq> set (sp_table sp1)"
    "\<And>p. r1 = Some p \<Longrightarrow> (s, p) \<in> set (sp_table sp1)"
    by (rule intern_ok [OF assms(1,3)]) (rule that)
  then show "sp_inv sp'" "\<And>p. r = Some p \<Longrightarrow> p \<in> snd ` set (sp_table sp')"
    using assms(4) by force+
  show "labels_typed g sp'"
    unfolding labels_typed_def
  proof (intro allI impI)
    fix n m q
    assume "dg_meta g n = Some m" "nm_label m = Some q"
    then have "q \<in> snd ` set (sp_table sp)" using assms(2) unfolding labels_typed_def by blast
    then show "q \<in> snd ` set (sp_table sp')" using i(1,3) assms(4) by auto
  qed
qed

lemma labels_typed_sub:
  "labels_typed g sp \<Longrightarrow> dg_meta g' \<subseteq>\<^sub>m dg_meta g \<Longrightarrow> labels_typed g' sp"
  unfolding labels_typed_def map_le_def by (metis domI)

lemma ge_add_node_typed:
  assumes "graph_typed E" "length l < 2 ^ 61"
  shows "graph_typed (ge_add_node E n l p)"
proof -
  obtain r sp where i: "intern (ge_pool E) l = (r, sp)" by (cases "intern (ge_pool E) l")
  note t = intern_typed [OF _ _ assms(2) i, of "ge_graph E"]
  obtain es where "represents (ge_graph E) (dg_meta (ge_graph E), es)" using assms(1) by (auto simp: graph_typed_def)
  from represents_step [OF this, of "GAddNode n r p"] show ?thesis
    using assms(1) t i by (auto simp: graph_typed_def ge_add_node_def labels_typed_def dg_add_node_def)
qed

lemma edge_ops_typed:
  assumes "graph_typed E"
  shows "graph_typed (ge_add_edge E f t r w)" "graph_typed (ge_remove_edge E f t r)"
proof -
  obtain es where es: "represents (ge_graph E) (dg_meta (ge_graph E), es)" using assms by (auto simp: graph_typed_def)
  show "graph_typed (ge_add_edge E f t r w)"
    using represents_step [OF es, of "GAddEdge f t r w"] graph_step_meta [OF es, of "GAddEdge f t r w"] assms
    by (auto simp: graph_typed_def ge_add_edge_def labels_typed_def)
  show "graph_typed (ge_remove_edge E f t r)"
    using represents_step [OF es, of "GRemoveEdge f t r"] graph_step_meta [OF es, of "GRemoveEdge f t r"] assms
    by (auto simp: graph_typed_def ge_remove_edge_def labels_typed_def)
qed

lemma ge_remove_node_typed:
  assumes "graph_typed E" "ge_remove_node E n = Some E'"
  shows "graph_typed E'"
proof -
  obtain es V where es: "represents (ge_graph E) (dg_meta (ge_graph E), es)" "pi_rep (ge_index E) V"
    using assms(1) by (auto simp: graph_typed_def)
  obtain P where P: "pi_remove_node (ge_index E) n = Some P" "pi_rep P (\<lambda>key. (V key)(n := None))"
    using pi_remove_node_ok [OF es(2)] by blast
  have "dg_meta (dg_remove_node (ge_graph E) n) \<subseteq>\<^sub>m dg_meta (ge_graph E)"
    using graph_step_meta [OF es(1), of "GRemoveNode n"] by (simp add: map_le_def)
  then show ?thesis
    using represents_step [OF es(1), of "GRemoveNode n"] P es(2) assms labels_typed_sub
    by (auto simp: graph_typed_def ge_remove_node_def split: option.splits bind_splits)
qed

lemma nodes_by_label_typed: "graph_typed E \<Longrightarrow> length l < 2 ^ 61 \<Longrightarrow> graph_typed (snd (nodes_by_label E ids l))"
  using intern_typed [of "ge_pool E" "ge_graph E" l]
  by (cases "intern (ge_pool E) l") (auto simp: graph_typed_def nodes_by_label_def)

lemma index_property_typed:
  "graph_typed E \<Longrightarrow> \<not> f64_nan v \<Longrightarrow> int32 n \<Longrightarrow> \<exists>E'. index_property draws E l p v n = Some E' \<and> graph_typed E'"
  using pi_add_ok [of "ge_index E" _ v n draws l p] by (fastforce simp: graph_typed_def index_property_def)

text \<open>The searches that always return, and the allocations of the one that uses the query arena.\<close>

lemma graph_typed_finite: "graph_typed E \<Longrightarrow> finite (dom (dg_adj (ge_graph E)))"
  using represents_finite by (auto simp: graph_typed_def)

lemma dfs_has_cycle_some:
  assumes "finite (dom (dg_adj g))"
  shows "\<exists>b. dfs_has_cycle g ids = Some b"
proof -
  note U = reachable_from_facts [OF assms, where ids = ids]
  have "cycle_inv (rel_succs g []) [] (\<lambda>_. 0)" by (simp add: cycle_inv_def)
  from cycle_roots_ok [OF refl U(1,3) this U(2)] show ?thesis by (auto simp: dfs_has_cycle_def)
qed

lemma bfs_component_some:
  assumes "finite (dom (dg_adj g))"
  shows "\<exists>res. bfs_component g source = Some res"
proof -
  have "(\<lambda>_. False)(source := True) = (\<lambda>v. v \<in> dom [source \<mapsto> 0])" by (auto simp: fun_eq_iff)
  from component_loop_ok [OF assms bfs_all.start this, of "[]"] show ?thesis
    by (auto simp: bfs_component_def simp del: fun_upd_apply)
qed

lemma arena_alloc_typed: "arena_ok a \<Longrightarrow> arena_ok (snd (arena_alloc a n k))"
  by (auto simp: arena_alloc_def Let_def arena_ok_def)

lemma bfs_path_arena:
  assumes "arena_ok a" "bfs_path g s t rel (Some a) = (p, Some a')"
  shows "arena_ok a'"
proof -
  have "\<exists>b. snd (bfs_alloc (Some a) n) = Some b \<and> arena_ok b" for n
    using assms(1) by (auto simp: bfs_alloc_def arena_alloc_array_def arena_alloc_typed case_prod_unfold Let_def)
  then show ?thesis
    using assms by (auto simp: bfs_path_def Let_def case_prod_unfold split: if_splits) (metis option.inject)
qed

text \<open>Two conversions and the continuation.\<close>

lemma stoi_range: "stoi s = Inr i \<Longrightarrow> int32 i"
  by (auto simp: stoi_def sto_int_def int32_def split: if_splits)

lemma sound_two_ints: "(\<And>i j. sound P U (f i j)) \<Longrightarrow> sound P U (two_ints a b f)"
  by (auto simp: two_ints_def intro!: sound_follow)

text \<open>
  The arguments of a call: no text has 2 ^ 61 bytes, and no number stored in an index or a sorted set,
  or bounding a range of an index from below, is a NaN.
\<close>

definition no_nan :: "string \<Rightarrow> bool" where
  "no_nan s \<longleftrightarrow> (\<forall>x. stod s = Inr x \<longrightarrow> \<not> f64_nan x)"

definition args_typed :: "string list \<Rightarrow> bool" where
  "args_typed args \<longleftrightarrow> (\<forall>a \<in> set args. length a < 2 ^ 61) \<and>
     (args \<noteq> [] \<longrightarrow> (let cmd = to_upper (args ! 0) in
       (cmd = ''ZADD'' \<longrightarrow> no_nan (args ! 2)) \<and> (cmd = ''GRAPH.INDEX_PROP'' \<longrightarrow> no_nan (args ! 4)) \<and>
       (cmd = ''GRAPH.RANGE'' \<or> cmd = ''GRAPH.EXACT'' \<longrightarrow> no_nan (args ! 3))))"

lemma graph_updates_sound:
  assumes db: "db_typed db" and args: "\<forall>a \<in> set args. length a < 2 ^ 61" and r: "graph_updates env db cmd args = Some r"
  shows "sound (kept (kv_size (db_kv db))) (cmd = ''GRAPH.DEL_NODE'') r"
proof -
  have g: "graph_typed (db_graph db)" using db by (simp add: db_typed_def)
  have len: "i < length args \<Longrightarrow> length (args ! i) < 2 ^ 61" for i using args by simp
  show ?thesis
    using r len [of 2]
    by (auto simp: graph_updates_def Let_def kept_graph [OF db] ge_add_node_typed [OF g] edge_ops_typed [OF g]
        ge_remove_node_typed [OF g] split: if_splits option.splits intro!: sound_follow sound_two_ints)
qed

lemma graph_reads_sound:
  assumes db: "db_typed db" and args: "\<forall>a \<in> set args. length a < 2 ^ 61" and r: "graph_reads env db cmd args = Some r"
  shows "sound (kept (kv_size (db_kv db))) (cmd = ''GRAPH.NODE'') r"
proof -
  have g: "graph_typed (db_graph db)" using db by (simp add: db_typed_def)
  have len: "i < length args \<Longrightarrow> length (args ! i) < 2 ^ 61" for i using args by simp
  show ?thesis
    using r len [of 1] nodes_by_label_typed [OF g, of "args ! 1" "ce_ids env"]
    by (auto simp: graph_reads_def Let_def kept_graph [OF db] db case_prod_unfold
        split: if_splits option.splits intro!: sound_follow sound_two_ints)
qed

lemma graph_searches_sound:
  assumes db: "db_typed db" and r: "graph_searches env db cmd args = Some r"
  shows "sound (kept (kv_size (db_kv db))) (cmd \<in> {''GRAPH.PATH'', ''GRAPH.WPATH'', ''GRAPH.DISTANCES''}) r"
proof -
  have g: "graph_typed (db_graph db)" using db by (simp add: db_typed_def)
  note fin = graph_typed_finite [OF g]
  let ?g = "ge_graph (db_graph db)" and ?a = "ge_arena (reset_query_arena (db_graph db))"
  have total: "\<exists>x. bfs_neighborhood ?g s h rel = Some x" "\<exists>x. bfs_component ?g s = Some x" "\<exists>x. dfs_has_cycle ?g ids = Some x"
    for s h rel ids
    using bfs_neighborhood_ok [OF fin, of s h rel] bfs_component_some [OF fin] dfs_has_cycle_some [OF fin] by auto
  have a: "arena_ok ?a"
    using g by (auto simp: graph_typed_def reset_query_arena_def arena_reset_def arena_ok_def)
  have q: "graph_typed (reset_query_arena (db_graph db)\<lparr>ge_arena := b\<rparr>)" if "arena_ok b" for b
    using g that by (simp add: graph_typed_def reset_query_arena_def)
  have p: "sound (kept (kv_size (db_kv db))) True
     (case bfs_path ?g s t rel (Some ?a) of
        (Some (Inr p), Some a) \<Rightarrow> Returns (f p, db\<lparr>db_graph := (reset_query_arena (db_graph db))\<lparr>ge_arena := a\<rparr>\<rparr>)
      | _ \<Rightarrow> Undefined)" for s t rel f
    using bfs_path_arena [OF a] q by (auto split: prod.splits option.splits sum.splits intro!: kept_graph [OF db])
  show ?thesis
    using r total p db
    by (auto simp: graph_searches_def Let_def split: if_splits option.splits intro!: sound_follow sound_two_ints)
qed

lemma graph_indexed_sound:
  assumes db: "db_typed db" and r: "graph_indexed env db cmd args = Some r"
    and i: "cmd = ''GRAPH.INDEX_PROP'' \<Longrightarrow> no_nan (args ! 4)"
    and e: "cmd = ''GRAPH.RANGE'' \<or> cmd = ''GRAPH.EXACT'' \<Longrightarrow> no_nan (args ! 3)"
  shows "sound (kept (kv_size (db_kv db))) False r"
proof -
  have g: "graph_typed (db_graph db)" using db by (simp add: db_typed_def)
  then obtain V where V: "pi_rep (ge_index (db_graph db)) V" by (auto simp: graph_typed_def)
  have stored: "case index_property (ce_draws env) (db_graph db) l p v n of None \<Rightarrow> False
      | Some E \<Rightarrow> kept (kv_size (db_kv db)) (ok_reply, db\<lparr>db_graph := E\<rparr>)"
    if "\<not> f64_nan v" "int32 n" for l p v n
    using index_property_typed [OF g that, of "ce_draws env" l p] by (auto intro!: kept_graph [OF db])
  have found: "sound (kept (kv_size (db_kv db))) False (ids_or_throw db (pi_range (ge_index (db_graph db)) l p mn mx))"
    if "\<not> f64_nan mn" for l p mn mx
    using pi_range_ok [OF V that, of l p mx] db by (auto simp: ids_or_throw_def)
  show ?thesis
    using r i e db stoi_range [of "args ! 1"]
    by (auto simp: graph_indexed_def Let_def index_arguments_def no_nan_def range_query_def exact_query_def pi_exact_def
        split: if_splits intro!: sound_follow stored found)
qed

lemma handle_graph_sound:
  assumes db: "db_typed db" and args: "args_typed args" "args \<noteq> []" "cmd = to_upper (args ! 0)"
  shows "sound (kept (kv_size (db_kv db)))
    (cmd \<in> {''GRAPH.NODE'', ''GRAPH.DEL_NODE'', ''GRAPH.PATH'', ''GRAPH.WPATH'', ''GRAPH.DISTANCES''})
    (handle_graph env db cmd args)"
proof -
  have weaken: "sound P U r \<Longrightarrow> (U \<Longrightarrow> U') \<Longrightarrow> sound P U' r" for P U U' and r :: handled
    by (cases r) auto
  let ?sound = "sound (kept (kv_size (db_kv db)))
    (cmd \<in> {''GRAPH.NODE'', ''GRAPH.DEL_NODE'', ''GRAPH.PATH'', ''GRAPH.WPATH'', ''GRAPH.DISTANCES''})"
  have a: "\<forall>a \<in> set args. length a < 2 ^ 61" "cmd = ''GRAPH.INDEX_PROP'' \<Longrightarrow> no_nan (args ! 4)"
    "cmd = ''GRAPH.RANGE'' \<or> cmd = ''GRAPH.EXACT'' \<Longrightarrow> no_nan (args ! 3)"
    using args by (auto simp: args_typed_def Let_def)
  have "?sound r" if "graph_updates env db cmd args = Some r" for r
    by (rule weaken [OF graph_updates_sound [OF db a(1) that]]) simp
  moreover have "?sound r" if "graph_reads env db cmd args = Some r" for r
    by (rule weaken [OF graph_reads_sound [OF db a(1) that]]) simp
  moreover have "?sound r" if "graph_searches env db cmd args = Some r" for r
    by (rule weaken [OF graph_searches_sound [OF db that]]) auto
  moreover have "?sound r" if "graph_indexed env db cmd args = Some r" for r
    by (rule weaken [OF graph_indexed_sound [OF db that a(2,3)]]) simp_all
  ultimately have "?sound (first_match [graph_updates env db cmd args, graph_reads env db cmd args,
      graph_searches env db cmd args, graph_indexed env db cmd args] (Returns (unknown_command ''graph '' (args ! 0), db)))"
    using db
    by (cases "graph_updates env db cmd args"; cases "graph_reads env db cmd args"; cases "graph_searches env db cmd args";
        cases "graph_indexed env db cmd args") auto
  then show ?thesis
    unfolding handle_graph_def by (rule sound_caught) (simp add: db)
qed

section \<open>Sorted sets\<close>

lemma sound_with_zsets:
  assumes "db_typed db" "\<exists>x Z A. r = Some (x, Z) \<and> zsets_rep Z A"
  shows "sound (kept (kv_size (db_kv db))) U (with_zsets db r reply)"
  using assms by (auto simp: with_zsets_def kept_def db_typed_def)

lemma handle_zset_sound:
  assumes db: "db_typed db" and cmd: "cmd \<noteq> []" "cmd ! 0 = CHR ''Z''" and z: "cmd = ''ZADD'' \<Longrightarrow> no_nan (args ! 2)"
  shows "sound (kept (kv_size (db_kv db))) False (handle_zset env db cmd args)"
proof -
  obtain A where A: "zsets_rep (db_zsets db) A" using db by (auto simp: db_typed_def)
  let ?d = "ce_draws env" and ?Z = "db_zsets db"
  have step: "\<exists>Z. zs_step ?d ?Z x = Some (fst (zs_spec A x), Z) \<and> zsets_rep Z (snd (zs_spec A x))" if "zs_valid x" for x
    by (rule zsets.answers [OF A that])
  have adds: "sound (kept (kv_size (db_kv db))) False (with_zsets db (zadd ?d ?Z k s m) reply)" if "\<not> f64_nan s" for k s m reply
    using zadd_ok [OF A that, of ?d k m] by (blast intro: sound_with_zsets [OF db])
  have removes: "sound (kept (kv_size (db_kv db))) False (with_zsets db (zrem ?Z k m) reply)" for k m reply
    using zrem_ok [OF A, of k m] by (blast intro: sound_with_zsets [OF db])
  have reads: "\<exists>rs. zrange ?Z k i j = Some rs" "\<exists>rs. zrangebyscore ?Z k mn mx = Some rs" "\<exists>i. zrank ?Z k m = Some i"
    for k i j mn mx m
    using step [of "ZRange k i j"] step [of "ZRangeByScore k mn mx"] step [of "ZRank k m"] by auto
  have "sound (kept (kv_size (db_kv db))) False r" if "zset_commands env db cmd args = Some r" for r
    using that z reads db
    by (auto simp: zset_commands_def Let_def no_nan_def split: if_splits option.splits
        intro!: sound_follow sound_two_ints adds removes)
  moreover have "snapshot_commands env db cmd = None"
    using cmd by (auto simp: snapshot_commands_def)
  ultimately show ?thesis
    using db unfolding handle_zset_def
    by (intro sound_caught) (cases "zset_commands env db cmd args"; simp)+
qed

section \<open>Dispatch\<close>

definition partial_commands :: "string set" where
  "partial_commands = {''SET'', ''EXPIRE'', ''PEXPIRE'', ''GRAPH.NODE'', ''GRAPH.DEL_NODE'', ''GRAPH.PATH'', ''GRAPH.WPATH'',
     ''GRAPH.DISTANCES''}"

lemma dispatch_sound:
  assumes db: "db_typed db" "kv_size (db_kv db) < 2 ^ 30" and args: "args_typed args"
  shows "sound (kept (kv_size (db_kv db))) (args \<noteq> [] \<and> to_upper (args ! 0) \<in> partial_commands) (dispatch env db args)"
proof (cases "args = []")
  case False
  let ?cmd = "to_upper (args ! 0)"
  have weaken: "sound P U r \<Longrightarrow> (U \<Longrightarrow> U') \<Longrightarrow> sound P U' r" for P U U' and r :: handled
    by (cases r) auto
  have z: "?cmd = ''ZADD'' \<Longrightarrow> no_nan (args ! 2)" using args False by (simp add: args_typed_def Let_def)
  show ?thesis
    using False
    by (auto simp: dispatch_def Let_def partial_commands_def
        intro: weaken [OF handle_graph_sound [OF db(1) args False refl]] weaken [OF handle_kv_sound [OF db]]
          weaken [OF handle_zset_sound [OF db(1) _ _ z]])
qed (use db in \<open>simp add: dispatch_def\<close>)

section \<open>Property\<close>

text \<open>
  C15. Type soundness of the dispatcher. On a well-formed database with fewer than 2 ^ 30 keys, a call
  whose numbers for the indices are no NaN returns a reply and a well-formed database with at most one
  key more; it can throw, which ends the server, only for the three commands that read a time outside a
  handler, and be undefined or not return only for those and five commands on graphs.
\<close>

theorem dispatch_type_sound:
  assumes "db_typed db" "kv_size (db_kv db) < 2 ^ 30" "args_typed args"
  shows "case dispatch env db args of
      Returns (reply, db') \<Rightarrow> db_typed db' \<and> kv_size (db_kv db') \<le> kv_size (db_kv db) + 1
    | Throws e \<Rightarrow> to_upper (args ! 0) \<in> {''SET'', ''EXPIRE'', ''PEXPIRE''}
    | Undefined \<Rightarrow> to_upper (args ! 0) \<in> partial_commands"
proof -
  show ?thesis
    using dispatch_sound [OF assms, of env] uncaught_exceptions [of env db args]
    by (auto simp: kept_def split: outcome.splits)
qed

theorem dispatch_type_sound_witness:
  "\<exists>reply db. dispatch plain_env (db_new [] Map.empty) [''SET'', ''k'', ''v''] = Returns (reply, db) \<and> db_typed db \<and>
     kv_size (db_kv db) \<le> 1"
proof -
  let ?db = "db_new [] Map.empty" and ?args = "[''SET'', ''k'', ''v'']"
  have size: "kv_size (db_kv ?db) = 0" using kv_new_ok(3) by (simp add: db_new_def)
  have args: "args_typed ?args" by (simp add: args_typed_def Let_def)
  have "\<exists>r. dispatch plain_env ?db ?args = Returns r"
    using kv_step_total [OF db_new_typed, of "[]" Map.empty "KSet 0 ''k'' ''v'' (-1)"] size
    by (auto simp: dispatch_kv handle_kv_def run_set_def with_kv_def plain_env_def)
  then show ?thesis
    using dispatch_type_sound [OF db_new_typed _ args, of "[]" Map.empty plain_env] size by auto
qed

end
