(* ===== verification/Sessions.thy ===== *)
theory Sessions
  imports Server_Properties Database_Types
begin

text \<open>
  Sessions from end to end: the parser, the dispatcher and its engines, and the connections of the server
  together. A client that keeps to commands with defined results gets a reply to each of them.
\<close>

section \<open>Commands with a defined result\<close>

text \<open>
  The commands that need a condition: the three that read a time need one that converts and whose sum with
  the clock is an \<^verbatim>\<open>int64_t\<close>, and the five on graphs that may not return or may touch memory outside its bounds
  need to return on the database they meet. Every other command returns on a well-formed database.
\<close>

definition time_given :: "call_env \<Rightarrow> string list \<Rightarrow> bool" where
  "time_given env cmd =
     (if length cmd < 3 then True
      else if to_upper (cmd ! 0) = ''SET'' then
        (case set_options (drop 3 cmd) (-1) of Returns ttl \<Rightarrow> 0 < ttl \<longrightarrow> int64 (ce_now env + ttl) | _ \<Rightarrow> False)
      else
        (case if to_upper (cmd ! 0) = ''EXPIRE'' then seconds (cmd ! 2) else converted (stoll (cmd ! 2)) of
           Returns ttl \<Rightarrow> int64 (ce_now env + ttl) | _ \<Rightarrow> False))"

definition defined_command :: "call_env \<Rightarrow> database \<Rightarrow> string list \<Rightarrow> bool" where
  "defined_command env db cmd \<longleftrightarrow> cmd \<noteq> [] \<and> args_typed cmd \<and>
     (to_upper (cmd ! 0) \<in> {''SET'', ''EXPIRE'', ''PEXPIRE''} \<longrightarrow> time_given env cmd) \<and>
     (to_upper (cmd ! 0) \<in> {''GRAPH.NODE'', ''GRAPH.DEL_NODE'', ''GRAPH.PATH'', ''GRAPH.WPATH'', ''GRAPH.DISTANCES''} \<longrightarrow>
       (case dispatch env db cmd of Returns _ \<Rightarrow> True | _ \<Rightarrow> False))"

text \<open>The commands of a session, each on the database that the ones before it leave.\<close>

fun defined_session :: "(nat \<Rightarrow> call_env) \<Rightarrow> nat \<Rightarrow> database \<Rightarrow> string list list \<Rightarrow> bool" where
  "defined_session envs n db [] = True"
| "defined_session envs n db (cmd # cmds) =
     (defined_command (envs n) db cmd \<and>
      (case dispatch (envs n) db cmd of Returns (_, db') \<Rightarrow> defined_session envs (Suc n) db' cmds | _ \<Rightarrow> True))"

lemma timed_returns:
  assumes "db_typed db" "kv_size (db_kv db) < 2 ^ 30" "cmd \<noteq> []" "time_given env cmd"
    "to_upper (cmd ! 0) \<in> {''SET'', ''EXPIRE'', ''PEXPIRE''}"
  shows "\<exists>r. dispatch env db cmd = Returns r"
proof -
  have handled: "dispatch env db cmd = handle_kv env db (to_upper (cmd ! 0)) cmd"
    using assms(3,5) by (auto simp: dispatch_def Let_def)
  show ?thesis
  proof (cases "3 \<le> length cmd")
    case True
    have set: "\<exists>r. run_set env db k v ttl = Returns r" if "0 < ttl \<longrightarrow> int64 (ce_now env + ttl)" for k v ttl
      using kv_step_total [OF assms(1,2), of "KSet (ce_now env) k v ttl"] that by (auto simp: run_set_def with_kv_def)
    have expire: "\<exists>r. run_expire env db k ttl = Returns r" if "int64 (ce_now env + ttl)" for k ttl
      using kv_step_total [OF assms(1,2), of "KExpire (ce_now env) k ttl"] that by (auto simp: run_expire_def with_kv_def)
    consider "to_upper (cmd ! 0) = ''SET''" | "to_upper (cmd ! 0) = ''EXPIRE''" | "to_upper (cmd ! 0) = ''PEXPIRE''"
      using assms(5) by blast
    then show ?thesis
    proof cases
      case 1
      then show ?thesis
        using True set assms(4) by (cases "set_options (drop 3 cmd) (-1)") (simp_all add: handled handle_kv_def time_given_def)
    next
      case 2
      then show ?thesis
        using True expire assms(4) by (cases "seconds (cmd ! 2)") (simp_all add: handled handle_kv_def time_given_def)
    next
      case 3
      then show ?thesis
        using True expire assms(4)
        by (cases "converted (stoll (cmd ! 2))") (simp_all add: handled handle_kv_def time_given_def)
    qed
  next
    case False
    then show ?thesis using assms(5) by (auto simp: handled handle_kv_def)
  qed
qed

lemma defined_command_returns:
  assumes "db_typed db" "kv_size (db_kv db) < 2 ^ 30" "defined_command env db cmd"
  shows "\<exists>reply db'. dispatch env db cmd = Returns (reply, db') \<and> kept (kv_size (db_kv db)) (reply, db')"
proof -
  have c: "cmd \<noteq> []" "args_typed cmd" using assms(3) by (simp_all add: defined_command_def)
  note sound = dispatch_sound [OF assms(1,2) c(2), of env]
  have "\<exists>r. dispatch env db cmd = Returns r"
  proof (cases "to_upper (cmd ! 0) \<in> {''SET'', ''EXPIRE'', ''PEXPIRE''}")
    case True
    then show ?thesis using timed_returns [OF assms(1,2) c(1) _ True] assms(3) by (simp add: defined_command_def)
  next
    case False
    then show ?thesis
      using assms(3) sound uncaught_exceptions [of env db cmd]
      by (cases "dispatch env db cmd") (auto simp: partial_commands_def defined_command_def)
  qed
  then show ?thesis using sound by auto
qed

lemma serve_defined:
  assumes "db_typed db" "defined_session envs n db cmds" "kv_size (db_kv db) + length cmds \<le> 2 ^ 30"
  shows "\<exists>replies m db'. serve envs n db cmds = Some (replies, m, db') \<and> db_typed db' \<and> length replies = length cmds"
  using assms
proof (induction cmds arbitrary: n db)
  case (Cons cmd cmds)
  obtain reply db1 where d: "dispatch (envs n) db cmd = Returns (reply, db1)" "kept (kv_size (db_kv db)) (reply, db1)"
    using defined_command_returns [of db "envs n" cmd] Cons.prems by auto
  then have "\<exists>replies m db'. serve envs (Suc n) db1 cmds = Some (replies, m, db') \<and> db_typed db' \<and>
      length replies = length cmds"
    using Cons.prems by (intro Cons.IH) (auto simp: kept_def)
  then show ?case using d(1) by auto
qed simp

lemma defined_session_words:
  "defined_session envs n db cmds \<Longrightarrow> serve envs n db cmds = Some r \<Longrightarrow> \<forall>cmd \<in> set cmds. cmd \<noteq> []"
proof (induction cmds arbitrary: n db r)
  case (Cons cmd cmds)
  then have "cmd \<noteq> []" by (simp add: defined_command_def)
  then show ?case
    using Cons.IH [of "Suc n"] Cons.prems by (auto split: outcome.splits) blast
qed simp

section \<open>Property\<close>

text \<open>
  C4. Every command of a session is answered. A client sends commands below \<open>2 ^ 30\<close> bytes over a new
  connection, however they are cut into reads and their replies into writes, none of which fails, on a well-formed database with room for as many keys as
  there are commands; the numbers for the sorted sets and indices are no NaN. If each
  \<^verbatim>\<open>SET\<close>, \<^verbatim>\<open>EXPIRE\<close> and \<^verbatim>\<open>PEXPIRE\<close> has times that convert and fit with the clock, and each
  \<^verbatim>\<open>GRAPH.NODE\<close>, \<^verbatim>\<open>GRAPH.DEL_NODE\<close>, \<^verbatim>\<open>GRAPH.PATH\<close>, \<^verbatim>\<open>GRAPH.WPATH\<close> and
  \<^verbatim>\<open>GRAPH.DISTANCES\<close> returns on the database that it meets, then every command of the session has a reply of
  the dispatcher, with no condition on any other command: the connection stays open with nothing left to parse,
  the replies are sent or pending in the order of the commands, and the database is well formed afterwards.
\<close>

theorem sessions_answered:
  assumes "sv_conns s fd = Some (conn_new fd)" "db_typed (sv_db s)" "kv_size (db_kv (sv_db s)) + length cmds \<le> 2 ^ 30"
    "defined_session (sr_envs sr) (sv_calls s) (sv_db s) cmds" "\<forall>cmd \<in> set cmds. length (array_reply cmd) < 2 ^ 30"
    "concat (map arriving es) = encoded cmds" "\<forall>e \<in> set es. calm e \<and> length (arriving e) < 2 ^ 30"
  shows "\<exists>s' c replies m. run_io sr fd es s = Some (Inr s') \<and> sv_conns s' fd = Some c \<and> cn_state c \<noteq> Closing \<and>
    cn_read_buf c = [] \<and> serve (sr_envs sr) (sv_calls s) (sv_db s) cmds = Some (replies, m, sv_db s') \<and>
    length replies = length cmds \<and>
    sent_to s' fd @ drop (cn_write_offset c) (cn_write_buf c) = sent_to s fd @ concat replies \<and> db_typed (sv_db s')"
proof -
  obtain replies m db' where served: "serve (sr_envs sr) (sv_calls s) (sv_db s) cmds = Some (replies, m, db')"
    "db_typed db'" "length replies = length cmds"
    using serve_defined assms(2-4) by blast
  have "live_conn s fd (conn_new fd)" "pending (conn_new fd) = []" "cn_read_buf (conn_new fd) = []" "unfinished [] cmds"
    using assms(1) by (simp_all add: live_conn_def conn_new_def offset_ok_def pending_def unfinished_nil)
  moreover have "\<forall>cmd \<in> set cmds. cmd \<noteq> [] \<and> length (array_reply cmd) < 2 ^ 30"
    using defined_session_words [OF assms(4) served(1)] assms(5) by simp
  ultimately show ?thesis
    using session_stream [of s fd "conn_new fd" cmds es sr replies m db'] assms(6,7) served
    by (auto simp: live_conn_def pending_def)
qed

theorem sessions_answered_witness:
  "\<exists>s' c. run_io plain_sr 5 [(EPOLLIN, only_reads [Bytes (''*3'' @ crlf @ ''$7'' @ crlf @ ''PEXP'')]),
      (EPOLLIN, only_reads [Bytes (''IRE'' @ crlf @ ''$1'' @ crlf @ ''k'' @ crlf @ ''$2'' @ crlf @ ''10'' @ crlf)]),
      (EPOLLOUT, only_writes [Takes 3])] (plain_server [conn_new 5]) = Some (Inr s') \<and>
    sv_conns s' 5 = Some c \<and> cn_state c \<noteq> Closing \<and> cn_read_buf c = [] \<and> db_typed (sv_db s')"
proof -
  let ?s = "plain_server [conn_new 5]" and ?cmd = "[''PEXPIRE'', ''k'', ''10'']"
  let ?es = "[(EPOLLIN, only_reads [Bytes (''*3'' @ crlf @ ''$7'' @ crlf @ ''PEXP'')]),
      (EPOLLIN, only_reads [Bytes (''IRE'' @ crlf @ ''$1'' @ crlf @ ''k'' @ crlf @ ''$2'' @ crlf @ ''10'' @ crlf)]),
      (EPOLLOUT, only_writes [Takes 3])]"
  have enc: "array_reply ?cmd =
      ''*3'' @ crlf @ ''$7'' @ crlf @ ''PEXPIRE'' @ crlf @ ''$1'' @ crlf @ ''k'' @ crlf @ ''$2'' @ crlf @ ''10'' @ crlf"
    by code_simp
  have num: "stoll ''10'' = Inr 10" by code_simp
  have upper: "to_upper ''PEXPIRE'' = ''PEXPIRE''" by code_simp
  have 1: "sv_conns ?s 5 = Some (conn_new 5)" by (simp add: plain_server_def reactor.defs conn_new_def)
  have 2: "db_typed (sv_db ?s)" by (simp add: plain_server_def reactor.defs db_new_typed)
  have 3: "kv_size (db_kv (sv_db ?s)) + length [?cmd] \<le> 2 ^ 30"
    using kv_new_ok(3) by (simp add: plain_server_def reactor.defs db_new_def)
  have 4: "defined_session (sr_envs plain_sr) (sv_calls ?s) (sv_db ?s) [?cmd]"
    by (simp add: defined_command_def args_typed_def time_given_def num upper plain_sr_def plain_env_def int64_def
        split: outcome.splits)
  have 5: "\<forall>cmd \<in> set [?cmd]. length (array_reply cmd) < 2 ^ 30" by (simp add: enc crlf_def)
  have 6: "concat (map arriving ?es) = encoded [?cmd]"
    by (simp add: arriving_def only_reads_def only_writes_def enc)
  have 7: "\<forall>e \<in> set ?es. calm e \<and> length (arriving e) < 2 ^ 30"
    by (simp add: arriving_def only_reads_def only_writes_def calm_def calm_reads_def calm_writes_def crlf_def)
  from sessions_answered [OF 1 2 3 4 5 6 7] show ?thesis by blast
qed

end
