(* ===== verification/Entry_Point.thy ===== *)
theory Entry_Point
  imports Server_Properties
begin

text \<open>
  The whole program, \<^verbatim>\<open>src/main.cpp\<close>: the settings are read and printed, the server is made
  and started, and the event loop runs. What the file system holds, the descriptors that the system hands
  out, the clock and the rounds of the loop are arguments.
\<close>

section \<open>Printing\<close>

text \<open>A line that \<^verbatim>\<open>printf\<close> makes from a fixed text and an argument.\<close>

definition print_line :: "string \<Rightarrow> string \<Rightarrow> string" where
  "print_line label arg = label @ arg @ [CHR 0x0A]"

definition config_print :: "config \<Rightarrow> string" where
  "config_print cfg =
     print_line ''  port              : '' (int_dec (cf_port cfg)) @
     print_line ''  threads           : '' (nat_dec (cf_threads cfg)) @
     print_line ''  snapshot_interval : '' (int_dec (cf_interval cfg) @ ''s'') @
     print_line ''  rdb_path          : '' (cf_rdb cfg) @
     print_line ''  max_connections   : '' (nat_dec (cf_max_conns cfg))"

section \<open>Running\<close>

text \<open>
  The loop of \<^verbatim>\<open>run\<close>: a round as long as \<^verbatim>\<open>running_\<close> is set, with the reading of the
  clock and the events of each; the list ends where the observation does.
\<close>

type_synonym round = "int \<times> (int \<times> u32 \<times> io_results) list"

fun server_run :: "surroundings \<Rightarrow> round list \<Rightarrow> server \<Rightarrow> served" where
  "server_run sr [] s = Some (Inr s)"
| "server_run sr ((now, es) # rounds) s =
     (if \<not> rc_running s then Some (Inr s)
      else case server_poll sr now es s of
        Some (Inr s') \<Rightarrow> server_run sr rounds s'
      | r \<Rightarrow> r)"

text \<open>
  \<^verbatim>\<open>main\<close>: what is printed, and how the process ends or where its loop stands. The constructor of
  the pool and the conversions of the settings may throw, which nobody catches.
\<close>

definition server_main ::
  "surroundings \<Rightarrow> (string \<Rightarrow> string option) \<Rightarrow> files \<Rightarrow> string list \<Rightarrow> int \<Rightarrow> int \<Rightarrow> round list \<Rightarrow> string \<times> served" where
  "server_main sr disk fs argv event_fd listen_fd rounds =
     (case startup_config disk argv of
        Inl e \<Rightarrow> ([], Some (Inl (Uncaught e)))
      | Inr cfg \<Rightarrow>
          let out = print_line ''FastGraph starting with config:'' [] @ config_print cfg in
          (case server_new cfg fs event_fd of
             Inl e \<Rightarrow> (out, Some (Inl e))
           | Inr s0 \<Rightarrow>
               (case server_start sr cfg listen_fd s0 of
                  None \<Rightarrow> (out, None)
                | Some s \<Rightarrow> (out @ print_line ''FastGraph listening on :'' (int_dec (cf_port cfg)), server_run sr rounds s))))"

section \<open>What it comes to\<close>

lemma server_run_reached:
  assumes "server_reached sr cfg fs s" "server_run sr rounds s = Some (Inr s')"
  shows "server_reached sr cfg fs s'"
  using assms
proof (induction rounds arbitrary: s)
  case (Cons r rounds)
  obtain now es where r: "r = (now, es)" by (cases r)
  show ?case
  proof (cases "rc_running s")
    case True
    then obtain s1 where "server_poll sr now es s = Some (Inr s1)" "server_run sr rounds s1 = Some (Inr s')"
      using Cons.prems(2) r by (auto split: option.splits sum.splits)
    then show ?thesis using Cons.IH server_reached.round [OF Cons.prems(1)] by blast
  qed (use Cons.prems r in simp)
qed simp

text \<open>Every state of the running program is one of those that the properties of the server speak of.\<close>

lemma main_reaches:
  assumes "snd (server_main sr disk fs argv event_fd listen_fd rounds) = Some (Inr s)"
  obtains cfg where "startup_config disk argv = Inr cfg" "cf_threads cfg \<noteq> 0" "server_reached sr cfg fs s"
proof -
  obtain cfg where cfg: "startup_config disk argv = Inr cfg"
    using assms by (cases "startup_config disk argv") (simp_all add: server_main_def)
  obtain s0 where s0: "server_new cfg fs event_fd = Inr s0"
    using assms cfg by (cases "server_new cfg fs event_fd") (simp_all add: server_main_def Let_def)
  obtain s1 where s1: "server_start sr cfg listen_fd s0 = Some s1" "server_run sr rounds s1 = Some (Inr s)"
    using assms cfg s0 by (cases "server_start sr cfg listen_fd s0") (simp_all add: server_main_def Let_def)
  have "server_reached sr cfg fs s" by (rule server_run_reached [OF server_reached.boot [OF s0 s1(1)] s1(2)])
  moreover have "cf_threads cfg \<noteq> 0" using s0 by (auto simp: server_new_def split: if_splits)
  ultimately show thesis using that cfg by blast
qed

text \<open>
  Starting without a snapshot file: the program reaches its loop exactly when the settings can be read,
  there is at least one thread and the interval in milliseconds is an \<^verbatim>\<open>int\<close>.
\<close>

lemma main_starts:
  assumes "\<forall>f. fs f = None"
  shows "(\<exists>s. snd (server_main sr disk fs argv event_fd listen_fd []) = Some (Inr s)) \<longleftrightarrow>
    (\<exists>cfg. startup_config disk argv = Inr cfg \<and> cf_threads cfg \<noteq> 0 \<and>
       - (2 ^ 31) \<le> cf_interval cfg * 1000 \<and> cf_interval cfg * 1000 < 2 ^ 31)"
proof (cases "startup_config disk argv")
  case (Inr cfg)
  show ?thesis
  proof (cases "cf_threads cfg = 0")
    case False
    then obtain s0 where s0: "server_new cfg fs event_fd = Inr s0" by (simp add: server_new_def)
    then have "db_files (sv_db s0) = fs"
      using False s0 by (auto simp: server_new_def db_new_def reactor.defs rc_new_def)
    then have "server_load sr s0 = Some (s0\<lparr>sv_calls := Suc (sv_calls s0)\<rparr>)"
      using assms by (simp add: server_load_def ps_load_def rdb_load_def Let_def)
    then show ?thesis
      using Inr False s0 by (auto simp: server_main_def server_start_def Let_def not_less not_le)
  qed (use Inr in \<open>simp add: server_main_def server_new_def Let_def\<close>)
qed (simp add: server_main_def)

end
