(* ===== verification/Thread_Pool.thy ===== *)
theory Thread_Pool
  imports Prelude
begin

text \<open>
  The thread pool of \<^verbatim>\<open>src/thread/thread_pool.hpp\<close> (class \<^verbatim>\<open>ThreadPool\<close>) as a step
  relation: a step is a section of the code that runs under the mutex, a notification, or the end of a
  task, and the steps of the threads interleave freely. Three lists, of the tasks submitted, started and
  finished so far, record what happened and do not influence it.
\<close>

section \<open>State\<close>

text \<open>
  A worker is about to take the mutex and test its condition, sleeps on the condition variable, runs a
  task, or has returned from its loop.
\<close>

datatype 'a worker = Ready | Asleep | Busy 'a | Gone

record 'a pool =
  pl_workers :: "'a worker list"
  pl_queue :: "'a list"
  pl_stop :: bool
  pl_notes :: nat
  pl_ending :: bool
  pl_submitted :: "'a list"
  pl_started :: "'a list"
  pl_finished :: "'a list"

text \<open>
  \<open>pl_notes\<close> counts the threads between leaving the mutex in \<^verbatim>\<open>submit\<close> and
  \<^verbatim>\<open>notify_one\<close>; \<open>pl_ending\<close> tells that the destructor has set \<^verbatim>\<open>stop_\<close> and has
  not yet called \<^verbatim>\<open>notify_all\<close>.
\<close>

definition workers_new :: "nat \<Rightarrow> string + 'a pool" where
  "workers_new n = (if n = 0 then Inl ''need at least 1 thread''
     else Inr \<lparr>pl_workers = replicate n Ready, pl_queue = [], pl_stop = False, pl_notes = 0, pl_ending = False,
       pl_submitted = [], pl_started = [], pl_finished = []\<rparr>)"

definition queue_size :: "'a pool \<Rightarrow> nat" where
  "queue_size p = length (pl_queue p)"

section \<open>Steps\<close>

definition submit_push :: "'a \<Rightarrow> 'a pool \<Rightarrow> string + 'a pool" where
  "submit_push task p =
     (if pl_stop p then Inl ''pool is stopped''
      else Inr (p\<lparr>pl_queue := pl_queue p @ [task], pl_notes := pl_notes p + 1, pl_submitted := pl_submitted p @ [task]\<rparr>))"

definition set_worker :: "nat \<Rightarrow> 'a worker \<Rightarrow> 'a pool \<Rightarrow> 'a pool" where
  "set_worker i w p = p\<lparr>pl_workers := (pl_workers p)[i := w]\<rparr>"

text \<open>The section of \<^verbatim>\<open>worker_loop\<close> under the mutex, up to sleeping, returning or having a task.\<close>

definition worker_check :: "nat \<Rightarrow> 'a pool \<Rightarrow> 'a pool" where
  "worker_check i p =
     (if \<not> (pl_stop p \<or> pl_queue p \<noteq> []) then set_worker i Asleep p
      else if pl_stop p \<and> pl_queue p = [] then set_worker i Gone p
      else set_worker i (Busy (hd (pl_queue p)))
        (p\<lparr>pl_queue := tl (pl_queue p), pl_started := pl_started p @ [hd (pl_queue p)]\<rparr>))"

definition pool_stop :: "'a pool \<Rightarrow> 'a pool" where
  "pool_stop p = p\<lparr>pl_stop := True, pl_ending := True\<rparr>"

definition notify_all :: "'a pool \<Rightarrow> 'a pool" where
  "notify_all p = p\<lparr>pl_workers := map (\<lambda>w. if w = Asleep then Ready else w) (pl_workers p), pl_ending := False\<rparr>"

text \<open>The steps that the pool takes by itself, and those of its users; a sleeper may also wake by itself.\<close>

inductive pool_work :: "'a pool \<Rightarrow> 'a pool \<Rightarrow> bool" where
  check: "i < length (pl_workers p) \<Longrightarrow> pl_workers p ! i = Ready \<Longrightarrow> pool_work p (worker_check i p)"
| finish: "i < length (pl_workers p) \<Longrightarrow> pl_workers p ! i = Busy task \<Longrightarrow>
    pool_work p (set_worker i Ready (p\<lparr>pl_finished := pl_finished p @ [task]\<rparr>))"
| wake_one: "0 < pl_notes p \<Longrightarrow> i < length (pl_workers p) \<Longrightarrow> pl_workers p ! i = Asleep \<Longrightarrow>
    pool_work p (set_worker i Ready (p\<lparr>pl_notes := pl_notes p - 1\<rparr>))"
| wake_none: "0 < pl_notes p \<Longrightarrow> Asleep \<notin> set (pl_workers p) \<Longrightarrow> pool_work p (p\<lparr>pl_notes := pl_notes p - 1\<rparr>)"
| wake_all: "pl_ending p \<Longrightarrow> pool_work p (notify_all p)"

inductive pool_use :: "'a pool \<Rightarrow> 'a pool \<Rightarrow> bool" where
  submit: "submit_push task p = Inr p' \<Longrightarrow> pool_use p p'"
| stop: "\<not> pl_stop p \<Longrightarrow> pool_use p (pool_stop p)"
| spurious: "i < length (pl_workers p) \<Longrightarrow> pl_workers p ! i = Asleep \<Longrightarrow> pool_use p (set_worker i Ready p)"

inductive pool_reached :: "nat \<Rightarrow> 'a pool \<Rightarrow> bool" for n where
  new: "workers_new n = Inr p \<Longrightarrow> pool_reached n p"
| work: "pool_reached n p \<Longrightarrow> pool_work p q \<Longrightarrow> pool_reached n q"
| use: "pool_reached n p \<Longrightarrow> pool_use p q \<Longrightarrow> pool_reached n q"

section \<open>The invariant\<close>

fun running_of :: "'a worker \<Rightarrow> 'a multiset" where
  "running_of (Busy task) = {#task#}"
| "running_of _ = {#}"

definition running :: "'a pool \<Rightarrow> 'a multiset" where
  "running p = (\<Sum>w \<leftarrow> pl_workers p. running_of w)"

fun awake :: "'a worker \<Rightarrow> bool" where
  "awake Ready = True"
| "awake (Busy task) = True"
| "awake _ = False"

definition pool_ok :: "nat \<Rightarrow> 'a pool \<Rightarrow> bool" where
  "pool_ok n p \<longleftrightarrow> length (pl_workers p) = n \<and> 0 < n \<and>
     pl_submitted p = pl_started p @ pl_queue p \<and> mset (pl_started p) = mset (pl_finished p) + running p \<and>
     (Gone \<in> set (pl_workers p) \<longrightarrow> pl_stop p \<and> pl_queue p = []) \<and>
     (pl_queue p \<noteq> [] \<longrightarrow> 0 < pl_notes p \<or> (\<exists>w \<in> set (pl_workers p). awake w)) \<and>
     (pl_stop p \<and> Asleep \<in> set (pl_workers p) \<longrightarrow> pl_ending p) \<and> (pl_ending p \<longrightarrow> pl_stop p)"

lemma sum_list_update_mset:
  fixes f :: "'a \<Rightarrow> 'b multiset"
  shows "i < length ws \<Longrightarrow> (\<Sum>w \<leftarrow> ws[i := v]. f w) + f (ws ! i) = (\<Sum>w \<leftarrow> ws. f w) + f v"
proof (induction ws arbitrary: i)
  case (Cons w ws)
  then show ?case by (cases i) (auto simp: ac_simps)
qed simp

lemma running_update:
  assumes "i < length (pl_workers p)" "running_of (pl_workers p ! i) = old"
  shows "running (set_worker i w p) + old = running p + running_of w"
  using sum_list_update_mset [OF assms(1), of running_of w] assms(2) by (simp add: running_def set_worker_def)

lemma running_same [simp]:
  "running (p\<lparr>pl_queue := q\<rparr>) = running p" "running (p\<lparr>pl_started := t\<rparr>) = running p"
  "running (p\<lparr>pl_finished := t\<rparr>) = running p" "running (p\<lparr>pl_notes := k\<rparr>) = running p"
  "running (p\<lparr>pl_submitted := t\<rparr>) = running p" "running (p\<lparr>pl_stop := b\<rparr>) = running p" "running (p\<lparr>pl_ending := b\<rparr>) = running p"
  by (simp_all add: running_def)

lemma no_running [simp]: "(\<Sum>w \<leftarrow> replicate n Ready. running_of w) = {#}"
  by (induction n) simp_all

lemma workers_new_ok: "workers_new n = Inr p \<Longrightarrow> pool_ok n p"
  by (auto simp: workers_new_def pool_ok_def running_def simp del: map_replicate split: if_splits)

text \<open>One worker changes; what it leaves to show of the rest of the pool.\<close>

lemma set_worker_ok:
  assumes "length (pl_workers p) = n" "0 < n" "i < n"
    "pl_submitted p = pl_started p @ pl_queue p"
    "mset (pl_started p) + running_of (pl_workers p ! i) = mset (pl_finished p) + running p + running_of w"
    "Gone \<in> insert w (set (pl_workers p)) \<Longrightarrow> pl_stop p \<and> pl_queue p = []"
    "pl_queue p \<noteq> [] \<Longrightarrow> awake w"
    "pl_stop p \<Longrightarrow> Asleep \<in> insert w (set (pl_workers p)) \<Longrightarrow> pl_ending p" "pl_ending p \<Longrightarrow> pl_stop p"
  shows "pool_ok n (set_worker i w p)"
proof -
  let ?q = "set_worker i w p"
  have r: "running ?q + running_of (pl_workers p ! i) = running p + running_of w"
    using running_update [OF assms(3) [folded assms(1)] refl] .
  have "mset (pl_started p) + running_of (pl_workers p ! i) = mset (pl_finished p) + running ?q + running_of (pl_workers p ! i)"
    unfolding assms(5) using r by (simp add: ac_simps)
  then have "mset (pl_started p) = mset (pl_finished p) + running ?q" by simp
  moreover have "x \<in> set (pl_workers ?q) \<Longrightarrow> x \<in> insert w (set (pl_workers p))" for x
    using set_update_subset_insert [of "pl_workers p" i w] by (auto simp: set_worker_def)
  moreover have "w \<in> set (pl_workers ?q)"
    using assms(1,3) by (simp add: set_worker_def set_update_memI)
  ultimately show ?thesis
    using assms unfolding pool_ok_def by (auto simp: set_worker_def)
qed

lemma pool_work_ok:
  assumes "pool_ok n p" "pool_work p q"
  shows "pool_ok n q"
proof -
  note ok = assms(1) [unfolded pool_ok_def]
  show ?thesis
    using assms(2)
  proof cases
    case (check i)
    have mem: "pl_workers p ! i \<in> set (pl_workers p)" using check(2) by simp
    consider "\<not> pl_stop p" "pl_queue p = []" | "pl_stop p" "pl_queue p = []" | t ts where "pl_queue p = t # ts"
      by (cases "pl_queue p") auto
    then show ?thesis
    proof cases
      case 1
      then show ?thesis
        using ok check by (auto simp: worker_check_def intro!: set_worker_ok)
    next
      case 2
      then show ?thesis
        using ok check by (auto simp: worker_check_def intro!: set_worker_ok)
    next
      case 3
      then show ?thesis
        using ok check by (auto simp: worker_check_def intro!: set_worker_ok)
    qed
  next
    case (finish i task)
    then show ?thesis
      using ok nth_mem [OF finish(2)] by (auto intro!: set_worker_ok)
  next
    case (wake_one i)
    then show ?thesis
      using ok nth_mem [OF wake_one(3)] by (auto intro!: set_worker_ok)
  next
    case wake_none
    have "\<exists>w \<in> set (pl_workers p). awake w" if "pl_queue p \<noteq> []"
    proof -
      obtain w where w: "w \<in> set (pl_workers p)" using assms(1) by (cases "pl_workers p") (auto simp: pool_ok_def)
      then have "w \<noteq> Gone" "w \<noteq> Asleep" using assms(1) that wake_none(3) by (auto simp: pool_ok_def)
      then have "awake w" by (cases w) auto
      with w show ?thesis by blast
    qed
    then show ?thesis using assms(1) wake_none by (auto simp: pool_ok_def)
  next
    case wake_all
    have "running_of (if w = Asleep then Ready else w) = running_of w" for w :: "'a worker"
      by simp
    then have "running q = running p" by (simp add: wake_all running_def notify_all_def comp_def)
    moreover have "awake w \<Longrightarrow> w \<noteq> Asleep" for w :: "'a worker" by auto
    ultimately show ?thesis
      using assms(1) wake_all by (auto simp: pool_ok_def notify_all_def image_iff)
  qed
qed

lemma pool_use_ok:
  assumes "pool_ok n p" "pool_use p q"
  shows "pool_ok n q"
proof -
  note ok = assms(1) [unfolded pool_ok_def]
  show ?thesis
    using assms(2)
  proof cases
    case (submit task)
    then show ?thesis using assms(1) by (auto simp: submit_push_def pool_ok_def split: if_splits)
  next
    case stop
    then show ?thesis using assms(1) by (auto simp: pool_stop_def pool_ok_def)
  next
    case (spurious i)
    then show ?thesis
      using ok nth_mem [OF spurious(2)] by (auto intro!: set_worker_ok)
  qed
qed

lemma pool_reached_ok: "pool_reached n p \<Longrightarrow> pool_ok n p"
  by (induction rule: pool_reached.induct) (auto intro: workers_new_ok pool_work_ok pool_use_ok)

section \<open>Progress\<close>

fun effort :: "'a worker \<Rightarrow> nat" where
  "effort Ready = 1"
| "effort (Busy task) = 2"
| "effort _ = 0"

definition work_left :: "'a pool \<Rightarrow> nat" where
  "work_left p = sum_list (map effort (pl_workers p)) + 2 * length (pl_queue p) + 2 * pl_notes p +
     (if pl_ending p then length (pl_workers p) + 1 else 0)"

lemma effort_update:
  "i < length ws \<Longrightarrow> sum_list (map effort (ws[i := v])) + effort (ws ! i) = sum_list (map effort ws) + effort v"
proof (induction ws arbitrary: i)
  case (Cons w ws)
  then show ?case by (cases i) auto
qed simp

lemma effort_wake: "sum_list (map (effort \<circ> (\<lambda>w. if w = Asleep then Ready else w)) ws) \<le> sum_list (map effort ws) + length ws"
  by (induction ws) auto

lemma pool_work_decreases: "pool_work p q \<Longrightarrow> work_left q < work_left p"
proof (induction rule: pool_work.induct)
  case (check i p)
  then show ?case
    using effort_update [OF check(1), of Asleep] effort_update [OF check(1), of Gone]
      effort_update [OF check(1), of "Busy (hd (pl_queue p))"]
    by (cases "pl_queue p") (auto simp: worker_check_def set_worker_def work_left_def)
next
  case (finish i p task)
  then show ?case using effort_update [OF finish(1), of Ready] by (simp add: set_worker_def work_left_def)
next
  case (wake_one p i)
  then show ?case using effort_update [OF wake_one(2), of Ready] by (simp add: set_worker_def work_left_def)
next
  case (wake_none p)
  then show ?case by (simp add: work_left_def)
next
  case (wake_all p)
  then show ?case using effort_wake [of "pl_workers p"] by (simp add: work_left_def notify_all_def)
qed

lemma pool_at_rest:
  assumes "pool_ok n p" "\<And>q. \<not> pool_work p q"
  shows "pl_queue p = []" "running p = {#}" "pl_stop p \<Longrightarrow> set (pl_workers p) = {Gone}"
proof -
  have w: "w = Asleep \<or> w = Gone" if "w \<in> set (pl_workers p)" for w
  proof (cases w)
    case (Busy task)
    then show ?thesis using that assms(2) finish by (metis in_set_conv_nth)
  next
    case Ready
    then show ?thesis using that assms(2) check by (metis in_set_conv_nth)
  qed simp_all
  then have "\<not> awake w" if "w \<in> set (pl_workers p)" for w using that by fastforce
  moreover have "pl_notes p = 0"
    using assms(2) wake_one wake_none by (metis gr0I in_set_conv_nth)
  ultimately show "pl_queue p = []" using assms(1) by (auto simp: pool_ok_def)
  have "(\<Sum>w \<leftarrow> ws. running_of w) = {#}" if "\<And>w. w \<in> set ws \<Longrightarrow> w = Asleep \<or> w = Gone" for ws :: "'a worker list"
    using that by (induction ws) force+
  then show "running p = {#}" using w by (simp add: running_def)
  show "set (pl_workers p) = {Gone}" if "pl_stop p"
  proof -
    have "\<not> pl_ending p" using assms(2) wake_all by blast
    then have "Asleep \<notin> set (pl_workers p)" using assms(1) that by (auto simp: pool_ok_def)
    moreover have "pl_workers p \<noteq> []" using assms(1) by (auto simp: pool_ok_def)
    ultimately show ?thesis using w by (cases "pl_workers p") auto
  qed
qed

lemma pool_work_star:
  assumes "pool_work\<^sup>*\<^sup>* p q" "pool_reached n p"
  shows "pool_reached n q \<and> pl_submitted q = pl_submitted p"
  using assms
proof (induction rule: rtranclp_induct)
  case (step q r)
  have "pl_submitted r = pl_submitted q"
    using step(2) by cases (simp_all add: worker_check_def set_worker_def notify_all_def)
  then show ?case using step pool_reached.work by metis
qed simp

lemma pool_work_wf: "wf {(q, p). pool_work p q}"
  by (rule wf_subset [OF wf_measure [of work_left]]) (auto simp: pool_work_decreases)

section \<open>Properties\<close>

text \<open>
  Tasks start in the order in which they were submitted, each exactly once: the queue holds the ones
  not yet started, and a started task is running or finished.
\<close>

theorem tasks_start_in_order:
  assumes "pool_reached n p"
  shows "pl_submitted p = pl_started p @ pl_queue p \<and> mset (pl_started p) = mset (pl_finished p) + running p"
  using pool_reached_ok [OF assms] by (simp add: pool_ok_def)

text \<open>A pool of one worker after a submission.\<close>

definition small_pool :: "nat pool" where
  "small_pool = \<lparr>pl_workers = [Ready], pl_queue = [7], pl_stop = False, pl_notes = 1, pl_ending = False,
     pl_submitted = [7], pl_started = [], pl_finished = []\<rparr>"

lemma small_pool_reached: "pool_reached 1 small_pool"
proof -
  obtain p where p: "workers_new 1 = Inr (p :: nat pool)" by (simp add: workers_new_def)
  then have "submit_push 7 p = Inr small_pool" by (auto simp: workers_new_def submit_push_def small_pool_def)
  then show ?thesis using pool_reached.use [OF pool_reached.new [OF p] pool_use.submit] by blast
qed

theorem tasks_start_in_order_witness:
  "pool_reached 1 (worker_check 0 small_pool) \<and> pl_started (worker_check 0 small_pool) = [7] \<and> pl_queue (worker_check 0 small_pool) = []"
proof -
  have "pool_work small_pool (worker_check 0 small_pool)"
    by (rule pool_work.check) (simp_all add: small_pool_def)
  then have r: "pool_reached 1 (worker_check 0 small_pool)"
    using pool_reached.work [OF small_pool_reached] by blast
  from r tasks_start_in_order [OF r] show ?thesis
    by (simp add: worker_check_def set_worker_def small_pool_def)
qed

text \<open>
  C23. No task is forgotten and no wake-up is lost: left to itself the pool comes to rest, whatever the
  interleaving, and at rest every submitted task has been run; if the pool was stopped, every worker has
  returned, so that the destructor's joins return.
\<close>

theorem pool_finishes_tasks:
  assumes "pool_reached n p"
  shows "wf {(r, q). pool_work q r} \<and>
    (\<forall>q. pool_work\<^sup>*\<^sup>* p q \<longrightarrow> (\<forall>r. \<not> pool_work q r) \<longrightarrow>
       mset (pl_finished q) = mset (pl_submitted p) \<and> (pl_stop q \<longrightarrow> set (pl_workers q) = {Gone}))"
proof (intro conjI allI impI)
  show "wf {(r, q). pool_work q r}" by (rule pool_work_wf)
  fix q
  assume q: "pool_work\<^sup>*\<^sup>* p q" "\<forall>r. \<not> pool_work q r"
  note reached = pool_work_star [OF q(1) assms]
  have ok: "pool_ok n q" using reached pool_reached_ok by blast
  have rest: "pl_queue q = []" "running q = {#}" "pl_stop q \<Longrightarrow> set (pl_workers q) = {Gone}"
    using pool_at_rest [OF ok] q(2) by blast+
  show "mset (pl_finished q) = mset (pl_submitted p)"
    using ok rest reached by (simp add: pool_ok_def)
  show "pl_stop q \<Longrightarrow> set (pl_workers q) = {Gone}" by (rule rest(3))
qed

theorem pool_finishes_tasks_witness:
  "\<exists>q. pool_work\<^sup>*\<^sup>* small_pool q \<and> (\<forall>r. \<not> pool_work q r) \<and> pl_finished q = [7]"
proof -
  note all = pool_finishes_tasks [OF small_pool_reached]
  let ?Q = "{q. pool_work\<^sup>*\<^sup>* small_pool q}"
  have "small_pool \<in> ?Q" by simp
  then obtain q where min: "q \<in> ?Q" "\<And>r. (r, q) \<in> {(r, q). pool_work q r} \<Longrightarrow> r \<notin> ?Q"
    by (rule wfE_min [OF conjunct1 [OF all]]) (rule that)
  then have q: "pool_work\<^sup>*\<^sup>* small_pool q" "\<And>r. pool_work q r \<Longrightarrow> \<not> pool_work\<^sup>*\<^sup>* small_pool r"
    by simp_all
  then have rest: "\<forall>r. \<not> pool_work q r" by (meson rtranclp.rtrancl_into_rtrancl)
  have "mset (pl_finished q) = mset (pl_submitted small_pool)"
    using conjunct2 [OF all, rule_format, OF q(1)] rest by simp
  then have "pl_finished q = [7]" by (simp add: small_pool_def)
  with q(1) rest show ?thesis by blast
qed

end
