(* ===== verification/Allocators.thy ===== *)
theory Allocators
  imports Prelude
begin

text \<open>
  The allocators of \<^verbatim>\<open>src/memory/slab.hpp\<close> (class \<^verbatim>\<open>SlabAllocator\<close>, which
  holds the nodes of the skip lists) and \<^verbatim>\<open>src/memory/pool_allocator.hpp\<close> (class template
  \<^verbatim>\<open>PoolAllocator\<close>, which holds the connections). Both keep the links of their free lists in
  the free blocks themselves: that memory is a map from the address of a block to the pointer at its start,
  which the owner of a block may overwrite. What \<^verbatim>\<open>malloc\<close> returns is an argument.
\<close>

section \<open>Linked free lists\<close>

type_synonym addr = nat

fun chain :: "(addr \<Rightarrow> addr option) \<Rightarrow> addr option \<Rightarrow> addr list \<Rightarrow> bool" where
  "chain nx h [] \<longleftrightarrow> h = None"
| "chain nx h (a # as) \<longleftrightarrow> h = Some a \<and> chain nx (nx a) as"

lemma chain_frame [simp]: "a \<notin> set as \<Longrightarrow> chain (nx(a := v)) h as = chain nx h as"
  by (induction as arbitrary: h) auto

lemma chain_None [simp]: "chain nx None as \<longleftrightarrow> as = []"
  by (cases as) auto

lemma chain_Some: "chain nx (Some a) as \<longleftrightarrow> (\<exists>bs. as = a # bs \<and> chain nx (nx a) bs)"
  by (cases as) auto

section \<open>The slab allocator\<close>

definition k_classes :: "nat list" where
  "k_classes = [8, 16, 32, 64, 128, 256, 512, 1024, 2048]"

record slab =
  sl_heads :: "addr option list"
  sl_next :: "addr \<Rightarrow> addr option"

definition slab_new :: slab where
  "slab_new = \<lparr>sl_heads = replicate 9 None, sl_next = (\<lambda>_. None)\<rparr>"

fun size_class_loop :: "nat list \<Rightarrow> nat \<Rightarrow> int \<Rightarrow> int" where
  "size_class_loop [] sz i = -1"
| "size_class_loop (k # ks) sz i = (if sz \<le> k then i else size_class_loop ks sz (i + 1))"

definition size_class :: "nat \<Rightarrow> int" where
  "size_class sz = size_class_loop k_classes sz 0"

text \<open>\<open>m\<close> is what \<^verbatim>\<open>malloc\<close> returns, should it be called.\<close>

definition slab_get :: "addr \<Rightarrow> nat \<Rightarrow> slab \<Rightarrow> addr \<times> slab" where
  "slab_get m c s =
     (case sl_heads s ! c of
        Some p \<Rightarrow> (p, s\<lparr>sl_heads := (sl_heads s)[c := sl_next s p]\<rparr>)
      | None \<Rightarrow> (m, s))"

definition slab_put :: "addr \<Rightarrow> nat \<Rightarrow> slab \<Rightarrow> slab" where
  "slab_put p c s = s\<lparr>sl_next := (sl_next s)(p := sl_heads s ! c), sl_heads := (sl_heads s)[c := Some p]\<rparr>"

definition slab_allocate :: "addr \<Rightarrow> nat \<Rightarrow> slab \<Rightarrow> addr \<times> slab" where
  "slab_allocate m sz s = (let c = size_class sz in if c < 0 then (m, s) else slab_get m (nat c) s)"

definition slab_deallocate :: "addr \<Rightarrow> nat \<Rightarrow> slab \<Rightarrow> slab" where
  "slab_deallocate p sz s = (let c = size_class sz in if c < 0 then s else slab_put p (nat c) s)"

text \<open>The bytes reserved for a request.\<close>

definition capacity :: "nat \<Rightarrow> nat" where
  "capacity sz = (if size_class sz < 0 then sz else k_classes ! nat (size_class sz))"

lemma size_class_cases:
  "size_class sz = -1 \<and> 2048 < sz \<or> 0 \<le> size_class sz \<and> size_class sz < 9 \<and> sz \<le> k_classes ! nat (size_class sz)"
  by (simp add: size_class_def k_classes_def)

lemma capacity_bounds: "sz \<le> capacity sz" "0 < capacity sz"
proof -
  have "size_class sz \<ge> 0 \<Longrightarrow> k_classes ! nat (size_class sz) \<in> set k_classes"
    using size_class_cases [of sz] by (intro nth_mem) (auto simp: k_classes_def)
  then show "sz \<le> capacity sz" "0 < capacity sz"
    using size_class_cases [of sz] by (auto simp: capacity_def k_classes_def)
qed

text \<open>
  Blocks in use, with the sizes asked for, and the free blocks of each class. They are pairwise apart,
  also for the whole capacity.
\<close>

definition block_of :: "(addr \<Rightarrow> nat option) \<Rightarrow> addr list list \<Rightarrow> addr \<Rightarrow> nat \<Rightarrow> bool" where
  "block_of live fls a cap \<longleftrightarrow> (\<exists>sz. live a = Some sz \<and> cap = capacity sz) \<or> (\<exists>c < 9. a \<in> set (fls ! c) \<and> cap = k_classes ! c)"

definition apart :: "addr \<Rightarrow> nat \<Rightarrow> addr \<Rightarrow> nat \<Rightarrow> bool" where
  "apart a n b m \<longleftrightarrow> a + n \<le> b \<or> b + m \<le> a"

definition slab_rep :: "slab \<Rightarrow> (addr \<Rightarrow> nat option) \<Rightarrow> addr list list \<Rightarrow> bool" where
  "slab_rep s live fls \<longleftrightarrow> length (sl_heads s) = 9 \<and> length fls = 9 \<and>
     (\<forall>c < 9. chain (sl_next s) (sl_heads s ! c) (fls ! c) \<and> distinct (fls ! c) \<and> (\<forall>a \<in> set (fls ! c). live a = None)) \<and>
     (\<forall>c < 9. \<forall>d < 9. c \<noteq> d \<longrightarrow> set (fls ! c) \<inter> set (fls ! d) = {}) \<and>
     (\<forall>a n b m. block_of live fls a n \<longrightarrow> block_of live fls b m \<longrightarrow> a \<noteq> b \<longrightarrow> apart a n b m)"

lemma class_pos: "c < 9 \<Longrightarrow> 0 < k_classes ! c"
  using nth_mem [of c k_classes] by (auto simp: k_classes_def)

lemma block_pos: "block_of live fls a n \<Longrightarrow> 0 < n"
  using class_pos capacity_bounds(2) by (auto simp: block_of_def)

text \<open>
  What \<^verbatim>\<open>malloc\<close> promises: a block apart from all those that were not given back to it. The
  states that any use reaches in which blocks are given back with the size they were asked for.
\<close>

definition fresh_block :: "(addr \<Rightarrow> nat option) \<Rightarrow> addr list list \<Rightarrow> addr \<Rightarrow> nat \<Rightarrow> bool" where
  "fresh_block live fls m n \<longleftrightarrow> (\<forall>b k. block_of live fls b k \<longrightarrow> apart m n b k)"

definition cached :: "slab \<Rightarrow> addr list list \<Rightarrow> bool" where
  "cached s fls \<longleftrightarrow> length fls = 9 \<and> (\<forall>c < 9. chain (sl_next s) (sl_heads s ! c) (fls ! c))"

inductive slab_reached :: "slab \<Rightarrow> (addr \<Rightarrow> nat option) \<Rightarrow> bool" where
  new: "slab_reached slab_new Map.empty"
| alloc: "slab_reached s live \<Longrightarrow> (\<forall>fls. cached s fls \<longrightarrow> fresh_block live fls m (capacity sz)) \<Longrightarrow>
    slab_allocate m sz s = (p, s') \<Longrightarrow> slab_reached s' (live(p \<mapsto> sz))"
| give: "slab_reached s live \<Longrightarrow> live p = Some sz \<Longrightarrow> slab_reached (slab_deallocate p sz s) (live(p := None))"
| overwrite: "slab_reached s live \<Longrightarrow> live p \<noteq> None \<Longrightarrow> slab_reached (s\<lparr>sl_next := (sl_next s)(p := v)\<rparr>) live"

lemma slab_rep_cached: "slab_rep s live fls \<Longrightarrow> cached s fls"
  by (simp add: slab_rep_def cached_def)

lemma slab_new_rep: "slab_rep slab_new Map.empty (replicate 9 [])"
  by (auto simp: slab_rep_def slab_new_def block_of_def)

lemma slab_write_rep:
  assumes "slab_rep s live fls" "live p \<noteq> None"
  shows "slab_rep (s\<lparr>sl_next := (sl_next s)(p := v)\<rparr>) live fls"
proof -
  have "p \<notin> set (fls ! c)" if "c < 9" for c using assms that by (auto simp: slab_rep_def)
  then show ?thesis using assms by (auto simp: slab_rep_def)
qed

lemma block_of_same:
  assumes "\<And>a n. block_of live' fls' a n \<Longrightarrow> block_of live fls a n" "slab_rep s live fls"
  shows "\<forall>a n b m. block_of live' fls' a n \<longrightarrow> block_of live' fls' b m \<longrightarrow> a \<noteq> b \<longrightarrow> apart a n b m"
  using assms unfolding slab_rep_def by blast

lemma slab_allocate_rep:
  assumes "slab_rep s live fls" "fresh_block live fls m (capacity sz)" "slab_allocate m sz s = (p, s')"
  shows "live p = None \<and> (\<forall>b k. live b = Some k \<longrightarrow> apart p (capacity sz) b (capacity k)) \<and> (\<exists>fls'. slab_rep s' (live(p \<mapsto> sz)) fls')"
proof (cases "0 \<le> size_class sz \<and> sl_heads s ! nat (size_class sz) \<noteq> None")
  case True
  define c where "c = nat (size_class sz)"
  have c: "c < 9" using True size_class_cases [of sz] by (auto simp: c_def)
  have ch: "chain (sl_next s) (sl_heads s ! c) (fls ! c)" using assms(1) c by (simp add: slab_rep_def)
  obtain q where q: "sl_heads s ! c = Some q" using True by (auto simp: c_def)
  obtain as where as: "fls ! c = q # as" "chain (sl_next s) (sl_next s q) as"
    using ch q by (auto simp: chain_Some)
  have p: "p = q" "s' = s\<lparr>sl_heads := (sl_heads s)[c := sl_next s q]\<rparr>"
    using assms(3) True q by (auto simp: slab_allocate_def slab_get_def c_def Let_def)
  have cap: "capacity sz = k_classes ! c" using True by (simp add: capacity_def c_def)
  then have b: "block_of live fls p (capacity sz)" using c as(1) p(1) by (auto simp: block_of_def)
  have none: "live p = None" using assms(1) c as(1) p(1) by (auto simp: slab_rep_def)
  have ap: "apart p (capacity sz) b (capacity k)" if "live b = Some k" for b k
  proof -
    have "block_of live fls b (capacity k)" "b \<noteq> p" using that none by (auto simp: block_of_def)
    then show ?thesis using assms(1) b by (auto simp: slab_rep_def)
  qed
  have old: "block_of (live(p \<mapsto> sz)) (fls[c := as]) a n \<Longrightarrow> block_of live fls a n" for a n
    using as(1) cap c p(1) assms(1) by (auto simp: block_of_def nth_list_update slab_rep_def split: if_splits)
  have "slab_rep s' (live(p \<mapsto> sz)) (fls[c := as])"
    unfolding slab_rep_def
  proof (intro conjI)
    show "\<forall>a n b m. block_of (live(p \<mapsto> sz)) (fls[c := as]) a n \<longrightarrow> block_of (live(p \<mapsto> sz)) (fls[c := as]) b m \<longrightarrow>
        a \<noteq> b \<longrightarrow> apart a n b m"
      using old assms(1) by (rule block_of_same)
    have old: "chain (sl_next s) (sl_heads s ! d) (fls ! d)" "distinct (fls ! d)" "\<forall>a \<in> set (fls ! d). live a = None"
      "d \<noteq> c \<Longrightarrow> q \<notin> set (fls ! d)" if "d < 9" for d
      using assms(1) c as(1) that unfolding slab_rep_def by (blast, blast, blast, force)
    have len: "length (sl_heads s) = 9" "length fls = 9" using assms(1) by (simp_all add: slab_rep_def)
    then show "length (sl_heads s') = 9" "length (fls[c := as]) = 9" by (simp_all add: p)
    show "\<forall>d < 9. chain (sl_next s') (sl_heads s' ! d) (fls[c := as] ! d) \<and> distinct (fls[c := as] ! d) \<and>
        (\<forall>a \<in> set (fls[c := as] ! d). (live(p \<mapsto> sz)) a = None)"
    proof (intro allI impI)
      fix d :: nat
      assume "d < 9"
      then show "chain (sl_next s') (sl_heads s' ! d) (fls[c := as] ! d) \<and> distinct (fls[c := as] ! d) \<and>
          (\<forall>a \<in> set (fls[c := as] ! d). (live(p \<mapsto> sz)) a = None)"
        using old [of d] as c len p by (cases "d = c") auto
    qed
    have sub: "set (fls[c := as] ! d) \<subseteq> set (fls ! d)" for d
      using as(1) c len by (cases "d = c") auto
    have "set (fls ! d) \<inter> set (fls ! e) = {}" if "d < 9" "e < 9" "d \<noteq> e" for d e
      using assms(1) that by (simp add: slab_rep_def)
    with sub show "\<forall>d < 9. \<forall>e < 9. d \<noteq> e \<longrightarrow> set (fls[c := as] ! d) \<inter> set (fls[c := as] ! e) = {}" by blast
  qed
  then show ?thesis using none ap by blast
next
  case False
  then have p: "p = m" "s' = s"
    using assms(3) by (auto simp: slab_allocate_def slab_get_def Let_def split: option.splits if_splits)
  have far: "apart p (capacity sz) b k" if "block_of live fls b k" for b k
    using assms(2) that p(1) by (simp add: fresh_block_def)
  have "\<not> block_of live fls p k" for k
    using far [of p k] block_pos [of live fls p k] capacity_bounds(2) [of sz] by (auto simp: apart_def)
  then have none: "live p = None" "\<And>c. c < 9 \<Longrightarrow> p \<notin> set (fls ! c)"
    unfolding block_of_def by (metis option.exhaust, metis)
  have "apart p (capacity sz) b (capacity k)" if "live b = Some k" for b k
    using far that by (auto simp: block_of_def)
  moreover have "slab_rep s' (live(p \<mapsto> sz)) fls"
  proof -
    have new: "block_of (live(p \<mapsto> sz)) fls a n \<Longrightarrow> a = p \<and> n = capacity sz \<or> a \<noteq> p \<and> block_of live fls a n" for a n
      using none by (auto simp: block_of_def split: if_splits)
    have sym: "apart a n b m \<Longrightarrow> apart b m a n" for a n b m by (auto simp: apart_def)
    show ?thesis
      unfolding slab_rep_def
    proof (intro conjI)
      show "\<forall>a n b m. block_of (live(p \<mapsto> sz)) fls a n \<longrightarrow> block_of (live(p \<mapsto> sz)) fls b m \<longrightarrow> a \<noteq> b \<longrightarrow> apart a n b m"
        using new far sym assms(1) unfolding slab_rep_def by metis
    qed (use assms(1) none p in \<open>auto simp: slab_rep_def\<close>)
  qed
  ultimately show ?thesis using none by blast
qed

lemma slab_deallocate_rep:
  assumes "slab_rep s live fls" "live p = Some sz"
  shows "\<exists>fls'. slab_rep (slab_deallocate p sz s) (live(p := None)) fls'"
proof (cases "size_class sz < 0")
  case True
  have old: "block_of (live(p := None)) fls a n \<Longrightarrow> block_of live fls a n" for a n
    by (auto simp: block_of_def split: if_splits)
  have "slab_rep s (live(p := None)) fls"
    unfolding slab_rep_def
  proof (intro conjI)
    show "\<forall>a n b m. block_of (live(p := None)) fls a n \<longrightarrow> block_of (live(p := None)) fls b m \<longrightarrow> a \<noteq> b \<longrightarrow> apart a n b m"
      using old assms(1) by (rule block_of_same)
  qed (use assms(1) in \<open>auto simp: slab_rep_def\<close>)
  then show ?thesis using True by (auto simp: slab_deallocate_def)
next
  case False
  define c where "c = nat (size_class sz)"
  have c: "c < 9" "capacity sz = k_classes ! c" using False size_class_cases [of sz] by (auto simp: c_def capacity_def)
  have out: "p \<notin> set (fls ! d)" if "d < 9" for d using assms that by (auto simp: slab_rep_def)
  have old: "block_of (live(p := None)) (fls[c := p # fls ! c]) a n \<Longrightarrow> block_of live fls a n" for a n
    using assms c by (auto simp: block_of_def nth_list_update slab_rep_def split: if_splits)
  have s': "slab_deallocate p sz s = s\<lparr>sl_next := (sl_next s)(p := sl_heads s ! c), sl_heads := (sl_heads s)[c := Some p]\<rparr>"
    using False by (simp add: slab_deallocate_def slab_put_def c_def Let_def)
  have "slab_rep (slab_deallocate p sz s) (live(p := None)) (fls[c := p # fls ! c])"
    unfolding slab_rep_def
  proof (intro conjI)
    show "\<forall>a n b m. block_of (live(p := None)) (fls[c := p # fls ! c]) a n \<longrightarrow>
        block_of (live(p := None)) (fls[c := p # fls ! c]) b m \<longrightarrow> a \<noteq> b \<longrightarrow> apart a n b m"
      using old assms(1) by (rule block_of_same)
  qed (use assms(1) c(1) out s' in \<open>auto simp: slab_rep_def nth_list_update\<close>)
  then show ?thesis by blast
qed

lemma slab_reached_rep: "slab_reached s live \<Longrightarrow> \<exists>fls. slab_rep s live fls"
proof (induction rule: slab_reached.induct)
  case new
  show ?case using slab_new_rep by blast
next
  case (alloc s live m sz p s')
  then show ?case using slab_allocate_rep slab_rep_cached by blast
next
  case (give s live p sz)
  then show ?case using slab_deallocate_rep by blast
next
  case (overwrite s live p v)
  then show ?case using slab_write_rep by blast
qed

section \<open>The pool allocator\<close>

text \<open>
  \<open>slot\<close> is the size of a slot, \<open>block\<close> the size of a block in bytes. A \<open>None\<close> result is a failed assertion: a
  slot is larger than a block.
\<close>

record pool_alloc =
  pa_free :: "addr option"
  pa_blocks :: "addr list"
  pa_next :: "addr \<Rightarrow> addr option"

fun link_slots :: "nat \<Rightarrow> addr \<Rightarrow> nat \<Rightarrow> (addr \<Rightarrow> addr option) \<Rightarrow> (addr \<Rightarrow> addr option)" where
  "link_slots slot base 0 nx = nx"
| "link_slots slot base (Suc i) nx = (link_slots slot base i nx)(base + i * slot := Some (base + Suc i * slot))"

definition pa_grow :: "nat \<Rightarrow> nat \<Rightarrow> addr \<Rightarrow> pool_alloc \<Rightarrow> pool_alloc option" where
  "pa_grow block slot m a =
     (let count = block div slot in
      if count = 0 then None
      else Some \<lparr>pa_free = Some m, pa_blocks = pa_blocks a @ [m],
        pa_next = (link_slots slot m (count - 1) (pa_next a))(m + (count - 1) * slot := pa_free a)\<rparr>)"

definition pa_new :: "nat \<Rightarrow> nat \<Rightarrow> addr \<Rightarrow> pool_alloc option" where
  "pa_new block slot m = pa_grow block slot m \<lparr>pa_free = None, pa_blocks = [], pa_next = (\<lambda>_. None)\<rparr>"

text \<open>\<open>m\<close> is what \<^verbatim>\<open>malloc\<close> returns for a new block, should one be needed.\<close>

definition pa_allocate :: "nat \<Rightarrow> nat \<Rightarrow> addr \<Rightarrow> pool_alloc \<Rightarrow> (addr \<times> pool_alloc) option" where
  "pa_allocate block slot m a =
     Option.bind (if pa_free a = None then pa_grow block slot m a else Some a) (\<lambda>b.
       case pa_free b of None \<Rightarrow> None | Some p \<Rightarrow> Some (p, b\<lparr>pa_free := pa_next b p\<rparr>))"

definition pa_deallocate :: "addr \<Rightarrow> pool_alloc \<Rightarrow> pool_alloc" where
  "pa_deallocate p a = a\<lparr>pa_next := (pa_next a)(p := pa_free a), pa_free := Some p\<rparr>"

text \<open>Constructing an object in a slot overwrites the pointer there (\<open>v\<close>); destroying it gives the slot back.\<close>

definition pa_make :: "nat \<Rightarrow> nat \<Rightarrow> addr \<Rightarrow> addr option \<Rightarrow> pool_alloc \<Rightarrow> (addr \<times> pool_alloc) option" where
  "pa_make block slot m v a =
     map_option (\<lambda>(p, b). (p, b\<lparr>pa_next := (pa_next b)(p := v)\<rparr>)) (pa_allocate block slot m a)"

definition pa_destroy :: "addr \<Rightarrow> pool_alloc \<Rightarrow> pool_alloc" where
  "pa_destroy p a = pa_deallocate p a"

definition block_slots :: "nat \<Rightarrow> nat \<Rightarrow> addr \<Rightarrow> addr list" where
  "block_slots block slot m = map (\<lambda>i. m + i * slot) [0..<block div slot]"

definition pa_rep :: "nat \<Rightarrow> nat \<Rightarrow> pool_alloc \<Rightarrow> addr set \<Rightarrow> addr list \<Rightarrow> bool" where
  "pa_rep block slot a live fl \<longleftrightarrow> chain (pa_next a) (pa_free a) fl \<and> distinct fl \<and> set fl \<inter> live = {} \<and>
     set fl \<union> live = set (concat (map (block_slots block slot) (pa_blocks a))) \<and>
     (\<forall>p \<in> set fl \<union> live. \<forall>q \<in> set fl \<union> live. p \<noteq> q \<longrightarrow> apart p slot q slot)"

text \<open>The states that any use reaches: \<^verbatim>\<open>malloc\<close> returns a block apart from the others.\<close>

inductive pa_reached :: "nat \<Rightarrow> nat \<Rightarrow> pool_alloc \<Rightarrow> addr set \<Rightarrow> bool" for block slot where
  new: "pa_new block slot m = Some a \<Longrightarrow> pa_reached block slot a {}"
| make: "pa_reached block slot a live \<Longrightarrow> \<forall>b \<in> set (pa_blocks a). apart m block b block \<Longrightarrow>
    pa_make block slot m v a = Some (p, a') \<Longrightarrow> pa_reached block slot a' (insert p live)"
| destroy: "pa_reached block slot a live \<Longrightarrow> p \<in> live \<Longrightarrow> pa_reached block slot (pa_destroy p a) (live - {p})"
| overwrite: "pa_reached block slot a live \<Longrightarrow> p \<in> live \<Longrightarrow> pa_reached block slot (a\<lparr>pa_next := (pa_next a)(p := v)\<rparr>) live"

lemma link_slots_other: "(\<And>i. i < n \<Longrightarrow> a \<noteq> m + i * slot) \<Longrightarrow> link_slots slot m n nx a = nx a"
  by (induction n) auto

lemma link_slots_at: "0 < slot \<Longrightarrow> i < n \<Longrightarrow> link_slots slot m n nx (m + i * slot) = Some (m + Suc i * slot)"
  by (induction n) (auto simp: less_Suc_eq)

lemma chain_cong: "(\<And>a. a \<in> set as \<Longrightarrow> nx a = nx' a) \<Longrightarrow> chain nx h as = chain nx' h as"
  by (induction as arbitrary: h) auto

lemma chain_slots:
  assumes "\<And>i. i < n \<Longrightarrow> nx (m + i * slot) = Some (m + Suc i * slot)" "nx (m + n * slot) = h" "chain nx h fl" "k \<le> n"
  shows "chain nx (Some (m + k * slot)) (map (\<lambda>i. m + i * slot) [k..<Suc n] @ fl)"
  using assms(4)
proof (induction "n - k" arbitrary: k)
  case 0
  then show ?case using assms(2,3) by simp
next
  case (Suc d)
  then have "chain nx (Some (m + Suc k * slot)) (map (\<lambda>i. m + i * slot) [Suc k..<Suc n] @ fl)" by (intro Suc(1)) auto
  then show ?case using Suc assms(1) [of k] by (subst upt_conv_Cons) auto
qed

lemma slots_apart:
  assumes "p \<in> set (block_slots block slot m)" "q \<in> set (block_slots block slot m)" "p \<noteq> q"
  shows "apart p slot q slot"
proof -
  obtain i j where ij: "p = m + i * slot" "q = m + j * slot" "i \<noteq> j"
    using assms by (auto simp: block_slots_def)
  then have "Suc i * slot \<le> j * slot \<or> Suc j * slot \<le> i * slot"
    by (metis Suc_leI mult_le_mono1 nat_neq_iff)
  then show ?thesis using ij by (auto simp: apart_def)
qed

lemma slot_inside:
  assumes "p \<in> set (block_slots block slot m)"
  shows "m \<le> p" "p + slot \<le> m + block"
proof -
  obtain i where i: "p = m + i * slot" "i < block div slot"
    using assms by (metis (no_types, lifting) block_slots_def imageE atLeastLessThan_iff list.set_map set_upt)
  then have "Suc i * slot \<le> block div slot * slot" by (intro mult_le_mono1) simp
  also have "\<dots> \<le> block" by simp
  finally show "p + slot \<le> m + block" using i by simp
  show "m \<le> p" using i by simp
qed

lemma slots_apart_blocks:
  assumes "p \<in> set (block_slots block slot m)" "q \<in> set (block_slots block slot b)" "apart m block b block"
  shows "apart p slot q slot"
  using slot_inside [OF assms(1)] slot_inside [OF assms(2)] assms(3) by (auto simp: apart_def)

lemma pa_grow_rep:
  assumes "pa_rep block slot a live fl" "\<forall>b \<in> set (pa_blocks a). apart m block b block" "pa_grow block slot m a = Some a'" "0 < slot"
  shows "pa_rep block slot a' live (block_slots block slot m @ fl)"
proof -
  obtain n where n: "block div slot = Suc n" using assms(3) by (cases "block div slot") (auto simp: pa_grow_def)
  define nx where "nx = (link_slots slot m n (pa_next a))(m + n * slot := pa_free a)"
  have a': "a' = \<lparr>pa_free = Some m, pa_blocks = pa_blocks a @ [m], pa_next = nx\<rparr>"
    using assms(3) n by (simp add: pa_grow_def nx_def)
  let ?old = "set fl \<union> live"
  have old: "?old = (\<Union>b \<in> set (pa_blocks a). set (block_slots block slot b))" using assms(1) by (simp add: pa_rep_def)
  have far: "apart p slot q slot" if "p \<in> set (block_slots block slot m)" "q \<in> ?old" for p q
    using that old slots_apart_blocks assms(2) by blast
  then have dis: "set (block_slots block slot m) \<inter> ?old = {}"
    using assms(4) by (force simp: apart_def)
  then have "set (block_slots block slot m) \<inter> set fl = {}" "set (block_slots block slot m) \<inter> live = {}" by blast+
  note dis = dis this
  have mem: "m + i * slot \<in> set (block_slots block slot m)" if "i \<le> n" for i
    using that n by (auto simp: block_slots_def)
  have same: "nx p = pa_next a p" if "p \<in> set fl" for p
  proof -
    have "p \<noteq> m + i * slot" if "i \<le> n" for i using mem [OF that] dis(1) \<open>p \<in> set fl\<close> by blast
    then show ?thesis by (simp add: nx_def link_slots_other)
  qed
  have "chain nx (pa_free a) fl" using assms(1) chain_cong [OF same] by (simp add: pa_rep_def)
  then have "chain nx (Some (m + 0 * slot)) (map (\<lambda>i. m + i * slot) [0..<Suc n] @ fl)"
    by (intro chain_slots) (use assms(4) in \<open>auto simp: nx_def link_slots_at\<close>)
  then have ch: "chain nx (Some m) (block_slots block slot m @ fl)" by (simp only: block_slots_def n) simp
  have inj: "distinct (block_slots block slot m)"
    using assms(4) by (auto simp: block_slots_def distinct_map inj_on_def)
  have sym: "apart p k q l \<Longrightarrow> apart q l p k" for p k q l by (auto simp: apart_def)
  show ?thesis
    unfolding pa_rep_def
  proof (intro conjI ballI impI)
    show "chain (pa_next a') (pa_free a') (block_slots block slot m @ fl)" using ch by (simp add: a')
    show "distinct (block_slots block slot m @ fl)" using inj dis(2) assms(1) by (simp add: pa_rep_def)
    show "set (block_slots block slot m @ fl) \<inter> live = {}" using dis(3) assms(1) by (simp add: pa_rep_def Int_Un_distrib2)
    show "set (block_slots block slot m @ fl) \<union> live = set (concat (map (block_slots block slot) (pa_blocks a')))"
      using old by (auto simp: a')
    fix p q
    assume "p \<in> set (block_slots block slot m @ fl) \<union> live" "q \<in> set (block_slots block slot m @ fl) \<union> live" "p \<noteq> q"
    then show "apart p slot q slot"
      using far sym slots_apart assms(1) unfolding pa_rep_def by (metis Un_iff set_append)
  qed
qed

lemma pa_allocate_rep:
  assumes "pa_rep block slot a live fl" "\<forall>b \<in> set (pa_blocks a). apart m block b block"
    "pa_allocate block slot m a = Some (p, a')" "0 < slot"
  shows "p \<notin> live \<and> (\<forall>q \<in> live. apart p slot q slot) \<and> (\<exists>fl'. pa_rep block slot a' (insert p live) fl' \<and> p \<notin> set fl')"
proof -
  obtain b gl where b: "pa_rep block slot b live gl" "pa_free b = Some p" "a' = b\<lparr>pa_free := pa_next b p\<rparr>"
    using assms pa_grow_rep [OF assms(1,2) _ assms(4)]
    by (cases "pa_free a = None") (fastforce simp: pa_allocate_def bind_eq_Some_conv split: option.splits)+
  then obtain fl' where fl': "gl = p # fl'" "chain (pa_next b) (pa_next b p) fl'"
    by (auto simp: pa_rep_def chain_Some)
  have "p \<notin> live" using b(1) fl'(1) by (simp add: pa_rep_def)
  moreover have "\<forall>q \<in> live. apart p slot q slot" using b(1) fl'(1) \<open>p \<notin> live\<close> by (auto simp: pa_rep_def)
  moreover have "p \<notin> set fl'" using b(1) fl'(1) by (simp add: pa_rep_def)
  moreover have "pa_rep block slot a' (insert p live) fl'"
  proof -
    have same: "set fl' \<union> insert p live = set gl \<union> live" using fl'(1) by auto
    have old: "distinct gl" "set gl \<inter> live = {}" "set gl \<union> live = set (concat (map (block_slots block slot) (pa_blocks b)))"
      "\<forall>p \<in> set gl \<union> live. \<forall>q \<in> set gl \<union> live. p \<noteq> q \<longrightarrow> apart p slot q slot"
      using b(1) unfolding pa_rep_def by blast+
    show ?thesis
      unfolding pa_rep_def same
    proof (intro conjI)
      show "set gl \<union> live = set (concat (map (block_slots block slot) (pa_blocks a')))" using old(3) b(3) by simp
      show "\<forall>p \<in> set gl \<union> live. \<forall>q \<in> set gl \<union> live. p \<noteq> q \<longrightarrow> apart p slot q slot" by (rule old(4))
    qed (use fl' old(1,2) b(3) in auto)
  qed
  ultimately show ?thesis by blast
qed

lemma pa_write_rep:
  assumes "pa_rep block slot a live fl" "p \<notin> set fl"
  shows "pa_rep block slot (a\<lparr>pa_next := (pa_next a)(p := v)\<rparr>) live fl"
  using assms by (simp add: pa_rep_def)

lemma pa_destroy_rep:
  assumes "pa_rep block slot a live fl" "p \<in> live"
  shows "pa_rep block slot (pa_destroy p a) (live - {p}) (p # fl)"
proof -
  have "p \<notin> set fl" using assms by (auto simp: pa_rep_def)
  moreover have "set (p # fl) \<union> (live - {p}) = set fl \<union> live" using assms(2) by auto
  ultimately show ?thesis
    using assms unfolding pa_rep_def pa_destroy_def pa_deallocate_def by auto
qed

lemma pa_reached_rep:
  assumes "pa_reached block slot a live" "0 < slot"
  shows "\<exists>fl. pa_rep block slot a live fl"
  using assms(1)
proof induction
  case (new m a)
  have "pa_rep block slot \<lparr>pa_free = None, pa_blocks = [], pa_next = (\<lambda>_. None)\<rparr> {} []" by (simp add: pa_rep_def)
  from pa_grow_rep [OF this _ new [unfolded pa_new_def] assms(2)] show ?case by auto
next
  case (make a live m v p a')
  then obtain fl b where "pa_rep block slot a live fl" "pa_allocate block slot m a = Some (p, b)"
    "a' = b\<lparr>pa_next := (pa_next b)(p := v)\<rparr>" by (auto simp: pa_make_def)
  with pa_allocate_rep [OF _ make(2) _ assms(2)] pa_write_rep show ?case by metis
next
  case (destroy a live p)
  then show ?case using pa_destroy_rep by blast
next
  case (overwrite a live p v)
  then obtain fl where fl: "pa_rep block slot a live fl" by blast
  then have "p \<notin> set fl" using overwrite(2) by (auto simp: pa_rep_def)
  with fl pa_write_rep show ?case by blast
qed

section \<open>Properties\<close>

text \<open>
  C38. The slab allocator never hands out memory that is in use: after any sequence of allocations, of
  blocks given back with their size, and of writes to blocks in use, the block of a new request is none of
  those in use and overlaps none of them.
\<close>

theorem slab_blocks_disjoint:
  assumes "slab_reached s live" "\<forall>fls. cached s fls \<longrightarrow> fresh_block live fls m (capacity sz)" "slab_allocate m sz s = (p, s')"
  shows "live p = None \<and> (\<forall>b k. live b = Some k \<longrightarrow> apart p sz b k)"
proof -
  obtain fls where "slab_rep s live fls" using slab_reached_rep assms(1) by blast
  then have "live p = None" "\<forall>b k. live b = Some k \<longrightarrow> apart p (capacity sz) b (capacity k)"
    using slab_allocate_rep [OF _ _ assms(3)] assms(2) slab_rep_cached by blast+
  then show ?thesis
    using capacity_bounds(1) unfolding apart_def by (meson add_left_mono le_trans)
qed

theorem slab_blocks_disjoint_witness:
  "\<exists>s live p s'. slab_reached s live \<and> live 1000 = Some 100 \<and> slab_allocate 2000 120 s = (p, s') \<and> p = 2000 \<and> apart p 120 1000 100"
proof -
  have size: "size_class 100 = 4" "size_class 120 = 4" "capacity 100 = 128" "capacity 120 = 128"
    by (simp_all add: size_class_def k_classes_def capacity_def)
  have none: "sl_heads slab_new ! c = None" if "c < 9" for c using that by (simp add: slab_new_def)
  have empty: "cached slab_new fls \<Longrightarrow> c < 9 \<Longrightarrow> fls ! c = []" for fls c by (simp add: cached_def none)
  have first: "slab_allocate 1000 100 slab_new = (1000, slab_new)" "slab_allocate 2000 120 slab_new = (2000, slab_new)"
    by (simp_all add: slab_allocate_def slab_get_def none size)
  have "\<forall>fls. cached slab_new fls \<longrightarrow> fresh_block Map.empty fls 1000 (capacity 100)"
    using empty by (auto simp: fresh_block_def block_of_def)
  then have r: "slab_reached slab_new [1000 \<mapsto> 100]"
    by (rule slab_reached.alloc [OF slab_reached.new _ first(1)])
  have "\<forall>fls. cached slab_new fls \<longrightarrow> fresh_block [1000 \<mapsto> 100] fls 2000 (capacity 120)"
    using empty by (auto simp: fresh_block_def block_of_def apart_def size split: if_splits)
  from slab_blocks_disjoint [OF r this first(2)] r first(2) show ?thesis by fastforce
qed

text \<open>
  C39. The pool allocator never hands out a slot that is in use, however the objects in the slots in use
  overwrite their memory.
\<close>

theorem pool_slots_disjoint:
  assumes "pa_reached block slot a live" "0 < slot" "\<forall>b \<in> set (pa_blocks a). apart m block b block"
    "pa_make block slot m v a = Some (p, a')"
  shows "p \<notin> live \<and> (\<forall>q \<in> live. apart p slot q slot) \<and> (\<exists>b \<in> set (pa_blocks a'). p \<in> set (block_slots block slot b))"
proof -
  obtain fl where fl: "pa_rep block slot a live fl" using pa_reached_rep assms(1,2) by blast
  obtain b where b: "pa_allocate block slot m a = Some (p, b)" "a' = b\<lparr>pa_next := (pa_next b)(p := v)\<rparr>"
    using assms(4) by (auto simp: pa_make_def)
  note al = pa_allocate_rep [OF fl assms(3) b(1) assms(2)]
  then obtain fl' where "pa_rep block slot b (insert p live) fl'" by blast
  then have "p \<in> set (concat (map (block_slots block slot) (pa_blocks a')))" by (auto simp: pa_rep_def b(2))
  with al show ?thesis by auto
qed

theorem pool_slots_disjoint_witness:
  "\<exists>a live p a'. pa_reached 64 16 a live \<and> live \<noteq> {} \<and> pa_make 64 16 5000 None a = Some (p, a') \<and> p \<notin> live"
proof -
  obtain a where a: "pa_new 64 16 1000 = Some a" by (simp add: pa_new_def pa_grow_def Let_def)
  then have free: "pa_free a = Some 1000" "pa_blocks a = [1000]" by (auto simp: pa_new_def pa_grow_def Let_def)
  obtain b where b: "pa_make 64 16 5000 (Some 0) a = Some (1000, b)" "pa_blocks b = [1000]"
    using free by (simp add: pa_make_def pa_allocate_def)
  have far: "\<forall>x \<in> set [1000]. apart 5000 64 x 64" by (simp add: apart_def)
  have r: "pa_reached 64 16 b {1000}"
    using pa_reached.make [OF pa_reached.new [OF a] _ b(1)] far free by simp
  obtain p c where c: "pa_make 64 16 5000 None b = Some (p, c)"
    by (cases "pa_free b") (auto simp: pa_make_def pa_allocate_def pa_grow_def Let_def)
  have "\<forall>x \<in> set (pa_blocks b). apart 5000 64 x 64" using far b(2) by simp
  from pool_slots_disjoint [OF r _ this c] r c show ?thesis by fastforce
qed

end
