(* ===== verification/Teardown.thy ===== *)
theory Teardown
  imports Property_Index
begin

text \<open>
  The destructors of the skip lists and of their two owners: \<^verbatim>\<open>SkipNode::free\<close> and
  \<^verbatim>\<open>~SkipList\<close> in \<^verbatim>\<open>src/index/skiplist.cpp\<close>, \<^verbatim>\<open>~SortedSetEngine\<close> and
  \<^verbatim>\<open>~PropertyIndex\<close>. They read no freed node and give every node back once, with the size it
  was allocated with: that is what the slab allocator (theory \<^verbatim>\<open>Allocators\<close>) asks of its users.
\<close>

section \<open>Freeing nodes\<close>

text \<open>
  The size of a node with that many forward pointers. \<open>sz\<close> is \<^verbatim>\<open>sizeof(SkipNode)\<close>, which
  depends on the library's strings; a pointer has 8 bytes.
\<close>

definition node_alloc_size :: "nat \<Rightarrow> nat \<Rightarrow> nat" where
  "node_alloc_size sz levels = sz + 8 * (levels - 1)"

text \<open>The size is computed from the level stored in the node; freeing a freed node is undefined, \<^const>\<open>None\<close>.\<close>

definition node_free :: "nat \<Rightarrow> (nat \<rightharpoonup> skip_node) \<Rightarrow> nat \<Rightarrow> ((nat \<times> nat) \<times> (nat \<rightharpoonup> skip_node)) option" where
  "node_free sz h a = do { n \<leftarrow> h a; Some ((a, node_alloc_size sz (sn_level n)), h(a := None)) }"

text \<open>The loop of \<^verbatim>\<open>~SkipList\<close>: the blocks given back, with their sizes, and the store that is left.\<close>

partial_function (option) free_nodes ::
  "nat \<Rightarrow> (nat \<rightharpoonup> skip_node) \<Rightarrow> nat option \<Rightarrow> ((nat \<times> nat) list \<times> (nat \<rightharpoonup> skip_node)) option" where
  [code]: "free_nodes sz h cur =
     (case cur of
        None \<Rightarrow> Some ([], h)
      | Some a \<Rightarrow> do { next \<leftarrow> read_fwd h a 0; (b, h1) \<leftarrow> node_free sz h a;
                       (bs, h2) \<leftarrow> free_nodes sz h1 next; Some (b # bs, h2) })"

definition skip_destroy :: "nat \<Rightarrow> skiplist \<Rightarrow> ((nat \<times> nat) list \<times> (nat \<rightharpoonup> skip_node)) option" where
  "skip_destroy sz sl = free_nodes sz (sl_heap sl) (Some (sl_head sl))"

text \<open>The loops of the owners over their maps; \<open>keys\<close> is the order of the iteration.\<close>

fun destroy_lists :: "nat \<Rightarrow> (string \<rightharpoonup> skiplist) \<Rightarrow> string list \<Rightarrow> (string \<times> (nat \<times> nat) list) list option" where
  "destroy_lists sz Z [] = Some []"
| "destroy_lists sz Z (key # keys) =
     (case Z key of
        None \<Rightarrow> destroy_lists sz Z keys
      | Some sl \<Rightarrow> do { (bs, _) \<leftarrow> skip_destroy sz sl; freed \<leftarrow> destroy_lists sz Z keys; Some ((key, bs) # freed) })"

definition zsets_destroy :: "nat \<Rightarrow> zset_engine \<Rightarrow> string list \<Rightarrow> (string \<times> (nat \<times> nat) list) list option" where
  "zsets_destroy sz Z keys = destroy_lists sz Z keys"

definition pi_destroy :: "nat \<Rightarrow> prop_index \<Rightarrow> string list \<Rightarrow> (string \<times> (nat \<times> nat) list) list option" where
  "pi_destroy sz P keys = destroy_lists sz (pi_indices P) keys"

section \<open>Every node once\<close>

text \<open>What a list holds: each live node, with the size of the forward array it was made with.\<close>

definition blocks_of :: "nat \<Rightarrow> (nat \<rightharpoonup> skip_node) \<Rightarrow> (nat \<times> nat) set" where
  "blocks_of sz h = {(a, node_alloc_size sz (length (sn_forward n))) |a n. h a = Some n}"

definition freed_once :: "nat \<Rightarrow> (nat \<rightharpoonup> skip_node) \<Rightarrow> (nat \<times> nat) list \<Rightarrow> bool" where
  "freed_once sz h bs \<longleftrightarrow> distinct (map fst bs) \<and> set bs = blocks_of sz h"

lemma read_fwd_other: "a \<noteq> b \<Longrightarrow> read_fwd (h(b := None)) a i = read_fwd h a i"
  by (simp add: read_fwd_def)

lemma free_nodes_ok:
  assumes "linked h 0 a xs" "distinct (a # xs)" "\<forall>b \<in> set (a # xs). \<exists>n. h b = Some n"
  shows "free_nodes sz h (Some a) =
    Some (map (\<lambda>b. (b, node_alloc_size sz (sn_level (the (h b))))) (a # xs), h |` (- set (a # xs)))"
  using assms
proof (induction xs arbitrary: h a)
  case Nil
  then show ?case
    by (auto simp: linked_Nil free_nodes.simps [of sz h "Some a"] free_nodes.simps [of sz _ None] node_free_def
        restrict_map_def fun_eq_iff)
next
  case (Cons x xs)
  let ?h = "h(a := None)"
  have fwd: "read_fwd h a 0 = Some (Some x)" and l: "linked h 0 x xs"
    using Cons.prems(1) by (simp_all add: linked_Cons)
  have "read_fwd ?h b 0 = read_fwd h b 0" if "b \<in> set (x # xs)" for b
    by (rule read_fwd_other) (use that Cons.prems(2) in auto)
  then have chain: "linked ?h 0 x xs" by (rule linked_cong [OF l])
  have live: "\<forall>b \<in> set (x # xs). \<exists>n. ?h b = Some n" using Cons.prems(2,3) by auto
  have tail: "free_nodes sz ?h (Some x) =
      Some (map (\<lambda>b. (b, node_alloc_size sz (sn_level (the (?h b))))) (x # xs), ?h |` (- set (x # xs)))"
    by (rule Cons.IH [OF chain _ live]) (use Cons.prems(2) in simp)
  have same: "map (\<lambda>b. (b, node_alloc_size sz (sn_level (the (?h b))))) (x # xs) =
      map (\<lambda>b. (b, node_alloc_size sz (sn_level (the (h b))))) (x # xs)"
    using Cons.prems(2) by (intro map_cong) auto
  have left: "?h |` (- set (x # xs)) = h |` (- set (a # x # xs))"
    by (auto simp: restrict_map_def fun_eq_iff)
  obtain n where n: "h a = Some n" using Cons.prems(3) by auto
  show ?case
    unfolding free_nodes.simps [of sz h "Some a"]
    using n fwd tail unfolding same left by (simp add: node_free_def)
qed

lemma skip_destroy_ok:
  assumes "skip_rep sl zs"
  shows "\<exists>bs. skip_destroy sz sl = Some (bs, Map.empty) \<and> freed_once sz (sl_heap sl) bs \<and> length bs = length zs + 1"
proof -
  let ?h = "sl_heap sl"
  obtain xs where sh: "shape ?h (sl_head sl) (sl_level sl) xs" and zs: "map (entry_at ?h) xs = zs"
    using assms by (rule skip_repD)
  let ?bs = "map (\<lambda>b. (b, node_alloc_size sz (sn_level (the (?h b))))) (sl_head sl # xs)"
  have "level_of ?h 0 xs = xs" using shapeD(5) [OF sh] by (intro filter_True) fastforce
  then have "linked ?h 0 (sl_head sl) xs"
    using shapeD(6) [OF sh, of 0] by (simp add: skip_max_level_def)
  then have run: "free_nodes sz ?h (Some (sl_head sl)) = Some (?bs, ?h |` (- set (sl_head sl # xs)))"
    by (rule free_nodes_ok [OF _ shapeD(1) [OF sh]]) (use shapeD(7) [OF sh] in blast)
  have left: "?h |` (- set (sl_head sl # xs)) = Map.empty"
    unfolding shapeD(2) [OF sh, symmetric] by (auto simp: restrict_map_def fun_eq_iff)
  have level: "sn_level n = length (sn_forward n)" if "?h a = Some n" for a n
  proof -
    have "a \<in> set (sl_head sl # xs)" using that shapeD(2) [OF sh] by blast
    then show ?thesis using sh that by (auto simp: shape_def node_data_def)
  qed
  have "set ?bs = (\<lambda>b. (b, node_alloc_size sz (sn_level (the (?h b))))) ` dom ?h"
    using shapeD(2) [OF sh] by simp
  also have "\<dots> = blocks_of sz ?h" using level by (force simp: blocks_of_def)
  finally have "freed_once sz ?h ?bs"
    using shapeD(1) [OF sh] by (simp add: freed_once_def comp_def)
  then show ?thesis using run zs unfolding left by (auto simp: skip_destroy_def)
qed

lemma destroy_lists_ok:
  assumes "zsets_rep Z A"
  shows "\<exists>fs. destroy_lists sz Z keys = Some fs \<and> map fst fs = filter (\<lambda>key. Z key \<noteq> None) keys \<and>
    (\<forall>(key, bs) \<in> set fs. freed_once sz (sl_heap (the (Z key))) bs)"
proof (induction keys)
  case (Cons key keys)
  then obtain fs where fs: "destroy_lists sz Z keys = Some fs" "map fst fs = filter (\<lambda>key. Z key \<noteq> None) keys"
    "\<forall>(key, bs) \<in> set fs. freed_once sz (sl_heap (the (Z key))) bs" by blast
  show ?case
  proof (cases "Z key")
    case (Some sl)
    obtain bs where "skip_destroy sz sl = Some (bs, Map.empty)" "freed_once sz (sl_heap sl) bs"
      using skip_destroy_ok [OF zsets_repD(2) [OF assms Some]] by blast
    then show ?thesis using fs Some by auto
  qed (use fs in auto)
qed simp

section \<open>The owners\<close>

text \<open>
  C22. Destroying the sorted sets after any commands without NaN scores returns, reads no freed node and
  gives back every node of every list exactly once, with the size it was allocated with.
\<close>

theorem sorted_sets_freed:
  assumes "\<forall>x \<in> set ops. zs_valid x" "run_ops (zs_step draws) Map.empty ops = Some (rs, Z)"
    "set keys = dom Z" "distinct keys"
  shows "\<exists>fs. zsets_destroy sz Z keys = Some fs \<and> map fst fs = keys \<and>
    (\<forall>(key, bs) \<in> set fs. freed_once sz (sl_heap (the (Z key))) bs)"
proof -
  obtain A where "zsets_rep Z A"
    using zsets.runs_answer [OF zsets_rep_new assms(1), of draws] assms(2) by auto
  moreover have "filter (\<lambda>key. Z key \<noteq> None) keys = keys" using assms(3) by (auto intro!: filter_True)
  ultimately show ?thesis using destroy_lists_ok [of Z A sz keys] by (simp add: zsets_destroy_def)
qed

theorem sorted_sets_freed_witness:
  "\<exists>rs Z fs bs. run_ops (zs_step even) Map.empty [ZAdd ''k'' (F64_Fin False 2) ''a'', ZAdd ''k'' (F64_Fin False 1) ''b''] = Some (rs, Z) \<and>
     zsets_destroy 56 Z [''k''] = Some fs \<and> fs = [(''k'', bs)] \<and> freed_once 56 (sl_heap (the (Z ''k''))) bs"
proof -
  let ?ops = "[ZAdd ''k'' (F64_Fin False 2) ''a'', ZAdd ''k'' (F64_Fin False 1) ''b'']"
  have v: "\<forall>x \<in> set ?ops. zs_valid x" by simp
  obtain rs Z where run: "run_ops (zs_step even) Map.empty ?ops = Some (rs, Z)"
    using zsets.runs_answer [OF zsets_rep_new v] by blast
  then have "set [''k''] = dom Z" by (auto simp: zadd_def Let_def split: bind_splits if_splits)
  from sorted_sets_freed [OF v run this] run show ?thesis by fastforce
qed

theorem property_index_freed:
  assumes "\<forall>x \<in> set ops. pi_valid x" "run_ops (pi_step draws) pi_new ops = Some (rs, P)" "set keys = dom (pi_indices P)"
  shows "\<exists>fs. pi_destroy sz P keys = Some fs \<and> map fst fs = keys \<and>
    (\<forall>(key, bs) \<in> set fs. freed_once sz (sl_heap (the (pi_indices P key))) bs)"
proof -
  obtain V where "pi_rep P V"
    using pindex.runs_answer [OF pi_new_ok assms(1), of draws] assms(2) by auto
  then obtain A where "zsets_rep (pi_indices P) A" by (auto simp: pi_rep_def)
  moreover have "filter (\<lambda>key. pi_indices P key \<noteq> None) keys = keys" using assms(3) by (auto intro!: filter_True)
  ultimately show ?thesis using destroy_lists_ok [of "pi_indices P" A sz keys] by (simp add: pi_destroy_def)
qed

end
