(* ===== verification/Spec2Isabelle.thy ===== *)
theory Spec2Isabelle
  imports BFS_Properties DFS_Proofs Dijkstra_Properties CSR_Dijkstra CSR_View Sessions Entry_Point Thread_Pool
    Allocators Teardown
begin

text \<open>
  Verification of FastGraph, an in-memory graph and key-value database that a client reaches over TCP with
  the RESP protocol. Paths below are relative to \<^verbatim>\<open>src\<close>, the C++ sources of the server.

  \<^bold>\<open>The program.\<close> \<^verbatim>\<open>main.cpp\<close> reads the settings and starts the server. The server
  (\<^verbatim>\<open>net/server.cpp\<close>) is a single-threaded event loop (\<^verbatim>\<open>net/reactor.hpp\<close>): it
  accepts connections, appends what it reads to the buffer of the connection, cuts commands off with the
  parser (\<^verbatim>\<open>protocol\<close>), hands each to the dispatcher (\<^verbatim>\<open>dispatch\<close>) and queues the
  encoded reply. The dispatcher works on three engines: keys with deadlines (\<^verbatim>\<open>kv\<close>, a Robin Hood
  hash map and a heap of deadlines), a labelled multigraph with its searches and a property index
  (\<^verbatim>\<open>graph\<close>, \<^verbatim>\<open>index\<close>), and sorted sets (\<^verbatim>\<open>sorted_set\<close>) over
  skip lists. Snapshots of keys and graph are written by a timer through the thread pool
  (\<^verbatim>\<open>persistence\<close>, \<^verbatim>\<open>thread\<close>). \<^verbatim>\<open>memory\<close> holds an arena, a string
  pool and two allocators.

  \<^bold>\<open>How code is rendered.\<close> A class is a record, an enumeration a datatype, an operation a function of
  the old state whose value carries the new one. A loop whose end depends on an invariant is a
  \<^theory_text>\<open>partial_function\<close> in the option type and \<^const>\<open>None\<close> means that it does not return; other
  loops are total recursive functions. Where C++ has undefined behaviour (an index or pointer out of its
  object, a null or freed pointer, signed overflow) the model has an outcome of its own: \<^const>\<open>None\<close>, an
  error value, or \<open>Undefined\<close> in the dispatcher. Exceptions are left summands. Sizes, hashes and
  pointers that can wrap are 64-bit or 32-bit words; an \<^verbatim>\<open>int\<close> is an \<open>int\<close> that the
  conversions keep in range, or is cut by \<open>to_i32\<close> where the code converts. \<^verbatim>\<open>float\<close> and
  \<^verbatim>\<open>double\<close> are datatypes of signed multiples of the least positive number, infinities and one NaN,
  with IEEE rounding of the sums. A hash map of the library is a partial function; where the code iterates
  over one, the order of its keys is an argument. Further arguments are the clock, the random draws of the
  skip lists, what \<^verbatim>\<open>malloc\<close> returns, what the system calls return and report, and the order in
  which the compiler evaluates the arguments of a call.
\<close>

text \<open>
  \<^bold>\<open>Theories.\<close> Each component has a theory with its state and operations, and one or more with its proofs.

  \<^item> \<open>Prelude\<close>, \<open>Store_Interfaces\<close>: shared lemmas and the contracts as locales. \<open>refinement\<close> (operations
    that may add a key, under a bound and a condition on the operation), \<open>simulation\<close>, \<open>guarded\<close> and \<open>answering\<close> turn the law of one step
    into one on runs; \<open>map_store\<close> and \<open>expiry_store\<close> are what the key-value engine asks of its two parts.
  \<^item> \<open>Cxx_Text\<close>, \<open>Cxx_Numbers\<close>, \<open>Cxx_Float\<close>, \<open>F32\<close>, \<open>F64\<close>: what the sources use of the C++ library on
    texts and numbers (\<^verbatim>\<open>stoi\<close>, \<^verbatim>\<open>stod\<close>, \<^verbatim>\<open>to_string\<close>, rounding).
  \<^item> \<open>Robin_Hood\<close>, \<open>Robin_Hood_Proofs\<close>, \<open>Robin_Hood_Map\<close>: \<^verbatim>\<open>kv/hashmap.cpp\<close>. Probing, displacement,
    backward shift and growth; the probe-distance invariant; every loop returns; interpretation \<open>rh\<close>.
  \<^item> \<open>TTL\<close>, \<open>TTL_Proofs\<close>: \<^verbatim>\<open>kv/ttl.cpp\<close>. Heap order and position index, interpretation \<open>ttl\<close>.
  \<^item> \<open>KV_Engine\<close>, \<open>KV_Proofs\<close>: \<^verbatim>\<open>kv/kv_engine.cpp\<close> as a client of the two contracts: refinement
    of a database of values with deadlines (\<open>kv\<close>), with lazy and eager expiry.
  \<^item> \<open>Resp\<close>, \<open>Resp_Proofs\<close>: \<^verbatim>\<open>protocol/resp.cpp\<close> and \<^verbatim>\<open>encoder.cpp\<close>. Round trip,
    truncated input, inline commands, negative lengths.
  \<^item> \<open>Memory\<close>, \<open>Allocators\<close>: \<^verbatim>\<open>memory/arena.hpp\<close>, \<^verbatim>\<open>string_pool.hpp\<close>, \<^verbatim>\<open>slab.hpp\<close>
    and \<^verbatim>\<open>pool_allocator.hpp\<close>: regions in use are disjoint, interned pointers are equal exactly for
    equal texts.
  \<^item> \<open>Dynamic_Graph\<close>, \<open>Dynamic_Graph_Proofs\<close>: \<^verbatim>\<open>graph/dynamic_graph.cpp\<close> against a log of edges
    (\<open>graph\<close>).
  \<^item> \<open>Graph_Search\<close>, \<open>Shortest_Path\<close>: the laws of breadth first and cheapest first searches apart from any
    program, the locales \<open>breadth_first\<close> and \<open>cheapest_first\<close>.
  \<^item> \<open>BFS\<close>, \<open>BFS_Proofs\<close>, \<open>BFS_Properties\<close>, \<open>DFS\<close>, \<open>DFS_Proofs\<close>, \<open>Dijkstra\<close>, \<open>Dijkstra_Proofs\<close>,
    \<open>Dijkstra_Properties\<close>: \<^verbatim>\<open>graph/bfs.cpp\<close>, \<^verbatim>\<open>dfs.cpp\<close> and \<^verbatim>\<open>dijkstra.cpp\<close>
    on the mutable graph: the searches return, and with shortest, reachable, ordered or cheapest results
    (\<open>bfs_all\<close>, \<open>bfs_within\<close>, \<open>cheap\<close>).
  \<^item> \<open>CSR\<close>, \<open>CSR_Proofs\<close>, \<open>CSR_Search\<close>, \<open>CSR_Dijkstra\<close>: \<^verbatim>\<open>graph/csr_graph.cpp\<close> and the searches on
    the compressed copy in \<^verbatim>\<open>bfs.cpp\<close> and \<^verbatim>\<open>dijkstra.cpp\<close>: the copy has the nodes and
    the edges between nodes of the graph (an edge to no node leaves a default slot), its accesses stay in the
    arrays, and when every edge ends at a node the searches answer for the original (\<open>finite_costs\<close>).
  \<^item> \<open>Skip_List\<close>, \<open>Skip_List_Proofs\<close>, \<open>Sorted_Set\<close>, \<open>Property_Index\<close>, \<open>Teardown\<close>:
    \<^verbatim>\<open>index/skiplist.cpp\<close> on an explicit store, \<^verbatim>\<open>sorted_set/sorted_set_engine.cpp\<close>,
    \<^verbatim>\<open>index/property_index.cpp\<close>, and their destructors: refinement of sorted lists of scored
    members (\<open>skip\<close>, \<open>zsets\<close>, \<open>pindex\<close>), exact range queries, every node freed once.
  \<^item> \<open>Graph_Engine\<close>, \<open>CSR_View\<close>: \<^verbatim>\<open>graph/graph_engine.cpp\<close>: a labelled multigraph with indexed
    values (\<open>engine\<close>), and the cached compressed copy, which is never stale.
  \<^item> \<open>RDB\<close>, \<open>RDB_Proofs\<close>: \<^verbatim>\<open>persistence/rdb.cpp\<close> and \<^verbatim>\<open>persistence.cpp\<close>: the bytes of a
    snapshot, what is lost by saving and loading and what is restored.
  \<^item> \<open>Dispatcher\<close>, \<open>Dispatcher_Proofs\<close>, \<open>Database_Types\<close>: \<^verbatim>\<open>dispatch/dispatcher.cpp\<close>: every command
    with its guards, conversions and replies; what a client sees of keys and sorted sets; the commands that
    can throw or be undefined, and that all others return with a well-formed database.
  \<^item> \<open>Reactor\<close>, \<open>Reactor_Proofs\<close>, \<open>Server\<close>, \<open>Server_Proofs\<close>, \<open>Server_Properties\<close>, \<open>Sessions\<close>: \<^verbatim>\<open>net\<close>: the
    loop with timers (\<open>timer_client\<close>, interpreted as \<open>timers\<close>), the server as a record that extends it
    with the database and the connections, closures as constructors. However the network cuts the
    bytes, commands are answered in order, and all of a session are when its times fit
    and its five partial commands on graphs return; what every reachable state keeps; where connections or the process get stuck.
  \<^item> \<open>Thread_Pool\<close>: \<^verbatim>\<open>thread/thread_pool.hpp\<close> as a step relation with free interleaving.
  \<^item> \<open>Config\<close>, \<open>Entry_Point\<close>: \<^verbatim>\<open>config\<close> and \<^verbatim>\<open>main.cpp\<close>: settings with their exceptions, and the
    program from its start, whose states are those that the properties of the server speak of.
\<close>

text \<open>
  \<^bold>\<open>Bounds.\<close> The hash map is proved for up to \<open>2 ^ 30\<close> keys: the table doubles above a load of
  three quarters, so that it has at most \<open>2 ^ 31\<close> slots and the 32-bit mask and probe distances do not wrap. Runs
  are bounded by as many operations, since each adds one key at most. Parser indices are \<^verbatim>\<open>int\<close>, hence input buffers stay below \<open>2 ^ 31\<close> bytes (the
  sessions of the server below \<open>2 ^ 30\<close> per command). Path costs are magnitudes up to \<open>2 ^ 277\<close> units of \<open>2 ^ -149\<close>,
  where binary32 overflows to infinity; the weighted search with non-negative weights returns because
  every improvement lowers a magnitude below this limit; costs are the rounded sums that the code computes. The path search needs an
  arena with room for its arrays (\<open>arena_fits\<close>); the 4 MB of the engine hold ids up to about 240,000. Labels
  fit while \<open>ag_spent\<close>, a bound on the bytes they take, is within the 4 MB pool. Times are \<^verbatim>\<open>int64_t\<close>: the sum of the clock and a time to live that leaves 64 bits has no
  result (\<open>set_expiry\<close>), and the runs are of operations whose sums fit (\<open>expiry_valid\<close>, \<open>times_fit\<close>). Two sums are exact
  without an outcome for overflow: the offsets of the compressed copy, which need 2 ^ 31 edges, and the rounding of
  the time left to seconds, which needs a deadline within a second of the end of the 64 bits. No definition has fuel:
  a result under \<^const>\<open>Some\<close> is a proof that the loop ends.

  \<^bold>\<open>Faults.\<close> Several theorems state what the code does where it goes wrong: a bulk length of -12
  hangs the server, a negative deadline is read as no deadline until the next tick, a source outside the
  arrays of the path search writes out of bounds, the snapshot commands are never reached, and a
  connection that sent a malformed array is never closed. Cycle detection does not see cycles of ids that were
  never added as nodes, and the topological sort lists the nodes of a cyclic graph too, where the comments of
  \<^verbatim>\<open>dfs.hpp\<close> promise otherwise (\<open>dfs_has_cycle_reachable\<close>, \<open>dfs_topo_sort_lists\<close>).

  \<^bold>\<open>Not modelled.\<close> The system calls themselves (\<^verbatim>\<open>make_listen_fd\<close>, \<^verbatim>\<open>set_nonblocking\<close>,
  epoll, sockets, fork, files: their results are arguments); log lines other than those of the start; the
  branch of \<^verbatim>\<open>try_parse\<close> that hands commands to the pool, which the constant \<^verbatim>\<open>heavy\<close> switches
  off; destructors that only release memory held by one owner (the map, arena, reactor and server); the
  depth of the C++ stack in the recursive searches; sign and payload of NaNs; exhaustion of memory in the
  library's containers; the data race between the event loop and the snapshot thread, which has no defined
  meaning (the model lets the child of a background save work on a copy, as fork does, and records the jobs
  of the timer). Tests, benchmarks and the Python client (\<^verbatim>\<open>tests\<close>, \<^verbatim>\<open>bench\<close>,
  \<^verbatim>\<open>client\<close>, beside \<^verbatim>\<open>src\<close>) are not part of the server.
\<close>

end
